(* ===== verification/OS_Prelude.thy ===== *)
theory OS_Prelude
  imports Main "HOL-Library.Word"
begin

text \<open>
  Shared vocabulary of the development: the fixed-width integer types of
  \<^verbatim>\<open>src/include/types.h\<close>, the counting loop that models C's
  \<^verbatim>\<open>for (i = lo; i < hi; i++)\<close>, the results of code that may stop the
  machine, C strings, and the word lemmas the components use.
\<close>

unbundle bit_operations_syntax

section \<open>Integer types\<close>

type_synonym u8 = "8 word"
type_synonym u16 = "16 word"
type_synonym u32 = "32 word"
type_synonym u64 = "64 word"

section \<open>Lemma collections\<close>

named_theorems loop_simps \<open>unfolding and invariant rules of counting loops\<close>
named_theorems word_facts \<open>facts that move word arithmetic to natural numbers\<close>

section \<open>Code that may stop the machine\<close>

text \<open>
  Several routines end in \<^verbatim>\<open>for (;;) cli; hlt\<close>: the heap and task panics,
  the page-fault handler, an unhandled exception, the scheduler with nothing to run.
  \<open>Halted\<close> carries the message that is printed before the machine stops.
\<close>

datatype 'a outcome = Done 'a | Halted string

fun is_done :: "'a outcome \<Rightarrow> bool" where
  "is_done (Done x) = True"
| "is_done (Halted e) = False"

fun and_then :: "'a outcome \<Rightarrow> ('a \<Rightarrow> 'b outcome) \<Rightarrow> 'b outcome" where
  "and_then (Done x) f = f x"
| "and_then (Halted e) f = Halted e"

text \<open>
  Code that calls a loop that may run forever returns an optional outcome: \<open>None\<close> is "does not
  return".
\<close>

definition then_run :: "'a outcome option \<Rightarrow> ('a \<Rightarrow> 'b outcome option) \<Rightarrow> 'b outcome option" where
  "then_run m f = Option.bind m (\<lambda>r. case r of Done x \<Rightarrow> f x | Halted e \<Rightarrow> Some (Halted e))"

lemma and_then_Done_iff:
  "and_then m f = Done y \<longleftrightarrow> (\<exists>x. m = Done x \<and> f x = Done y)"
  by (cases m) auto

lemma and_then_assoc: "and_then (and_then m f) g = and_then m (\<lambda>x. and_then (f x) g)"
  by (cases m) auto

lemma and_then_Done_right [simp]: "and_then m Done = m"
  by (cases m) auto

lemma then_run_simps [simp]:
  "then_run None f = None"
  "then_run (Some (Done x)) f = f x"
  "then_run (Some (Halted e)) f = Some (Halted e)"
  by (simp_all add: then_run_def)

lemma then_run_mono [partial_function_mono]:
  assumes "mono_option (\<lambda>f. B f)" and "\<And>y. mono_option (\<lambda>f. C y f)"
  shows "mono_option (\<lambda>f. then_run (B f) (\<lambda>y. C y f))"
proof -
  have "mono_option (\<lambda>f. case r of Done x \<Rightarrow> C x f | Halted e \<Rightarrow> Some (Halted e))" for r
    using assms(2) by (cases r) (simp_all add: option.const_mono)
  then show ?thesis unfolding then_run_def by (rule bind_mono [OF assms(1)])
qed

lemma then_run_assoc: "then_run (then_run m f) g = then_run m (\<lambda>x. then_run (f x) g)"
  by (auto simp: then_run_def split: outcome.split bind_splits)

section \<open>Counting loops\<close>

text \<open>The C loop \<^verbatim>\<open>for (i = lo; i < hi; i++) s = body(i, s)\<close>.\<close>

function for_range :: "nat \<Rightarrow> nat \<Rightarrow> (nat \<Rightarrow> 's \<Rightarrow> 's) \<Rightarrow> 's \<Rightarrow> 's" where
  "for_range i n body s = (if i < n then for_range (Suc i) n body (body i s) else s)"
  by pat_completeness auto
termination
  by (relation "measure (\<lambda>(i, n, body, s). n - i)") auto

declare for_range.simps [simp del]

lemma for_range_done [simp, loop_simps]: "n \<le> i \<Longrightarrow> for_range i n body s = s"
  by (simp add: for_range.simps)

lemma for_range_step [loop_simps]:
  "i < n \<Longrightarrow> for_range i n body s = for_range (Suc i) n body (body i s)"
  by (simp add: for_range.simps)

lemma for_range_fold: "for_range i n body s = fold body [i..<n] s"
proof (induction i n body s rule: for_range.induct)
  case (1 i n body s)
  then show ?case
    by (cases "i < n") (auto simp: for_range.simps [of i n body s] upt_conv_Cons)
qed

lemma for_range_Suc:
  "i \<le> n \<Longrightarrow> for_range i (Suc n) body s = body n (for_range i n body s)"
  by (simp add: for_range_fold)

text \<open>The invariant rule: what holds at the start and is kept by every turn holds at the end.\<close>

lemma for_range_invariant:
  assumes "P i s" and "\<And>k s. i \<le> k \<Longrightarrow> k < n \<Longrightarrow> P k s \<Longrightarrow> P (Suc k) (body k s)"
    and "i \<le> n"
  shows "P n (for_range i n body s)"
  using assms
proof (induction i n body s rule: for_range.induct)
  case (1 i n body s)
  show ?case
  proof (cases "i < n")
    case True
    have "P n (for_range (Suc i) n body (body i s))"
      using True "1.prems" by (intro "1.IH") auto
    then show ?thesis using True by (simp add: for_range_step)
  next
    case False
    then show ?thesis using "1.prems" by simp
  qed
qed

lemma for_range_keeps:
  assumes "P s" and "\<And>k s. i \<le> k \<Longrightarrow> k < n \<Longrightarrow> P s \<Longrightarrow> P (body k s)"
  shows "P (for_range i n body s)"
proof (cases "i \<le> n")
  case True
  then show ?thesis
    using for_range_invariant [of "\<lambda>_. P" i s n body] assms by blast
next
  case False
  then show ?thesis using assms by simp
qed

text \<open>Filling an array with a constant value.\<close>

lemma for_range_fill:
  "for_range i n (\<lambda>k a. a(k := v)) a = (\<lambda>k. if i \<le> k \<and> k < n then v else a k)"
proof (cases "i \<le> n")
  case True
  show ?thesis
  proof (rule for_range_invariant
      [where P = "\<lambda>m b. b = (\<lambda>k. if i \<le> k \<and> k < m then v else a k)"])
    show "a = (\<lambda>k. if i \<le> k \<and> k < i then v else a k)" by (rule ext) auto
  qed (use True in \<open>auto simp: fun_eq_iff\<close>)
next
  case False
  then show ?thesis by (auto simp: fun_eq_iff)
qed

section \<open>C strings\<close>

text \<open>
  A C string argument is the list of its bytes before the terminating zero.
  Reading \<open>s[i]\<close> at the end of the string yields the terminator.
\<close>

type_synonym cstring = "u8 list"

definition cstr :: "string \<Rightarrow> cstring" where
  "cstr s = map of_char s"

definition char_at :: "cstring \<Rightarrow> nat \<Rightarrow> u8" where
  "char_at s i = (if i < length s then s ! i else 0)"

definition is_cstring :: "cstring \<Rightarrow> bool" where
  "is_cstring s \<longleftrightarrow> 0 \<notin> set s"

lemma char_at_simps [simp]:
  "char_at [] i = 0"
  "char_at (c # s) 0 = c"
  "char_at (c # s) (Suc i) = char_at s i"
  by (simp_all add: char_at_def)

lemma is_cstring_simps [simp]:
  "is_cstring []"
  "is_cstring (c # s) \<longleftrightarrow> c \<noteq> 0 \<and> is_cstring s"
  "is_cstring (s @ t) \<longleftrightarrow> is_cstring s \<and> is_cstring t"
  by (auto simp: is_cstring_def)

section \<open>Word facts\<close>

lemma unat_less_iff [word_facts]: "(a :: 'a::len word) < b \<longleftrightarrow> unat a < unat b"
  by (simp add: word_less_nat_alt)

lemma unat_le_iff [word_facts]: "(a :: 'a::len word) \<le> b \<longleftrightarrow> unat a \<le> unat b"
  by (simp add: word_le_nat_alt)

lemma unat_of_nat_small:
  "n < 2 ^ LENGTH('a) \<Longrightarrow> unat (of_nat n :: 'a::len word) = n"
  by (simp add: unat_of_nat take_bit_nat_eq_self)

lemma unat_of_nat32 [simp]: "n < 4294967296 \<Longrightarrow> unat (of_nat n :: u32) = n"
  by (simp add: unat_of_nat_small)

lemma of_nat_eq_iff32:
  "m < 4294967296 \<Longrightarrow> n < 4294967296 \<Longrightarrow> (of_nat m :: u32) = of_nat n \<longleftrightarrow> m = n"
  by (metis unat_of_nat32)

lemma unat_lt32 [simp]: "unat (a :: u32) < 4294967296"
  using unsigned_less [of a] by simp

lemma unat_lt8: "unat (x :: u8) < 256"
  using unsigned_less [of x] by simp

lemma unat_plus32:
  "unat (a :: u32) + unat b < 4294967296 \<Longrightarrow> unat (a + b) = unat a + unat b"
  by (simp add: unat_word_ariths)

lemma unat_minus32:
  "b \<le> (a :: u32) \<Longrightarrow> unat (a - b) = unat a - unat b"
  by (simp add: unat_sub)

lemma unat_incr32: "unat (a :: u32) + 1 < 4294967296 \<Longrightarrow> unat (a + 1) = unat a + 1"
  by (simp add: unat_word_ariths)

lemma unat_decr32: "0 < unat (a :: u32) \<Longrightarrow> unat (a - 1) = unat a - 1"
  using unat_minus32 [of 1 a] by (simp add: word_le_nat_alt)

lemma low_bits_unat: "unat ((w :: 'a::len word) AND mask n) = unat w mod 2 ^ n"
  by (metis take_bit_eq_mask take_bit_eq_mod unsigned_take_bit_eq)

lemma and_not_eq_minus: "x AND NOT y = x - (x AND y)" for x y :: "'a::ring_bit_operations"
proof -
  have "(x AND y) + (x AND NOT y) = (x AND y) OR (x AND NOT y)"
    by (rule disjunctive_add) (auto simp: bit_simps)
  also have "\<dots> = x" by (rule bit_eqI) (auto simp: bit_simps)
  finally show ?thesis by (metis add_diff_cancel_left')
qed

lemma high_bits_unat [word_facts]:
  "unat (x AND NOT (mask k)) = unat x div 2 ^ k * 2 ^ k" for x :: u32
proof -
  have l: "unat (x AND mask k) = unat x mod 2 ^ k" by (rule low_bits_unat)
  then have "x AND mask k \<le> x" by (simp add: word_le_nat_alt)
  then show ?thesis by (simp add: and_not_eq_minus unat_sub l minus_mod_eq_div_mult)
qed

lemma drop_bit_unat: "unat (drop_bit n (v :: u32)) = unat v div 2 ^ n"
  by (simp add: unsigned_drop_bit_eq take_bit_nat_eq_self_iff [THEN iffD2] drop_bit_eq_div [where 'a = nat])

end
