(* ===== verification/Pmm.thy ===== *)
theory Pmm
  imports OS_Prelude
begin

text \<open>
  The physical memory manager, \<^verbatim>\<open>src/mem/pmm.c\<close>: a bitmap with one bit per
  4 KiB page (1 = in use) and the two page counters.  The bitmap array is a function
  from word index to word; every index the code forms is below \<open>BITMAP_WORDS\<close>
  (\<open>page_index_in_bounds\<close>).
\<close>

section \<open>State\<close>

definition TOTAL_PAGES :: u32 where
  "TOTAL_PAGES = push_bit 20 1"

definition BITMAP_WORDS :: nat where
  "BITMAP_WORDS = unat (TOTAL_PAGES div 32)"

definition E820_USABLE :: u32 where
  "E820_USABLE = 1"

record e820_entry =
  e_base :: u64
  e_length :: u64
  e_type :: u32

record pmm =
  bitmap :: "nat \<Rightarrow> u32"
  free_count :: u32
  total_count :: u32

section \<open>Bitmap helpers\<close>

definition page_set_used :: "u32 \<Rightarrow> pmm \<Rightarrow> pmm" where
  "page_set_used p s =
     (let w = unat (drop_bit 5 p) in
      s\<lparr>bitmap := (bitmap s)(w := bitmap s w OR push_bit (unat (p AND 31)) 1)\<rparr>)"

definition page_set_free :: "u32 \<Rightarrow> pmm \<Rightarrow> pmm" where
  "page_set_free p s =
     (let w = unat (drop_bit 5 p) in
      s\<lparr>bitmap := (bitmap s)(w := bitmap s w AND NOT (push_bit (unat (p AND 31)) 1))\<rparr>)"

definition page_is_free :: "u32 \<Rightarrow> pmm \<Rightarrow> bool" where
  "page_is_free p s \<longleftrightarrow>
     bitmap s (unat (drop_bit 5 p)) AND push_bit (unat (p AND 31)) 1 = 0"

section \<open>Regions\<close>

definition region_free :: "u64 \<Rightarrow> u64 \<Rightarrow> pmm \<Rightarrow> pmm" where
  "region_free base len s =
     (let first = (ucast (base div 4096) :: u32);
          last = (ucast ((base + len) div 4096) :: u32);
          last = (if last > TOTAL_PAGES then TOTAL_PAGES else last)
      in for_range (unat first) (unat last)
           (\<lambda>p s. if \<not> page_is_free (of_nat p) s
                  then (page_set_free (of_nat p) s)
                         \<lparr>free_count := free_count s + 1, total_count := total_count s + 1\<rparr>
                  else s) s)"

definition region_reserve :: "u64 \<Rightarrow> u64 \<Rightarrow> pmm \<Rightarrow> pmm" where
  "region_reserve base len s =
     (let first = (ucast (base div 4096) :: u32);
          last = (ucast ((base + len + 4096 - 1) div 4096) :: u32);
          last = (if last > TOTAL_PAGES then TOTAL_PAGES else last)
      in for_range (unat first) (unat last)
           (\<lambda>p s. if page_is_free (of_nat p) s
                  then (page_set_used (of_nat p) s)\<lparr>free_count := free_count s - 1\<rparr>
                  else s) s)"

section \<open>Public operations\<close>

text \<open>
  The firmware's memory map (the table the boot sector leaves at 0x502) is an argument:
  the list of its first \<open>count\<close> entries.
\<close>

definition pmm_init :: "e820_entry list \<Rightarrow> pmm \<Rightarrow> pmm" where
  "pmm_init e820 s =
     (let s = s\<lparr>free_count := 0, total_count := 0\<rparr>;
          s = s\<lparr>bitmap := for_range 0 BITMAP_WORDS (\<lambda>i b. b(i := 0xFFFFFFFF)) (bitmap s)\<rparr>;
          s = fold (\<lambda>e s. if e_type e = E820_USABLE
                          then region_free (e_base e) (e_length e) s else s) e820 s
      in region_reserve 0 0x100000 s)"

text \<open>The inner loop of \<^verbatim>\<open>pmm_alloc\<close>: the first free page of bitmap word \<open>w\<close>.\<close>

function alloc_bit :: "nat \<Rightarrow> nat \<Rightarrow> pmm \<Rightarrow> u32 option" where
  "alloc_bit w b s =
     (if b < 32
      then (let p = of_nat w * 32 + of_nat b :: u32 in
            if page_is_free p s then Some p else alloc_bit w (Suc b) s)
      else None)"
  by pat_completeness auto
termination
  by (relation "measure (\<lambda>(w, b, s). 32 - b)") auto

text \<open>The outer loop, over bitmap words, skipping full ones.\<close>

function alloc_word :: "nat \<Rightarrow> pmm \<Rightarrow> u32 option" where
  "alloc_word w s =
     (if w < BITMAP_WORDS
      then (if bitmap s w = 0xFFFFFFFF then alloc_word (Suc w) s
            else (case alloc_bit w 0 s of
                    Some p \<Rightarrow> Some p
                  | None \<Rightarrow> alloc_word (Suc w) s))
      else None)"
  by pat_completeness auto
termination
  by (relation "measure (\<lambda>(w, s). BITMAP_WORDS - w)") auto

declare alloc_bit.simps [simp del] alloc_word.simps [simp del]

definition pmm_alloc :: "pmm \<Rightarrow> u32 \<times> pmm" where
  "pmm_alloc s =
     (case alloc_word 0 s of
        Some p \<Rightarrow> (p * 4096, (page_set_used p s)\<lparr>free_count := free_count s - 1\<rparr>)
      | None \<Rightarrow> (0, s))"

definition pmm_free :: "u32 \<Rightarrow> pmm \<Rightarrow> pmm" where
  "pmm_free addr s =
     (let p = addr div 4096 in
      if p \<ge> TOTAL_PAGES \<or> page_is_free p s then s
      else (page_set_free p s)\<lparr>free_count := free_count s + 1\<rparr>)"

definition pmm_free_pages :: "pmm \<Rightarrow> u32" where
  "pmm_free_pages s = free_count s"

definition pmm_total_pages :: "pmm \<Rightarrow> u32" where
  "pmm_total_pages s = total_count s"

section \<open>Bits and pages\<close>

lemma TOTAL_PAGES_val [simp]: "TOTAL_PAGES = 1048576"
  by (simp add: TOTAL_PAGES_def)

lemma BITMAP_WORDS_val [simp]: "BITMAP_WORDS = 32768"
  by (simp add: BITMAP_WORDS_def)

lemma unat_drop5: "unat (drop_bit 5 (p :: u32)) = unat p div 32"
  using unat_drop_bit_eq [of 5 p] by (simp add: drop_bit_eq_div [of 5 "unat p"])

lemma unat_and31: "unat ((p :: u32) AND 31) = unat p mod 32"
  using low_bits_unat [of p 5] by (simp add: mask_eq_exp_minus_1)

lemma page_index_in_bounds:
  "p < TOTAL_PAGES \<Longrightarrow> unat (drop_bit 5 p) < BITMAP_WORDS"
  by (simp add: unat_drop5 word_less_nat_alt)

lemma page_is_free_bit:
  "page_is_free p s \<longleftrightarrow> \<not> bit (bitmap s (unat p div 32)) (unat p mod 32)"
  by (simp add: page_is_free_def unat_drop5 unat_and31 and_exp_eq_0_iff_not_bit)

lemma page_coords_eq:
  "unat (p :: u32) div 32 = unat q div 32 \<Longrightarrow> unat p mod 32 = unat q mod 32 \<Longrightarrow> p = q"
  by (metis div_mod_decomp word_unat_eq_iff)

lemma page_is_free_set_used [simp]:
  "page_is_free q (page_set_used p s) \<longleftrightarrow> q \<noteq> p \<and> page_is_free q s"
  using page_coords_eq [of p q]
  by (auto simp: page_is_free_bit page_set_used_def Let_def unat_drop5 unat_and31 bit_simps)

lemma page_is_free_set_free [simp]:
  "page_is_free q (page_set_free p s) \<longleftrightarrow> q = p \<or> page_is_free q s"
  using page_coords_eq [of p q]
  by (auto simp: page_is_free_bit page_set_free_def Let_def unat_drop5 unat_and31 bit_simps)

lemma page_is_free_counts [simp]:
  "page_is_free q (s\<lparr>free_count := a\<rparr>) = page_is_free q s"
  "page_is_free q (s\<lparr>total_count := a\<rparr>) = page_is_free q s"
  by (simp_all add: page_is_free_def)

lemma page_set_counts [simp]:
  "free_count (page_set_used p s) = free_count s"
  "free_count (page_set_free p s) = free_count s"
  "total_count (page_set_used p s) = total_count s"
  "total_count (page_set_free p s) = total_count s"
  by (simp_all add: page_set_used_def page_set_free_def Let_def)

section \<open>The set of free pages\<close>

definition free_pages :: "pmm \<Rightarrow> u32 set" where
  "free_pages s = {p. p < TOTAL_PAGES \<and> page_is_free p s}"

definition pmm_inv :: "pmm \<Rightarrow> bool" where
  "pmm_inv s \<longleftrightarrow> unat (free_count s) = card (free_pages s)"

lemma finite_free_pages [simp]: "finite (free_pages s)"
  by (rule finite_subset [OF subset_UNIV]) simp

lemma free_pages_simps [simp]:
  "p < TOTAL_PAGES \<Longrightarrow> free_pages (page_set_free p s) = insert p (free_pages s)"
  "free_pages (page_set_used p s) = free_pages s - {p}"
  "free_pages (s\<lparr>free_count := a\<rparr>) = free_pages s"
  "free_pages (s\<lparr>total_count := a\<rparr>) = free_pages s"
  by (auto simp: free_pages_def)

lemma card_pages_below: "card {p :: u32. p < TOTAL_PAGES} \<le> 1048576"
proof -
  have "inj_on unat {p :: u32. p < TOTAL_PAGES}"
    by (auto simp: inj_on_def word_unat_eq_iff)
  then have "card {p :: u32. p < TOTAL_PAGES} \<le> card {..< 1048576 :: nat}"
    by (rule card_inj_on_le) (auto simp: word_less_nat_alt)
  then show ?thesis by simp
qed

lemma card_free_pages_le: "card (free_pages s) \<le> 1048576"
proof -
  have "card (free_pages s) \<le> card {p :: u32. p < TOTAL_PAGES}"
    by (rule card_mono) (auto simp: free_pages_def)
  with card_pages_below show ?thesis by linarith
qed

lemma pmm_inv_free:
  assumes "pmm_inv s" and "p < TOTAL_PAGES" and "\<not> page_is_free p s"
  shows "pmm_inv ((page_set_free p s)\<lparr>free_count := free_count s + 1\<rparr>)"
proof -
  have "p \<notin> free_pages s" using assms by (simp add: free_pages_def)
  moreover have "unat (free_count s + 1) = unat (free_count s) + 1"
    using assms(1) card_free_pages_le [of s] by (simp add: pmm_inv_def unat_incr32)
  ultimately show ?thesis using assms by (simp add: pmm_inv_def)
qed

lemma pmm_inv_used:
  assumes "pmm_inv s" and "p < TOTAL_PAGES" and "page_is_free p s"
  shows "pmm_inv ((page_set_used p s)\<lparr>free_count := free_count s - 1\<rparr>)"
proof -
  have p: "p \<in> free_pages s" using assms by (simp add: free_pages_def)
  then have "0 < card (free_pages s)" by (auto simp: card_gt_0_iff)
  then have "unat (free_count s - 1) = unat (free_count s) - 1"
    using assms(1) by (simp add: pmm_inv_def unat_decr32)
  then show ?thesis using assms(1) p by (simp add: pmm_inv_def)
qed

section \<open>The page search\<close>

lemma of_nat_page: "n < 1048576 \<Longrightarrow> (of_nat n :: u32) < TOTAL_PAGES"
  by (simp add: word_less_nat_alt)

lemma full_word_no_free:
  assumes "bitmap s w = 0xFFFFFFFF" and "w * 32 \<le> n" and "n < w * 32 + 32" and "n < 1048576"
  shows "\<not> page_is_free (of_nat n) s"
proof -
  have "n div 32 = w" using assms(2,3) by (intro div_nat_eqI) auto
  moreover have "(0xFFFFFFFF :: u32) = - 1" by simp
  then have "bit (0xFFFFFFFF :: u32) (n mod 32)" by (simp only: bit_minus_1_iff) simp
  ultimately show ?thesis using assms(1,4) by (simp add: page_is_free_bit)
qed

lemma alloc_bit_Some:
  assumes "alloc_bit w b s = Some p"
  shows "\<exists>c. b \<le> c \<and> c < 32 \<and> p = of_nat (w * 32 + c) \<and> page_is_free p s \<and>
             (\<forall>d. b \<le> d \<and> d < c \<longrightarrow> \<not> page_is_free (of_nat (w * 32 + d)) s)"
  using assms
proof (induction w b s rule: alloc_bit.induct)
  case (1 w b s)
  let ?p = "of_nat w * 32 + of_nat b :: u32"
  have b: "b < 32" using "1.prems" by (simp add: alloc_bit.simps [of w b s] split: if_splits)
  show ?case
  proof (cases "page_is_free ?p s")
    case True
    then have "p = ?p" using "1.prems" b by (simp add: alloc_bit.simps [of w b s])
    then show ?thesis using True b by (intro exI [of _ b]) auto
  next
    case False
    then have "alloc_bit w (Suc b) s = Some p" using "1.prems" b
      by (simp add: alloc_bit.simps [of w b s])
    from "1.IH" [OF b refl False this] obtain c where
      "Suc b \<le> c" "c < 32" "p = of_nat (w * 32 + c)" "page_is_free p s"
      "\<forall>d. Suc b \<le> d \<and> d < c \<longrightarrow> \<not> page_is_free (of_nat (w * 32 + d)) s"
      by blast
    moreover have "d = b \<or> Suc b \<le> d" if "b \<le> d" for d using that by auto
    ultimately show ?thesis using False by (intro exI [of _ c]) fastforce
  qed
qed

lemma alloc_bit_None:
  assumes "alloc_bit w b s = None" and "b \<le> d" and "d < 32"
  shows "\<not> page_is_free (of_nat (w * 32 + d)) s"
  using assms
proof (induction w b s rule: alloc_bit.induct)
  case (1 w b s)
  let ?p = "of_nat w * 32 + of_nat b :: u32"
  have b: "b < 32" using "1.prems" by simp
  with "1.prems"(1) have nf: "\<not> page_is_free ?p s"
    and rest: "alloc_bit w (Suc b) s = None"
    by (auto simp: alloc_bit.simps [of w b s] Let_def split: if_splits)
  show ?case
  proof (cases "d = b")
    case True then show ?thesis using nf by simp
  next
    case False
    then show ?thesis using "1.IH" [OF b refl nf rest] "1.prems"(2,3) by simp
  qed
qed

lemma alloc_word_Some:
  assumes "alloc_word w s = Some p"
  shows "page_is_free p s \<and> w * 32 \<le> unat p \<and> unat p < 1048576 \<and>
         (\<forall>n. w * 32 \<le> n \<and> n < unat p \<longrightarrow> \<not> page_is_free (of_nat n) s)"
  using assms
proof (induction w s rule: alloc_word.induct)
  case (1 w s)
  have w: "w < 32768" using "1.prems" by (simp add: alloc_word.simps [of w s] split: if_splits)
  have tail: ?case
    if skip: "\<And>n. w * 32 \<le> n \<Longrightarrow> n < w * 32 + 32 \<Longrightarrow> \<not> page_is_free (of_nat n) s"
      and IH: "page_is_free p s \<and> Suc w * 32 \<le> unat p \<and> unat p < 1048576 \<and>
         (\<forall>n. Suc w * 32 \<le> n \<and> n < unat p \<longrightarrow> \<not> page_is_free (of_nat n) s)"
  proof -
    have "\<not> page_is_free (of_nat n) s" if "w * 32 \<le> n" "n < unat p" for n
      using that IH skip [of n] by (cases "n < w * 32 + 32") auto
    then show ?thesis using IH by auto
  qed
  consider (full) "bitmap s w = 0xFFFFFFFF" | (none) "bitmap s w \<noteq> 0xFFFFFFFF" "alloc_bit w 0 s = None"
    | (hit) "bitmap s w \<noteq> 0xFFFFFFFF" "alloc_bit w 0 s = Some p"
    using "1.prems" w by (auto simp: alloc_word.simps [of w s] split: option.splits if_splits)
  then show ?case
  proof cases
    case full
    then show ?thesis
      using w "1.prems" "1.IH"(1) full_word_no_free [of s w]
      by (intro tail) (auto simp: alloc_word.simps [of w s])
  next
    case none
    have "\<not> page_is_free (of_nat n) s" if "w * 32 \<le> n" "n < w * 32 + 32" for n
      using alloc_bit_None [OF none(2), of "n - w * 32"] that by simp
    then show ?thesis
      using w "1.prems" "1.IH"(2) none by (intro tail) (auto simp: alloc_word.simps [of w s])
  next
    case hit
    from alloc_bit_Some [OF hit(2)] obtain c where c: "c < 32" "p = of_nat (w * 32 + c)"
      "page_is_free p s" "\<forall>d. d < c \<longrightarrow> \<not> page_is_free (of_nat (w * 32 + d)) s"
      by auto
    have u: "unat p = w * 32 + c" using c(1,2) w by (simp add: unat_of_nat32 del: of_nat_add of_nat_mult)
    have "\<not> page_is_free (of_nat n) s" if "w * 32 \<le> n" "n < unat p" for n
      using that u c(4) [rule_format, of "n - w * 32"] by simp
    then show ?thesis using c u w by auto
  qed
qed

lemma alloc_word_None:
  assumes "alloc_word w s = None" and "w * 32 \<le> n" and "n < 1048576"
  shows "\<not> page_is_free (of_nat n) s"
  using assms
proof (induction w s rule: alloc_word.induct)
  case (1 w s)
  have w: "w < 32768" using "1.prems" by linarith
  show ?case
  proof (cases "n < w * 32 + 32")
    case False
    then show ?thesis using "1.prems" "1.IH" w
      by (auto simp: alloc_word.simps [of w s] split: if_splits option.splits)
  next
    case True
    show ?thesis
    proof (cases "bitmap s w = 0xFFFFFFFF")
      case full: True
      then show ?thesis using full_word_no_free [of s w n] True "1.prems" by simp
    next
      case False
      then have "alloc_bit w 0 s = None" using "1.prems"(1) w
        by (simp add: alloc_word.simps [of w s] split: option.splits)
      from alloc_bit_None [OF this, of "n - w * 32"] show ?thesis
        using True "1.prems"(2) by simp
    qed
  qed
qed

text \<open>The search returns the lowest free page, and fails only when no page is free.\<close>

lemma alloc_word_spec:
  "alloc_word 0 s = (if free_pages s = {} then None else Some (Min (free_pages s)))"
proof (cases "alloc_word 0 s")
  case None
  have "free_pages s = {}"
  proof (rule ccontr)
    assume "free_pages s \<noteq> {}"
    then obtain p where "p < TOTAL_PAGES" "page_is_free p s" by (auto simp: free_pages_def)
    then show False using alloc_word_None [OF None, of "unat p"] by (simp add: word_less_nat_alt)
  qed
  then show ?thesis using None by simp
next
  case (Some p)
  from alloc_word_Some [OF Some] have sp: "page_is_free p s" "0 \<le> unat p" "unat p < 1048576"
    "\<forall>n. n < unat p \<longrightarrow> \<not> page_is_free (of_nat n) s"
    by auto
  then have mem: "p \<in> free_pages s" by (simp add: free_pages_def word_less_nat_alt)
  have "p \<le> q" if "q \<in> free_pages s" for q
    using that sp(4) [rule_format, of "unat q"]
    by (fastforce simp: free_pages_def word_le_nat_alt intro: leI)
  then have "Min (free_pages s) = p" using mem by (intro Min_eqI) auto
  then show ?thesis using Some mem by auto
qed

section \<open>Allocation and release\<close>

lemma page_addr_unat: "p < TOTAL_PAGES \<Longrightarrow> unat (p * 4096) = unat p * 4096"
  by (simp add: unat_word_ariths word_less_nat_alt)

lemma page_addr_div [simp]: "p < TOTAL_PAGES \<Longrightarrow> p * 4096 div 4096 = p"
  by (simp add: word_unat_eq_iff unat_div page_addr_unat)

lemma pmm_alloc_fail: "free_pages s = {} \<Longrightarrow> pmm_alloc s = (0, s)"
  by (simp add: pmm_alloc_def alloc_word_spec)

lemma pmm_alloc_ok:
  "free_pages s \<noteq> {} \<Longrightarrow>
   pmm_alloc s = (Min (free_pages s) * 4096,
                  (page_set_used (Min (free_pages s)) s)\<lparr>free_count := free_count s - 1\<rparr>)"
  by (simp add: pmm_alloc_def alloc_word_spec)

lemma Min_free_page:
  assumes "free_pages s \<noteq> {}"
  shows "Min (free_pages s) \<in> free_pages s" "Min (free_pages s) < TOTAL_PAGES"
    "page_is_free (Min (free_pages s)) s"
  using Min_in [OF finite_free_pages assms] by (auto simp: free_pages_def)

lemma pmm_alloc_inv: "pmm_inv s \<Longrightarrow> pmm_inv (snd (pmm_alloc s))"
  using pmm_inv_used [of s "Min (free_pages s)"] Min_free_page [of s]
  by (cases "free_pages s = {}") (auto simp: pmm_alloc_fail pmm_alloc_ok)

lemma pmm_alloc_free_pages:
  "free_pages (snd (pmm_alloc s)) = free_pages s - {Min (free_pages s)}"
  by (cases "free_pages s = {}") (auto simp: pmm_alloc_fail pmm_alloc_ok)

lemma pmm_free_pages_eq:
  "free_pages (pmm_free addr s) = insert (addr div 4096) (free_pages s)"
proof -
  have lt: "addr div 4096 < TOTAL_PAGES"
    by (simp add: word_less_nat_alt unat_div less_mult_imp_div_less)
  show ?thesis
  proof (cases "page_is_free (addr div 4096) s")
    case True
    then show ?thesis using lt by (auto simp: pmm_free_def free_pages_def)
  next
    case False
    then show ?thesis using lt by (auto simp: pmm_free_def Let_def)
  qed
qed

lemma pmm_free_inv: "pmm_inv s \<Longrightarrow> pmm_inv (pmm_free addr s)"
  using pmm_inv_free [of s "addr div 4096"]
  by (auto simp: pmm_free_def Let_def not_le)

section \<open>Regions and initialisation\<close>

text \<open>The pages a call of \<open>region_free\<close> or \<open>region_reserve\<close> walks over.\<close>

definition clip :: "u32 \<Rightarrow> u32" where
  "clip q = (if q > TOTAL_PAGES then TOTAL_PAGES else q)"

definition usable_span :: "u64 \<Rightarrow> u64 \<Rightarrow> u32 set" where
  "usable_span base len =
     {p. ucast (base div 4096) \<le> p \<and> p < clip (ucast ((base + len) div 4096))}"

definition reserved_span :: "u64 \<Rightarrow> u64 \<Rightarrow> u32 set" where
  "reserved_span base len =
     {p. ucast (base div 4096) \<le> p \<and> p < clip (ucast ((base + len + 4096 - 1) div 4096))}"

lemma clip_le: "clip q \<le> TOTAL_PAGES"
  by (auto simp: clip_def)

lemma span_Suc:
  assumes "unat a \<le> k" and "k < 1048576"
  shows "{p. a \<le> p \<and> unat p < Suc k} = insert (of_nat k :: u32) {p. a \<le> p \<and> unat p < k}"
  using assms by (auto simp: word_le_nat_alt less_Suc_eq word_unat_eq_iff)

lemma region_free_spec:
  "free_pages (region_free base len s) = free_pages s \<union> usable_span base len"
  "pmm_inv s \<Longrightarrow> pmm_inv (region_free base len s)"
  "total_count (region_free base len s) - free_count (region_free base len s) =
     total_count s - free_count s"
proof -
  define a b where "a = (ucast (base div 4096) :: u32)"
    and "b = clip (ucast ((base + len) div 4096))"
  let ?body = "\<lambda>p s. if \<not> page_is_free (of_nat p) s
                  then (page_set_free (of_nat p) s)
                         \<lparr>free_count := free_count s + 1, total_count := total_count s + 1\<rparr>
                  else s"
  let ?P = "\<lambda>k t. free_pages t = free_pages s \<union> {p. a \<le> p \<and> unat p < k} \<and>
     (pmm_inv s \<longrightarrow> pmm_inv t) \<and> total_count t - free_count t = total_count s - free_count s"
  have rf: "region_free base len s = for_range (unat a) (unat b) ?body s"
    by (simp add: region_free_def a_def b_def clip_def Let_def)
  have b: "unat b \<le> 1048576" using clip_le by (simp add: b_def word_le_nat_alt)
  have span: "usable_span base len = {p. a \<le> p \<and> unat p < unat b}"
    by (simp add: usable_span_def a_def b_def word_less_nat_alt)
  have step: "?P (Suc k) (?body k t)" if k: "unat a \<le> k" "k < unat b" and P: "?P k t" for k t
  proof -
    have lt: "(of_nat k :: u32) < TOTAL_PAGES" using k b by (intro of_nat_page) simp
    show ?thesis
    proof (cases "page_is_free (of_nat k) t")
      case True
      then have "of_nat k \<in> free_pages t" using lt by (simp add: free_pages_def)
      then show ?thesis using P True k b by (auto simp: span_Suc)
    next
      case False
      then show ?thesis using P lt k b pmm_inv_free [of t "of_nat k"]
        by (auto simp: span_Suc pmm_inv_def)
    qed
  qed
  have "?P (unat b) (region_free base len s)"
  proof (cases "unat a \<le> unat b")
    case True
    show ?thesis unfolding rf
      by (rule for_range_invariant [where P = ?P]) (use step True in \<open>auto simp: word_le_nat_alt\<close>)
  next
    case False
    then show ?thesis by (auto simp: rf word_le_nat_alt)
  qed
  then show "free_pages (region_free base len s) = free_pages s \<union> usable_span base len"
    "pmm_inv s \<Longrightarrow> pmm_inv (region_free base len s)"
    "total_count (region_free base len s) - free_count (region_free base len s) =
     total_count s - free_count s"
    by (auto simp: span)
qed

lemma region_reserve_spec:
  "free_pages (region_reserve base len s) = free_pages s - reserved_span base len"
  "pmm_inv s \<Longrightarrow> pmm_inv (region_reserve base len s)"
  "total_count (region_reserve base len s) = total_count s"
proof -
  define a b where "a = (ucast (base div 4096) :: u32)"
    and "b = clip (ucast ((base + len + 4096 - 1) div 4096))"
  let ?body = "\<lambda>p s. if page_is_free (of_nat p) s
                  then (page_set_used (of_nat p) s)\<lparr>free_count := free_count s - 1\<rparr>
                  else s"
  let ?P = "\<lambda>k t. free_pages t = free_pages s - {p. a \<le> p \<and> unat p < k} \<and>
     (pmm_inv s \<longrightarrow> pmm_inv t) \<and> total_count t = total_count s"
  have rr: "region_reserve base len s = for_range (unat a) (unat b) ?body s"
    by (simp add: region_reserve_def a_def b_def clip_def Let_def)
  have b: "unat b \<le> 1048576" using clip_le by (simp add: b_def word_le_nat_alt)
  have span: "reserved_span base len = {p. a \<le> p \<and> unat p < unat b}"
    by (simp add: reserved_span_def a_def b_def word_less_nat_alt)
  have step: "?P (Suc k) (?body k t)" if k: "unat a \<le> k" "k < unat b" and P: "?P k t" for k t
  proof -
    have lt: "(of_nat k :: u32) < TOTAL_PAGES" using k b by (intro of_nat_page) simp
    show ?thesis
    proof (cases "page_is_free (of_nat k) t")
      case True
      then show ?thesis using P lt k b pmm_inv_used [of t "of_nat k"]
        by (auto simp: span_Suc)
    next
      case False
      then have "of_nat k \<notin> free_pages t" by (simp add: free_pages_def)
      then show ?thesis using P False k b by (auto simp: span_Suc)
    qed
  qed
  have "?P (unat b) (region_reserve base len s)"
  proof (cases "unat a \<le> unat b")
    case True
    show ?thesis unfolding rr
      by (rule for_range_invariant [where P = ?P]) (use step True in \<open>auto simp: word_le_nat_alt\<close>)
  next
    case False
    then show ?thesis by (auto simp: rr word_le_nat_alt)
  qed
  then show "free_pages (region_reserve base len s) = free_pages s - reserved_span base len"
    "pmm_inv s \<Longrightarrow> pmm_inv (region_reserve base len s)"
    "total_count (region_reserve base len s) = total_count s"
    by (auto simp: span)
qed

lemma reserve_low_span: "reserved_span 0 0x100000 = {p. p < 256}"
  by (simp add: reserved_span_def clip_def)

text \<open>The pages the firmware table declares usable, as the code computes them.\<close>

definition usable_pages :: "e820_entry list \<Rightarrow> u32 set" where
  "usable_pages es = (\<Union>e \<in> {e \<in> set es. e_type e = E820_USABLE}. usable_span (e_base e) (e_length e))"

abbreviation free_usable :: "e820_entry list \<Rightarrow> pmm \<Rightarrow> pmm" where
  "free_usable es s \<equiv> fold (\<lambda>e s. if e_type e = E820_USABLE
                          then region_free (e_base e) (e_length e) s else s) es s"

lemma free_usable_spec:
  "free_pages (free_usable es s) = free_pages s \<union> usable_pages es \<and>
   (pmm_inv s \<longrightarrow> pmm_inv (free_usable es s)) \<and>
   total_count (free_usable es s) - free_count (free_usable es s) = total_count s - free_count s"
proof (induction es arbitrary: s)
  case Nil
  then show ?case by (simp add: usable_pages_def)
next
  case (Cons e es)
  let ?t = "region_free (e_base e) (e_length e) s"
  have "usable_pages (e # es) =
      (if e_type e = E820_USABLE then usable_span (e_base e) (e_length e) else {}) \<union> usable_pages es"
    by (auto simp: usable_pages_def)
  then show ?case
    using Cons.IH [of s] Cons.IH [of ?t] region_free_spec [where base = "e_base e" and len = "e_length e" and s = s]
    by auto
qed

text \<open>The state after the whole bitmap has been marked used.\<close>

definition pmm_blank :: "pmm \<Rightarrow> pmm" where
  "pmm_blank s = s\<lparr>free_count := 0, total_count := 0,
     bitmap := for_range 0 BITMAP_WORDS (\<lambda>i b. b(i := 0xFFFFFFFF)) (bitmap s)\<rparr>"

lemma pmm_blank_spec:
  "free_pages (pmm_blank s) = {}" "pmm_inv (pmm_blank s)"
  "free_count (pmm_blank s) = 0" "total_count (pmm_blank s) = 0"
proof -
  have "\<not> page_is_free p (pmm_blank s)" if "p < TOTAL_PAGES" for p
  proof -
    have "unat p div 32 < 32768" using that by (simp add: word_less_nat_alt)
    then have "bitmap (pmm_blank s) (unat p div 32) = 0xFFFFFFFF"
      by (simp add: pmm_blank_def for_range_fill)
    then show ?thesis
      using full_word_no_free [of "pmm_blank s" "unat p div 32" "unat p"] that
      by (simp add: word_less_nat_alt)
  qed
  then show "free_pages (pmm_blank s) = {}" by (auto simp: free_pages_def)
  then show "pmm_inv (pmm_blank s)" by (simp add: pmm_inv_def) (simp add: pmm_blank_def)
qed (simp_all add: pmm_blank_def)

lemma pmm_init_unfold:
  "pmm_init es s = region_reserve 0 0x100000 (free_usable es (pmm_blank s))"
  by (simp add: pmm_init_def pmm_blank_def Let_def)

lemma pmm_init_free_pages: "free_pages (pmm_init es s) = usable_pages es - {p. p < 256}"
  using free_usable_spec [of es "pmm_blank s"] pmm_blank_spec [of s]
  by (simp add: pmm_init_unfold region_reserve_spec reserve_low_span)

lemma pmm_init_inv: "pmm_inv (pmm_init es s)"
  using free_usable_spec [of es "pmm_blank s"] pmm_blank_spec [of s]
  by (simp add: pmm_init_unfold region_reserve_spec)

lemma pmm_init_total:
  "unat (total_count (pmm_init es s)) = card (usable_pages es)"
  using free_usable_spec [of es "pmm_blank s"] pmm_blank_spec [of s]
  by (simp add: pmm_init_unfold region_reserve_spec pmm_inv_def)

section \<open>The frame allocator interface\<close>

text \<open>
  What the page-table code and the ELF loader rely on: an allocator of 4 KiB frames with a
  set of free frames.  \<open>alloc\<close> returns 0 when nothing is free, and otherwise some free
  frame, which it removes from the set.
\<close>

fun take_frames :: "('s \<Rightarrow> u32 \<times> 's) \<Rightarrow> nat \<Rightarrow> 's \<Rightarrow> u32 list \<times> 's" where
  "take_frames alloc 0 s = ([], s)"
| "take_frames alloc (Suc n) s =
     (let (a, s) = alloc s; (as, s) = take_frames alloc n s in (a # as, s))"

locale frame_allocator =
  fixes alloc :: "'s \<Rightarrow> u32 \<times> 's"
    and release :: "u32 \<Rightarrow> 's \<Rightarrow> 's"
    and frames :: "'s \<Rightarrow> u32 set"
    and ready :: "'s \<Rightarrow> bool"
  assumes frames_finite: "finite (frames s)"
    and frames_nonnull: "ready s \<Longrightarrow> 0 \<notin> frames s"
    and frames_aligned: "a \<in> frames s \<Longrightarrow> a AND 0xFFF = 0"
    and alloc_none: "frames s = {} \<Longrightarrow> alloc s = (0, s)"
    and alloc_some: "frames s \<noteq> {} \<Longrightarrow>
          fst (alloc s) \<in> frames s \<and> frames (snd (alloc s)) = frames s - {fst (alloc s)}"
    and alloc_ready: "ready s \<Longrightarrow> ready (snd (alloc s))"
    and release_frames: "a AND 0xFFF = 0 \<Longrightarrow> frames (release a s) = insert a (frames s)"
    and release_ready: "ready s \<Longrightarrow> 0x100000 \<le> a \<Longrightarrow> ready (release a s)"
begin

lemma alloc_zero_iff: "ready s \<Longrightarrow> fst (alloc s) = 0 \<longleftrightarrow> frames s = {}"
  by (cases "frames s = {}") (simp add: alloc_none, metis alloc_some frames_nonnull)

lemma alloc_release: "frames s \<noteq> {} \<Longrightarrow> frames (release (fst (alloc s)) (snd (alloc s))) = frames s"
  using alloc_some [of s] release_frames [of "fst (alloc s)" "snd (alloc s)"]
    frames_aligned [of "fst (alloc s)" s] by (simp add: insert_absorb)

lemma take_frames_distinct:
  assumes "n \<le> card (frames s)" and "take_frames alloc n s = (as, t)"
  shows "distinct as \<and> length as = n \<and> set as \<subseteq> frames s \<and> frames t = frames s - set as"
  using assms
proof (induction n arbitrary: s as)
  case 0
  then show ?case by simp
next
  case (Suc n)
  let ?a = "fst (alloc s)" and ?s = "snd (alloc s)"
  obtain bs where bs: "take_frames alloc n ?s = (bs, t)" "as = ?a # bs"
    using Suc.prems(2) by (auto simp: Let_def split: prod.splits)
  have ne: "frames s \<noteq> {}" using Suc.prems(1) by auto
  note a = alloc_some [OF ne]
  then have "n \<le> card (frames ?s)" using Suc.prems(1) frames_finite [of s] by simp
  from Suc.IH [OF this bs(1)] show ?case using a bs(2) by auto
qed

end

text \<open>The physical memory manager provides it: its frames are the addresses of the free pages.\<close>

definition pmm_frames :: "pmm \<Rightarrow> u32 set" where
  "pmm_frames s = (\<lambda>p. p * 4096) ` free_pages s"

definition pmm_ready :: "pmm \<Rightarrow> bool" where
  "pmm_ready s \<longleftrightarrow> pmm_inv s \<and> (\<forall>p < 256. \<not> page_is_free p s)"

lemma page_addr_aligned: "(p * 4096 :: u32) AND 0xFFF = 0"
proof -
  have "unat ((p * 4096 :: u32) AND mask 12) = 0"
    unfolding low_bits_unat by (simp add: unat_word_ariths mod_mod_cancel)
  then show ?thesis by (simp add: mask_eq_exp_minus_1 word_unat_eq_iff)
qed

lemma page_addr_inj: "inj_on (\<lambda>p. p * 4096) (free_pages s)"
  by (rule inj_on_inverseI [where g = "\<lambda>a. a div 4096"]) (simp add: free_pages_def)

lemma aligned_page_addr:
  assumes "(a :: u32) AND 0xFFF = 0"
  shows "a div 4096 * 4096 = a"
proof -
  have "unat a mod 4096 = 0"
    using assms low_bits_unat [of a 12] by (simp add: mask_eq_exp_minus_1)
  then have "unat a div 4096 * 4096 = unat a" by auto
  moreover have "unat a div 4096 < 4294967296"
    by (meson div_le_dividend le_less_trans unat_lt32)
  ultimately show ?thesis
    by (simp add: word_unat_eq_iff unat_word_ariths unat_div)
qed

lemma pmm_frames_alloc:
  assumes "free_pages s \<noteq> {}"
  shows "fst (pmm_alloc s) \<in> pmm_frames s"
    and "pmm_frames (snd (pmm_alloc s)) = pmm_frames s - {fst (pmm_alloc s)}"
proof -
  note m = Min_free_page [OF assms]
  show "fst (pmm_alloc s) \<in> pmm_frames s"
    using assms m(1) by (simp add: pmm_alloc_ok pmm_frames_def)
  show "pmm_frames (snd (pmm_alloc s)) = pmm_frames s - {fst (pmm_alloc s)}"
    using assms m(1) page_addr_inj [of s]
    by (simp add: pmm_alloc_ok pmm_frames_def inj_on_image_set_diff [of _ "free_pages s"])
qed

lemma pmm_alloc_ready: "pmm_ready s \<Longrightarrow> pmm_ready (snd (pmm_alloc s))"
  using pmm_alloc_inv [of s]
  by (cases "free_pages s = {}") (auto simp: pmm_ready_def pmm_alloc_fail pmm_alloc_ok)

lemma pmm_free_ready:
  assumes "pmm_ready s" and "0x100000 \<le> a"
  shows "pmm_ready (pmm_free a s)"
proof -
  have "unat (a div 4096) \<ge> 256" using assms(2) by (simp add: unat_div word_le_nat_alt)
  then show ?thesis using assms pmm_free_inv [of s a]
    by (auto simp: pmm_ready_def pmm_free_def Let_def word_less_nat_alt)
qed

interpretation pmm_frame: frame_allocator pmm_alloc pmm_free pmm_frames pmm_ready
proof unfold_locales
  fix s :: pmm
  show "finite (pmm_frames s)" by (simp add: pmm_frames_def)
  show "pmm_ready s \<Longrightarrow> 0 \<notin> pmm_frames s"
  proof
    assume r: "pmm_ready s" and "0 \<in> pmm_frames s"
    then obtain p where p: "p < TOTAL_PAGES" "page_is_free p s" "p * 4096 = 0"
      by (auto simp: pmm_frames_def free_pages_def)
    then have "p = 0" using page_addr_div [of p] by simp
    then show False using r p by (auto simp: pmm_ready_def)
  qed
  show "a \<in> pmm_frames s \<Longrightarrow> a AND 0xFFF = 0" for a
    by (auto simp: pmm_frames_def page_addr_aligned)
  show "pmm_frames s = {} \<Longrightarrow> pmm_alloc s = (0, s)"
    by (simp add: pmm_frames_def pmm_alloc_fail)
  show "pmm_frames s \<noteq> {} \<Longrightarrow> fst (pmm_alloc s) \<in> pmm_frames s \<and>
      pmm_frames (snd (pmm_alloc s)) = pmm_frames s - {fst (pmm_alloc s)}"
    using pmm_frames_alloc [of s] by (simp add: pmm_frames_def)
  show "pmm_ready s \<Longrightarrow> pmm_ready (snd (pmm_alloc s))" by (rule pmm_alloc_ready)
  show "a AND 0xFFF = 0 \<Longrightarrow> pmm_frames (pmm_free a s) = insert a (pmm_frames s)" for a
    by (simp add: pmm_frames_def pmm_free_pages_eq aligned_page_addr)
  show "pmm_ready s \<Longrightarrow> 0x100000 \<le> a \<Longrightarrow> pmm_ready (pmm_free a s)" for a
    by (rule pmm_free_ready)
qed

section \<open>Properties\<close>

definition entry_fits :: "e820_entry \<Rightarrow> bool" where
  "entry_fits e \<longleftrightarrow> unat (e_base e) + unat (e_length e) < 2 ^ 44"

lemma page_of_u64:
  "unat (x :: u64) < 2 ^ 44 \<Longrightarrow> unat (ucast (x div 4096) :: u32) = unat x div 4096"
  by (simp add: unsigned_ucast_eq unat_div take_bit_nat_eq_self less_mult_imp_div_less)

lemma usable_span_exact:
  assumes "entry_fits e" and "n < 1048576"
  shows "(of_nat n :: u32) \<in> usable_span (e_base e) (e_length e) \<longleftrightarrow>
    unat (e_base e) div 4096 \<le> n \<and> n < (unat (e_base e) + unat (e_length e)) div 4096"
proof -
  have sum: "unat (e_base e + e_length e) = unat (e_base e) + unat (e_length e)"
    using assms(1) by (simp add: entry_fits_def unat_word_ariths)
  have "unat (ucast ((e_base e + e_length e) div 4096) :: u32) =
      (unat (e_base e) + unat (e_length e)) div 4096"
    using assms(1) by (simp add: entry_fits_def page_of_u64 sum)
  moreover have "unat (ucast (e_base e div 4096) :: u32) = unat (e_base e) div 4096"
    using assms(1) by (simp add: entry_fits_def page_of_u64)
  ultimately show ?thesis using assms(2)
    by (auto simp: usable_span_def clip_def word_le_nat_alt word_less_nat_alt)
qed

lemma pmm_init_ready: "pmm_ready (pmm_init es s)"
proof -
  have "\<not> page_is_free p (pmm_init es s)" if "p < 256" for p
  proof -
    have "p < TOTAL_PAGES" using that by (simp add: word_less_nat_alt)
    then show ?thesis using that pmm_init_free_pages [of es s] by (auto simp: free_pages_def)
  qed
  then show ?thesis using pmm_init_inv by (simp add: pmm_ready_def)
qed

lemma pmm_init_free_iff:
  assumes "\<forall>e \<in> set es. entry_fits e" and n: "n < 1048576"
  shows "page_is_free (of_nat n) (pmm_init es s) \<longleftrightarrow>
            256 \<le> n \<and> (\<exists>e \<in> set es. e_type e = E820_USABLE \<and> unat (e_base e) div 4096 \<le> n \<and>
                                    n < (unat (e_base e) + unat (e_length e)) div 4096)"
proof -
  have "page_is_free (of_nat n) (pmm_init es s) \<longleftrightarrow> of_nat n \<in> free_pages (pmm_init es s)"
    using of_nat_page [OF n] by (simp add: free_pages_def)
  also have "\<dots> \<longleftrightarrow> 256 \<le> n \<and> of_nat n \<in> usable_pages es"
    using n by (auto simp: pmm_init_free_pages word_less_nat_alt)
  also have "of_nat n \<in> usable_pages es \<longleftrightarrow>
      (\<exists>e \<in> set es. e_type e = E820_USABLE \<and> unat (e_base e) div 4096 \<le> n \<and>
                    n < (unat (e_base e) + unat (e_length e)) div 4096)"
    using assms by (auto simp: usable_pages_def usable_span_exact)
  finally show ?thesis .
qed

text \<open>
  C12: after \<open>pmm_init\<close> a page is free exactly when it lies above the first megabyte and
  some usable entry of the firmware map covers it in the code's sense (from the page that
  contains the entry's base, up to but excluding the page that contains its end); the free
  counter is the number of free pages and the total counter the number of usable ones.
\<close>

theorem pmm_init_exact:
  assumes "\<forall>e \<in> set es. entry_fits e"
  shows "(\<forall>n < 1048576. page_is_free (of_nat n) (pmm_init es s) \<longleftrightarrow>
            256 \<le> n \<and> (\<exists>e \<in> set es. e_type e = E820_USABLE \<and> unat (e_base e) div 4096 \<le> n \<and>
                                    n < (unat (e_base e) + unat (e_length e)) div 4096)) \<and>
         unat (pmm_free_pages (pmm_init es s)) = card (free_pages (pmm_init es s)) \<and>
         unat (pmm_total_pages (pmm_init es s)) = card (usable_pages es)"
  using pmm_init_free_iff [OF assms] pmm_init_inv [of es s] pmm_init_total [of es s]
  by (simp add: pmm_inv_def pmm_free_pages_def pmm_total_pages_def)

definition sample_map :: "e820_entry list" where
  "sample_map = [\<lparr>e_base = 0, e_length = 0x9FC00, e_type = 1\<rparr>,
                 \<lparr>e_base = 0x100000, e_length = 0x3000, e_type = 1\<rparr>]"

definition boot_pmm :: pmm where
  "boot_pmm = \<lparr>bitmap = (\<lambda>_. 0), free_count = 0, total_count = 0\<rparr>"

lemma sample_map_fits: "\<forall>e \<in> set sample_map. entry_fits e"
  by (simp add: sample_map_def entry_fits_def)

lemma sample_frames: "free_pages (pmm_init sample_map boot_pmm) = {256, 257, 258}"
proof -
  have "p \<in> free_pages (pmm_init sample_map boot_pmm) \<longleftrightarrow> 256 \<le> unat p \<and> unat p < 259" for p
    using pmm_init_free_iff [OF sample_map_fits, of "unat p" boot_pmm]
    by (auto simp: sample_map_def E820_USABLE_def free_pages_def word_less_nat_alt)
  moreover have "256 \<le> unat p \<and> unat p < 259 \<longleftrightarrow> p \<in> {256, 257, 258}" for p :: u32
    by (auto simp: word_unat_eq_iff)
  ultimately show ?thesis by blast
qed

theorem pmm_init_exact_witness:
  "page_is_free 258 (pmm_init sample_map boot_pmm) \<and>
   \<not> page_is_free 259 (pmm_init sample_map boot_pmm) \<and>
   \<not> page_is_free 3 (pmm_init sample_map boot_pmm)"
proof -
  from pmm_init_exact [OF sample_map_fits, THEN conjunct1, rule_format, of _ boot_pmm]
  have "n < 1048576 \<Longrightarrow> page_is_free (of_nat n) (pmm_init sample_map boot_pmm) \<longleftrightarrow>
    256 \<le> n \<and> (n < 159 \<or> 256 \<le> n \<and> n < 259)" for n
    by (simp add: sample_map_def E820_USABLE_def)
  from this [of 258] this [of 259] this [of 3] show ?thesis by simp
qed

text \<open>
  C32: on a ready allocator, \<open>pmm_alloc\<close> returns 0 and changes nothing when no page is
  free; otherwise it returns the address of the lowest free page (page-aligned, at or above
  1 MiB, not wrapped), marks exactly that page used and decrements the counter.
\<close>

theorem pmm_alloc_lowest:
  assumes "pmm_ready s"
  shows "(free_pages s = {} \<longrightarrow> pmm_alloc s = (0, s)) \<and>
         (free_pages s \<noteq> {} \<longrightarrow>
            (\<exists>p a t. pmm_alloc s = (a, t) \<and> p \<in> free_pages s \<and> (\<forall>q \<in> free_pages s. p \<le> q) \<and>
               unat a = unat p * 4096 \<and> 0x100000 \<le> a \<and> free_pages t = free_pages s - {p} \<and>
               unat (free_count t) = unat (free_count s) - 1 \<and> total_count t = total_count s \<and>
               pmm_ready t))"
proof (cases "free_pages s = {}")
  case True
  then show ?thesis by (simp add: pmm_alloc_fail)
next
  case False
  let ?p = "Min (free_pages s)"
  note m = Min_free_page [OF False]
  have "\<not> ?p < 256" using assms m(3) by (auto simp: pmm_ready_def)
  then have "0x100000 \<le> ?p * 4096" using m(2)
    by (simp add: word_le_nat_alt word_less_nat_alt page_addr_unat)
  moreover have "0 < unat (free_count s)"
    using assms False by (simp add: pmm_ready_def pmm_inv_def card_gt_0_iff)
  ultimately show ?thesis
    using False m pmm_alloc_ready [OF assms]
    by (intro conjI impI exI [of _ ?p] exI [of _ "?p * 4096"])
      (auto simp: pmm_alloc_ok page_addr_unat unat_decr32)
qed

theorem pmm_alloc_lowest_witness:
  "\<exists>a t. pmm_alloc (pmm_init sample_map boot_pmm) = (a, t) \<and> 0x100000 \<le> a \<and> pmm_ready t"
proof -
  from pmm_alloc_lowest [OF pmm_init_ready, of sample_map boot_pmm] show ?thesis
    by (auto simp: sample_frames)
qed

text \<open>
  as long as enough pages are free, successive calls of \<open>pmm_alloc\<close> never hand out
  the same frame twice: \<open>n\<close> calls return \<open>n\<close> distinct, non-null frames that were all
  free, and leave the other free frames untouched.
\<close>

lemma pmm_alloc_distinct:
  assumes "pmm_ready s" and "n \<le> card (free_pages s)"
    and "take_frames pmm_alloc n s = (as, t)"
  shows "distinct as \<and> length as = n \<and> 0 \<notin> set as \<and> set as \<subseteq> pmm_frames s \<and>
         pmm_frames t = pmm_frames s - set as"
proof -
  have "card (pmm_frames s) = card (free_pages s)"
    unfolding pmm_frames_def by (rule card_image) (rule page_addr_inj)
  then show ?thesis
    using pmm_frame.take_frames_distinct [of n s as t] pmm_frame.frames_nonnull [OF assms(1)] assms
    by auto
qed

text \<open>The calls a kernel makes after initialisation, in any order and with any addresses.\<close>

datatype pmm_call = Alloc_page | Free_page u32

fun pmm_step :: "pmm_call \<Rightarrow> pmm \<Rightarrow> pmm" where
  "pmm_step Alloc_page s = snd (pmm_alloc s)"
| "pmm_step (Free_page a) s = pmm_free a s"

lemma pmm_run_inv: "pmm_inv s \<Longrightarrow> pmm_inv (fold pmm_step calls s)"
proof (induction calls arbitrary: s)
  case (Cons c calls)
  have "pmm_inv (pmm_step c s)"
    using Cons.prems by (cases c) (auto intro: pmm_alloc_inv pmm_free_inv)
  then show ?case using Cons.IH by simp
qed simp

lemma pmm_run_ready:
  "pmm_ready s \<Longrightarrow> (\<forall>a. Free_page a \<in> set calls \<longrightarrow> 0x100000 \<le> a) \<Longrightarrow>
   pmm_ready (fold pmm_step calls s)"
proof (induction calls arbitrary: s)
  case (Cons c calls)
  have "pmm_ready (pmm_step c s)"
    using Cons.prems by (cases c) (auto intro: pmm_alloc_ready pmm_free_ready)
  then show ?case using Cons by simp
qed simp

lemma pmm_run_total: "total_count (fold pmm_step calls s) = total_count s"
proof (induction calls arbitrary: s)
  case (Cons c calls)
  have "total_count (pmm_step c s) = total_count s"
    by (cases c) (auto simp: pmm_alloc_def pmm_free_def Let_def split: option.splits)
  then show ?case using Cons by simp
qed simp

text \<open>
  C33: whatever the firmware map and whatever sequence of allocations and releases follows
  (releases of arbitrary, unaligned or already free addresses included), the free counter
  equals the number of clear bits in the bitmap and no call moves the total counter; if no
  release names an address below 1 MiB, the reserved first megabyte is never handed out.
\<close>

theorem pmm_counter_exact:
  "unat (pmm_free_pages (fold pmm_step calls (pmm_init es s))) =
     card (free_pages (fold pmm_step calls (pmm_init es s))) \<and>
   pmm_total_pages (fold pmm_step calls (pmm_init es s)) = pmm_total_pages (pmm_init es s) \<and>
   ((\<forall>a. Free_page a \<in> set calls \<longrightarrow> 0x100000 \<le> a) \<longrightarrow>
      (\<forall>p < 256. \<not> page_is_free p (fold pmm_step calls (pmm_init es s))))"
  using pmm_run_inv [OF pmm_init_inv] pmm_run_total pmm_run_ready [OF pmm_init_ready]
  by (auto simp: pmm_inv_def pmm_ready_def pmm_free_pages_def pmm_total_pages_def)

theorem pmm_counter_exact_witness:
  "let t = fold pmm_step [Alloc_page, Free_page 0x100000, Free_page 0x100000]
             (pmm_init sample_map boot_pmm)
   in \<not> page_is_free 255 t \<and> unat (pmm_free_pages t) = card (free_pages t)"
  using pmm_counter_exact
    [of "[Alloc_page, Free_page 0x100000, Free_page 0x100000]" sample_map boot_pmm]
  unfolding Let_def by simp

text \<open>
  releasing the page that was just allocated undoes the allocation (same free pages, same
  counter), and releasing an address again is harmless.
\<close>

lemma pmm_alloc_free_roundtrip:
  assumes "pmm_ready s" and "pmm_alloc s = (a, t)" and "a \<noteq> 0"
  shows "free_pages (pmm_free a t) = free_pages s \<and>
         free_count (pmm_free a t) = free_count s \<and>
         pmm_free a (pmm_free a t) = pmm_free a t"
proof -
  have ne: "free_pages s \<noteq> {}" using assms(2,3) by (auto simp: pmm_alloc_fail)
  note m = Min_free_page [OF ne]
  have a: "a div 4096 = Min (free_pages s)" and t: "free_pages t = free_pages s - {Min (free_pages s)}"
    using ne m assms(2) by (auto simp: pmm_alloc_ok)
  then have fp: "free_pages (pmm_free a t) = free_pages s"
    using m(1) by (auto simp: pmm_free_pages_eq)
  have "pmm_inv t" using pmm_alloc_inv [of s] assms by (simp add: pmm_ready_def)
  then have "pmm_inv (pmm_free a t)" by (rule pmm_free_inv)
  then have "unat (free_count (pmm_free a t)) = unat (free_count s)"
    using assms(1) fp by (simp add: pmm_inv_def pmm_ready_def)
  moreover have "page_is_free (a div 4096) (pmm_free a t)"
    using fp m(1) a by (auto simp: free_pages_def)
  then have "pmm_free a (pmm_free a t) = pmm_free a t"
    by (simp add: pmm_free_def [of a "pmm_free a t"] Let_def)
  ultimately show ?thesis using fp by (simp add: word_unat_eq_iff)
qed

text \<open>
  page 0 cannot be told from failure.  Releasing address 0 (or any address of the first
  page) on a ready allocator puts page 0 into the free set; the next \<open>pmm_alloc\<close> returns 0,
  the out-of-memory value, whatever other pages are free, and has taken page 0 again.
\<close>

lemma pmm_free_null_page:
  assumes "pmm_ready s" and "unat a < 4096" and "pmm_alloc (pmm_free a s) = (b, t)"
  shows "b = 0 \<and> free_pages t = free_pages s \<and> free_count t = free_count s"
proof -
  have "a div 4096 = 0" using assms(2) by (simp add: word_unat_eq_iff unat_div)
  then have fp: "free_pages (pmm_free a s) = insert 0 (free_pages s)"
    by (simp add: pmm_free_pages_eq)
  then have m: "Min (free_pages (pmm_free a s)) = 0" by (intro Min_eqI) auto
  have "0 \<notin> free_pages s" using assms(1) by (auto simp: pmm_ready_def free_pages_def)
  then have t: "free_pages t = free_pages s" "b = 0"
    using assms(3) fp m pmm_alloc_ok [of "pmm_free a s"] by auto
  have "pmm_inv t" using assms pmm_alloc_inv [OF pmm_free_inv, of s a] by (simp add: pmm_ready_def)
  then show ?thesis using t assms(1) by (simp add: pmm_inv_def pmm_ready_def word_unat_eq_iff)
qed

end
