(* ===== verification/Memory.thy ===== *)
theory Memory
  imports OS_Prelude
begin

text \<open>
  Kernel memory as the code sees it through pointers: a byte for every 32-bit address,
  with little-endian 32-bit loads and stores, and byte loops that fill and copy.  Addresses
  wrap at \<open>2 ^ 32\<close> as C pointers do; proofs move to natural-number addresses with \<open>wd\<close> and \<open>put\<close>.
\<close>

unbundle bit_operations_syntax

type_synonym memory = "u32 \<Rightarrow> u8"

named_theorems mem_simps \<open>loads after stores\<close>

section \<open>Loads and stores\<close>

definition ld32 :: "memory \<Rightarrow> u32 \<Rightarrow> u32" where
  "ld32 m a = ucast (m a) OR push_bit 8 (ucast (m (a + 1))) OR
              push_bit 16 (ucast (m (a + 2))) OR push_bit 24 (ucast (m (a + 3)))"

definition st32 :: "u32 \<Rightarrow> u32 \<Rightarrow> memory \<Rightarrow> memory" where
  "st32 a v m = m(a := ucast v, a + 1 := ucast (drop_bit 8 v),
                  a + 2 := ucast (drop_bit 16 v), a + 3 := ucast (drop_bit 24 v))"

definition fill_bytes :: "u32 \<Rightarrow> u8 \<Rightarrow> nat \<Rightarrow> memory \<Rightarrow> memory" where
  "fill_bytes dst v n m = for_range 0 n (\<lambda>i m. m(dst + of_nat i := v)) m"

definition copy_bytes :: "u32 \<Rightarrow> u32 \<Rightarrow> nat \<Rightarrow> memory \<Rightarrow> memory" where
  "copy_bytes dst src n m = for_range 0 n (\<lambda>i m. m(dst + of_nat i := m (src + of_nat i))) m"

text \<open>The word at address \<open>x\<close>, and the store that changes it.\<close>

definition wd :: "memory \<Rightarrow> nat \<Rightarrow> u32" where
  "wd m x = ld32 m (of_nat x)"

definition put :: "nat \<Rightarrow> u32 \<Rightarrow> memory \<Rightarrow> memory" where
  "put x v m = st32 (of_nat x) v m"

section \<open>Little-endian words\<close>

lemma byte_bit:
  "bit (push_bit k (ucast (ucast (drop_bit k v) :: u8) :: u32)) n \<longleftrightarrow>
     k \<le> n \<and> n < k + 8 \<and> n < 32 \<and> bit (v::u32) n"
  by (auto simp: bit_simps)

lemma bytes_of_word:
  "(ucast (ucast v :: u8) :: u32) OR push_bit 8 (ucast (ucast (drop_bit 8 v) :: u8)) OR
   push_bit 16 (ucast (ucast (drop_bit 16 v) :: u8)) OR
   push_bit 24 (ucast (ucast (drop_bit 24 v) :: u8)) = (v :: u32)"
proof (rule bit_word_eqI)
  fix n assume "n < LENGTH(32)"
  then have "n < 8 \<or> 8 \<le> n \<and> n < 16 \<or> 16 \<le> n \<and> n < 24 \<or> 24 \<le> n \<and> n < 32" by auto
  then show "bit ((ucast (ucast v :: u8) :: u32) OR push_bit 8 (ucast (ucast (drop_bit 8 v) :: u8)) OR
     push_bit 16 (ucast (ucast (drop_bit 16 v) :: u8)) OR
     push_bit 24 (ucast (ucast (drop_bit 24 v) :: u8))) n = bit v n"
    unfolding bit_or_iff byte_bit using byte_bit [of 0 v n]
    by (elim disjE) simp_all
qed
lemma small_offsets_distinct:
  "(a :: u32) + 1 \<noteq> a" "a \<noteq> a + 1" "a + 2 \<noteq> a" "a \<noteq> a + 2" "a + 3 \<noteq> a" "a \<noteq> a + 3"
  "a + 2 \<noteq> a + 1" "a + 1 \<noteq> a + 2" "a + 3 \<noteq> a + 1" "a + 1 \<noteq> a + 3" "a + 3 \<noteq> a + 2" "a + 2 \<noteq> a + 3"
  by simp_all

lemma ld32_st32_same [simp, mem_simps]: "ld32 (st32 a v m) a = v"
  unfolding ld32_def st32_def by (simp add: small_offsets_distinct bytes_of_word del: add_left_cancel)

lemma ld32_cong:
  "m a = m' a \<Longrightarrow> m (a + 1) = m' (a + 1) \<Longrightarrow> m (a + 2) = m' (a + 2) \<Longrightarrow> m (a + 3) = m' (a + 3) \<Longrightarrow>
   ld32 m a = ld32 m' a"
  by (simp add: ld32_def)

lemma st32_elsewhere:
  "unat (x - a) \<ge> 4 \<Longrightarrow> st32 a v m x = m x"
  by (auto simp: st32_def)

section \<open>Natural-number addresses\<close>

lemma unat_diff_of_nat:
  assumes "y < 4294967296" and "x < 4294967296"
  shows "unat (of_nat y - of_nat x :: u32) = (if x \<le> y then y - x else y + 4294967296 - x)"
  using assms by (simp add: unat_sub_if')

lemma put_elsewhere:
  assumes "y < 4294967296" and "x + 4 \<le> 4294967296" and "y < x \<or> x + 4 \<le> y"
  shows "put x v m (of_nat y) = m (of_nat y)"
proof -
  have "unat (of_nat y - of_nat x :: u32) \<ge> 4"
    using assms by (subst unat_diff_of_nat) auto
  then show ?thesis by (simp add: put_def st32_elsewhere)
qed

lemma wd_put_same [simp, mem_simps]: "wd (put x v m) x = v"
  by (simp add: wd_def put_def)

lemma wd_put_other [mem_simps]:
  assumes "x + 4 \<le> y \<or> y + 4 \<le> x" and "x + 4 \<le> 4294967296" and "y + 4 \<le> 4294967296"
  shows "wd (put x v m) y = wd m y"
proof -
  have "put x v m (of_nat (y + k)) = m (of_nat (y + k))" if "k < 4" for k
    using assms that by (intro put_elsewhere) auto
  from this [of 0] this [of 1] this [of 2] this [of 3] show ?thesis
    unfolding wd_def by (intro ld32_cong) (simp_all add: add.commute)
qed

lemma wd_cong:
  assumes "\<And>k. k < 4 \<Longrightarrow> m (of_nat (y + k)) = m' (of_nat (y + k))"
  shows "wd m y = wd m' y"
  using assms [of 0] assms [of 1] assms [of 2] assms [of 3]
  unfolding wd_def by (intro ld32_cong) (simp_all add: add.commute)

section \<open>Byte loops\<close>

lemma offset_eq_iff:
  assumes "k < 4294967296"
  shows "x = (d :: u32) + of_nat k \<longleftrightarrow> unat (x - d) = k"
proof
  assume "x = d + of_nat k"
  then show "unat (x - d) = k" using assms by simp
next
  assume "unat (x - d) = k"
  then have "of_nat k = x - d" by auto
  then show "x = d + of_nat k" by simp
qed

lemma fill_bytes_byte:
  assumes "n \<le> 4294967296"
  shows "fill_bytes dst v n m x = (if unat (x - dst) < n then v else m x)"
proof -
  let ?P = "\<lambda>k t. \<forall>x. t x = (if unat (x - dst) < k then v else m x)"
  have step: "?P (Suc k) (t(dst + of_nat k := v))" if "k < n" "?P k t" for k t
  proof
    fix x
    have "x = dst + of_nat k \<longleftrightarrow> unat (x - dst) = k"
      using that(1) assms by (intro offset_eq_iff) simp
    then show "(t(dst + of_nat k := v)) x = (if unat (x - dst) < Suc k then v else m x)"
      using that(2) by auto
  qed
  have "?P n (fill_bytes dst v n m)"
    unfolding fill_bytes_def by (rule for_range_invariant [where P = ?P]) (use step in auto)
  then show ?thesis by blast
qed

text \<open>The copy loop reads what it has not overwritten when the two ranges are disjoint.\<close>

lemma copy_bytes_byte:
  assumes "n \<le> 4294967296"
    and disj: "\<And>i. i < n \<Longrightarrow> n \<le> unat (src + of_nat i - dst)"
  shows "copy_bytes dst src n m x = (if unat (x - dst) < n then m (src + (x - dst)) else m x)"
proof -
  let ?P = "\<lambda>k t. \<forall>x. t x = (if unat (x - dst) < k then m (src + (x - dst)) else m x)"
  have step: "?P (Suc k) (t(dst + of_nat k := t (src + of_nat k)))" if "k < n" "?P k t" for k t
  proof
    fix x
    have "x = dst + of_nat k \<longleftrightarrow> unat (x - dst) = k"
      using that(1) assms by (intro offset_eq_iff) simp
    moreover have "t (src + of_nat k) = m (src + of_nat k)"
      using that disj [of k] by auto
    ultimately show "(t(dst + of_nat k := t (src + of_nat k))) x =
        (if unat (x - dst) < Suc k then m (src + (x - dst)) else m x)"
      using that(2) by auto
  qed
  have "?P n (copy_bytes dst src n m)"
    unfolding copy_bytes_def by (rule for_range_invariant [where P = ?P]) (use step in auto)
  then show ?thesis by blast
qed

lemma wd_fill_bytes:
  assumes "n \<le> 4294967296" and "\<And>k. k < 4 \<Longrightarrow> n \<le> unat (of_nat (y + k) - dst)"
  shows "wd (fill_bytes dst v n m) y = wd m y"
proof (rule wd_cong)
  fix k :: nat assume "k < 4"
  from assms(2) [OF this] show "fill_bytes dst v n m (of_nat (y + k)) = m (of_nat (y + k))"
    using assms(1) by (simp add: fill_bytes_byte)
qed

end
