(* ===== verification/Kheap.thy ===== *)
theory Kheap
  imports Memory
begin

text \<open>
  The kernel heap, \<^verbatim>\<open>src/mem/kheap.c\<close>: a first-fit allocator over one 256 KiB
  slab.  Block headers live in kernel memory (20 bytes: magic, size, used, prev, next), and
  the model reads and writes them there.  The address of the slab \<open>heap_storage\<close> is
  decided by the linker and is an argument of \<open>kheap_init\<close>.  Walking the block list may
  never end on a corrupted list, so the loops are partial functions: \<open>None\<close> is
  "does not return", \<open>Some (Halted msg)\<close> is \<^verbatim>\<open>kheap_panic(msg)\<close>.
\<close>

unbundle bit_operations_syntax

section \<open>Blocks in memory\<close>

definition KHEAP_BYTES :: u32 where
  "KHEAP_BYTES = 256 * 1024"

definition KHEAP_MAGIC :: u32 where
  "KHEAP_MAGIC = 0xC0FFEE42"

definition KHEAP_ALIGN :: u32 where
  "KHEAP_ALIGN = 8"

definition HDR_SIZE :: u32 where
  "HDR_SIZE = 20"

definition b_magic :: "memory \<Rightarrow> u32 \<Rightarrow> u32" where
  "b_magic m b = ld32 m b"

definition b_size :: "memory \<Rightarrow> u32 \<Rightarrow> u32" where
  "b_size m b = ld32 m (b + 4)"

definition b_used :: "memory \<Rightarrow> u32 \<Rightarrow> u32" where
  "b_used m b = ld32 m (b + 8)"

definition b_prev :: "memory \<Rightarrow> u32 \<Rightarrow> u32" where
  "b_prev m b = ld32 m (b + 12)"

definition b_next :: "memory \<Rightarrow> u32 \<Rightarrow> u32" where
  "b_next m b = ld32 m (b + 16)"

definition set_magic :: "u32 \<Rightarrow> u32 \<Rightarrow> memory \<Rightarrow> memory" where
  "set_magic b v m = st32 b v m"

definition set_size :: "u32 \<Rightarrow> u32 \<Rightarrow> memory \<Rightarrow> memory" where
  "set_size b v m = st32 (b + 4) v m"

definition set_used :: "u32 \<Rightarrow> u32 \<Rightarrow> memory \<Rightarrow> memory" where
  "set_used b v m = st32 (b + 8) v m"

definition set_prev :: "u32 \<Rightarrow> u32 \<Rightarrow> memory \<Rightarrow> memory" where
  "set_prev b v m = st32 (b + 12) v m"

definition set_next :: "u32 \<Rightarrow> u32 \<Rightarrow> memory \<Rightarrow> memory" where
  "set_next b v m = st32 (b + 16) v m"

record kheap =
  mem :: memory
  head :: u32

section \<open>Operations\<close>

definition align_up :: "u32 \<Rightarrow> u32 \<Rightarrow> u32" where
  "align_up v a = (v + a - 1) AND NOT (a - 1)"

definition kheap_init :: "u32 \<Rightarrow> kheap \<Rightarrow> kheap" where
  "kheap_init heap_storage s =
     (let h = heap_storage;
          m = set_magic h KHEAP_MAGIC (mem s);
          m = set_size h (KHEAP_BYTES - HDR_SIZE) m;
          m = set_used h 0 m;
          m = set_prev h 0 m;
          m = set_next h 0 m
      in s\<lparr>mem := m, head := h\<rparr>)"

text \<open>The part of \<^verbatim>\<open>kmalloc\<close> that runs when block \<open>b\<close> is chosen: split and mark.\<close>

definition take_block :: "u32 \<Rightarrow> u32 \<Rightarrow> memory \<Rightarrow> memory" where
  "take_block sz b m =
     (let leftover = b_size m b - sz;
          m = (if leftover \<ge> HDR_SIZE + KHEAP_ALIGN
               then (let n = b + HDR_SIZE + sz;
                         m = set_magic n KHEAP_MAGIC m;
                         m = set_size n (leftover - HDR_SIZE) m;
                         m = set_used n 0 m;
                         m = set_prev n b m;
                         m = set_next n (b_next m b) m;
                         m = (if b_next m b \<noteq> 0 then set_prev (b_next m b) n m else m);
                         m = set_next b n m
                     in set_size b sz m)
               else m)
      in set_used b 1 m)"

partial_function (option) kmalloc_loop :: "u32 \<Rightarrow> u32 \<Rightarrow> kheap \<Rightarrow> (u32 \<times> kheap) outcome option" where
  "kmalloc_loop sz b s =
     (if b = 0 then Some (Done (0, s))
      else if b_magic (mem s) b \<noteq> KHEAP_MAGIC then Some (Halted ''corrupted block'')
      else if b_used (mem s) b \<noteq> 0 then kmalloc_loop sz (b_next (mem s) b) s
      else if b_size (mem s) b < sz then kmalloc_loop sz (b_next (mem s) b) s
      else Some (Done (b + HDR_SIZE, s\<lparr>mem := take_block sz b (mem s)\<rparr>)))"

definition kmalloc :: "u32 \<Rightarrow> kheap \<Rightarrow> (u32 \<times> kheap) outcome option" where
  "kmalloc sz s =
     (if sz = 0 then Some (Done (0, s))
      else kmalloc_loop (align_up sz KHEAP_ALIGN) (head s) s)"

definition kcalloc :: "u32 \<Rightarrow> u32 \<Rightarrow> kheap \<Rightarrow> (u32 \<times> kheap) outcome option" where
  "kcalloc n sz s =
     (let total = n * sz in
      case kmalloc total s of
        None \<Rightarrow> None
      | Some (Halted e) \<Rightarrow> Some (Halted e)
      | Some (Done (p, s)) \<Rightarrow>
          if p = 0 then Some (Done (p, s))
          else Some (Done (p, s\<lparr>mem := for_range 0 (unat total)
                                         (\<lambda>i m. m(p + of_nat i := 0)) (mem s)\<rparr>)))"

text \<open>The two merges of \<^verbatim>\<open>kfree\<close>: block \<open>b\<close> with its free successor, then with its free predecessor.\<close>

definition coalesce_next :: "u32 \<Rightarrow> memory \<Rightarrow> memory" where
  "coalesce_next b m =
     (if b_next m b \<noteq> 0 \<and> b_used m (b_next m b) = 0
      then (let n = b_next m b;
                m = set_size b (b_size m b + (HDR_SIZE + b_size m n)) m;
                m = set_next b (b_next m n) m;
                m = (if b_next m n \<noteq> 0 then set_prev (b_next m n) b m else m)
            in set_magic n 0 m)
      else m)"

definition coalesce_prev :: "u32 \<Rightarrow> memory \<Rightarrow> memory" where
  "coalesce_prev b m =
     (if b_prev m b \<noteq> 0 \<and> b_used m (b_prev m b) = 0
      then (let p = b_prev m b;
                m = set_size p (b_size m p + (HDR_SIZE + b_size m b)) m;
                m = set_next p (b_next m b) m;
                m = (if b_next m b \<noteq> 0 then set_prev (b_next m b) p m else m)
            in set_magic b 0 m)
      else m)"

definition kfree :: "u32 \<Rightarrow> kheap \<Rightarrow> kheap outcome" where
  "kfree ptr s =
     (if ptr = 0 then Done s
      else
        let b = ptr - HDR_SIZE; m = mem s in
        if b_magic m b \<noteq> KHEAP_MAGIC then Halted ''kfree: bad pointer''
        else if b_used m b = 0 then Halted ''kfree: double free''
        else Done (s\<lparr>mem := coalesce_prev b (coalesce_next b (set_used b 0 m))\<rparr>))"

record kheap_stats =
  total_bytes :: u32
  used_bytes :: u32
  free_bytes :: u32
  blocks_total :: u32
  blocks_used :: u32
  blocks_free :: u32
  largest_free :: u32

definition count_block :: "memory \<Rightarrow> u32 \<Rightarrow> kheap_stats \<Rightarrow> kheap_stats" where
  "count_block m b st =
     (let st = st\<lparr>blocks_total := blocks_total st + 1\<rparr> in
      if b_used m b \<noteq> 0
      then st\<lparr>used_bytes := used_bytes st + b_size m b, blocks_used := blocks_used st + 1\<rparr>
      else let st = st\<lparr>free_bytes := free_bytes st + b_size m b, blocks_free := blocks_free st + 1\<rparr>
           in if b_size m b > largest_free st then st\<lparr>largest_free := b_size m b\<rparr> else st)"

partial_function (option) stats_loop :: "memory \<Rightarrow> u32 \<Rightarrow> kheap_stats \<Rightarrow> kheap_stats outcome option" where
  "stats_loop m b st =
     (if b = 0 then Some (Done st)
      else if b_magic m b \<noteq> KHEAP_MAGIC then Some (Halted ''stats: corruption'')
      else stats_loop m (b_next m b) (count_block m b st))"

definition kheap_get_stats :: "kheap \<Rightarrow> kheap_stats outcome option" where
  "kheap_get_stats s =
     stats_loop (mem s) (head s)
       \<lparr>total_bytes = KHEAP_BYTES, used_bytes = 0, free_bytes = 0,
        blocks_total = 0, blocks_used = 0, blocks_free = 0, largest_free = 0\<rparr>"

end
