(* ===== verification/Kheap_Layout.thy ===== *)
theory Kheap_Layout
  imports Kheap
begin

text \<open>
  The block list of the kernel heap as it lies in memory.  \<open>seg m p a bs e\<close> says that
  from address \<open>a\<close> on, \<open>m\<close> holds the headers of the blocks \<open>bs\<close> (payload size, in use)
  back to back, doubly linked, with \<open>p\<close> before the first and \<open>e\<close> after the last.  The lemmas
  show what splitting (\<open>take_block\<close>) and merging (\<open>coalesce_next\<close>, \<open>coalesce_prev\<close>) do to such a
  list, and that they write nothing but headers.
\<close>

unbundle bit_operations_syntax

section \<open>Segments\<close>

type_synonym ablock = "nat \<times> bool"

fun span :: "nat \<Rightarrow> ablock list \<Rightarrow> nat" where
  "span a [] = a"
| "span a (b # bs) = span (a + 20 + fst b) bs"

fun last_ptr :: "u32 \<Rightarrow> nat \<Rightarrow> ablock list \<Rightarrow> u32" where
  "last_ptr p a [] = p"
| "last_ptr p a (b # bs) = last_ptr (of_nat a) (a + 20 + fst b) bs"

fun seg :: "memory \<Rightarrow> u32 \<Rightarrow> nat \<Rightarrow> ablock list \<Rightarrow> u32 \<Rightarrow> bool" where
  "seg m p a [] e \<longleftrightarrow> True"
| "seg m p a (b # bs) e \<longleftrightarrow>
     wd m a = KHEAP_MAGIC \<and> wd m (a + 4) = of_nat (fst b) \<and>
     wd m (a + 8) = (if snd b then 1 else 0) \<and> wd m (a + 12) = p \<and>
     wd m (a + 16) = (if bs = [] then e else of_nat (a + 20 + fst b)) \<and>
     seg m (of_nat a) (a + 20 + fst b) bs e"

fun hdr_bytes :: "nat \<Rightarrow> ablock list \<Rightarrow> nat set" where
  "hdr_bytes a [] = {}"
| "hdr_bytes a (b # bs) = {a ..< a + 20} \<union> hdr_bytes (a + 20 + fst b) bs"

definition carve :: "nat \<Rightarrow> nat \<Rightarrow> ablock list" where
  "carve n z = (if z - n \<ge> 28 then [(n, True), (z - n - 20, False)] else [(z, True)])"

fun ff_alloc :: "nat \<Rightarrow> nat \<Rightarrow> ablock list \<Rightarrow> (nat \<times> ablock list) option" where
  "ff_alloc n a [] = None"
| "ff_alloc n a ((z, u) # bs) =
     (if \<not> u \<and> n \<le> z then Some (a + 20, carve n z @ bs)
      else map_option (\<lambda>(q, bs'). (q, (z, u) # bs')) (ff_alloc n (a + 20 + z) bs))"

definition absorb :: "nat \<Rightarrow> nat \<Rightarrow> memory \<Rightarrow> memory" where
  "absorb b n m =
     (let m = put (b + 4) (wd m (b + 4) + (HDR_SIZE + wd m (n + 4))) m;
          m = put (b + 16) (wd m (n + 16)) m;
          m = (if wd m (n + 16) \<noteq> 0 then set_prev (wd m (n + 16)) (of_nat b) m else m)
      in put n 0 m)"

fun join :: "ablock list \<Rightarrow> ablock list" where
  "join [] = []"
| "join [b] = [b]"
| "join (b # c # bs) =
     (if \<not> snd b \<and> \<not> snd c then join ((fst b + 20 + fst c, False) # bs) else b # join (c # bs))"

definition coalesced :: "ablock list \<Rightarrow> bool" where
  "coalesced bs \<longleftrightarrow> successively (\<lambda>b c. snd b \<or> snd c) bs"

lemma hdr_nat:
  "b_magic m (of_nat a) = wd m a" "b_size m (of_nat a) = wd m (a + 4)"
  "b_used m (of_nat a) = wd m (a + 8)" "b_prev m (of_nat a) = wd m (a + 12)"
  "b_next m (of_nat a) = wd m (a + 16)"
  "set_magic (of_nat a) v m = put a v m" "set_size (of_nat a) v m = put (a + 4) v m"
  "set_used (of_nat a) v m = put (a + 8) v m" "set_prev (of_nat a) v m = put (a + 12) v m"
  "set_next (of_nat a) v m = put (a + 16) v m"
  by (simp_all add: b_magic_def b_size_def b_used_def b_prev_def b_next_def wd_def
      set_magic_def set_size_def set_used_def set_prev_def set_next_def put_def add.commute)

lemma span_ge: "a \<le> span a bs"
  by (induction bs arbitrary: a) (auto, metis add.assoc le_add1 le_trans)

lemma span_ge_hdr: "bs \<noteq> [] \<Longrightarrow> a + 20 \<le> span a bs"
  by (cases bs) (auto intro: order_trans [OF _ span_ge])

lemma span_append [simp]: "span a (xs @ ys) = span (span a xs) ys"
  by (induction xs arbitrary: a) auto

lemma span_sum: "span a bs = a + sum_list (map (\<lambda>b. 20 + fst b) bs)"
  by (induction bs arbitrary: a) auto

lemma hdr_bytes_bounds: "y \<in> hdr_bytes a bs \<Longrightarrow> a \<le> y \<and> y < span a bs"
proof (induction bs arbitrary: a)
  case (Cons b bs)
  then show ?case using span_ge [of "a + 20 + fst b" bs] by fastforce
qed simp

lemma hdr_bytes_append: "hdr_bytes a (xs @ ys) = hdr_bytes a xs \<union> hdr_bytes (span a xs) ys"
  by (induction xs arbitrary: a) auto

lemma seg_append:
  "seg m p a (xs @ y # ys) e \<longleftrightarrow>
   seg m p a xs (of_nat (span a xs)) \<and> seg m (last_ptr p a xs) (span a xs) (y # ys) e"
  by (induction xs arbitrary: p a) (auto simp: Cons_eq_append_conv split: if_splits)

lemma seg_frame:
  assumes "\<And>y. y \<in> hdr_bytes a bs \<Longrightarrow> m' (of_nat y) = m (of_nat y)"
  shows "seg m' p a bs e = seg m p a bs e"
  using assms
proof (induction bs arbitrary: p a)
  case (Cons b bs)
  have w: "wd m' (a + k) = wd m (a + k)" if "k \<le> 16" for k
  proof (rule wd_cong)
    fix j :: nat assume "j < 4"
    then show "m' (of_nat (a + k + j)) = m (of_nat (a + k + j))"
      using that by (intro Cons.prems) auto
  qed
  have "wd m' a = wd m a" using w [of 0] by simp
  then show ?case using w Cons by simp
qed simp

lemma seg_put:
  assumes "x + 4 \<le> a \<or> span a bs \<le> x" and "x + 4 \<le> 4294967296" and "span a bs \<le> 4294967296"
  shows "seg (put x v m) p a bs e = seg m p a bs e"
proof (rule seg_frame)
  fix y assume "y \<in> hdr_bytes a bs"
  from hdr_bytes_bounds [OF this] show "put x v m (of_nat y) = m (of_nat y)"
    using assms by (intro put_elsewhere) auto
qed

lemma seg_put_prev:
  assumes "seg m p a bs e" and "bs \<noteq> []" and "span a bs < 4294967296"
  shows "seg (put (a + 12) q m) q a bs e"
proof (cases bs)
  case (Cons b cs)
  have "a + 20 + fst b \<le> span (a + 20 + fst b) cs" by (rule span_ge)
  then show ?thesis using assms Cons by (simp add: mem_simps seg_put)
qed (use assms in simp)

lemma of_nat_nonzero: "0 < a \<Longrightarrow> a < 4294967296 \<Longrightarrow> (of_nat a :: u32) \<noteq> 0"
  by (metis less_numeral_extra(3) unat_0 unat_of_nat32)

lemma take_block_nat:
  assumes "wd m (a + 4) = of_nat z" and "n \<le> z" and "z < 4294967296"
  shows "take_block (of_nat n) (of_nat a) m =
    put (a + 8) 1
      (if z - n \<ge> 28
       then (let k = a + 20 + n;
                 m = put k KHEAP_MAGIC m;
                 m = put (k + 4) (of_nat (z - n - 20)) m;
                 m = put (k + 8) 0 m;
                 m = put (k + 12) (of_nat a) m;
                 m = put (k + 16) (wd m (a + 16)) m;
                 m = (if wd m (a + 16) \<noteq> 0 then set_prev (wd m (a + 16)) (of_nat k) m else m);
                 m = put (a + 16) (of_nat k) m
             in put (a + 4) (of_nat n) m)
       else m)"
proof -
  have l: "(of_nat z - of_nat n :: u32) = of_nat (z - n)" using assms by simp
  have c: "(of_nat (z - n) :: u32) \<ge> HDR_SIZE + KHEAP_ALIGN \<longleftrightarrow> z - n \<ge> 28"
    using assms by (simp add: word_le_nat_alt HDR_SIZE_def KHEAP_ALIGN_def del: of_nat_diff)
  have k: "of_nat a + HDR_SIZE + of_nat n = (of_nat (a + 20 + n) :: u32)"
    by (simp add: HDR_SIZE_def)
  have s: "z - n \<ge> 28 \<Longrightarrow> of_nat (z - n) - HDR_SIZE = (of_nat (z - n - 20) :: u32)"
    by (simp add: HDR_SIZE_def of_nat_diff)
  show ?thesis
    unfolding take_block_def Let_def hdr_nat assms(1) l c k
    by (simp add: hdr_nat s del: of_nat_add of_nat_diff)
qed


lemma take_block_seg:
  assumes S: "seg m p a ((z, False) # ys) 0" and n: "n \<le> z"
    and B: "span a ((z, False) # ys) < 4294967296" and "0 < a"
  shows "seg (take_block (of_nat n) (of_nat a) m) p a (carve n z @ ys) 0"
proof -
  have ge: "a + 20 + z \<le> span (a + 20 + z) ys" by (rule span_ge)
  have z: "a + 20 + z < 4294967296" using B ge by simp
  have sz: "wd m (a + 4) = of_nat z" using S by simp
  note tb = take_block_nat [OF sz n, unfolded Let_def]
  show ?thesis
  proof (cases "z - n \<ge> 28")
    case False
    then show ?thesis using S z B ge
      by (simp add: tb carve_def mem_simps seg_put)
  next
    case split: True
    let ?k = "a + 20 + n" and ?c = "a + 20 + z"
    show ?thesis
    proof (cases "ys = []")
      case True
      then show ?thesis using S z split n
        by (simp add: tb carve_def mem_simps del: of_nat_add of_nat_diff)
    next
      case False
      have nx: "wd m (a + 16) = of_nat ?c" using S False by simp
      have nz: "(of_nat ?c :: u32) \<noteq> 0" using z by (intro of_nat_nonzero) auto
      let ?m = "put (?k + 16) (of_nat ?c) (put (?k + 12) (of_nat a) (put (?k + 8) 0
                 (put (?k + 4) (of_nat (z - n - 20)) (put ?k KHEAP_MAGIC m))))"
      have zn: "n + 28 \<le> z" using split by simp
      have hd: "?c + 20 \<le> span ?c ys" using False by (rule span_ge_hdr)
      have "seg ?m (of_nat a) ?c ys 0"
        using S B zn ge by (simp add: seg_put)
      then have tl: "seg (put (?c + 12) (of_nat ?k) ?m) (of_nat ?k) ?c ys 0"
        using False B by (intro seg_put_prev) auto
      have tb': "take_block (of_nat n) (of_nat a) m =
          put (a + 8) 1 (put (a + 4) (of_nat n) (put (a + 16) (of_nat ?k)
            (put (?c + 12) (of_nat ?k) ?m)))"
        using z split nz by (simp add: tb nx hdr_nat mem_simps del: of_nat_add of_nat_diff)
      have cv: "carve n z = [(n, True), (z - n - 20, False)]" using split by (simp add: carve_def)
      have e: "a + 20 + n + 20 + (z - n - 20) = ?c" using zn by simp
      show ?thesis
        unfolding tb' cv append_Cons append_Nil seg.simps fst_conv snd_conv e
        using S z zn False tl B hd
        by (simp add: mem_simps seg_put del: of_nat_add of_nat_diff)
    qed
  qed
qed


lemma take_block_elsewhere:
  assumes S: "seg m p a ((z, False) # ys) 0" and n: "n \<le> z"
    and B: "span a ((z, False) # ys) < 4294967296" and "0 < a"
    and y: "y < a \<or> a + 20 + z \<le> y" "ys \<noteq> [] \<Longrightarrow> y < a + 20 + z \<or> a + 20 + z + 20 \<le> y"
      "y < 4294967296"
  shows "take_block (of_nat n) (of_nat a) m (of_nat y) = m (of_nat y)"
proof -
  have ge: "a + 20 + z \<le> span (a + 20 + z) ys" by (rule span_ge)
  have z: "a + 20 + z < 4294967296" using B ge by simp
  have sz: "wd m (a + 4) = of_nat z" using S by simp
  note tb = take_block_nat [OF sz n, unfolded Let_def]
  show ?thesis
  proof (cases "z - n \<ge> 28")
    case False
    then show ?thesis using y z by (auto simp: tb put_elsewhere)
  next
    case split: True
    then have zn: "n + 28 \<le> z" by simp
    show ?thesis
    proof (cases "ys = []")
      case True
      then have "wd m (a + 16) = 0" using S by simp
      then show ?thesis using y z zn True
        by (auto simp: tb put_elsewhere mem_simps simp del: of_nat_add of_nat_diff)
    next
      case False
      have nx: "wd m (a + 16) = of_nat (a + 20 + z)" using S False by simp
      have nz: "(of_nat (a + 20 + z) :: u32) \<noteq> 0" using z by (intro of_nat_nonzero) auto
      have "a + 20 + z + 20 \<le> span (a + 20 + z) ys" using False by (rule span_ge_hdr)
      then show ?thesis using y z zn False nz B
        by (auto simp: tb nx hdr_nat put_elsewhere mem_simps simp del: of_nat_add of_nat_diff)
    qed
  qed
qed

lemma ff_alloc_Some:
  assumes "ff_alloc n a bs = Some (q, bs')"
  shows "\<exists>xs z ys. bs = xs @ (z, False) # ys \<and> q = span a xs + 20 \<and> n \<le> z \<and>
            bs' = xs @ carve n z @ ys \<and> (\<forall>b \<in> set xs. snd b \<or> fst b < n)"
  using assms
proof (induction n a bs arbitrary: q bs' rule: ff_alloc.induct)
  case (2 n a z u bs)
  show ?case
  proof (cases "\<not> u \<and> n \<le> z")
    case True
    then show ?thesis using "2.prems" by (intro exI [of _ "[]"]) auto
  next
    case False
    then obtain cs where "ff_alloc n (a + 20 + z) bs = Some (q, cs)" "bs' = (z, u) # cs"
      using "2.prems" by (auto split: if_splits)
    with "2.IH" [OF False this(1)] obtain xs z' ys where
      "bs = xs @ (z', False) # ys" "q = span (a + 20 + z) xs + 20" "n \<le> z'"
      "bs' = (z, u) # xs @ carve n z' @ ys" "\<forall>b \<in> set xs. snd b \<or> fst b < n"
      by blast
    then show ?thesis using False by (intro exI [of _ "(z, u) # xs"]) auto
  qed
qed simp

lemma ff_alloc_None:
  "ff_alloc n a bs = None \<longleftrightarrow> (\<forall>b \<in> set bs. snd b \<or> fst b < n)"
  by (induction n a bs rule: ff_alloc.induct) auto

lemma kmalloc_loop_spec:
  assumes "seg (mem s) p a bs 0" and "0 < a" and "span a bs < 4294967296" and "n < 4294967296"
  shows "kmalloc_loop (of_nat n) (if bs = [] then 0 else of_nat a) s =
    (case ff_alloc n a bs of
       None \<Rightarrow> Some (Done (0, s))
     | Some (q, bs') \<Rightarrow>
         Some (Done (of_nat q, s\<lparr>mem := take_block (of_nat n) (of_nat (q - 20)) (mem s)\<rparr>)))"
  using assms
proof (induction n a bs arbitrary: p rule: ff_alloc.induct)
  case (1 n a)
  then show ?case by (simp add: kmalloc_loop.simps)
next
  case (2 n a z u bs)
  have ge: "a + 20 + z \<le> span (a + 20 + z) bs" by (rule span_ge)
  then have lt: "a + 20 + z < 4294967296" using "2.prems" by simp
  then have nz: "(of_nat a :: u32) \<noteq> 0" using "2.prems" by (intro of_nat_nonzero) auto
  have step: "kmalloc_loop (of_nat n) (of_nat a) s =
      (if u \<or> z < n then kmalloc_loop (of_nat n) (wd (mem s) (a + 16)) s
       else Some (Done (of_nat (a + 20), s\<lparr>mem := take_block (of_nat n) (of_nat a) (mem s)\<rparr>)))"
    using "2.prems" nz lt
    by (subst kmalloc_loop.simps) (auto simp: hdr_nat HDR_SIZE_def word_less_nat_alt)
  show ?case
  proof (cases "\<not> u \<and> n \<le> z")
    case True
    then show ?thesis by (simp add: step)
  next
    case False
    have "kmalloc_loop (of_nat n) (wd (mem s) (a + 16)) s =
        (case ff_alloc n (a + 20 + z) bs of None \<Rightarrow> Some (Done (0, s))
         | Some (q, bs') \<Rightarrow> Some (Done (of_nat q,
             s\<lparr>mem := take_block (of_nat n) (of_nat (q - 20)) (mem s)\<rparr>)))"
      using "2.IH" [OF False, of "of_nat a"] "2.prems"
      by (cases "bs = []") (simp_all del: of_nat_add)
    then show ?thesis using False by (auto simp: step split: option.splits)
  qed
qed

lemma absorb_nat:
  assumes S: "seg m p a ((z, u) # (z2, u2) # ys) 0"
    and B: "span a ((z, u) # (z2, u2) # ys) < 4294967296"
    and n: "n = a + 20 + z" and c: "c = n + 20 + z2"
  shows "absorb a n m =
    (let m' = put (a + 16) (if ys = [] then 0 else of_nat c) (put (a + 4) (of_nat (z + 20 + z2)) m)
     in put n 0 (if ys = [] then m' else put (c + 12) (of_nat a) m'))"
proof -
  have S': "wd m (a + 4) = of_nat z" "wd m (n + 4) = of_nat z2"
    "wd m (n + 16) = (if ys = [] then 0 else of_nat c)"
    using S by (auto simp: n c)
  have b: "a + 20 \<le> n" "n + 20 \<le> c" "c < 4294967296"
    using B span_ge [of c ys] by (auto simp: n c)
  have nz: "(of_nat c :: u32) \<noteq> 0" using b by (intro of_nat_nonzero) auto
  have sz: "(of_nat z + (HDR_SIZE + of_nat z2) :: u32) = of_nat (z + 20 + z2)"
    by (simp add: HDR_SIZE_def)
  show ?thesis
    unfolding absorb_def Let_def S' sz using b nz S'
    by (simp add: mem_simps hdr_nat del: of_nat_add)
qed

lemma absorb_seg:
  assumes S: "seg m p a ((z, u) # (z2, u2) # ys) 0"
    and B: "span a ((z, u) # (z2, u2) # ys) < 4294967296"
  shows "seg (absorb a (a + 20 + z) m) p a ((z + 20 + z2, u) # ys) 0"
proof -
  define n c where n: "n = a + 20 + z" and c: "c = n + 20 + z2"
  have e: "a + 20 + (z + 20 + z2) = c" by (simp add: n c)
  have b: "a + 20 \<le> n" "n + 20 \<le> c" "c < 4294967296" "span c ys < 4294967296"
    using B span_ge [of c ys] by (auto simp: n c)
  have S': "wd m a = KHEAP_MAGIC" "wd m (a + 8) = (if u then 1 else 0)" "wd m (a + 12) = p"
    "seg m (of_nat n) c ys 0"
    using S by (auto simp: n c)
  show ?thesis
  proof (cases "ys = []")
    case True
    then show ?thesis
      unfolding n [symmetric] absorb_nat [OF S B n c] Let_def using S' b
      by (simp add: mem_simps del: of_nat_add)
  next
    case False
    let ?m = "put (a + 16) (of_nat c) (put (a + 4) (of_nat (z + 20 + z2)) m)"
    have hd: "c + 20 \<le> span c ys" using False by (rule span_ge_hdr)
    have "seg ?m (of_nat n) c ys 0" using S' b by (simp add: seg_put)
    then have tl: "seg (put (c + 12) (of_nat a) ?m) (of_nat a) c ys 0"
      using False b by (intro seg_put_prev) auto
    show ?thesis
      unfolding n [symmetric] absorb_nat [OF S B n c] Let_def seg.simps fst_conv snd_conv e
      using S' b False tl hd by (simp add: mem_simps seg_put del: of_nat_add)
  qed
qed

lemma absorb_elsewhere:
  assumes S: "seg m p a ((z, u) # (z2, u2) # ys) 0"
    and B: "span a ((z, u) # (z2, u2) # ys) < 4294967296"
    and y: "y < 4294967296" "y \<notin> hdr_bytes a ((z, u) # (z2, u2) # ys)"
  shows "absorb a (a + 20 + z) m (of_nat y) = m (of_nat y)"
proof -
  define n c where n: "n = a + 20 + z" and c: "c = n + 20 + z2"
  have b: "a + 20 \<le> n" "n + 20 \<le> c" "c < 4294967296" "span c ys < 4294967296"
    using B span_ge [of c ys] by (auto simp: n c)
  have y': "y < a \<or> a + 20 \<le> y" "y < n \<or> n + 20 \<le> y" using y by (auto simp: n)
  show ?thesis
  proof (cases ys)
    case Nil
    then show ?thesis
      unfolding n [symmetric] absorb_nat [OF S B n c] Let_def using b y y'
      by (auto simp: put_elsewhere simp del: of_nat_add)
  next
    case (Cons d ds)
    then have "y < c \<or> c + 20 \<le> y" "c + 20 \<le> span c ys"
      using y by (auto simp: n c intro: order_trans [OF _ span_ge])
    then show ?thesis
      unfolding n [symmetric] absorb_nat [OF S B n c] Let_def using b y y' Cons
      by (auto simp: put_elsewhere simp del: of_nat_add)
  qed
qed

lemma span_join [simp]: "span a (join bs) = span a bs"
  by (induction bs arbitrary: a rule: join.induct) (auto simp: add.assoc)

lemma join_Cons_used: "snd b \<Longrightarrow> join (b # bs) = b # join bs"
  by (cases bs) auto

lemma join_hd_used: "join (b # bs) \<noteq> [] \<and> (snd (hd (join (b # bs))) \<longleftrightarrow> snd b)"
  by (induction "b # bs" arbitrary: b bs rule: join.induct) auto

lemma coalesced_join: "coalesced (join bs)"
  unfolding coalesced_def
proof (induction bs rule: join.induct)
  case (3 b c bs)
  then show ?case using join_hd_used [of c bs]
    by (auto simp: successively_Cons)
qed auto

lemma coalesced_append:
  "coalesced (xs @ ys) \<longleftrightarrow> coalesced xs \<and> coalesced ys \<and>
     (xs \<noteq> [] \<and> ys \<noteq> [] \<longrightarrow> snd (last xs) \<or> snd (hd ys))"
  by (auto simp: coalesced_def successively_append_iff)

lemma coalesced_Cons:
  "coalesced (b # bs) \<longleftrightarrow> coalesced bs \<and> (bs \<noteq> [] \<longrightarrow> snd b \<or> snd (hd bs))"
  by (cases bs) (auto simp: coalesced_def successively_Cons)

lemma join_id: "coalesced bs \<Longrightarrow> join bs = bs"
  by (induction bs rule: join.induct) (auto simp: coalesced_Cons)

lemma join_prefix:
  "coalesced xs \<Longrightarrow> (xs = [] \<or> snd (last xs) \<or> snd b) \<Longrightarrow> join (xs @ b # ys) = xs @ join (b # ys)"
proof (induction xs)
  case (Cons x xs)
  then show ?case by (cases xs) (auto simp: coalesced_Cons)
qed simp

lemma last_ptr_snoc [simp]: "last_ptr p a (ws @ [b]) = of_nat (span a ws)"
  by (induction ws arbitrary: p a) auto

lemma seg_replace_suffix:
  assumes "seg m p a (xs @ y # ys) e" and "seg m' (last_ptr p a xs) (span a xs) (z # zs) e"
    and "\<And>x. x \<in> hdr_bytes a xs \<Longrightarrow> m' (of_nat x) = m (of_nat x)"
  shows "seg m' p a (xs @ z # zs) e"
  using assms by (simp add: seg_append seg_frame [where m = m and m' = m'] del: seg.simps)

lemma absorb_at:
  assumes S: "seg m 0 hs (xs @ (z, u) # (z2, u2) # ys) 0"
    and B: "span hs (xs @ (z, u) # (z2, u2) # ys) < 4294967296"
  defines "a \<equiv> span hs xs"
  shows "seg (absorb a (a + 20 + z) m) 0 hs (xs @ (z + 20 + z2, u) # ys) 0"
    and "y < 4294967296 \<Longrightarrow> y \<notin> hdr_bytes hs (xs @ (z, u) # (z2, u2) # ys) \<Longrightarrow>
         absorb a (a + 20 + z) m (of_nat y) = m (of_nat y)"
proof -
  have S': "seg m (last_ptr 0 hs xs) a ((z, u) # (z2, u2) # ys) 0"
    using S by (simp add: seg_append a_def del: seg.simps)
  have B': "span a ((z, u) # (z2, u2) # ys) < 4294967296" using B by (simp add: a_def)
  have low: "x \<notin> hdr_bytes a ((z, u) # (z2, u2) # ys)" if "x \<in> hdr_bytes hs xs" for x
    using hdr_bytes_bounds [OF that] hdr_bytes_bounds [of x a "(z, u) # (z2, u2) # ys"]
    by (auto simp: a_def)
  have lt: "x < 4294967296" if "x \<in> hdr_bytes hs xs" for x
    using hdr_bytes_bounds [OF that] B' span_ge [of a "(z, u) # (z2, u2) # ys"] by (simp add: a_def)
  show "seg (absorb a (a + 20 + z) m) 0 hs (xs @ (z + 20 + z2, u) # ys) 0"
    using absorb_seg [OF S' B'] absorb_elsewhere [OF S' B' lt low]
    by (intro seg_replace_suffix [OF S]) (auto simp: a_def simp del: seg.simps)
  show "y < 4294967296 \<Longrightarrow> y \<notin> hdr_bytes hs (xs @ (z, u) # (z2, u2) # ys) \<Longrightarrow>
         absorb a (a + 20 + z) m (of_nat y) = m (of_nat y)"
    using absorb_elsewhere [OF S' B'] by (simp add: hdr_bytes_append a_def)
qed

lemma mark_free_seg:
  assumes S: "seg m 0 hs (xs @ (z, True) # ys) 0" and B: "span hs (xs @ (z, True) # ys) < 4294967296"
  shows "seg (put (span hs xs + 8) 0 m) 0 hs (xs @ (z, False) # ys) 0"
proof -
  let ?a = "span hs xs"
  have S': "seg m (last_ptr 0 hs xs) ?a ((z, True) # ys) 0"
    using S by (simp add: seg_append del: seg.simps)
  have B': "?a + 20 + z \<le> span (?a + 20 + z) ys" "span (?a + 20 + z) ys < 4294967296"
    using B span_ge by auto
  have "put (?a + 8) 0 m (of_nat x) = m (of_nat x)" if "x \<in> hdr_bytes hs xs" for x
    using hdr_bytes_bounds [OF that] B' by (intro put_elsewhere) auto
  moreover have "seg (put (?a + 8) 0 m) (last_ptr 0 hs xs) ?a ((z, False) # ys) 0"
    using S' B' by (simp add: mem_simps seg_put)
  ultimately show ?thesis by (intro seg_replace_suffix [OF S])
qed

lemma field_unat:
  "b_magic m b = wd m (unat b)" "b_size m b = wd m (unat b + 4)"
  "b_used m b = wd m (unat b + 8)" "b_prev m b = wd m (unat b + 12)"
  "b_next m b = wd m (unat b + 16)"
  "set_magic b v m = put (unat b) v m" "set_size b v m = put (unat b + 4) v m"
  "set_used b v m = put (unat b + 8) v m" "set_prev b v m = put (unat b + 12) v m"
  "set_next b v m = put (unat b + 16) v m"
  using hdr_nat [where a = "unat b"] by simp_all

lemma coalesce_next_nat:
  "a < 4294967296 \<Longrightarrow> coalesce_next (of_nat a) m =
     (if wd m (a + 16) \<noteq> 0 \<and> b_used m (wd m (a + 16)) = 0
      then absorb a (unat (wd m (a + 16))) m else m)"
  unfolding coalesce_next_def absorb_def by (simp add: field_unat Let_def split del: if_split cong: if_cong)

lemma coalesce_prev_nat:
  "a < 4294967296 \<Longrightarrow> coalesce_prev (of_nat a) m =
     (if wd m (a + 12) \<noteq> 0 \<and> b_used m (wd m (a + 12)) = 0
      then absorb (unat (wd m (a + 12))) a m else m)"
  unfolding coalesce_prev_def absorb_def by (simp add: field_unat Let_def split del: if_split cong: if_cong)

lemma kfree_nat:
  assumes "a + 20 < 4294967296"
  shows "kfree (of_nat (a + 20)) s =
    (if wd (mem s) a \<noteq> KHEAP_MAGIC then Halted ''kfree: bad pointer''
     else if wd (mem s) (a + 8) = 0 then Halted ''kfree: double free''
     else Done (s\<lparr>mem := coalesce_prev (of_nat a)
                   (coalesce_next (of_nat a) (put (a + 8) 0 (mem s)))\<rparr>))"
proof -
  have nz: "(of_nat (a + 20) :: u32) \<noteq> 0" using assms by (intro of_nat_nonzero) auto
  have b: "of_nat (a + 20) - HDR_SIZE = (of_nat a :: u32)" by (simp add: HDR_SIZE_def)
  show ?thesis unfolding kfree_def Let_def b hdr_nat using nz by (simp del: of_nat_add)
qed

lemma coalesce_next_seg:
  assumes S: "seg m 0 hs (xs @ (z, False) # ys) 0"
    and B: "span hs (xs @ (z, False) # ys) < 4294967296"
    and C: "coalesced ys"
  obtains z' ys' where
    "seg (coalesce_next (of_nat (span hs xs)) m) 0 hs (xs @ (z', False) # ys') 0"
    "coalesced ys'" "ys' = [] \<or> snd (hd ys')"
    "join ((z, False) # ys) = (z', False) # ys'"
    "hdr_bytes hs (xs @ (z', False) # ys') \<subseteq> hdr_bytes hs (xs @ (z, False) # ys)"
    "\<And>y. y < 4294967296 \<Longrightarrow> y \<notin> hdr_bytes hs (xs @ (z, False) # ys) \<Longrightarrow>
       coalesce_next (of_nat (span hs xs)) m (of_nat y) = m (of_nat y)"
proof -
  define a n where a: "a = span hs xs" and n: "n = a + 20 + z"
  have S': "wd m (a + 16) = (if ys = [] then 0 else of_nat n)" "seg m (of_nat a) n ys 0"
    using S by (auto simp: seg_append a n)
  have lt: "a + 20 \<le> n" "n < 4294967296" using B span_ge [of n ys] by (auto simp: a n)
  have nz: "(of_nat n :: u32) \<noteq> 0" using lt by (intro of_nat_nonzero) auto
  have cn: "coalesce_next (of_nat a) m =
      (if ys \<noteq> [] \<and> wd m (n + 8) = 0 then absorb a n m else m)"
    using lt nz by (simp add: coalesce_next_nat S' field_unat)
  have nu: "ys \<noteq> [] \<Longrightarrow> wd m (n + 8) = 0 \<longleftrightarrow> \<not> snd (hd ys)"
    using S'(2) by (cases ys) auto
  show thesis
  proof (cases "ys = [] \<or> snd (hd ys)")
    case True
    have "coalesce_next (of_nat a) m = m" using True nu by (auto simp: cn)
    moreover have "join ((z, False) # ys) = (z, False) # ys"
      using True C by (intro join_id) (auto simp: coalesced_Cons)
    ultimately show ?thesis using S C True by (intro that [of z ys]) (auto simp: a)
  next
    case False
    then obtain z2 ys2 where ys: "ys = (z2, False) # ys2" by (cases ys) auto
    have cn': "coalesce_next (of_nat (span hs xs)) m = absorb (span hs xs) (span hs xs + 20 + z) m"
      using cn nu False by (simp add: a n)
    have c2: "coalesced ys2" "ys2 = [] \<or> snd (hd ys2)" using C ys by (auto simp: coalesced_Cons)
    then have j: "join ((z, False) # ys) = (z + 20 + z2, False) # ys2"
      using join_id [of "(z + 20 + z2, False) # ys2"] by (auto simp: ys coalesced_Cons)
    show ?thesis
    proof (rule that [of "z + 20 + z2" ys2])
      show "seg (coalesce_next (of_nat (span hs xs)) m) 0 hs (xs @ (z + 20 + z2, False) # ys2) 0"
        unfolding cn' using S B ys by (intro absorb_at(1)) auto
      show "hdr_bytes hs (xs @ (z + 20 + z2, False) # ys2) \<subseteq> hdr_bytes hs (xs @ (z, False) # ys)"
        by (auto simp: hdr_bytes_append ys add.assoc)
      show "coalesce_next (of_nat (span hs xs)) m (of_nat y) = m (of_nat y)"
        if "y < 4294967296" "y \<notin> hdr_bytes hs (xs @ (z, False) # ys)" for y
        unfolding cn' using S B ys that by (intro absorb_at(2)) auto
    qed (use c2 j in auto)
  qed
qed

lemma coalesce_prev_seg:
  assumes S: "seg m 0 hs (xs @ (z, False) # ys) 0"
    and B: "span hs (xs @ (z, False) # ys) < 4294967296" and "0 < hs"
    and C: "coalesced xs" "coalesced ys" "ys = [] \<or> snd (hd ys)"
  obtains bs where
    "seg (coalesce_prev (of_nat (span hs xs)) m) 0 hs bs 0"
    "bs = join (xs @ (z, False) # ys)"
    "\<And>y. y < 4294967296 \<Longrightarrow> y \<notin> hdr_bytes hs (xs @ (z, False) # ys) \<Longrightarrow>
       coalesce_prev (of_nat (span hs xs)) m (of_nat y) = m (of_nat y)"
proof -
  define a where a: "a = span hs xs"
  have S': "wd m (a + 12) = last_ptr 0 hs xs" "seg m 0 hs xs (of_nat a)"
    using S by (auto simp: seg_append a)
  have lt: "a + 20 + z < 4294967296" using B span_ge [of "a + 20 + z" ys] by (simp add: a)
  have jt: "join ((z, False) # ys) = (z, False) # ys"
    using C by (intro join_id) (auto simp: coalesced_Cons)
  show thesis
  proof (cases "xs = [] \<or> snd (last xs)")
    case True
    have "coalesce_prev (of_nat a) m = m"
    proof (cases xs rule: rev_cases)
      case Nil
      then show ?thesis using lt S' by (simp add: coalesce_prev_nat)
    next
      case (snoc ws w)
      then have "wd m (span hs ws + 8) = 1" "last_ptr 0 hs xs = of_nat (span hs ws)"
        using True S' by (auto simp: seg_append)
      moreover have "span hs ws < 4294967296" using lt span_ge [of "span hs ws" "[w]"]
        by (simp add: a snoc)
      ultimately show ?thesis using lt S' by (simp add: coalesce_prev_nat field_unat)
    qed
    moreover have "join (xs @ (z, False) # ys) = xs @ (z, False) # ys"
      using True C jt by (subst join_prefix) auto
    ultimately show ?thesis using S by (intro that) (auto simp: a)
  next
    case False
    then obtain ws w where xs: "xs = ws @ [(w, False)]" by (cases xs rule: rev_cases) auto
    define p where p: "p = span hs ws"
    have pa: "a = p + 20 + w" by (simp add: a p xs)
    have sp: "p < 4294967296" "0 < p" using lt span_ge [of hs ws] \<open>0 < hs\<close> by (auto simp: pa p)
    have "wd m (p + 8) = 0" "last_ptr 0 hs xs = of_nat p"
      using S' by (auto simp: seg_append xs p)
    moreover have "(of_nat p :: u32) \<noteq> 0" using sp by (intro of_nat_nonzero)
    ultimately have cp: "coalesce_prev (of_nat a) m = absorb p (p + 20 + w) m"
      using lt S' sp by (simp add: coalesce_prev_nat field_unat pa [symmetric])
    have S2: "seg m 0 hs (ws @ (w, False) # (z, False) # ys) 0"
      and B2: "span hs (ws @ (w, False) # (z, False) # ys) < 4294967296"
      using S B by (auto simp: xs)
    have "join (xs @ (z, False) # ys) = ws @ (w + 20 + z, False) # ys"
    proof -
      have "join (ws @ (w, False) # (z, False) # ys) = ws @ join ((w, False) # (z, False) # ys)"
        using C by (intro join_prefix) (auto simp: xs coalesced_append)
      also have "join ((w, False) # (z, False) # ys) = (w + 20 + z, False) # ys"
        using C join_id [of "(w + 20 + z, False) # ys"] by (auto simp: coalesced_Cons)
      finally show ?thesis by (simp add: xs)
    qed
    then have j: "ws @ (w + 20 + z, False) # ys = join (xs @ (z, False) # ys)" by simp
    show ?thesis
    proof (rule that [OF _ j])
      show "seg (coalesce_prev (of_nat (span hs xs)) m) 0 hs (ws @ (w + 20 + z, False) # ys) 0"
        unfolding a [symmetric] cp unfolding p by (rule absorb_at(1) [OF S2 B2])
      show "coalesce_prev (of_nat (span hs xs)) m (of_nat y) = m (of_nat y)"
        if "y < 4294967296" "y \<notin> hdr_bytes hs (xs @ (z, False) # ys)" for y
        unfolding a [symmetric] cp unfolding p
        using that by (intro absorb_at(2) [OF S2 B2]) (auto simp: xs)
    qed
  qed
qed

lemma join_join_suffix: "join (xs @ join ys) = join (xs @ ys)"
proof (induction xs rule: join.induct)
  case 1
  show ?case using coalesced_join join_id by simp
next
  case (2 b)
  show ?case
  proof (induction ys arbitrary: b rule: join.induct)
    case (3 c d ys)
    then show ?case by (cases "snd b"; cases "snd c"; cases "snd d") (auto simp: add.assoc)
  qed auto
next
  case (3 b c bs)
  then show ?case by auto
qed

lemma kfree_seg:
  assumes S: "seg (mem s) 0 hs (xs @ (z, True) # ys) 0"
    and B: "span hs (xs @ (z, True) # ys) < 4294967296" and "0 < hs"
    and C: "coalesced (xs @ (z, True) # ys)"
  obtains m' where
    "kfree (of_nat (span hs xs + 20)) s = Done (s\<lparr>mem := m'\<rparr>)"
    "seg m' 0 hs (join (xs @ (z, False) # ys)) 0"
    "\<And>y. y < 4294967296 \<Longrightarrow> y \<notin> hdr_bytes hs (xs @ (z, True) # ys) \<Longrightarrow>
       m' (of_nat y) = mem s (of_nat y)"
proof -
  let ?a = "span hs xs"
  let ?m = "put (?a + 8) 0 (mem s)"
  have C': "coalesced xs" "coalesced ys" using C by (auto simp: coalesced_append coalesced_Cons)
  have S1: "seg ?m 0 hs (xs @ (z, False) # ys) 0" using S B by (rule mark_free_seg)
  have B1: "span hs (xs @ (z, False) # ys) < 4294967296" using B by simp
  have lt: "?a + 20 + z < 4294967296" using B span_ge [of "?a + 20 + z" ys] by simp
  from coalesce_next_seg [OF S1 B1 C'(2)] obtain z' ys' where
    S2: "seg (coalesce_next (of_nat ?a) ?m) 0 hs (xs @ (z', False) # ys') 0"
    and C2: "coalesced ys'" "ys' = [] \<or> snd (hd ys')"
    and j: "join ((z, False) # ys) = (z', False) # ys'"
    and hb: "hdr_bytes hs (xs @ (z', False) # ys') \<subseteq> hdr_bytes hs (xs @ (z, False) # ys)"
    and f2: "\<And>y. y < 4294967296 \<Longrightarrow> y \<notin> hdr_bytes hs (xs @ (z, False) # ys) \<Longrightarrow>
       coalesce_next (of_nat ?a) ?m (of_nat y) = ?m (of_nat y)"
    by blast
  have B2: "span hs (xs @ (z', False) # ys') < 4294967296"
    using B1 span_join [of ?a "(z, False) # ys"] j by simp
  from coalesce_prev_seg [OF S2 B2 \<open>0 < hs\<close> C'(1) C2] obtain bs where
    S3: "seg (coalesce_prev (of_nat ?a) (coalesce_next (of_nat ?a) ?m)) 0 hs bs 0"
    and bs: "bs = join (xs @ (z', False) # ys')"
    and f3: "\<And>y. y < 4294967296 \<Longrightarrow> y \<notin> hdr_bytes hs (xs @ (z', False) # ys') \<Longrightarrow>
       coalesce_prev (of_nat ?a) (coalesce_next (of_nat ?a) ?m) (of_nat y) =
       coalesce_next (of_nat ?a) ?m (of_nat y)"
    by blast
  have jj: "bs = join (xs @ (z, False) # ys)"
    using bs j join_join_suffix [of xs "(z, False) # ys"] by simp
  show thesis
  proof (rule that)
    show "kfree (of_nat (?a + 20)) s =
        Done (s\<lparr>mem := coalesce_prev (of_nat ?a) (coalesce_next (of_nat ?a) ?m)\<rparr>)"
      using S lt by (subst kfree_nat) (auto simp: seg_append)
    show "seg (coalesce_prev (of_nat ?a) (coalesce_next (of_nat ?a) ?m)) 0 hs
        (join (xs @ (z, False) # ys)) 0"
      using S3 jj by simp
    show "coalesce_prev (of_nat ?a) (coalesce_next (of_nat ?a) ?m) (of_nat y) = mem s (of_nat y)"
      if y: "y < 4294967296" "y \<notin> hdr_bytes hs (xs @ (z, True) # ys)" for y
    proof -
      have "y \<notin> hdr_bytes hs (xs @ (z, False) # ys)" using y by (simp add: hdr_bytes_append)
      moreover have "?m (of_nat y) = mem s (of_nat y)"
        using y lt by (intro put_elsewhere) (auto simp: hdr_bytes_append)
      ultimately show ?thesis using y f2 [of y] f3 [of y] hb by auto
    qed
  qed
qed

end
