(* ===== verification/Kheap_Spec.thy ===== *)
theory Kheap_Spec
  imports Kheap_Layout
begin

text \<open>
  What the kernel heap promises.  \<open>heap_rel hs s bs\<close> relates the memory of a heap at address \<open>hs\<close> to
  an abstract block list that tiles the slab with no two free blocks next to each other.
  \<open>heap_alloc\<close> and \<open>heap_free\<close> are the abstract allocator; \<open>kmalloc\<close> and \<open>kfree\<close> refine them.
  The locale \<open>heap_service\<close> is the contract the clients of the heap rely on.
\<close>

unbundle bit_operations_syntax

section \<open>The abstract heap\<close>

definition heap_rel :: "nat \<Rightarrow> kheap \<Rightarrow> ablock list \<Rightarrow> bool" where
  "heap_rel hs s bs \<longleftrightarrow>
     head s = of_nat hs \<and> 0 < hs \<and> span hs bs = hs + 262144 \<and> hs + 262144 < 4294967296 \<and>
     seg (mem s) 0 hs bs 0 \<and> coalesced bs"

fun live_blocks :: "nat \<Rightarrow> ablock list \<Rightarrow> (nat \<times> nat) set" where
  "live_blocks a [] = {}"
| "live_blocks a ((z, u) # bs) =
     (if u then insert (a + 20, z) (live_blocks (a + 20 + z) bs) else live_blocks (a + 20 + z) bs)"

definition round8 :: "nat \<Rightarrow> nat" where
  "round8 n = (n + 7) div 8 * 8"

definition heap_alloc :: "nat \<Rightarrow> nat \<Rightarrow> ablock list \<Rightarrow> nat \<times> ablock list" where
  "heap_alloc n hs bs =
     (if n = 0 then (0, bs)
      else case ff_alloc (round8 n) hs bs of None \<Rightarrow> (0, bs) | Some r \<Rightarrow> r)"

definition untouched :: "nat \<Rightarrow> ablock list \<Rightarrow> nat \<Rightarrow> bool" where
  "untouched hs bs y \<longleftrightarrow> y < 4294967296 \<and>
     (y < hs \<or> hs + 262144 \<le> y \<or> (\<exists>(p, z) \<in> live_blocks hs bs. p \<le> y \<and> y < p + z))"

fun mark_free :: "nat \<Rightarrow> nat \<Rightarrow> ablock list \<Rightarrow> ablock list" where
  "mark_free p a [] = []"
| "mark_free p a ((z, u) # bs) = (z, u \<and> p \<noteq> a + 20) # mark_free p (a + 20 + z) bs"

definition heap_free :: "nat \<Rightarrow> nat \<Rightarrow> ablock list \<Rightarrow> ablock list" where
  "heap_free p hs bs = join (mark_free p hs bs)"

definition heap_ok :: "kheap \<Rightarrow> bool" where
  "heap_ok s \<longleftrightarrow> (\<exists>hs bs. heap_rel hs s bs)"

definition live :: "kheap \<Rightarrow> (nat \<times> nat) set" where
  "live s = {(p, z). \<exists>hs bs. heap_rel hs s bs \<and> (p, z) \<in> live_blocks hs bs}"

definition poke :: "nat \<Rightarrow> u8 \<Rightarrow> kheap \<Rightarrow> kheap" where
  "poke a v s = s\<lparr>mem := (mem s)(of_nat a := v)\<rparr>"

definition heap_byte :: "kheap \<Rightarrow> nat \<Rightarrow> u8" where
  "heap_byte s a = mem s (of_nat a)"

definition used_sum :: "ablock list \<Rightarrow> nat" where
  "used_sum bs = sum_list (map fst (filter snd bs))"

definition free_sum :: "ablock list \<Rightarrow> nat" where
  "free_sum bs = sum_list (map fst (filter (Not \<circ> snd) bs))"

definition largest_hole :: "ablock list \<Rightarrow> nat" where
  "largest_hole bs = Max (insert 0 {z. (z, False) \<in> set bs})"

definition stats_of :: "ablock list \<Rightarrow> kheap_stats" where
  "stats_of bs = \<lparr>total_bytes = 262144, used_bytes = of_nat (used_sum bs), free_bytes = of_nat (free_sum bs),
     blocks_total = of_nat (length bs), blocks_used = of_nat (length (filter snd bs)),
     blocks_free = of_nat (length (filter (Not \<circ> snd) bs)), largest_free = of_nat (largest_hole bs)\<rparr>"

inductive heap_reach :: "nat \<Rightarrow> kheap \<Rightarrow> bool" for hs where
  start: "heap_reach hs (kheap_init (of_nat hs) s)"
| malloc: "heap_reach hs s \<Longrightarrow> kmalloc n s = Some (Done (p, s')) \<Longrightarrow> heap_reach hs s'"
| free: "heap_reach hs s \<Longrightarrow> (p, z) \<in> live s \<Longrightarrow> kfree (of_nat p) s = Done s' \<Longrightarrow> heap_reach hs s'"
| free_null: "heap_reach hs s \<Longrightarrow> kfree 0 s = Done s' \<Longrightarrow> heap_reach hs s'"
| client: "heap_reach hs s \<Longrightarrow> (p, z) \<in> live s \<Longrightarrow> i < z \<Longrightarrow> heap_reach hs (poke (p + i) v s)"

definition demo_heap :: kheap where
  "demo_heap = kheap_init (of_nat 1048576) \<lparr>mem = (\<lambda>_. 0), head = 0\<rparr>"

lemma live_blocks_append: "live_blocks a (xs @ ys) = live_blocks a xs \<union> live_blocks (span a xs) ys"
  by (induction xs arbitrary: a) auto

lemma live_blocks_bounds:
  "(p, z) \<in> live_blocks a bs \<Longrightarrow> a + 20 \<le> p \<and> p + z \<le> span a bs"
proof (induction bs arbitrary: a)
  case (Cons b bs)
  obtain y u where b: "b = (y, u)" by (cases b)
  show ?case
    using Cons.prems Cons.IH [of "a + 20 + y"] span_ge [of "a + 20 + y" bs] by (auto simp: b split: if_splits)
qed simp

lemma live_blocks_split:
  "(p, z) \<in> live_blocks a bs \<Longrightarrow> \<exists>xs ys. bs = xs @ (z, True) # ys \<and> p = span a xs + 20"
proof (induction bs arbitrary: a)
  case (Cons b bs)
  obtain y u where b: "b = (y, u)" by (cases b)
  show ?case
  proof (cases "u \<and> p = a + 20 \<and> z = y")
    case True
    then show ?thesis using b by (intro exI [of _ "[]"] exI [of _ bs]) auto
  next
    case False
    then have "(p, z) \<in> live_blocks (a + 20 + y) bs" using Cons.prems b by (auto split: if_splits)
    from Cons.IH [OF this] obtain xs ys where
      "bs = xs @ (z, True) # ys" "p = span (a + 20 + y) xs + 20" by blast
    then show ?thesis using b by (intro exI [of _ "b # xs"] exI [of _ ys]) auto
  qed
qed simp

lemma live_blocks_hdr:
  "(p, z) \<in> live_blocks a bs \<Longrightarrow> p \<le> y \<Longrightarrow> y < p + z \<Longrightarrow> y \<notin> hdr_bytes a bs"
proof (induction bs arbitrary: a)
  case (Cons b bs)
  obtain w u where b: "b = (w, u)" by (cases b)
  show ?case
  proof (cases "p = a + 20 \<and> z = w")
    case True
    then show ?thesis using Cons.prems b hdr_bytes_bounds [of y "a + 20 + w" bs] by auto
  next
    case False
    then have "(p, z) \<in> live_blocks (a + 20 + w) bs" using Cons.prems b by (auto split: if_splits)
    with Cons.IH [OF this] Cons.prems live_blocks_bounds [OF this] show ?thesis by (auto simp: b)
  qed
qed simp

lemma live_blocks_disjoint:
  "(p, z) \<in> live_blocks a bs \<Longrightarrow> (q, y) \<in> live_blocks a bs \<Longrightarrow>
   (p = q \<and> z = y) \<or> p + z + 20 \<le> q \<or> q + y + 20 \<le> p"
proof (induction bs arbitrary: a)
  case (Cons b bs)
  obtain w u where b: "b = (w, u)" by (cases b)
  show ?case
    using Cons.prems Cons.IH [of "a + 20 + w"] live_blocks_bounds [of _ _ "a + 20 + w" bs]
    by (fastforce simp: b split: if_splits)
qed simp

lemma live_blocks_join [simp]: "live_blocks a (join bs) = live_blocks a bs"
proof (induction bs arbitrary: a rule: join.induct)
  case (3 b c bs)
  then show ?case by (cases b; cases c) (auto simp: add.assoc)
qed auto

lemma live_blocks_carve:
  "n \<le> z \<Longrightarrow> live_blocks a (carve n z @ ys) =
     insert (a + 20, if z - n \<ge> 28 then n else z) (live_blocks (a + 20 + z) ys)"
  by (simp add: carve_def add.assoc add.left_commute)

lemma span_carve: "n \<le> z \<Longrightarrow> span a (carve n z) = a + 20 + z"
  by (auto simp: carve_def)

lemma coalesced_Nil [simp]: "coalesced []"
  by (simp add: coalesced_def)

lemma coalesced_carve:
  "coalesced (xs @ (z, False) # ys) \<Longrightarrow> coalesced (xs @ carve n z @ ys)"
  by (auto simp: carve_def coalesced_append coalesced_Cons)

lemma seg_unique:
  assumes "seg m p a bs 0" "seg m p a cs 0" "bs \<noteq> []" "cs \<noteq> []" "0 < a"
    "span a bs < 4294967296" "span a cs < 4294967296"
  shows "bs = cs"
  using assms
proof (induction bs arbitrary: p a cs)
  case (Cons b bs)
  obtain c ds where cs: "cs = c # ds" using Cons.prems by (cases cs) auto
  have lt: "a + 20 + fst b < 4294967296" "a + 20 + fst c < 4294967296"
    using Cons.prems span_ge [of "a + 20 + fst b" bs] span_ge [of "a + 20 + fst c" ds] by (auto simp: cs)
  have "(of_nat (fst b) :: u32) = of_nat (fst c)" using Cons.prems by (auto simp: cs)
  then have z: "fst b = fst c" using lt by (subst (asm) of_nat_eq_iff32) auto
  have u: "snd b = snd c" using Cons.prems by (auto simp: cs split: if_splits)
  have nz: "(of_nat (a + 20 + fst b) :: u32) \<noteq> 0" using lt by (intro of_nat_nonzero) auto
  have e: "bs = [] \<longleftrightarrow> ds = []" using Cons.prems z nz by (auto simp: cs simp del: of_nat_add split: if_splits)
  have "bs = ds"
  proof (cases "bs = []")
    case False
    then show ?thesis
      using Cons.IH [of "of_nat a" "a + 20 + fst b" ds] Cons.prems z e by (simp add: cs)
  qed (use e in simp)
  then show ?case using z u cs by (simp add: prod_eq_iff)
qed simp

lemma heap_rel_unique:
  "heap_rel hs s bs \<Longrightarrow> heap_rel hs' s cs \<Longrightarrow> hs' = hs \<and> cs = bs"
proof -
  assume r: "heap_rel hs s bs" "heap_rel hs' s cs"
  then have "(of_nat hs :: u32) = of_nat hs'" by (simp add: heap_rel_def)
  then have h: "hs = hs'" using r by (subst (asm) of_nat_eq_iff32) (auto simp: heap_rel_def)
  have ne: "bs \<noteq> []" "cs \<noteq> []" using r by (auto simp: heap_rel_def)
  show ?thesis using seg_unique [of "mem s" 0 hs bs cs] r h ne by (auto simp: heap_rel_def)
qed


section \<open>Allocation\<close>

lemma unat_align8: "unat (align_up v 8) = unat (v + 7) div 8 * 8"
proof -
  have "align_up v 8 = (v + 7) AND NOT (mask 3)"
    by (simp add: align_up_def mask_eq_exp_minus_1 add_diff_eq [symmetric])
  then show ?thesis by (simp add: high_bits_unat)
qed

lemma align_up_nat:
  "n \<le> 4294967288 \<Longrightarrow> align_up (of_nat n) KHEAP_ALIGN = of_nat (round8 n)"
  "4294967288 < n \<Longrightarrow> n < 4294967296 \<Longrightarrow> align_up (of_nat n) KHEAP_ALIGN = 0"
proof -
  assume n: "n \<le> 4294967288"
  have "unat (of_nat n + 7 :: u32) = n + 7" using n by (subst unat_plus32) auto
  then have "unat (align_up (of_nat n) 8) = round8 n" by (simp add: unat_align8 round8_def)
  then show "align_up (of_nat n) KHEAP_ALIGN = of_nat (round8 n)"
    by (metis KHEAP_ALIGN_def of_nat_unat ucast_id)
next
  assume n: "4294967288 < n" "n < 4294967296"
  have "unat (of_nat n + 7 :: u32) = n + 7 - 4294967296" using n
    by (simp add: unat_word_ariths mod_if)
  then have "unat (align_up (of_nat n) 8) = 0" using n by (simp add: unat_align8)
  then show "align_up (of_nat n) KHEAP_ALIGN = 0" by (simp add: KHEAP_ALIGN_def unat_eq_zero)
qed

lemma kmalloc_loop_rel:
  assumes R: "heap_rel hs s bs" and n: "n < 4294967296"
  shows "kmalloc_loop (of_nat n) (head s) s =
    (case ff_alloc n hs bs of
       None \<Rightarrow> Some (Done (0, s))
     | Some (q, bs') \<Rightarrow>
         Some (Done (of_nat q, s\<lparr>mem := take_block (of_nat n) (of_nat (q - 20)) (mem s)\<rparr>)))"
proof -
  have "bs \<noteq> []" using R by (auto simp: heap_rel_def)
  then show ?thesis using kmalloc_loop_spec [of s 0 hs bs n] R n by (simp add: heap_rel_def)
qed

lemma take_rel:
  assumes R: "heap_rel hs s bs" and F: "ff_alloc n hs bs = Some (q, bs')"
  defines "s' \<equiv> s\<lparr>mem := take_block (of_nat n) (of_nat (q - 20)) (mem s)\<rparr>"
  shows "heap_rel hs s' bs'"
    and "untouched hs bs y \<Longrightarrow> mem s' (of_nat y) = mem s (of_nat y)"
    and "q \<le> hs + 262144" and "hs + 20 \<le> q"
    and "\<exists>z \<ge> n. live_blocks hs bs' = insert (q, z) (live_blocks hs bs)"
    and "q \<notin> fst ` live_blocks hs bs"
proof -
  from ff_alloc_Some [OF F] obtain xs z ys where
    bs: "bs = xs @ (z, False) # ys" and q: "q = span hs xs + 20" and n: "n \<le> z"
    and bs': "bs' = xs @ carve n z @ ys" by blast
  let ?a = "span hs xs"
  have S: "seg (mem s) 0 hs xs (of_nat ?a)" "seg (mem s) (last_ptr 0 hs xs) ?a ((z, False) # ys) 0"
    and B: "span ?a ((z, False) # ys) = hs + 262144" and hs: "0 < hs" "hs + 262144 < 4294967296"
    and C: "coalesced bs"
    using R by (auto simp: heap_rel_def bs seg_append)
  have B': "span ?a ((z, False) # ys) < 4294967296" using B hs by simp
  have a: "0 < ?a" "hs \<le> ?a" using span_ge [of hs xs] hs by auto
  have ge: "?a + 20 + z \<le> hs + 262144" using B span_ge [of "?a + 20 + z" ys] by simp
  note el = take_block_elsewhere [OF S(2) n B' a(1)]
  have s': "s' = s\<lparr>mem := take_block (of_nat n) (of_nat ?a) (mem s)\<rparr>" by (simp add: s'_def q)
  have Sxs: "seg (take_block (of_nat n) (of_nat ?a) (mem s)) 0 hs xs (of_nat ?a)"
    using S(1) hdr_bytes_bounds [of _ hs xs] B' ge hs
    by (subst seg_frame [where m = "mem s"]) (auto intro!: el, fastforce+)
  obtain c cs where car: "carve n z = c # cs" by (cases "28 \<le> z - n") (auto simp: carve_def)
  show "heap_rel hs s' bs'"
    unfolding heap_rel_def
  proof (intro conjI)
    show "seg (mem s') 0 hs bs' 0"
      using Sxs take_block_seg [OF S(2) n B' a(1)]
      by (simp add: s' bs' car seg_append del: seg.simps)
    show "coalesced bs'" using coalesced_carve C by (simp add: bs bs')
    show "span hs bs' = hs + 262144" using B n by (simp add: bs' span_carve)
  qed (use R in \<open>simp_all add: s' heap_rel_def\<close>)
  show "mem s' (of_nat y) = mem s (of_nat y)" if "untouched hs bs y"
  proof -
    have "y < ?a \<or> (?a + 20 + z + 20 \<le> y \<or> ys = [] \<and> ?a + 20 + z \<le> y)"
      using that ge a live_blocks_bounds [of _ _ hs xs] live_blocks_bounds [of _ _ "?a + 20 + z" ys]
        span_ge_hdr [of ys "?a + 20 + z"] B
      by (cases "ys = []") (fastforce simp: untouched_def bs live_blocks_append)+
    then show ?thesis using that unfolding s' by (simp add: untouched_def) (intro el; auto)
  qed
  show "q \<le> hs + 262144" "hs + 20 \<le> q" using a ge q by auto
  show "\<exists>z \<ge> n. live_blocks hs bs' = insert (q, z) (live_blocks hs bs)"
    using n by (intro exI [of _ "if z - n \<ge> 28 then n else z"])
      (simp add: bs' bs q live_blocks_append [of hs xs] live_blocks_carve)
  show "q \<notin> fst ` live_blocks hs bs"
    using live_blocks_bounds [of q _ hs xs] live_blocks_bounds [of q _ "?a + 20 + z" ys]
    by (fastforce simp: bs q live_blocks_append)
qed

lemma live_rel: "heap_rel hs s bs \<Longrightarrow> live s = live_blocks hs bs"
  unfolding live_def by (auto, drule (1) heap_rel_unique, simp)

lemma mark_free_outside: "p < a + 20 \<or> span a bs + 20 \<le> p \<Longrightarrow> mark_free p a bs = bs"
proof (induction bs arbitrary: a)
  case (Cons b bs)
  obtain z u where b: "b = (z, u)" by (cases b)
  show ?case using Cons span_ge [of "a + 20 + z" bs] by (auto simp: b)
qed simp

lemma mark_free_at:
  "mark_free (span a xs + 20) a (xs @ (z, u) # ys) = xs @ (z, False) # ys"
proof (induction xs arbitrary: a)
  case Nil
  show ?case using mark_free_outside [of "a + 20" "a + 20 + z" ys] by simp
next
  case (Cons b xs)
  obtain y v where b: "b = (y, v)" by (cases b)
  show ?case using Cons span_ge [of "a + 20 + y" xs] by (auto simp: b)
qed

lemma kfree_rel:
  assumes R: "heap_rel hs s bs" and L: "(p, z) \<in> live_blocks hs bs"
  obtains s' where "kfree (of_nat p) s = Done s'" "heap_rel hs s' (heap_free p hs bs)"
    "live_blocks hs (heap_free p hs bs) = live_blocks hs bs - {(p, z)}"
    "\<And>y. untouched hs bs y \<Longrightarrow> mem s' (of_nat y) = mem s (of_nat y)"
proof -
  from live_blocks_split [OF L] obtain xs ys where
    bs: "bs = xs @ (z, True) # ys" and p: "p = span hs xs + 20" by blast
  have S: "seg (mem s) 0 hs (xs @ (z, True) # ys) 0" "span hs (xs @ (z, True) # ys) < 4294967296"
    "0 < hs" "coalesced (xs @ (z, True) # ys)"
    using R by (auto simp: heap_rel_def bs)
  from kfree_seg [OF S] obtain m' where
    k: "kfree (of_nat (span hs xs + 20)) s = Done (s\<lparr>mem := m'\<rparr>)"
      "seg m' 0 hs (join (xs @ (z, False) # ys)) 0"
      "\<And>y. y < 4294967296 \<Longrightarrow> y \<notin> hdr_bytes hs (xs @ (z, True) # ys) \<Longrightarrow>
         m' (of_nat y) = mem s (of_nat y)"
    by blast
  have hf: "heap_free p hs bs = join (xs @ (z, False) # ys)"
    by (simp add: heap_free_def bs p mark_free_at)
  show thesis
  proof (rule that [of "s\<lparr>mem := m'\<rparr>"])
    show "kfree (of_nat p) s = Done (s\<lparr>mem := m'\<rparr>)" using k(1) by (simp add: p)
    show "heap_rel hs (s\<lparr>mem := m'\<rparr>) (heap_free p hs bs)"
      using R k(2) coalesced_join unfolding hf by (simp add: heap_rel_def bs)
    have "(p, z) \<notin> live_blocks hs xs \<union> live_blocks (span hs xs + 20 + z) ys"
      using live_blocks_bounds [of p z hs xs] live_blocks_bounds [of p z "span hs xs + 20 + z" ys] p
      by auto
    then show "live_blocks hs (heap_free p hs bs) = live_blocks hs bs - {(p, z)}"
      unfolding hf by (auto simp: bs live_blocks_append p)
    show "mem (s\<lparr>mem := m'\<rparr>) (of_nat y) = mem s (of_nat y)" if "untouched hs bs y" for y
    proof -
      have "y \<notin> hdr_bytes hs bs"
        using that R live_blocks_hdr [of _ _ hs bs y] hdr_bytes_bounds [of y hs bs]
        by (fastforce simp: untouched_def heap_rel_def)
      then show ?thesis using k(3) [of y] that by (simp add: bs untouched_def)
    qed
  qed
qed

lemma kfree_again_seg:
  assumes S: "seg (mem s) 0 hs (xs @ (z, True) # ys) 0"
    and B: "span hs (xs @ (z, True) # ys) < 4294967296" and "0 < hs"
    and C: "coalesced (xs @ (z, True) # ys)"
    and K: "kfree (of_nat (span hs xs + 20)) s = Done s'"
  shows "\<exists>e. kfree (of_nat (span hs xs + 20)) s' = Halted e"
proof -
  let ?a = "span hs xs"
  let ?m = "coalesce_next (of_nat ?a) (put (?a + 8) 0 (mem s))"
  have lt: "?a + 20 + z < 4294967296" using B span_ge [of "?a + 20 + z" ys] by simp
  then have s': "mem s' = coalesce_prev (of_nat ?a) ?m"
    using K S by (subst (asm) kfree_nat) (auto simp: seg_append)
  have S1: "seg (put (?a + 8) 0 (mem s)) 0 hs (xs @ (z, False) # ys) 0"
    using S B by (rule mark_free_seg)
  have C1: "coalesced ys" using C by (simp add: coalesced_append coalesced_Cons)
  have B1: "span hs (xs @ (z, False) # ys) < 4294967296" using B by simp
  obtain z' ys' where "seg ?m 0 hs (xs @ (z', False) # ys') 0"
    by (rule coalesce_next_seg [OF S1 B1 C1]) (rule that)
  then have u: "wd ?m (?a + 8) = 0" by (simp add: seg_append)
  have "wd (mem s') ?a = 0 \<or> wd (mem s') (?a + 8) = 0"
  proof (cases "wd ?m (?a + 12) \<noteq> 0 \<and> b_used ?m (wd ?m (?a + 12)) = 0")
    case True
    then have "mem s' = absorb (unat (wd ?m (?a + 12))) ?a ?m"
      using s' lt by (simp add: coalesce_prev_nat)
    then show ?thesis by (simp add: absorb_def Let_def)
  next
    case False
    then have "mem s' = ?m" using s' lt by (subst (asm) coalesce_prev_nat) auto
    then show ?thesis using u by simp
  qed
  then show ?thesis using lt by (subst kfree_nat) (auto simp: KHEAP_MAGIC_def)
qed

lemma kheap_init_rel:
  assumes "0 < hs" and "hs + 262144 < 4294967296"
  shows "heap_rel hs (kheap_init (of_nat hs) s) [(262124, False)]"
proof -
  have d: "KHEAP_BYTES - HDR_SIZE = 262124" by (simp add: KHEAP_BYTES_def HDR_SIZE_def)
  show ?thesis using assms
    by (simp add: heap_rel_def kheap_init_def Let_def hdr_nat d coalesced_def wd_put_other)
qed

section \<open>The interface of the heap\<close>

locale heap_service =
  fixes ok :: "'s \<Rightarrow> bool"
    and live :: "'s \<Rightarrow> (nat \<times> nat) set"
    and byte :: "'s \<Rightarrow> nat \<Rightarrow> u8"
    and alloc :: "u32 \<Rightarrow> 's \<Rightarrow> (u32 \<times> 's) outcome option"
    and release :: "u32 \<Rightarrow> 's \<Rightarrow> 's outcome"
    and store :: "nat \<Rightarrow> u8 \<Rightarrow> 's \<Rightarrow> 's"
  assumes alloc_law: "ok s \<Longrightarrow> \<exists>p s'. alloc n s = Some (Done (p, s')) \<and> ok s' \<and>
      (p = 0 \<longrightarrow> s' = s) \<and>
      (p \<noteq> 0 \<longrightarrow> (\<exists>z. unat p \<notin> fst ` live s \<and> live s' = insert (unat p, z) (live s) \<and>
                      (n \<le> 0xFFFFFFF8 \<longrightarrow> unat n \<le> z))) \<and>
      (\<forall>q y i. (q, y) \<in> live s \<longrightarrow> i < y \<longrightarrow> byte s' (q + i) = byte s (q + i))"
    and release_law: "ok s \<Longrightarrow> (p, z) \<in> live s \<Longrightarrow> \<exists>s'. release (of_nat p) s = Done s' \<and> ok s' \<and>
      live s' = live s - {(p, z)} \<and>
      (\<forall>q y i. (q, y) \<in> live s \<longrightarrow> i < y \<longrightarrow> byte s' (q + i) = byte s (q + i))"
    and write_law: "ok s \<Longrightarrow> (p, z) \<in> live s \<Longrightarrow> i < z \<Longrightarrow> ok (store (p + i) v s) \<and>
      live (store (p + i) v s) = live s \<and>
      (\<forall>a < 4294967296. byte (store (p + i) v s) a = (if a = p + i then v else byte s a))"
    and live_range: "ok s \<Longrightarrow> (p, z) \<in> live s \<Longrightarrow> 0 < p \<and> p + z < 4294967296"
    and live_apart: "ok s \<Longrightarrow> (p, z) \<in> live s \<Longrightarrow> (q, y) \<in> live s \<Longrightarrow>
      p = q \<and> z = y \<or> p + z \<le> q \<or> q + y \<le> p"
begin

lemma alloc_total: "ok s \<Longrightarrow> \<exists>p s'. alloc n s = Some (Done (p, s')) \<and> ok s'"
  using alloc_law [of s n] by blast

lemma alloc_result:
  assumes "ok s" and "alloc n s = Some (Done (p, s'))"
  shows "ok s'" and "p = 0 \<Longrightarrow> s' = s"
    and "p \<noteq> 0 \<Longrightarrow> \<exists>z. unat p \<notin> fst ` live s \<and> live s' = insert (unat p, z) (live s) \<and>
                      (n \<le> 0xFFFFFFF8 \<longrightarrow> unat n \<le> z)"
    and "(q, y) \<in> live s \<Longrightarrow> i < y \<Longrightarrow> byte s' (q + i) = byte s (q + i)"
  using alloc_law [of s n] assms by auto

lemma alloc_disjoint:
  assumes "ok s" "alloc n s = Some (Done (p, s'))" "p \<noteq> 0" "n \<le> 0xFFFFFFF8" "(q, y) \<in> live s"
  shows "unat p + unat n \<le> q \<or> q + y \<le> unat p"
proof -
  from alloc_result(3) [OF assms(1-3)] obtain z where
    z: "unat p \<notin> fst ` live s" "live s' = insert (unat p, z) (live s)" "unat n \<le> z"
    using assms(4) by auto
  from live_apart [of s' "unat p" z q y] alloc_result(1) [OF assms(1,2)] z assms(5)
  show ?thesis by (auto simp: rev_image_eqI)
qed

lemma alloc_release:
  assumes "ok s" "alloc n s = Some (Done (p, s'))" "p \<noteq> 0"
  shows "\<exists>s''. release p s' = Done s'' \<and> ok s'' \<and> live s'' = live s \<and>
    (\<forall>q y i. (q, y) \<in> live s \<longrightarrow> i < y \<longrightarrow> byte s'' (q + i) = byte s (q + i))"
proof -
  from alloc_result(3) [OF assms] obtain z where
    z: "unat p \<notin> fst ` live s" "live s' = insert (unat p, z) (live s)" by auto
  from release_law [of s' "unat p" z] alloc_result(1) [OF assms(1,2)] z obtain s'' where
    "release p s' = Done s''" "ok s''" "live s'' = live s' - {(unat p, z)}"
    "\<forall>q y i. (q, y) \<in> live s' \<longrightarrow> i < y \<longrightarrow> byte s'' (q + i) = byte s' (q + i)"
    by auto
  moreover have "live s' - {(unat p, z)} = live s" using z by force
  ultimately show ?thesis using z alloc_result(4) [OF assms(1,2)] by auto
qed

lemma writes_keep:
  assumes "ok s" and "(p, z) \<in> live s" and "n \<le> z"
    and "\<And>i t. f (Suc i) t = store (p + i) (v i) (f i t)" and "\<And>t. f 0 t = t"
  shows "ok (f n s) \<and> live (f n s) = live s \<and>
    (\<forall>a < 4294967296. byte (f n s) a = (if p \<le> a \<and> a < p + n then v (a - p) else byte s a))"
  using assms(3)
proof (induction n)
  case 0
  then show ?case using assms by auto
next
  case (Suc n)
  then have IH: "ok (f n s)" "live (f n s) = live s"
    "\<And>a. a < 4294967296 \<Longrightarrow> byte (f n s) a = (if p \<le> a \<and> a < p + n then v (a - p) else byte s a)"
    by auto
  from write_law [of "f n s" p z n "v n"] IH assms(2) Suc.prems show ?case
    by (auto simp: assms(4) IH(3))
qed

end

lemma untouched_live: "heap_rel hs s bs \<Longrightarrow> (p, z) \<in> live_blocks hs bs \<Longrightarrow> i < z \<Longrightarrow> untouched hs bs (p + i)"
  using live_blocks_bounds [of p z hs bs] unfolding untouched_def heap_rel_def by fastforce

lemma kmalloc_rel:
  assumes R: "heap_rel hs s bs" and n: "n < 4294967296"
  shows "n \<le> 4294967288 \<Longrightarrow> heap_alloc n hs bs = (q, bs') \<Longrightarrow>
      \<exists>s'. kmalloc (of_nat n) s = Some (Done (of_nat q, s')) \<and> heap_rel hs s' bs' \<and>
        (\<forall>y. untouched hs bs y \<longrightarrow> mem s' (of_nat y) = mem s (of_nat y)) \<and> (q = 0 \<longrightarrow> s' = s)"
    and "4294967288 < n \<Longrightarrow> kmalloc (of_nat n) s = kmalloc_loop 0 (head s) s"
proof -
  assume n8: "n \<le> 4294967288" and A: "heap_alloc n hs bs = (q, bs')"
  show "\<exists>s'. kmalloc (of_nat n) s = Some (Done (of_nat q, s')) \<and> heap_rel hs s' bs' \<and>
        (\<forall>y. untouched hs bs y \<longrightarrow> mem s' (of_nat y) = mem s (of_nat y)) \<and> (q = 0 \<longrightarrow> s' = s)"
  proof (cases "n = 0")
    case True
    then show ?thesis using R A by (simp add: kmalloc_def heap_alloc_def)
  next
    case False
    then have nz: "(of_nat n :: u32) \<noteq> 0" using n by (intro of_nat_nonzero) auto
    have r8: "round8 n < 4294967296" using n8 by (simp add: round8_def)
    have k: "kmalloc (of_nat n) s = kmalloc_loop (of_nat (round8 n)) (head s) s"
      using nz n8 by (simp add: kmalloc_def align_up_nat)
    show ?thesis
    proof (cases "ff_alloc (round8 n) hs bs")
      case None
      then show ?thesis using k kmalloc_loop_rel [OF R r8] R A False by (simp add: heap_alloc_def)
    next
      case (Some r)
      then have F: "ff_alloc (round8 n) hs bs = Some (q, bs')" using A False by (simp add: heap_alloc_def)
      show ?thesis using k kmalloc_loop_rel [OF R r8] F take_rel [OF R F] by simp
    qed
  qed
next
  assume "4294967288 < n"
  then show "kmalloc (of_nat n) s = kmalloc_loop 0 (head s) s"
    using n of_nat_nonzero [of n] by (simp add: kmalloc_def align_up_nat)
qed

lemma kmalloc_cases:
  assumes R: "heap_rel hs s bs"
  obtains (none) "kmalloc n s = Some (Done (0, s))"
  | (some) k q bs' s' where "kmalloc n s = Some (Done (of_nat q, s'))" "ff_alloc k hs bs = Some (q, bs')"
      "heap_rel hs s' bs'" "n \<le> 0xFFFFFFF8 \<Longrightarrow> k = round8 (unat n)"
      "\<And>y. untouched hs bs y \<Longrightarrow> mem s' (of_nat y) = mem s (of_nat y)"
proof (cases "n = 0")
  case True
  then show thesis by (intro none) (simp add: kmalloc_def)
next
  case False
  obtain k where k: "kmalloc n s = kmalloc_loop (of_nat k) (head s) s" "k < 4294967296"
    "n \<le> 0xFFFFFFF8 \<Longrightarrow> k = round8 (unat n)"
  proof (cases "unat n \<le> 4294967288")
    case True
    then show thesis using False align_up_nat(1) [of "unat n"]
      by (intro that [of "round8 (unat n)"]) (auto simp: kmalloc_def round8_def)
  next
    case F: False
    then show thesis using False align_up_nat(2) [of "unat n"] unat_lt32 [of n]
      by (intro that [of 0]) (auto simp: kmalloc_def word_le_nat_alt)
  qed
  show thesis
  proof (cases "ff_alloc k hs bs")
    case None
    then show thesis using k kmalloc_loop_rel [OF R k(2)] by (intro none) simp
  next
    case (Some r)
    obtain q bs' where r: "r = (q, bs')" by (cases r)
    show thesis
    proof (rule some [where k = k])
      show "kmalloc n s = Some (Done (of_nat q, s\<lparr>mem := take_block (of_nat k) (of_nat (q - 20)) (mem s)\<rparr>))"
        using k kmalloc_loop_rel [OF R k(2)] Some r by simp
    qed (use k take_rel [OF R, of k q bs'] Some r in auto)
  qed
qed

lemma heap_ptr:
  assumes "heap_rel hs s bs" "hs + 20 \<le> q" "q \<le> hs + 262144"
  shows "unat (of_nat q :: u32) = q" "(of_nat q :: u32) \<noteq> 0"
  using assms by (auto simp: heap_rel_def unat_of_nat32 of_nat_nonzero)

lemma kmalloc_law:
  assumes "heap_ok s"
  shows "\<exists>p s'. kmalloc n s = Some (Done (p, s')) \<and> heap_ok s' \<and> (p = 0 \<longrightarrow> s' = s) \<and>
      (p \<noteq> 0 \<longrightarrow> (\<exists>z. unat p \<notin> fst ` live s \<and> live s' = insert (unat p, z) (live s) \<and>
                      (n \<le> 0xFFFFFFF8 \<longrightarrow> unat n \<le> z))) \<and>
      (\<forall>q y i. (q, y) \<in> live s \<longrightarrow> i < y \<longrightarrow> heap_byte s' (q + i) = heap_byte s (q + i))"
proof -
  from assms obtain hs bs where R: "heap_rel hs s bs" by (auto simp: heap_ok_def)
  show ?thesis using R
  proof (cases rule: kmalloc_cases [where n = n])
    case none
    then show ?thesis using assms by auto
  next
    case (some k q bs' s')
    note t = take_rel(3-6) [OF R some(2)]
    note p = heap_ptr [OF R t(2,1)]
    from t(3) obtain z where z: "k \<le> z" "live_blocks hs bs' = insert (q, z) (live_blocks hs bs)" by auto
    have "unat n \<le> z" if "n \<le> 0xFFFFFFF8"
      using some(4) [OF that] z(1) by (simp add: round8_def)
    then show ?thesis
      using some(1,3,5) p t z untouched_live [OF R]
      by (intro exI [of _ "of_nat q"] exI [of _ s'])
        (auto simp: heap_ok_def live_rel [OF R] live_rel [OF some(3)] heap_byte_def simp del: of_nat_add)
  qed
qed

lemma kfree_law:
  assumes "heap_ok s" and "(p, z) \<in> live s"
  shows "\<exists>s'. kfree (of_nat p) s = Done s' \<and> heap_ok s' \<and> live s' = live s - {(p, z)} \<and>
      (\<forall>q y i. (q, y) \<in> live s \<longrightarrow> i < y \<longrightarrow> heap_byte s' (q + i) = heap_byte s (q + i))"
proof -
  from assms obtain hs bs where R: "heap_rel hs s bs" by (auto simp: heap_ok_def)
  have L: "(p, z) \<in> live_blocks hs bs" using assms live_rel [OF R] by simp
  from kfree_rel [OF R L] obtain s' where
    k: "kfree (of_nat p) s = Done s'" "heap_rel hs s' (heap_free p hs bs)"
    "live_blocks hs (heap_free p hs bs) = live_blocks hs bs - {(p, z)}"
    "\<And>y. untouched hs bs y \<Longrightarrow> mem s' (of_nat y) = mem s (of_nat y)" by blast
  then show ?thesis using untouched_live [OF R]
    by (intro exI [of _ s'])
      (auto simp: heap_ok_def live_rel [OF R] live_rel [OF k(2)] heap_byte_def simp del: of_nat_add)
qed

lemma poke_rel:
  assumes R: "heap_rel hs s bs" and L: "(p, z) \<in> live_blocks hs bs" and i: "i < z"
  shows "heap_rel hs (poke (p + i) v s) bs"
proof -
  have nh: "p + i \<notin> hdr_bytes hs bs" using live_blocks_hdr [OF L, of "p + i"] i by auto
  have lt: "p + i < 4294967296" using live_blocks_bounds [OF L] R i by (auto simp: heap_rel_def)
  have "seg ((mem s)(of_nat (p + i) := v)) 0 hs bs 0 = seg (mem s) 0 hs bs 0"
  proof (rule seg_frame)
    fix y assume y: "y \<in> hdr_bytes hs bs"
    then have "y < 4294967296" using hdr_bytes_bounds [OF y] R by (auto simp: heap_rel_def)
    moreover have "y \<noteq> p + i" using y nh by auto
    ultimately have "(of_nat y :: u32) \<noteq> of_nat (p + i)" using lt by (subst of_nat_eq_iff32) auto
    then show "((mem s)(of_nat (p + i) := v)) (of_nat y) = mem s (of_nat y)" by (simp del: of_nat_add)
  qed
  then show ?thesis using R by (simp add: heap_rel_def poke_def del: of_nat_add)
qed

lemma poke_law:
  assumes "heap_ok s" and "(p, z) \<in> live s" and i: "i < z"
  shows "heap_ok (poke (p + i) v s) \<and> live (poke (p + i) v s) = live s \<and>
    (\<forall>a < 4294967296. heap_byte (poke (p + i) v s) a = (if a = p + i then v else heap_byte s a))"
proof -
  from assms obtain hs bs where R: "heap_rel hs s bs" by (auto simp: heap_ok_def)
  have L: "(p, z) \<in> live_blocks hs bs" using assms live_rel [OF R] by simp
  note R' = poke_rel [OF R L i, of v]
  have lt: "p + i < 4294967296" using live_blocks_bounds [OF L] R i by (auto simp: heap_rel_def)
  have "heap_byte (poke (p + i) v s) a = (if a = p + i then v else heap_byte s a)" if "a < 4294967296" for a
    using of_nat_eq_iff32 [OF that lt] by (simp add: heap_byte_def poke_def del: of_nat_add)
  then show ?thesis using R' live_rel [OF R] live_rel [OF R'] by (auto simp: heap_ok_def)
qed

lemma live_facts:
  assumes "heap_ok s" and "(p, z) \<in> live s"
  shows "0 < p \<and> p + z < 4294967296"
    and "(q, y) \<in> live s \<Longrightarrow> p = q \<and> z = y \<or> p + z \<le> q \<or> q + y \<le> p"
proof -
  from assms obtain hs bs where R: "heap_rel hs s bs" by (auto simp: heap_ok_def)
  have L: "(p, z) \<in> live_blocks hs bs" using assms live_rel [OF R] by simp
  show "0 < p \<and> p + z < 4294967296"
    using live_blocks_bounds [OF L] R by (auto simp: heap_rel_def)
  show "p = q \<and> z = y \<or> p + z \<le> q \<or> q + y \<le> p" if "(q, y) \<in> live s"
    using live_blocks_disjoint [OF L, of q y] that live_rel [OF R] by auto
qed

interpretation kh: heap_service heap_ok live heap_byte kmalloc kfree poke
  by unfold_locales (rule kmalloc_law kfree_law poke_law live_facts; assumption)+

section \<open>Statistics and reachable heaps\<close>

lemma finite_holes [simp]: "finite {z. (z, False) \<in> set bs}"
  by (rule finite_subset [of _ "fst ` set bs"]) force+

lemma largest_hole_snoc:
  "largest_hole (xs @ [(z, u)]) = (if u then largest_hole xs else max (largest_hole xs) z)"
proof -
  have "{y. (y, False) \<in> set (xs @ [(z, False)])} = insert z {y. (y, False) \<in> set xs}" by auto
  then show ?thesis
    by (auto simp: largest_hole_def insert_commute [of 0 z] max.commute)
qed

lemma largest_hole_le: "a + largest_hole xs \<le> span a xs"
proof -
  have "z \<le> span a xs - a" if "(z, False) \<in> set xs" for z
    using member_le_sum_list [of "20 + z" "map (\<lambda>b. 20 + fst b) xs"] that by (force simp: span_sum)
  then have "largest_hole xs \<le> span a xs - a" unfolding largest_hole_def by (subst Max_le_iff) auto
  then show ?thesis using span_ge [of a xs] by linarith
qed

lemma count_block_snoc:
  assumes "wd m (a + 4) = of_nat z" "wd m (a + 8) = (if u then 1 else 0)" "z < 4294967296"
    "largest_hole xs < 4294967296"
  shows "count_block m (of_nat a) (stats_of xs) = stats_of (xs @ [(z, u)])"
  using assms unfolding count_block_def Let_def hdr_nat
  by (auto simp: stats_of_def used_sum_def free_sum_def largest_hole_snoc max_def
      word_less_nat_alt unat_of_nat32)

lemma stats_loop_spec:
  assumes "seg m p (span a xs) bs 0" "0 < a" "span a (xs @ bs) < 4294967296"
  shows "stats_loop m (if bs = [] then 0 else of_nat (span a xs)) (stats_of xs) =
    Some (Done (stats_of (xs @ bs)))"
  using assms
proof (induction bs arbitrary: p xs)
  case Nil
  then show ?case by (simp add: stats_loop.simps)
next
  case (Cons b bs)
  obtain z u where b: "b = (z, u)" by (cases b)
  have lt: "span a xs + 20 + z < 4294967296"
    using Cons.prems span_ge [of "span a xs + 20 + z" bs] by (simp add: b)
  have nz: "(of_nat (span a xs) :: u32) \<noteq> 0"
    using lt span_ge [of a xs] Cons.prems by (intro of_nat_nonzero) auto
  have c: "count_block m (of_nat (span a xs)) (stats_of xs) = stats_of (xs @ [(z, u)])"
    using Cons.prems lt largest_hole_le [of a xs] by (intro count_block_snoc) (auto simp: b)
  have "stats_loop m (of_nat (span a xs)) (stats_of xs) =
      stats_loop m (if bs = [] then 0 else of_nat (span a (xs @ [(z, u)]))) (stats_of (xs @ [(z, u)]))"
    using Cons.prems nz c
    by (subst stats_loop.simps) (simp add: hdr_nat b)
  also have "\<dots> = Some (Done (stats_of ((xs @ [(z, u)]) @ bs)))"
    using Cons.prems by (intro Cons.IH [of "of_nat (span a xs)"]) (auto simp: b)
  finally show ?case by (simp add: b)
qed

lemma heap_total: "span a bs = a + (used_sum bs + free_sum bs + 20 * length bs)"
  by (induction bs arbitrary: a) (auto simp: used_sum_def free_sum_def)

lemma kheap_get_stats_rel:
  assumes "heap_rel hs s bs"
  shows "kheap_get_stats s = Some (Done (stats_of bs))"
    and "used_sum bs + free_sum bs + 20 * length bs = 262144"
proof -
  have "bs \<noteq> []" using assms by (auto simp: heap_rel_def)
  then show "kheap_get_stats s = Some (Done (stats_of bs))"
    using stats_loop_spec [of "mem s" 0 hs "[]" bs] assms
    by (simp add: heap_rel_def kheap_get_stats_def stats_of_def [of "[]"] KHEAP_BYTES_def
        used_sum_def free_sum_def largest_hole_def)
  show "used_sum bs + free_sum bs + 20 * length bs = 262144"
    using assms heap_total [of hs bs] by (simp add: heap_rel_def)
qed

lemma heap_reach_rel:
  assumes "heap_reach hs s" and "0 < hs" and "hs + 262144 < 4294967296"
  shows "\<exists>bs. heap_rel hs s bs"
  using assms
proof (induction rule: heap_reach.induct)
  case (start s)
  then show ?case using kheap_init_rel by blast
next
  case (malloc s n p s')
  then obtain bs where R: "heap_rel hs s bs" by blast
  show ?case by (rule kmalloc_cases [OF R, of n]) (use malloc(2) R in auto)
next
  case (free s p z s')
  then obtain bs where R: "heap_rel hs s bs" by blast
  then show ?case using free(2,3) kfree_rel [OF R, of p z] live_rel [OF R] by (metis outcome.inject(1))
next
  case (free_null s s')
  then show ?case by (simp add: kfree_def)
next
  case (client s p z i v)
  then obtain bs where R: "heap_rel hs s bs" by blast
  then show ?case using client(2,3) poke_rel [OF R] live_rel [OF R] by blast
qed

lemma all_free_single:
  assumes "coalesced bs" "live_blocks a bs = {}"
  shows "length bs \<le> 1"
proof -
  have "\<not> snd b" if "b \<in> set bs" for b
    using assms(2) that
  proof (induction bs arbitrary: a)
    case (Cons c bs)
    then show ?case by (cases c) (auto split: if_splits)
  qed simp
  then show ?thesis
    using assms(1) by (cases bs; cases "tl bs") (auto simp: coalesced_Cons)
qed


lemma demo_heap_rel: "heap_rel 1048576 demo_heap [(262124, False)]"
  unfolding demo_heap_def by (rule kheap_init_rel) simp_all

lemma demo_alloc: "heap_alloc 100 1048576 [(262124, False)] = (1048596, [(104, True), (262000, False)])"
  by (simp add: heap_alloc_def round8_def carve_def)



lemma demo_live:
  obtains s where "kmalloc (of_nat 100) demo_heap = Some (Done (of_nat 1048596, s))"
    "heap_rel 1048576 s [(104, True), (262000, False)]"
  using kmalloc_rel(1) [OF demo_heap_rel _ _ demo_alloc] by fastforce



text \<open>
  C13: A kernel that only frees live pointers and only writes inside live payloads never
  brings the heap down.  In every state reached from \<open>kheap_init\<close> by any sequence of
  \<open>kmalloc\<close>, \<open>kfree\<close> and payload writes, every \<open>kmalloc\<close> and the statistics return without a
  panic, every live pointer can be freed, and live payloads do not overlap.
\<close>
theorem heap_never_panics:
  assumes "heap_reach hs s" and "0 < hs" and "hs + 262144 < 4294967296"
  shows "(\<exists>p s'. kmalloc n s = Some (Done (p, s'))) \<and> (\<exists>st. kheap_get_stats s = Some (Done st)) \<and>
    ((p, z) \<in> live s \<longrightarrow> hs + 20 \<le> p \<and> p + z \<le> hs + 262144 \<and> (\<exists>s'. kfree (of_nat p) s = Done s')) \<and>
    ((p, z) \<in> live s \<and> (q, y) \<in> live s \<longrightarrow> p = q \<and> z = y \<or> p + z + 20 \<le> q \<or> q + y + 20 \<le> p)"
proof -
  from heap_reach_rel [OF assms] obtain bs where R: "heap_rel hs s bs" by blast
  then have ok: "heap_ok s" by (auto simp: heap_ok_def)
  show ?thesis
    using kh.alloc_total [OF ok] kh.release_law [OF ok] kheap_get_stats_rel(1) [OF R]
      live_blocks_bounds [of p z hs bs] live_blocks_disjoint [of p z hs bs q y] R
    unfolding live_rel [OF R] heap_rel_def by (metis)
qed

theorem heap_never_panics_witness:
  "\<exists>s. kmalloc (of_nat 100) demo_heap = Some (Done (of_nat 1048596, s)) \<and>
     (1048596, 104) \<in> live s \<and> (\<exists>s'. kfree (of_nat 1048596) s = Done s')"
proof -
  have d: "heap_reach 1048576 demo_heap" unfolding demo_heap_def by (rule heap_reach.start)
  obtain s where k: "kmalloc (of_nat 100) demo_heap = Some (Done (of_nat 1048596, s))"
    and R: "heap_rel 1048576 s [(104, True), (262000, False)]" by (rule demo_live)
  have L: "(1048596, 104) \<in> live s" by (simp add: live_rel [OF R])
  from heap_never_panics [OF heap_reach.malloc [OF d k], where p = 1048596 and z = 104] L
  have "\<exists>s'. kfree (of_nat 1048596) s = Done s'" by auto
  then show ?thesis using k L by blast
qed

text \<open>
  Freeing a pointer twice never goes unnoticed.  After a successful \<open>kfree\<close> of a live block
  an immediate second \<open>kfree\<close> of the same pointer stops the machine, whether or not the first
  one merged the block with its neighbours.
\<close>
lemma kfree_twice_halts:
  assumes "heap_rel hs s bs" and "(p, z) \<in> live_blocks hs bs" and "kfree (of_nat p) s = Done s'"
  shows "\<exists>e. kfree (of_nat p) s' = Halted e"
proof -
  from live_blocks_split [OF assms(2)] obtain xs ys where
    bs: "bs = xs @ (z, True) # ys" and p: "p = span hs xs + 20" by blast
  show ?thesis
    using assms kfree_again_seg [of s hs xs z ys s'] unfolding p by (simp add: heap_rel_def bs)
qed

text \<open>
  The figures of \<open>kheap_get_stats\<close> are exact.  On a well-formed heap it returns, without a
  panic, the sums, counts and maximum over the block list, and used bytes, free bytes
  and one 20-byte header per block add up to the whole slab.
\<close>
lemma kheap_stats_exact:
  assumes "heap_rel hs s bs"
  shows "\<exists>st. kheap_get_stats s = Some (Done st) \<and> total_bytes st = KHEAP_BYTES \<and>
    unat (used_bytes st) = used_sum bs \<and> unat (free_bytes st) = free_sum bs \<and>
    unat (blocks_total st) = length bs \<and> unat (blocks_used st) = length (filter snd bs) \<and>
    blocks_total st = blocks_used st + blocks_free st \<and>
    unat (largest_free st) = largest_hole bs \<and>
    unat (used_bytes st) + unat (free_bytes st) + 20 * unat (blocks_total st) = unat (total_bytes st)"
proof -
  note k = kheap_get_stats_rel [OF assms]
  have l: "largest_hole bs < 4294967296"
    using largest_hole_le [of hs bs] assms by (simp add: heap_rel_def)
  have f: "length (filter snd bs) + length (filter (Not \<circ> snd) bs) = length bs"
    using sum_length_filter_compl [of snd bs] by (simp add: comp_def)
  then have "length (filter snd bs) < 4294967296" using k(2) by linarith
  with k l f show ?thesis
    by (auto simp: stats_of_def unat_of_nat32 KHEAP_BYTES_def of_nat_add [symmetric] simp del: of_nat_add)
qed

text \<open>
  A heap with nothing live is whole again.  However the heap was used since \<open>kheap_init\<close>, once
  every block has been freed the slab is one free block again, and every request from 1 to
  262120 bytes succeeds at the first payload address.
\<close>
lemma heap_all_freed_is_whole:
  assumes "heap_reach hs s" and "0 < hs" and "hs + 262144 < 4294967296" and "live s = {}"
    and "0 < n" and "n \<le> 262120"
  shows "heap_rel hs s [(262124, False)] \<and> (\<exists>s'. kmalloc (of_nat n) s = Some (Done (of_nat (hs + 20), s')))"
proof -
  from heap_reach_rel [OF assms(1-3)] obtain bs where R: "heap_rel hs s bs" by blast
  have "live_blocks hs bs = {}" using assms(4) live_rel [OF R] by simp
  moreover have "length bs \<le> 1" using R calculation all_free_single by (auto simp: heap_rel_def)
  ultimately have bs: "bs = [(262124, False)]"
    using R by (cases bs) (auto simp: heap_rel_def split: if_splits)
  have "round8 n \<le> 262124" 
    using assms(6) div_le_mono [of "n + 7" 262127 8] by (simp add: round8_def)
  then have "heap_alloc n hs bs = (hs + 20, carve (round8 n) 262124)"
    using assms(5) by (simp add: heap_alloc_def bs)
  then show ?thesis using kmalloc_rel(1) [OF R, of n "hs + 20"] R assms(6) bs by auto
qed

text \<open>
  A request larger than \<open>2^32 - 8\<close> bytes is not refused.  Rounding it up to a multiple of 8 wraps
  to 0, and on a fresh heap \<open>kmalloc\<close> returns a non-null pointer to a block with no payload.
\<close>
lemma kmalloc_huge_request:
  assumes "0 < hs" and "hs + 262144 < 4294967296" and "n > 0xFFFFFFF8"
  shows "\<exists>s'. kmalloc n (kheap_init (of_nat hs) s) = Some (Done (of_nat (hs + 20), s')) \<and>
    heap_rel hs s' [(0, True), (262104, False)]"
proof -
  note R = kheap_init_rel [OF assms(1,2), of s]
  have n: "4294967288 < unat n" using assms(3) by (simp add: word_less_nat_alt)
  have F: "ff_alloc 0 hs [(262124, False)] = Some (hs + 20, [(0, True), (262104, False)])"
    by (simp add: carve_def)
  have "kmalloc n (kheap_init (of_nat hs) s) = kmalloc_loop 0 (head (kheap_init (of_nat hs) s)) (kheap_init (of_nat hs) s)"
    using kmalloc_rel(2) [OF R unat_lt32 n] by simp
  then show ?thesis
    using kmalloc_loop_rel [OF R, of 0] F take_rel(1) [OF R F] by (auto simp del: of_nat_add)
qed

text \<open>
  \<open>kcalloc\<close> hands out zeroed memory.  If \<open>n * size\<close> does not exceed \<open>2^32 - 8\<close> and the result is
  not null, the result is a fresh live block of at least \<open>n * size\<close> bytes whose first \<open>n * size\<close>
  bytes are 0, the heap stays well formed and the payloads that were live keep their contents.
\<close>
lemma kcalloc_zeroed:
  assumes "heap_ok s" and "unat n * unat sz \<le> 4294967288" and "kcalloc n sz s = Some (Done (p, s'))" and "p \<noteq> 0"
  shows "heap_ok s' \<and>
    (\<exists>z \<ge> unat n * unat sz. unat p \<notin> fst ` live s \<and> live s' = insert (unat p, z) (live s)) \<and>
    (\<forall>i < unat n * unat sz. heap_byte s' (unat p + i) = 0) \<and>
    ((q, y) \<in> live s \<longrightarrow> i < y \<longrightarrow> heap_byte s' (q + i) = heap_byte s (q + i))"
proof -
  have u: "unat (n * sz) = unat n * unat sz"
    using assms(2) by (simp add: unat_word_ariths)
  then have le: "n * sz \<le> 0xFFFFFFF8" using assms(2) by (simp add: word_le_nat_alt)
  obtain t where k: "kmalloc (n * sz) s = Some (Done (p, t))"
    and s': "s' = t\<lparr>mem := for_range 0 (unat (n * sz)) (\<lambda>i m. m(p + of_nat i := 0)) (mem t)\<rparr>"
    using assms(3,4) by (auto simp: kcalloc_def Let_def split: option.splits outcome.splits prod.splits if_splits)
  from kh.alloc_result(1,3) [OF assms(1) k] assms(4) le obtain z where
    ok: "heap_ok t" and z: "unat p \<notin> fst ` live s" "live t = insert (unat p, z) (live s)" "unat n * unat sz \<le> z"
    by (auto simp: u)
  let ?f = "\<lambda>k t. t\<lparr>mem := for_range 0 k (\<lambda>i m. m(p + of_nat i := 0)) (mem t)\<rparr>"
  have w: "heap_ok (?f (unat n * unat sz) t) \<and> live (?f (unat n * unat sz) t) = live t \<and>
      (\<forall>a < 4294967296. heap_byte (?f (unat n * unat sz) t) a =
        (if unat p \<le> a \<and> a < unat p + unat n * unat sz then 0 else heap_byte t a))"
    using z by (intro kh.writes_keep [OF ok, where z = z]) (auto simp: poke_def for_range_Suc fun_upd_def)
  have kept: "heap_byte s' (q + i) = heap_byte s (q + i)" if "(q, y) \<in> live s" "i < y"
  proof -
    have "q + i < unat p \<or> unat p + unat n * unat sz \<le> q + i"
      using kh.alloc_disjoint [OF assms(1) k assms(4) le that(1)] that(2) by (auto simp: u)
    then show ?thesis
      using w that kh.alloc_result(4) [OF assms(1) k that] kh.live_range [OF assms(1) that(1)]
      by (auto simp: s' u)
  qed
  have "unat p + z < 4294967296" using kh.live_range [OF ok, of "unat p" z] z by simp
  then show ?thesis using w z kept by (auto simp: s' u)
qed

end
