(* ===== verification/Ports.thy ===== *)
theory Ports
  imports OS_Prelude
begin

text \<open>
  Port input and output (\<^verbatim>\<open>src/include/io.h\<close>) and the serial console
  (\<^verbatim>\<open>src/drivers/serial.c\<close>).  What the devices answer is not decided by the kernel: it is an
  argument of the model (\<open>io_in\<close>), a function of the port and of everything that has
  happened on the bus before, and every access is recorded in order in \<open>io_log\<close>.  Waiting for the transmitter may never end, so it is a partial
  function: \<open>None\<close> is "does not return".
\<close>

unbundle bit_operations_syntax

section \<open>Port access\<close>

datatype io_event =
    Out8 u16 u8
  | Out16 u16 u16
  | In8 u16 u8
  | In16 u16 u16

record ports =
  io_log :: "io_event list"
  io_in :: "io_event list \<Rightarrow> u16 \<Rightarrow> u16"

definition outb :: "u16 \<Rightarrow> u8 \<Rightarrow> ports \<Rightarrow> ports" where
  "outb port val s = s\<lparr>io_log := io_log s @ [Out8 port val]\<rparr>"

definition inb :: "u16 \<Rightarrow> ports \<Rightarrow> u8 \<times> ports" where
  "inb port s =
     (let val = ucast (io_in s (io_log s) port)
      in (val, s\<lparr>io_log := io_log s @ [In8 port val]\<rparr>))"

definition outw :: "u16 \<Rightarrow> u16 \<Rightarrow> ports \<Rightarrow> ports" where
  "outw port val s = s\<lparr>io_log := io_log s @ [Out16 port val]\<rparr>"

definition inw :: "u16 \<Rightarrow> ports \<Rightarrow> u16 \<times> ports" where
  "inw port s =
     (let val = io_in s (io_log s) port
      in (val, s\<lparr>io_log := io_log s @ [In16 port val]\<rparr>))"

text \<open>
  The string instructions move \<open>count\<close> words between a port and a buffer; the buffer is a list of
  bytes, and a word is stored low byte first.
\<close>

fun insw :: "u16 \<Rightarrow> nat \<Rightarrow> ports \<Rightarrow> u8 list \<times> ports" where
  "insw port 0 s = ([], s)"
| "insw port (Suc count) s =
     (case inw port s of (w, s) \<Rightarrow>
        (case insw port count s of (bs, s) \<Rightarrow> (ucast w # ucast (drop_bit 8 w) # bs, s)))"

fun outsw :: "u16 \<Rightarrow> u8 list \<Rightarrow> nat \<Rightarrow> ports \<Rightarrow> ports" where
  "outsw port buf 0 s = s"
| "outsw port buf (Suc count) s =
     outsw port (drop 2 buf) count
       (outw port (ucast (char_at buf 0) OR push_bit 8 (ucast (char_at buf 1))) s)"

definition io_wait :: "ports \<Rightarrow> ports" where
  "io_wait s = outb 0x80 0 s"

section \<open>The serial console\<close>

definition COM1_BASE :: u16 where "COM1_BASE = 0x3F8"
definition COM1_DATA :: u16 where "COM1_DATA = COM1_BASE + 0"
definition COM1_IER :: u16 where "COM1_IER = COM1_BASE + 1"
definition COM1_DLL :: u16 where "COM1_DLL = COM1_BASE + 0"
definition COM1_DLM :: u16 where "COM1_DLM = COM1_BASE + 1"
definition COM1_FCR :: u16 where "COM1_FCR = COM1_BASE + 2"
definition COM1_LCR :: u16 where "COM1_LCR = COM1_BASE + 3"
definition COM1_MCR :: u16 where "COM1_MCR = COM1_BASE + 4"
definition COM1_LSR :: u16 where "COM1_LSR = COM1_BASE + 5"
definition LSR_THR_EMPTY :: u8 where "LSR_THR_EMPTY = 0x20"

record serial =
  bus :: ports
  g_initialized :: int

definition serial_init :: "serial \<Rightarrow> serial" where
  "serial_init s =
     s\<lparr>bus := outb COM1_MCR 0x0B (outb COM1_FCR 0xC7 (outb COM1_LCR 0x03
               (outb COM1_DLM 0x00 (outb COM1_DLL 0x01 (outb COM1_LCR 0x80
                 (outb COM1_IER 0x00 (bus s))))))),
       g_initialized := 1\<rparr>"

definition serial_is_ready :: "serial \<Rightarrow> int" where
  "serial_is_ready s = g_initialized s"

partial_function (option) wait_tx_empty :: "ports \<Rightarrow> ports option" where
  "wait_tx_empty s =
     (case inb COM1_LSR s of
        (st, s) \<Rightarrow> if st AND LSR_THR_EMPTY = 0 then wait_tx_empty s else Some s)"

definition serial_putc :: "u8 \<Rightarrow> serial \<Rightarrow> serial option" where
  "serial_putc c s =
     (if g_initialized s = 0 then Some s
      else
        case (if c = 10
              then map_option (outb COM1_DATA 13) (wait_tx_empty (bus s))
              else Some (bus s)) of
          None \<Rightarrow> None
        | Some p \<Rightarrow>
            (case wait_tx_empty p of
               None \<Rightarrow> None
             | Some p \<Rightarrow> Some (s\<lparr>bus := outb COM1_DATA c p\<rparr>)))"

fun serial_puts :: "cstring \<Rightarrow> serial \<Rightarrow> serial option" where
  "serial_puts [] s = Some s"
| "serial_puts (c # cs) s =
     (case serial_putc c s of None \<Rightarrow> None | Some s \<Rightarrow> serial_puts cs s)"

section \<open>What the line carries\<close>

text \<open>
  The bytes written to the data port, oldest first, and what a text becomes on the line.
\<close>

definition sent :: "ports \<Rightarrow> u8 list" where
  "sent s = concat (map (\<lambda>e. case e of Out8 p v \<Rightarrow> if p = COM1_DATA then [v] else [] | _ \<Rightarrow> []) (io_log s))"

fun crlf :: "cstring \<Rightarrow> u8 list" where
  "crlf [] = []"
| "crlf (c # cs) = (if c = 10 then 13 # 10 # crlf cs else c # crlf cs)"

text \<open>
  The bus after \<open>n\<close> more byte reads of one port.  The transmitter is always going to be ready again: from
  every point on, polling the status sees the empty bit set after finitely many reads.  This is the
  documented behaviour of the 16550 that the polling relies on.
\<close>

fun read_log :: "(io_event list \<Rightarrow> u16 \<Rightarrow> u16) \<Rightarrow> u16 \<Rightarrow> nat \<Rightarrow> io_event list \<Rightarrow> io_event list" where
  "read_log f port 0 l = l"
| "read_log f port (Suc n) l = read_log f port n (l @ [In8 port (ucast (f l port))])"

definition polls_to :: "(io_event list \<Rightarrow> u16 \<Rightarrow> u16) \<Rightarrow> u16 \<Rightarrow> (u8 \<Rightarrow> bool) \<Rightarrow> io_event list \<Rightarrow> bool" where
  "polls_to f port good l \<longleftrightarrow> (\<exists>n. good (ucast (f (read_log f port n l) port)))"

definition uart_recovers :: "ports \<Rightarrow> bool" where
  "uart_recovers s \<longleftrightarrow>
     (\<forall>l. polls_to (io_in s) COM1_LSR (\<lambda>st. st AND LSR_THR_EMPTY \<noteq> 0) l)"

lemma sent_simps [simp]:
  "sent (s\<lparr>io_log := io_log s @ [Out8 p v]\<rparr>) = sent s @ (if p = COM1_DATA then [v] else [])"
  "sent (s\<lparr>io_log := io_log s @ [In8 p v]\<rparr>) = sent s"
  by (simp_all add: sent_def)

lemma wait_tx_empty_returns:
  assumes "uart_recovers s"
  shows "\<exists>t. wait_tx_empty s = Some t \<and> sent t = sent s \<and> io_in t = io_in s \<and> uart_recovers t"
proof -
  obtain n where "(ucast (io_in s (read_log (io_in s) COM1_LSR n (io_log s)) COM1_LSR) :: u8) AND LSR_THR_EMPTY \<noteq> 0"
    using assms by (auto simp: uart_recovers_def polls_to_def)
  then show ?thesis using assms
  proof (induction n arbitrary: s)
    case 0
    then show ?case
      by (subst wait_tx_empty.simps) (simp add: inb_def Let_def uart_recovers_def)
  next
    case (Suc n)
    let ?t = "snd (inb COM1_LSR s)"
    have "\<exists>t. wait_tx_empty ?t = Some t \<and> sent t = sent ?t \<and> io_in t = io_in ?t \<and> uart_recovers t"
      using Suc.prems by (intro Suc.IH) (auto simp: inb_def Let_def uart_recovers_def)
    then show ?case using Suc.prems
      by (subst wait_tx_empty.simps) (auto simp: inb_def Let_def uart_recovers_def)
  qed
qed

lemma serial_putc_returns:
  assumes "uart_recovers (bus s)" and "g_initialized s \<noteq> 0"
  shows "\<exists>t. serial_putc c s = Some t \<and> sent (bus t) = sent (bus s) @ crlf [c] \<and>
    uart_recovers (bus t) \<and> g_initialized t \<noteq> 0"
proof -
  from wait_tx_empty_returns [OF assms(1)] obtain p where
    p: "wait_tx_empty (bus s) = Some p" "sent p = sent (bus s)" "uart_recovers p" by blast
  have r: "uart_recovers (outb COM1_DATA 13 p)" using p(3) by (simp add: outb_def uart_recovers_def)
  from wait_tx_empty_returns [OF r] obtain q where
    q: "wait_tx_empty (outb COM1_DATA 13 p) = Some q" "sent q = sent (bus s) @ [13]" "uart_recovers q"
    using p(2) by (auto simp: outb_def)
  show ?thesis using p q assms(2)
    by (cases "c = 10") (auto simp: serial_putc_def outb_def uart_recovers_def)
qed

lemma crlf_append: "crlf (xs @ ys) = crlf xs @ crlf ys"
  by (induction xs rule: crlf.induct) auto

end
