(* ===== verification/Cpu_Tables.thy ===== *)
theory Cpu_Tables
  imports Ports
begin

text \<open>
  The tables the processor reads: segment descriptors (\<^verbatim>\<open>src/cpu/gdt.c\<close>), the
  task state segment (\<^verbatim>\<open>src/cpu/tss.c\<close>), interrupt gates (\<^verbatim>\<open>src/cpu/idt.c\<close>),
  the interrupt controller (\<^verbatim>\<open>src/cpu/pic.c\<close>) and the table of C handlers
  (\<open>isr_register\<close> of \<^verbatim>\<open>src/cpu/isr.c\<close>).  The addresses of the tables and of the
  assembly stubs are decided by the linker and are arguments.  \<open>gdtr\<close>, \<open>idtr\<close> and \<open>tr\<close> stand for what
  \<^verbatim>\<open>lgdt\<close>, \<^verbatim>\<open>lidt\<close> and \<^verbatim>\<open>ltr\<close> load.
\<close>

unbundle bit_operations_syntax

section \<open>Segment descriptors\<close>

record gdt_entry =
  limit_low :: u16
  base_low :: u16
  base_mid :: u8
  access :: u8
  granularity :: u8
  base_high :: u8

record table_ptr =
  tbl_limit :: u16
  tbl_base :: u32

definition GDT_KCODE_SEL :: u32 where "GDT_KCODE_SEL = 0x08"
definition GDT_KDATA_SEL :: u32 where "GDT_KDATA_SEL = 0x10"
definition GDT_UCODE_SEL :: u32 where "GDT_UCODE_SEL = 0x18 OR 3"
definition GDT_UDATA_SEL :: u32 where "GDT_UDATA_SEL = 0x20 OR 3"
definition GDT_TSS_SEL :: u16 where "GDT_TSS_SEL = 0x28"

record tss =
  t_prev_tss :: u32
  t_esp0 :: u32
  t_ss0 :: u32
  t_esp1 :: u32
  t_ss1 :: u32
  t_esp2 :: u32
  t_ss2 :: u32
  t_cr3 :: u32
  t_eip :: u32
  t_eflags :: u32
  t_eax :: u32
  t_ecx :: u32
  t_edx :: u32
  t_ebx :: u32
  t_esp :: u32
  t_ebp :: u32
  t_esi :: u32
  t_edi :: u32
  t_es :: u32
  t_cs :: u32
  t_ss :: u32
  t_ds :: u32
  t_fs :: u32
  t_gs :: u32
  t_ldt :: u32
  t_trap :: u16
  t_iomap_base :: u16

record segments =
  gdt :: "nat \<Rightarrow> gdt_entry"
  gdt_ptr :: table_ptr
  gdtr :: "table_ptr option"
  kernel_tss :: tss
  tr :: u16

definition set_entry :: "nat \<Rightarrow> u32 \<Rightarrow> u32 \<Rightarrow> u8 \<Rightarrow> u8 \<Rightarrow> segments \<Rightarrow> segments" where
  "set_entry i b lim acc gran s =
     s\<lparr>gdt := (gdt s)(i :=
         \<lparr>limit_low = ucast (lim AND 0xFFFF),
          base_low = ucast (b AND 0xFFFF),
          base_mid = ucast (drop_bit 16 b AND 0xFF),
          access = acc,
          granularity = ucast (drop_bit 16 lim AND 0x0F) OR (gran AND 0xF0),
          base_high = ucast (drop_bit 24 b AND 0xFF)\<rparr>)\<rparr>"

definition gdt_set_tss :: "u32 \<Rightarrow> u32 \<Rightarrow> segments \<Rightarrow> segments" where
  "gdt_set_tss b lim s = set_entry 5 b lim 0x89 0x00 s"

definition gdt_init :: "u32 \<Rightarrow> segments \<Rightarrow> segments" where
  "gdt_init gdt_addr s =
     (let s = s\<lparr>gdt_ptr := \<lparr>tbl_limit = 6 * 8 - 1, tbl_base = gdt_addr\<rparr>\<rparr>;
          s = set_entry 0 0 0 0x00 0x00 s;
          s = set_entry 1 0 0xFFFFFFFF 0x9A 0xCF s;
          s = set_entry 2 0 0xFFFFFFFF 0x92 0xCF s;
          s = set_entry 3 0 0xFFFFFFFF 0xFA 0xCF s;
          s = set_entry 4 0 0xFFFFFFFF 0xF2 0xCF s
      in s\<lparr>gdtr := Some (gdt_ptr s)\<rparr>)"

definition zero_tss :: tss where
  "zero_tss = \<lparr>t_prev_tss = 0, t_esp0 = 0, t_ss0 = 0, t_esp1 = 0, t_ss1 = 0, t_esp2 = 0, t_ss2 = 0,
     t_cr3 = 0, t_eip = 0, t_eflags = 0, t_eax = 0, t_ecx = 0, t_edx = 0, t_ebx = 0,
     t_esp = 0, t_ebp = 0, t_esi = 0, t_edi = 0, t_es = 0, t_cs = 0, t_ss = 0, t_ds = 0,
     t_fs = 0, t_gs = 0, t_ldt = 0, t_trap = 0, t_iomap_base = 0\<rparr>"

definition tss_init :: "u32 \<Rightarrow> segments \<Rightarrow> segments" where
  "tss_init tss_addr s =
     (let t = zero_tss\<lparr>t_ss0 := GDT_KDATA_SEL, t_esp0 := 0, t_iomap_base := 104,
                t_cs := GDT_KCODE_SEL, t_ss := GDT_KDATA_SEL, t_ds := GDT_KDATA_SEL,
                t_es := GDT_KDATA_SEL, t_fs := GDT_KDATA_SEL, t_gs := GDT_KDATA_SEL\<rparr>;
          s = gdt_set_tss tss_addr (104 - 1) (s\<lparr>kernel_tss := t\<rparr>)
      in s\<lparr>tr := GDT_TSS_SEL\<rparr>)"

definition tss_set_esp0 :: "u32 \<Rightarrow> segments \<Rightarrow> segments" where
  "tss_set_esp0 esp0 s = s\<lparr>kernel_tss := (kernel_tss s)\<lparr>t_esp0 := esp0\<rparr>\<rparr>"

section \<open>Interrupt gates\<close>

record idt_entry =
  offset_low :: u16
  selector :: u16
  gate_zero :: u8
  type_attr :: u8
  offset_high :: u16

record interrupts =
  idt :: "u8 \<Rightarrow> idt_entry"
  idt_ptr :: table_ptr
  idtr :: "table_ptr option"

definition idt_set_gate :: "u8 \<Rightarrow> u32 \<Rightarrow> u16 \<Rightarrow> u8 \<Rightarrow> interrupts \<Rightarrow> interrupts" where
  "idt_set_gate num handler sel flags s =
     s\<lparr>idt := (idt s)(num :=
         \<lparr>offset_low = ucast (handler AND 0xFFFF), selector = sel, gate_zero = 0, type_attr = flags,
          offset_high = ucast (drop_bit 16 handler AND 0xFFFF)\<rparr>)\<rparr>"

definition idt_init :: "u32 \<Rightarrow> (nat \<Rightarrow> u32) \<Rightarrow> u32 \<Rightarrow> interrupts \<Rightarrow> interrupts" where
  "idt_init idt_addr isr_stub_table isr128 s =
     (let s = s\<lparr>idt_ptr := \<lparr>tbl_limit = 256 * 8 - 1, tbl_base = idt_addr\<rparr>\<rparr>;
          s = for_range 0 32 (\<lambda>i. idt_set_gate (of_nat i) (isr_stub_table i) 0x08 0x8E) s;
          s = for_range 0 16
                (\<lambda>i. idt_set_gate (of_nat (32 + i)) (isr_stub_table (32 + i)) 0x08 0x8E) s;
          s = idt_set_gate 128 isr128 0x08 0xEF s
      in s\<lparr>idtr := Some (idt_ptr s)\<rparr>)"

section \<open>The interrupt controller\<close>

definition PIC1_CMD :: u16 where "PIC1_CMD = 0x20"
definition PIC1_DATA :: u16 where "PIC1_DATA = 0x21"
definition PIC2_CMD :: u16 where "PIC2_CMD = 0xA0"
definition PIC2_DATA :: u16 where "PIC2_DATA = 0xA1"
definition PIC_EOI :: u8 where "PIC_EOI = 0x20"

definition pic_init :: "ports \<Rightarrow> ports" where
  "pic_init s =
     (let s = io_wait (outb PIC1_CMD 0x11 s);
          s = io_wait (outb PIC2_CMD 0x11 s);
          s = io_wait (outb PIC1_DATA 0x20 s);
          s = io_wait (outb PIC2_DATA 0x28 s);
          s = io_wait (outb PIC1_DATA 0x04 s);
          s = io_wait (outb PIC2_DATA 0x02 s);
          s = io_wait (outb PIC1_DATA 0x01 s);
          s = io_wait (outb PIC2_DATA 0x01 s);
          s = outb PIC1_DATA 0x00 s
      in outb PIC2_DATA 0x00 s)"

definition pic_send_eoi :: "u8 \<Rightarrow> ports \<Rightarrow> ports" where
  "pic_send_eoi irq s =
     (let s = (if irq \<ge> 8 then outb PIC2_CMD PIC_EOI s else s) in outb PIC1_CMD PIC_EOI s)"

definition pic_mask_irq :: "u8 \<Rightarrow> ports \<Rightarrow> ports" where
  "pic_mask_irq irq s =
     (let port = (if irq < 8 then PIC1_DATA else PIC2_DATA);
          b = (if irq < 8 then irq else irq - 8);
          (v, s) = inb port s
      in outb port (v OR ucast (push_bit (unat b) 1 :: u32)) s)"

definition pic_unmask_irq :: "u8 \<Rightarrow> ports \<Rightarrow> ports" where
  "pic_unmask_irq irq s =
     (let port = (if irq < 8 then PIC1_DATA else PIC2_DATA);
          b = (if irq < 8 then irq else irq - 8);
          (v, s) = inb port s
      in outb port (v AND ucast (NOT (push_bit (unat b) 1) :: u32)) s)"

section \<open>The handler table\<close>

text \<open>The stack frame that the assembly stubs build.\<close>

record registers =
  r_gs :: u32
  r_fs :: u32
  r_es :: u32
  r_ds :: u32
  r_edi :: u32
  r_esi :: u32
  r_ebp :: u32
  r_esp :: u32
  r_ebx :: u32
  r_edx :: u32
  r_ecx :: u32
  r_eax :: u32
  r_int_no :: u32
  r_err_code :: u32
  r_eip :: u32
  r_cs :: u32
  r_eflags :: u32
  r_useresp :: u32
  r_ss :: u32

text \<open>The functions the kernel registers; the table is zero at boot.\<close>

datatype isr_handler_t =
    No_handler
  | Page_fault_handler
  | Timer_irq
  | Kb_irq_handler

definition isr_register :: "u8 \<Rightarrow> isr_handler_t \<Rightarrow> (u8 \<Rightarrow> isr_handler_t) \<Rightarrow> u8 \<Rightarrow> isr_handler_t" where
  "isr_register num handler handlers = handlers(num := handler)"

section \<open>What the processor reads\<close>

text \<open>
  The base, limit in bytes and privilege level of a segment descriptor, and the target and
  privilege level of a gate, as the processor decodes them.
\<close>

definition seg_base :: "gdt_entry \<Rightarrow> u32" where
  "seg_base d = ucast (base_low d) OR push_bit 16 (ucast (base_mid d)) OR push_bit 24 (ucast (base_high d))"

definition raw_limit :: "gdt_entry \<Rightarrow> u32" where
  "raw_limit d = ucast (limit_low d) OR push_bit 16 (ucast (granularity d AND 0x0F))"

definition seg_limit :: "gdt_entry \<Rightarrow> u32" where
  "seg_limit d = (if bit (granularity d) 7 then push_bit 12 (raw_limit d) OR 0xFFF else raw_limit d)"

definition seg_dpl :: "gdt_entry \<Rightarrow> u8" where
  "seg_dpl d = drop_bit 5 (access d) AND 3"

definition gate_target :: "idt_entry \<Rightarrow> u32" where
  "gate_target g = ucast (offset_low g) OR push_bit 16 (ucast (offset_high g))"

definition gate_present :: "idt_entry \<Rightarrow> bool" where
  "gate_present g = bit (type_attr g) 7"

definition gate_dpl :: "idt_entry \<Rightarrow> u8" where
  "gate_dpl g = drop_bit 5 (type_attr g) AND 3"

definition zero_gate :: idt_entry where
  "zero_gate = \<lparr>offset_low = 0, selector = 0, gate_zero = 0, type_attr = 0, offset_high = 0\<rparr>"

definition gate_is :: "u32 \<Rightarrow> u8 \<Rightarrow> idt_entry \<Rightarrow> bool" where
  "gate_is h flags g \<longleftrightarrow> gate_target g = h \<and> selector g = 0x08 \<and> type_attr g = flags"

lemma low_masks:
  "(0xFFFF :: 'a::len word) = mask 16" "(0xFF :: 'a::len word) = mask 8" "(0x0F :: 'a::len word) = mask 4"
  "(0xF0 :: u8) = push_bit 4 (mask 4)"
  by (simp_all add: mask_eq_exp_minus_1)

lemma seg_base_set:
  "seg_base (gdt (set_entry i b lim acc gran s) i) = b"
proof (rule bit_word_eqI)
  fix n assume "n < LENGTH(32)"
  then consider "n < 16" | "16 \<le> n" "n < 24" | "24 \<le> n" "n < 32" by fastforce
  then show "bit (seg_base (gdt (set_entry i b lim acc gran s) i)) n = bit b n"
    by cases (auto simp: seg_base_def set_entry_def low_masks bit_simps)
qed

lemma raw_limit_set:
  "raw_limit (gdt (set_entry i b lim acc gran s) i) = lim AND mask 20"
proof (rule bit_word_eqI)
  fix n assume "n < LENGTH(32)"
  then consider "n < 16" | "16 \<le> n" "n < 20" | "20 \<le> n" "n < 32" by fastforce
  then show "bit (raw_limit (gdt (set_entry i b lim acc gran s) i)) n = bit (lim AND mask 20) n"
    by cases (auto simp: raw_limit_def set_entry_def low_masks bit_simps)
qed

lemma seg_limit_set:
  "seg_limit (gdt (set_entry i b lim acc gran s) i) =
     (if bit gran 7 then push_bit 12 (lim AND mask 20) OR 0xFFF else lim AND mask 20)"
proof -
  have "bit (granularity (gdt (set_entry i b lim acc gran s) i)) 7 = bit gran 7"
    by (auto simp: set_entry_def low_masks bit_simps)
  then show ?thesis unfolding seg_limit_def raw_limit_set by simp
qed

lemma set_entry_other [simp]: "j \<noteq> i \<Longrightarrow> gdt (set_entry i b lim acc gran s) j = gdt s j"
  by (simp add: set_entry_def)

lemma set_entry_fields [simp]:
  "gdt_ptr (set_entry i b lim acc gran s) = gdt_ptr s" "gdtr (set_entry i b lim acc gran s) = gdtr s"
  "kernel_tss (set_entry i b lim acc gran s) = kernel_tss s" "tr (set_entry i b lim acc gran s) = tr s"
  "access (gdt (set_entry i b lim acc gran s) i) = acc"
  by (simp_all add: set_entry_def)

lemma gdt_update [simp]:
  "gdt (s\<lparr>gdtr := x\<rparr>) = gdt s" "gdt (s\<lparr>tr := y\<rparr>) = gdt s" "gdt (s\<lparr>kernel_tss := t\<rparr>) = gdt s" "gdt (s\<lparr>gdt_ptr := p\<rparr>) = gdt s"
  by simp_all

text \<open>
  C34: The boot-time segments are what ring separation needs.  After \<open>gdt_init\<close> and \<open>tss_init\<close> the
  processor has the table at its address with limit 47, the null descriptor is zero, descriptors 1 to 4 cover all 4 GiB from base
  0, two of them with privilege level 0 and two with privilege level 3, descriptor 5 is the task
  state segment at its own address with limit 103, interrupts from ring 3 switch to the
  kernel data segment, and the I/O bitmap starts beyond the limit, so ring 3 has no port access.
\<close>
theorem boot_segments:
  "let s = tss_init ta (gdt_init ga s0) in
    gdtr s = Some \<lparr>tbl_limit = 47, tbl_base = ga\<rparr> \<and>
    seg_base (gdt s 0) = 0 \<and> seg_limit (gdt s 0) = 0 \<and> access (gdt s 0) = 0 \<and>
    list_all (\<lambda>i. seg_base (gdt s i) = 0 \<and> seg_limit (gdt s i) = 0xFFFFFFFF) [1, 2, 3, 4] \<and>
    map (\<lambda>i. seg_dpl (gdt s i)) [1, 2, 3, 4] = [0, 0, 3, 3] \<and>
    map (\<lambda>i. bit (access (gdt s i)) 3) [1, 2, 3, 4] = [True, False, True, False] \<and>
    seg_base (gdt s 5) = ta \<and> seg_limit (gdt s 5) = 103 \<and> access (gdt s 5) = 0x89 \<and>
    tr s = GDT_TSS_SEL \<and> t_ss0 (kernel_tss s) = GDT_KDATA_SEL \<and>
    seg_limit (gdt s 5) < ucast (t_iomap_base (kernel_tss s))"
proof -
  have l: "push_bit 12 (0xFFFFFFFF AND mask 20) OR 0xFFF = (0xFFFFFFFF :: u32)"
    by (simp add: mask_eq_exp_minus_1)
  have b: "\<not> bit (0 :: u8) 7" "bit (0xCF :: u8) 7" "bit (0x9A :: u8) 3" "\<not> bit (0x92 :: u8) 3"
    "bit (0xFA :: u8) 3" "\<not> bit (0xF2 :: u8) 3" by (simp_all add: bit_numeral_rec)
  show ?thesis
    unfolding tss_init_def gdt_init_def gdt_set_tss_def Let_def
    by (simp add: seg_base_set seg_limit_set seg_dpl_def b l zero_tss_def) (simp add: mask_eq_exp_minus_1)
qed

lemma gate_target_set [simp]:
  "gate_target (idt (idt_set_gate num h sel flags s) num) = h"
proof (rule bit_word_eqI)
  fix n assume "n < LENGTH(32)"
  then consider "n < 16" | "16 \<le> n" "n < 32" by fastforce
  then show "bit (gate_target (idt (idt_set_gate num h sel flags s) num)) n = bit h n"
    by cases (auto simp: gate_target_def idt_set_gate_def low_masks bit_simps)
qed

lemma idt_set_gate_simps [simp]:
  "j \<noteq> num \<Longrightarrow> idt (idt_set_gate num h sel flags s) j = idt s j"
  "selector (idt (idt_set_gate num h sel flags s) num) = sel"
  "type_attr (idt (idt_set_gate num h sel flags s) num) = flags"
  "idt_ptr (idt_set_gate num h sel flags s) = idt_ptr s"
  by (simp_all add: idt_set_gate_def)

lemma of_nat_eq_iff8: "a < 256 \<Longrightarrow> b < 256 \<Longrightarrow> (of_nat a :: u8) = of_nat b \<longleftrightarrow> a = b"
  by (auto simp: word_unat_eq_iff take_bit_nat_eq_self_iff unat_of_nat)

lemma install_gates:
  fixes tbl :: "nat \<Rightarrow> u32" and fl :: u8 and s :: interrupts
  assumes "m + n \<le> 256"
  defines "t \<equiv> for_range 0 n (\<lambda>i. idt_set_gate (of_nat (m + i)) (tbl (m + i)) 0x08 fl) s"
  shows "idt_ptr t = idt_ptr s"
    and "k < 256 \<Longrightarrow> m \<le> k \<Longrightarrow> k < m + n \<Longrightarrow> gate_is (tbl k) fl (idt t (of_nat k))"
    and "k < 256 \<Longrightarrow> k < m \<or> m + n \<le> k \<Longrightarrow> idt t (of_nat k) = idt s (of_nat k)"
proof -
  let ?b = "\<lambda>i. idt_set_gate (of_nat (m + i)) (tbl (m + i)) 0x08 fl"
  let ?P = "\<lambda>j (t :: interrupts). idt_ptr t = idt_ptr s \<and>
    (\<forall>k < 256. if m \<le> k \<and> k < m + j then gate_is (tbl k) fl (idt t (of_nat k))
               else idt t (of_nat k) = idt s (of_nat k))"
  have "?P n t"
    unfolding t_def
  proof (rule for_range_invariant [where P = ?P])
    fix j :: nat and t :: interrupts assume j: "j < n" and P: "?P j t"
    have e: "(of_nat k :: u8) = of_nat (m + j) \<longleftrightarrow> k = m + j" if "k < 256" for k
      using that j assms(1) by (intro of_nat_eq_iff8) auto
    show "?P (Suc j) (?b j t)"
    proof (intro conjI allI impI)
      show "idt_ptr (?b j t) = idt_ptr s" using P by simp
      fix k :: nat assume k: "k < 256"
      show "if m \<le> k \<and> k < m + Suc j then gate_is (tbl k) fl (idt (?b j t) (of_nat k))
               else idt (?b j t) (of_nat k) = idt s (of_nat k)"
      proof (cases "k = m + j")
        case True
        then show ?thesis by (simp add: gate_is_def del: of_nat_add)
      next
        case False
        then have "idt (?b j t) (of_nat k) = idt t (of_nat k)" using e [OF k] by (simp del: of_nat_add)
        then show ?thesis using P k False by auto
      qed
    qed
  qed auto
  then show "idt_ptr t = idt_ptr s"
    and "k < 256 \<Longrightarrow> m \<le> k \<Longrightarrow> k < m + n \<Longrightarrow> gate_is (tbl k) fl (idt t (of_nat k))"
    and "k < 256 \<Longrightarrow> k < m \<or> m + n \<le> k \<Longrightarrow> idt t (of_nat k) = idt s (of_nat k)"
    by (auto split: if_splits) 
qed

text \<open>
  C35: The interrupt table routes every vector as intended.  Starting from the zeroed table,
  \<open>idt_init\<close> leaves vectors 0 to 47 as ring-0 interrupt gates to their stubs, vector 128 as the
  only gate that ring 3 may call, a trap gate to the system-call stub, and every other
  vector not present; the processor has the table with limit 2047.
\<close>
theorem idt_routes_vectors:
  assumes "\<forall>v. idt s v = zero_gate" and "k < 256"
  shows "let t = idt_init addr tbl isr128 s; g = idt t (of_nat k) in
    idtr t = Some \<lparr>tbl_limit = 2047, tbl_base = addr\<rparr> \<and>
    (gate_present g \<longleftrightarrow> k < 48 \<or> k = 128) \<and>
    (gate_present g \<longrightarrow> selector g = ucast GDT_KCODE_SEL) \<and>
    (k < 48 \<longrightarrow> gate_target g = tbl k \<and> gate_dpl g = 0 \<and> type_attr g AND 0xF = 0xE) \<and>
    (k = 128 \<longrightarrow> gate_target g = isr128 \<and> gate_dpl g = 3 \<and> type_attr g AND 0xF = 0xF)"
proof -
  let ?s0 = "s\<lparr>idt_ptr := \<lparr>tbl_limit = 256 * 8 - 1, tbl_base = addr\<rparr>\<rparr>"
  let ?s1 = "for_range 0 32 (\<lambda>i. idt_set_gate (of_nat i) (tbl i) 0x08 0x8E) ?s0"
  let ?s2 = "for_range 0 16 (\<lambda>i. idt_set_gate (of_nat (32 + i)) (tbl (32 + i)) 0x08 0x8E) ?s1"
  let ?s3 = "idt_set_gate 128 isr128 0x08 0xEF ?s2"
  have t: "idt_init addr tbl isr128 s = ?s3\<lparr>idtr := Some (idt_ptr ?s3)\<rparr>"
    by (simp add: idt_init_def Let_def del: of_nat_add)
  note a = install_gates [where m = 0 and n = 32 and tbl = tbl and fl = "0x8E" and s = ?s0]
    and b = install_gates [where m = 32 and n = 16 and tbl = tbl and fl = "0x8E" and s = ?s1]
  have e: "(of_nat k :: u8) = 128 \<longleftrightarrow> k = 128" using of_nat_eq_iff8 [of k 128] assms(2) by simp
  have f: "bit (0x8E :: u8) 7" "bit (0xEF :: u8) 7" "drop_bit 5 (0x8E :: u8) AND 3 = 0" "drop_bit 5 (0xEF :: u8) AND 3 = 3"
    by (simp_all add: bit_numeral_rec)
  note d = Let_def gate_present_def gate_dpl_def gate_is_def zero_gate_def GDT_KCODE_SEL_def f
  consider "k = 128" | "k < 32" | "32 \<le> k" "k < 48" | "48 \<le> k" "k \<noteq> 128" by fastforce
  then show ?thesis
  proof cases
    case 1
    then show ?thesis unfolding t using a(1) b(1) by (simp add: d)
  next
    case 2
    then have "gate_is (tbl k) 0x8E (idt ?s2 (of_nat k))"
      using a(2) [where k = k] b(3) [where k = k] by simp
    then show ?thesis unfolding t using 2 e a(1) b(1) by (simp add: d)
  next
    case 3
    then have "gate_is (tbl k) 0x8E (idt ?s2 (of_nat k))" using b(2) [where k = k] by simp
    then show ?thesis unfolding t using 3 e a(1) b(1) by (simp add: d)
  next
    case 4
    then have "idt ?s2 (of_nat k) = zero_gate" using a(3) [where k = k] b(3) [where k = k] assms by simp
    then show ?thesis unfolding t using 4 e a(1) b(1) by (simp add: d)
  qed
qed

theorem idt_routes_vectors_witness:
  "let t = idt_init 0x5000 (\<lambda>i. 0x1000 + of_nat i) 0x2000
        \<lparr>idt = (\<lambda>_. zero_gate), idt_ptr = \<lparr>tbl_limit = 0, tbl_base = 0\<rparr>, idtr = None\<rparr>
   in gate_target (idt t (of_nat 128)) = 0x2000 \<and> gate_dpl (idt t (of_nat 128)) = 3"
  using idt_routes_vectors
    [of "\<lparr>idt = (\<lambda>_. zero_gate), idt_ptr = \<lparr>tbl_limit = 0, tbl_base = 0\<rparr>, idtr = None\<rparr>" 128
        "0x5000" "\<lambda>i. 0x1000 + of_nat i" "0x2000"]
  unfolding Let_def by simp

end
