(* ===== verification/Paging.thy ===== *)
theory Paging
  imports Pmm Memory Cpu_Tables
begin

text \<open>
  Virtual memory (\<^verbatim>\<open>src/mem/paging.c\<close>).  The page directory and the first page table lie
  in the kernel's BSS at addresses the linker decides; they are arguments of the operations that use
  them.  The code reaches page tables through pointers, so every access goes through the
  processor's own translation: \<open>mmu\<close> walks the tables that \<open>cr3\<close> names when paging is on, and an
  access to a page that is not present ends in the page-fault handler, which stops the
  machine.  \<open>flushed\<close> records the \<^verbatim>\<open>invlpg\<close> instructions.
\<close>

unbundle bit_operations_syntax

section \<open>The machine\<close>

definition PAGE_PRESENT :: u32 where "PAGE_PRESENT = 0x001"
definition PAGE_RW :: u32 where "PAGE_RW = 0x002"
definition PAGE_USER :: u32 where "PAGE_USER = 0x004"

definition PAGE_DIR_INDEX :: "u32 \<Rightarrow> u32" where
  "PAGE_DIR_INDEX v = drop_bit 22 v AND 0x3FF"

definition PAGE_TBL_INDEX :: "u32 \<Rightarrow> u32" where
  "PAGE_TBL_INDEX v = drop_bit 12 v AND 0x3FF"

definition PAGE_OFFSET :: "u32 \<Rightarrow> u32" where
  "PAGE_OFFSET v = v AND 0xFFF"

record vm =
  phys :: memory
  frames :: pmm
  cr0 :: u32
  cr3 :: u32
  flushed :: "u32 list"
  handlers :: "u8 \<Rightarrow> isr_handler_t"

text \<open>The two-level walk of the processor.\<close>

definition walk :: "memory \<Rightarrow> u32 \<Rightarrow> u32 \<Rightarrow> u32 option" where
  "walk m root v =
     (let pde = ld32 m ((root AND 0xFFFFF000) + 4 * PAGE_DIR_INDEX v) in
      if pde AND PAGE_PRESENT = 0 then None
      else let pte = ld32 m ((pde AND 0xFFFFF000) + 4 * PAGE_TBL_INDEX v) in
        if pte AND PAGE_PRESENT = 0 then None
        else Some ((pte AND 0xFFFFF000) OR PAGE_OFFSET v))"

definition mmu :: "vm \<Rightarrow> u32 \<Rightarrow> u32 option" where
  "mmu s v = (if cr0 s AND 0x80000000 \<noteq> 0 then walk (phys s) (cr3 s) v else Some v)"

definition read32 :: "u32 \<Rightarrow> vm \<Rightarrow> u32 outcome" where
  "read32 v s = (case mmu s v of None \<Rightarrow> Halted ''page fault'' | Some p \<Rightarrow> Done (ld32 (phys s) p))"

definition write32 :: "u32 \<Rightarrow> u32 \<Rightarrow> vm \<Rightarrow> vm outcome" where
  "write32 v x s =
     (case mmu s v of
        None \<Rightarrow> Halted ''page fault''
      | Some p \<Rightarrow> Done (s\<lparr>phys := st32 p x (phys s)\<rparr>))"

definition load_cr3 :: "u32 \<Rightarrow> vm \<Rightarrow> vm" where
  "load_cr3 pd_phys s = s\<lparr>cr3 := pd_phys\<rparr>"

definition enable_paging :: "vm \<Rightarrow> vm" where
  "enable_paging s = s\<lparr>cr0 := cr0 s OR 0x80000000\<rparr>"

definition invlpg :: "u32 \<Rightarrow> vm \<Rightarrow> vm" where
  "invlpg virt s = s\<lparr>flushed := virt # flushed s\<rparr>"

section \<open>Operations\<close>

text \<open>A counting loop whose body may fault.\<close>

definition fill_table :: "u32 \<Rightarrow> (nat \<Rightarrow> u32) \<Rightarrow> vm \<Rightarrow> vm outcome" where
  "fill_table tbl f s =
     for_range 0 1024 (\<lambda>i r. and_then r (write32 (tbl + 4 * of_nat i) (f i))) (Done s)"

definition get_pt :: "u32 \<Rightarrow> u32 \<Rightarrow> bool \<Rightarrow> vm \<Rightarrow> (u32 \<times> vm) outcome" where
  "get_pt page_directory virt create s =
     (let pdi = PAGE_DIR_INDEX virt in
      and_then (read32 (page_directory + 4 * pdi) s) (\<lambda>pde.
        if pde AND PAGE_PRESENT \<noteq> 0 then Done (pde AND 0xFFFFF000, s)
        else if \<not> create then Done (0, s)
        else
          let (pt, fr) = pmm_alloc (frames s); s = s\<lparr>frames := fr\<rparr> in
          if pt = 0 then Done (0, s)
          else and_then (fill_table pt (\<lambda>_. 0) s) (\<lambda>s.
               and_then (write32 (page_directory + 4 * pdi)
                           (pt OR PAGE_PRESENT OR PAGE_RW OR PAGE_USER) s) (\<lambda>s.
               Done (pt, s)))))"

definition vmm_map :: "u32 \<Rightarrow> u32 \<Rightarrow> u32 \<Rightarrow> u32 \<Rightarrow> vm \<Rightarrow> (int \<times> vm) outcome" where
  "vmm_map page_directory virt ph flags s =
     (if (virt OR ph) AND 0xFFF \<noteq> 0 then Done (-1, s)
      else and_then (get_pt page_directory virt True s) (\<lambda>(pt, s).
        if pt = 0 then Done (-1, s)
        else and_then (write32 (pt + 4 * PAGE_TBL_INDEX virt)
                         ((ph AND 0xFFFFF000) OR (flags AND 0xFFF) OR PAGE_PRESENT) s) (\<lambda>s.
             Done (0, invlpg virt s))))"

definition vmm_unmap :: "u32 \<Rightarrow> u32 \<Rightarrow> vm \<Rightarrow> vm outcome" where
  "vmm_unmap page_directory virt s =
     and_then (get_pt page_directory virt False s) (\<lambda>(pt, s).
       if pt = 0 then Done s
       else and_then (write32 (pt + 4 * PAGE_TBL_INDEX virt) 0 s) (\<lambda>s. Done (invlpg virt s)))"

definition vmm_get_phys :: "u32 \<Rightarrow> u32 \<Rightarrow> vm \<Rightarrow> u32 outcome" where
  "vmm_get_phys page_directory virt s =
     and_then (get_pt page_directory virt False s) (\<lambda>(pt, s).
       if pt = 0 then Done 0xFFFFFFFF
       else and_then (read32 (pt + 4 * PAGE_TBL_INDEX virt) s) (\<lambda>pte.
         if pte AND PAGE_PRESENT = 0 then Done 0xFFFFFFFF
         else Done ((pte AND 0xFFFFF000) OR PAGE_OFFSET virt)))"

definition paging_init :: "u32 \<Rightarrow> u32 \<Rightarrow> vm \<Rightarrow> vm outcome" where
  "paging_init page_directory first_page_table s =
     and_then (fill_table page_directory (\<lambda>_. 0) s) (\<lambda>s.
     and_then (fill_table first_page_table
                 (\<lambda>i. (of_nat i * 0x1000) OR PAGE_RW OR PAGE_USER OR PAGE_PRESENT) s) (\<lambda>s.
     and_then (write32 page_directory
                 (first_page_table OR PAGE_RW OR PAGE_USER OR PAGE_PRESENT) s) (\<lambda>s.
       let s = s\<lparr>handlers := isr_register 14 Page_fault_handler (handlers s)\<rparr>
       in Done (enable_paging (load_cr3 page_directory s)))))"

section \<open>Entries on natural-number addresses\<close>

definition pdi :: "u32 \<Rightarrow> nat" where "pdi v = unat v div 4194304"
definition pti :: "u32 \<Rightarrow> nat" where "pti v = unat v div 4096 mod 1024"

definition present :: "u32 \<Rightarrow> bool" where "present e \<longleftrightarrow> e AND 1 \<noteq> 0"

definition tbl :: "nat \<Rightarrow> memory \<Rightarrow> nat \<Rightarrow> nat" where
  "tbl pd m i = unat (wd m (pd + 4 * i) AND 0xFFFFF000)"

definition pte_of :: "nat \<Rightarrow> memory \<Rightarrow> u32 \<Rightarrow> u32 option" where
  "pte_of pd m v =
     (if present (wd m (pd + 4 * pdi v)) then Some (wd m (tbl pd m (pdi v) + 4 * pti v)) else None)"

definition pte_phys :: "u32 \<Rightarrow> u32 \<Rightarrow> u32 option" where
  "pte_phys pte v = (if present pte then Some ((pte AND 0xFFFFF000) OR PAGE_OFFSET v) else None)"

text \<open>
  The window through which the kernel reaches page tables: the first entry of the directory is
  the first page table, and that table maps every page below 4 MiB to itself.
\<close>

definition id_window :: "nat \<Rightarrow> nat \<Rightarrow> vm \<Rightarrow> bool" where
  "id_window pd fpt s \<longleftrightarrow> cr0 s AND 0x80000000 \<noteq> 0 \<and> cr3 s = of_nat pd \<and>
     pd mod 4096 = 0 \<and> pd < 0x400000 \<and> fpt mod 4096 = 0 \<and> 0 < fpt \<and> fpt < 0x400000 \<and> pd \<noteq> fpt \<and>
     wd (phys s) pd = of_nat fpt OR 7 \<and>
     (\<forall>j < 1024. wd (phys s) (fpt + 4 * j) = of_nat (4096 * j) OR 7)"

definition vm_ok :: "nat \<Rightarrow> nat \<Rightarrow> vm \<Rightarrow> bool" where
  "vm_ok pd fpt s \<longleftrightarrow> id_window pd fpt s \<and>
     (\<forall>i < 1024. present (wd (phys s) (pd + 4 * i)) \<longrightarrow>
        0 < tbl pd (phys s) i \<and> tbl pd (phys s) i < 0x400000 \<and> tbl pd (phys s) i \<noteq> pd \<and>
        of_nat (tbl pd (phys s) i) \<notin> pmm_frames (frames s)) \<and>
     inj_on (tbl pd (phys s)) {i. i < 1024 \<and> present (wd (phys s) (pd + 4 * i))} \<and>
     pmm_ready (frames s) \<and> of_nat pd \<notin> pmm_frames (frames s)"

text \<open>
  Entering an entry: when the table exists or a frame below 4 MiB is free, \<open>vmm_map\<close> succeeds.
\<close>

definition data_page :: "nat \<Rightarrow> vm \<Rightarrow> nat \<Rightarrow> bool" where
  "data_page pd s f \<longleftrightarrow> f mod 4096 = 0 \<and> f < 0x400000 \<and> f \<noteq> pd \<and>
     (\<forall>i < 1024. present (wd (phys s) (pd + 4 * i)) \<longrightarrow> tbl pd (phys s) i \<noteq> f) \<and>
     of_nat f \<notin> pmm_frames (frames s)"

text \<open>
  The frames that are free or hold a page table: mapping and unmapping only move frames inside
  this set.
\<close>

definition owned :: "nat \<Rightarrow> vm \<Rightarrow> u32 set" where
  "owned pd s = pmm_frames (frames s) \<union>
     (\<lambda>i. of_nat (tbl pd (phys s) i)) ` {i. i < 1024 \<and> present (wd (phys s) (pd + 4 * i))}"

definition keeps_pages :: "nat \<Rightarrow> vm \<Rightarrow> vm \<Rightarrow> bool" where
  "keeps_pages pd s s' \<longleftrightarrow>
     pmm_frames (frames s') \<subseteq> pmm_frames (frames s) \<and>
     (\<forall>f. data_page pd s f \<longrightarrow> data_page pd s' f \<and>
        (\<forall>y. f \<le> y \<and> y < f + 4096 \<longrightarrow> phys s' (of_nat y) = phys s (of_nat y)))"

definition keeps_data :: "nat \<Rightarrow> vm \<Rightarrow> vm \<Rightarrow> bool" where
  "keeps_data pd s s' \<longleftrightarrow> keeps_pages pd s s' \<and> owned pd s' = owned pd s"

definition table_possible :: "nat \<Rightarrow> u32 \<Rightarrow> vm \<Rightarrow> bool" where
  "table_possible pd virt s \<longleftrightarrow>
     present (wd (phys s) (pd + 4 * pdi virt)) \<or>
     fst (pmm_alloc (frames s)) \<noteq> 0 \<and> fst (pmm_alloc (frames s)) < 0x400000"

definition boot_layout :: "nat \<Rightarrow> nat \<Rightarrow> bool" where
  "boot_layout pd fpt \<longleftrightarrow> pd mod 4096 = 0 \<and> fpt mod 4096 = 0 \<and> pd + 4096 \<le> 0x100000 \<and>
     fpt + 4096 \<le> 0x100000 \<and> pd \<noteq> fpt \<and> 0 < fpt"

definition demo_vm :: vm where
  "demo_vm = \<lparr>phys = (\<lambda>_. 0), frames = pmm_init sample_map boot_pmm, cr0 = 0x11, cr3 = 0,
     flushed = [], handlers = (\<lambda>_. No_handler)\<rparr>"

definition high_map :: "e820_entry list" where
  "high_map = [\<lparr>e_base = 0x800000, e_length = 0x1000, e_type = 1\<rparr>]"

lemma page_masks: "(0xFFF :: u32) = mask 12" "(0xFFFFF000 :: u32) = NOT (mask 12)"
  by (simp_all add: mask_eq_exp_minus_1)

lemma pdi_less: "pdi v < 1024" using unat_lt32 [of v] by (simp add: pdi_def less_mult_imp_div_less)
lemma pti_less: "pti v < 1024" by (simp add: pti_def)

lemma index_nat: "PAGE_DIR_INDEX v = of_nat (pdi v)" "PAGE_TBL_INDEX v = of_nat (pti v)"
proof -
  have m: "(0x3FF :: u32) = mask 10" by (simp add: mask_eq_exp_minus_1)
  have "unat (PAGE_DIR_INDEX v) = pdi v" "unat (PAGE_TBL_INDEX v) = pti v"
    unfolding PAGE_DIR_INDEX_def PAGE_TBL_INDEX_def m low_bits_unat drop_bit_unat
    using pdi_less [of v] by (simp_all add: pdi_def pti_def)
  then show "PAGE_DIR_INDEX v = of_nat (pdi v)" "PAGE_TBL_INDEX v = of_nat (pti v)"
    by (metis unat_of_nat32 word_unat_eq_iff unat_lt32)+
qed

lemma entry_addr: "of_nat t + 4 * PAGE_DIR_INDEX v = (of_nat (t + 4 * pdi v) :: u32)"
  "of_nat t + 4 * PAGE_TBL_INDEX v = (of_nat (t + 4 * pti v) :: u32)"
  by (simp_all add: index_nat)

lemma frame_part: "unat (e AND 0xFFFFF000) = unat e div 4096 * 4096" for e :: u32
  unfolding page_masks using high_bits_unat [of e 12] by simp

lemma aligned_frame: "x mod 4096 = 0 \<Longrightarrow> x < 4294967296 \<Longrightarrow> (of_nat x :: u32) AND 0xFFFFF000 = of_nat x"
  using frame_part [of "of_nat x"]
  by (simp add: word_unat_eq_iff unat_of_nat32 minus_mod_eq_div_mult [symmetric])

lemma split_page: "(v AND 0xFFFFF000) OR (v AND 0xFFF) = (v :: u32)"
  unfolding page_masks by (rule bit_word_eqI) (auto simp: bit_simps)

lemma entry_parts:
  assumes "x AND 0xFFF = 0" and "f AND 0xFFFFF000 = 0"
  shows "(x OR f) AND 0xFFFFF000 = (x :: u32)" "(x OR f) AND 1 = f AND 1" "(x OR f) AND 0xFFF = f"
proof -
  have a: "12 \<le> n" if "bit x n" for n
    using arg_cong [OF assms(1), of "\<lambda>w. bit w n"] that unfolding page_masks
    by (auto simp: bit_simps dest: bit_imp_le_length)
  have b: "n < 12" if "bit f n" for n
    using arg_cong [OF assms(2), of "\<lambda>w. bit w n"] that unfolding page_masks
    by (auto simp: bit_simps dest: bit_imp_le_length)
  have o: "(1 :: u32) = mask 1" by (simp add: mask_eq_exp_minus_1)
  show "(x OR f) AND 0xFFFFF000 = x" unfolding page_masks
    by (rule bit_word_eqI) (use a b in \<open>fastforce simp: bit_simps\<close>)
  show "(x OR f) AND 1 = f AND 1" unfolding o
    by (rule bit_word_eqI) (use a in \<open>fastforce simp: bit_simps\<close>)
  show "(x OR f) AND 0xFFF = f" unfolding page_masks
    by (rule bit_word_eqI) (use a b in \<open>fastforce simp: bit_simps\<close>)
qed


lemma small_flags: "n < 4096 \<Longrightarrow> (of_nat n :: u32) AND 0xFFFFF000 = 0"
  using frame_part [of "of_nat n"] by (simp add: word_unat_eq_iff unat_of_nat32)

lemma aligned_low: "x mod 4096 = 0 \<Longrightarrow> x < 4294967296 \<Longrightarrow> (of_nat x :: u32) AND 0xFFF = 0"
  using low_bits_unat [of "of_nat x :: u32" 12]
  by (simp add: word_unat_eq_iff unat_of_nat32 mask_eq_exp_minus_1)

lemma entry7:
  assumes "x mod 4096 = 0" "x < 4294967296"
  shows "(of_nat x OR 7 :: u32) AND 0xFFFFF000 = of_nat x" "present (of_nat x OR 7)"
  using entry_parts [OF aligned_low [OF assms], of 7] small_flags [of 7] by (simp_all add: present_def)

lemma walk_nat:
  assumes "pd mod 4096 = 0" "pd < 4294967296"
  shows "walk m (of_nat pd) v = Option.bind (pte_of pd m v) (\<lambda>pte. pte_phys pte v)"
proof -
  have t: "(wd m (pd + 4 * pdi v) AND 0xFFFFF000) = of_nat (tbl pd m (pdi v))"
    unfolding tbl_def by (metis unat_of_nat32 word_unat_eq_iff unat_lt32)
  show ?thesis
    unfolding walk_def Let_def aligned_frame [OF assms] entry_addr PAGE_PRESENT_def
    unfolding wd_def [symmetric] t entry_addr
    unfolding wd_def [symmetric]
    by (simp add: pte_of_def pte_phys_def present_def)
qed

section \<open>Well-formed address spaces\<close>

lemma id_window_mmu:
  assumes W: "id_window pd fpt s" and a: "a < 0x400000"
  shows "mmu s (of_nat a) = Some (of_nat a)"
proof -
  have ua: "unat (of_nat a :: u32) = a" using a by (simp add: unat_of_nat32)
  have i: "pdi (of_nat a) = 0" "pti (of_nat a) = a div 4096" using a by (simp_all add: pdi_def pti_def ua)
  have pd: "pd mod 4096 = 0" "pd < 4294967296" and f: "fpt mod 4096 = 0" "fpt < 4294967296"
    using W by (auto simp: id_window_def)
  have t: "tbl pd (phys s) 0 = fpt"
    using W entry7(1) [OF f] f by (simp add: tbl_def id_window_def unat_of_nat32)
  have e: "wd (phys s) (fpt + 4 * (a div 4096)) = of_nat (4096 * (a div 4096)) OR 7"
    using W a by (auto simp: id_window_def)
  have "pte_of pd (phys s) (of_nat a) = Some (of_nat (4096 * (a div 4096)) OR 7)"
    using W t e entry7(2) [OF f] by (simp add: pte_of_def i id_window_def)
  moreover have "pte_phys (of_nat (4096 * (a div 4096)) OR 7) (of_nat a) = Some (of_nat a)"
  proof -
    have l: "4096 * (a div 4096) mod 4096 = 0" "4096 * (a div 4096) < 4294967296" using a by auto
    have "(of_nat a :: u32) AND 0xFFFFF000 = of_nat (4096 * (a div 4096))"
      using frame_part [of "of_nat a"] l(2) unfolding ua
      by (simp add: word_unat_eq_iff unat_of_nat32 mult.commute del: of_nat_mult)
    then show ?thesis
      using entry7 [OF l] split_page [of "of_nat a"]
      by (simp add: pte_phys_def PAGE_OFFSET_def del: of_nat_mult)
  qed
  ultimately show ?thesis
    using W walk_nat [OF pd] by (simp add: mmu_def id_window_def del: of_nat_mult)
qed

lemma low_access:
  assumes "id_window pd fpt s" and "a < 0x400000"
  shows "read32 (of_nat a) s = Done (wd (phys s) a)"
    and "write32 (of_nat a) x s = Done (s\<lparr>phys := put a x (phys s)\<rparr>)"
  using id_window_mmu [OF assms] by (simp_all add: read32_def write32_def wd_def put_def)

lemma wd_outside:
  assumes "\<And>y. y < 4294967296 \<Longrightarrow> y < t \<or> t + 4096 \<le> y \<Longrightarrow> m' (of_nat y) = m (of_nat y)"
    and "x + 4 \<le> t \<or> t + 4096 \<le> x" and "x + 4 \<le> 4294967296"
  shows "wd m' x = wd m x"
  using assms by (intro wd_cong assms(1)) auto

lemma fill_table_done:
  assumes t: "t + 4096 \<le> 4294967296"
    and acc: "\<And>m a. (\<And>y. y < 4294967296 \<Longrightarrow> y < t \<or> t + 4096 \<le> y \<Longrightarrow> m (of_nat y) = phys s (of_nat y)) \<Longrightarrow>
       t \<le> a \<Longrightarrow> a < t + 4096 \<Longrightarrow> mmu (s\<lparr>phys := m\<rparr>) (of_nat a) = Some (of_nat a)"
  obtains m where "fill_table (of_nat t) f s = Done (s\<lparr>phys := m\<rparr>)"
    "\<And>i. i < 1024 \<Longrightarrow> wd m (t + 4 * i) = f i"
    "\<And>y. y < 4294967296 \<Longrightarrow> y < t \<or> t + 4096 \<le> y \<Longrightarrow> m (of_nat y) = phys s (of_nat y)"
proof -
  let ?P = "\<lambda>k r. \<exists>m. r = Done (s\<lparr>phys := m\<rparr>) \<and> (\<forall>i < k. wd m (t + 4 * i) = f i) \<and>
    (\<forall>y < 4294967296. y < t \<or> t + 4096 \<le> y \<longrightarrow> m (of_nat y) = phys s (of_nat y))"
  have "?P 1024 (fill_table (of_nat t) f s)"
    unfolding fill_table_def
  proof (rule for_range_invariant [where P = ?P])
    show "?P 0 (Done s)" by (intro exI [of _ "phys s"]) simp
  next
    fix k r assume k: "k < 1024" and "?P k r"
    then obtain m where r: "r = Done (s\<lparr>phys := m\<rparr>)" and w: "\<And>i. i < k \<Longrightarrow> wd m (t + 4 * i) = f i"
      and o: "\<And>y. y < 4294967296 \<Longrightarrow> y < t \<or> t + 4096 \<le> y \<Longrightarrow> m (of_nat y) = phys s (of_nat y)" by blast
    have "mmu (s\<lparr>phys := m\<rparr>) (of_nat (t + 4 * k)) = Some (of_nat (t + 4 * k))"
      using k by (intro acc o) auto
    then have e: "and_then r (write32 (of_nat t + 4 * of_nat k) (f k)) =
        Done (s\<lparr>phys := put (t + 4 * k) (f k) m\<rparr>)"
      by (simp add: r write32_def put_def)
    have "wd (put (t + 4 * k) (f k) m) (t + 4 * i) = f i" if "i < Suc k" for i
      using w [of i] that k t by (cases "i = k") (auto simp: wd_put_other)
    moreover have "put (t + 4 * k) (f k) m (of_nat y) = phys s (of_nat y)"
      if "y < 4294967296" "y < t \<or> t + 4096 \<le> y" for y
      using that k t o by (subst put_elsewhere) auto
    ultimately show "?P (Suc k) (and_then r (write32 (of_nat t + 4 * of_nat k) (f k)))"
      unfolding e by blast
  qed auto
  then show thesis using that by blast
qed

lemma pages_apart: "x mod 4096 = 0 \<Longrightarrow> y mod 4096 = 0 \<Longrightarrow> x \<noteq> y \<Longrightarrow> x + 4096 \<le> y \<or> y + 4096 \<le> (x :: nat)"
proof -
  assume "x mod 4096 = 0" "y mod 4096 = 0" "x \<noteq> y"
  then obtain a b where "x = 4096 * a" "y = 4096 * b" "a \<noteq> b" by (auto simp: mod_eq_0_iff_dvd elim!: dvdE)
  then show ?thesis by (cases "a < b") auto
qed

lemma wd_other_page:
  assumes o: "\<And>y. y < 4294967296 \<Longrightarrow> y < t \<or> t + 4096 \<le> y \<Longrightarrow> m' (of_nat y) = m (of_nat y)"
    and "t mod 4096 = 0" "x mod 4096 = 0" "x \<noteq> t" "x < 4294963200" "i < 1024"
  shows "wd m' (x + 4 * i) = wd m (x + 4 * i)"
  using pages_apart [of x t] assms by (intro wd_outside [where t = t] o) auto

lemma id_window_keep:
  assumes W: "id_window pd fpt s" and t: "t mod 4096 = 0" "t \<noteq> pd" "t \<noteq> fpt"
    and o: "\<And>y. y < 4294967296 \<Longrightarrow> y < t \<or> t + 4096 \<le> y \<Longrightarrow> m (of_nat y) = phys s (of_nat y)"
  shows "id_window pd fpt (s\<lparr>phys := m\<rparr>)"
proof -
  have "wd m (pd + 4 * 0) = wd (phys s) (pd + 4 * 0)"
    using W t by (intro wd_other_page [where t = t] o) (auto simp: id_window_def)
  moreover have "wd m (fpt + 4 * j) = wd (phys s) (fpt + 4 * j)" if "j < 1024" for j
    using W t that by (intro wd_other_page [where t = t] o) (auto simp: id_window_def)
  ultimately show ?thesis using W by (simp add: id_window_def)
qed

lemma vm_okD:
  assumes "vm_ok pd fpt s"
  shows "id_window pd fpt s" "pd mod 4096 = 0" "pd < 0x400000" "pmm_ready (frames s)"
    "of_nat pd \<notin> pmm_frames (frames s)" "tbl pd (phys s) 0 = fpt" "present (wd (phys s) pd)"
proof -
  show W: "id_window pd fpt s" and "pmm_ready (frames s)" "of_nat pd \<notin> pmm_frames (frames s)"
    using assms by (auto simp: vm_ok_def)
  show "pd mod 4096 = 0" "pd < 0x400000" using W by (auto simp: id_window_def)
  have f: "fpt mod 4096 = 0" "fpt < 4294967296" using W by (auto simp: id_window_def)
  show "tbl pd (phys s) 0 = fpt" "present (wd (phys s) pd)"
    using W entry7 [OF f] f by (auto simp: tbl_def id_window_def unat_of_nat32)
qed

lemma vm_ok_table:
  assumes "vm_ok pd fpt s" and "i < 1024" and "present (wd (phys s) (pd + 4 * i))"
  defines "t \<equiv> tbl pd (phys s) i"
  shows "0 < t" "t < 0x400000" "t mod 4096 = 0" "t \<noteq> pd" "of_nat t \<notin> pmm_frames (frames s)"
    "i \<noteq> 0 \<Longrightarrow> t \<noteq> fpt" "wd (phys s) (pd + 4 * i) AND 0xFFFFF000 = of_nat t"
    "j < 1024 \<Longrightarrow> present (wd (phys s) (pd + 4 * j)) \<Longrightarrow> j \<noteq> i \<Longrightarrow> tbl pd (phys s) j \<noteq> t"
proof -
  show "0 < t" "t < 0x400000" "t \<noteq> pd" "of_nat t \<notin> pmm_frames (frames s)"
    using assms by (auto simp: vm_ok_def)
  show "t mod 4096 = 0" by (simp add: t_def tbl_def frame_part)
  show inj: "tbl pd (phys s) j \<noteq> t" if "j < 1024" "present (wd (phys s) (pd + 4 * j))" "j \<noteq> i" for j
    using assms(1,2,3) that unfolding t_def vm_ok_def by (auto dest: inj_onD)
  show "i \<noteq> 0 \<Longrightarrow> t \<noteq> fpt" using inj [of 0] vm_okD(6,7) [OF assms(1)] by auto
  show "wd (phys s) (pd + 4 * i) AND 0xFFFFF000 = of_nat t"
    unfolding t_def tbl_def by (metis unat_of_nat32 word_unat_eq_iff unat_lt32)
qed

text \<open>Changing one entry of a page table other than the first.\<close>

lemma set_pte:
  fixes x :: u32
  assumes V: "vm_ok pd fpt s" and i: "i < 1024" "i \<noteq> 0" and p: "present (wd (phys s) (pd + 4 * i))"
    and j: "j < 1024"
  defines "m \<equiv> put (tbl pd (phys s) i + 4 * j) x (phys s)"
  shows "vm_ok pd fpt (s\<lparr>phys := m\<rparr>)"
    and "pte_of pd m v = (if pdi v = i \<and> pti v = j then Some x else pte_of pd (phys s) v)"
proof -
  let ?t = "tbl pd (phys s) i"
  note T = vm_ok_table [OF V i(1) p] and D = vm_okD [OF V]
  have o: "m (of_nat y) = phys s (of_nat y)" if "y < 4294967296" "y < ?t \<or> ?t + 4096 \<le> y" for y
    unfolding m_def using that T j by (intro put_elsewhere) auto
  have pde: "wd m (pd + 4 * k) = wd (phys s) (pd + 4 * k)" if "k < 1024" for k
    using T D that by (intro wd_other_page [where t = ?t] o) auto
  then have tb: "tbl pd m k = tbl pd (phys s) k" if "k < 1024" for k using that by (simp add: tbl_def)
  have W: "id_window pd fpt (s\<lparr>phys := m\<rparr>)"
    using T D i by (intro id_window_keep [where t = ?t] o) auto
  have inj: "inj_on (tbl pd m) {k. k < 1024 \<and> present (wd m (pd + 4 * k))}"
    using V pde tb by (auto simp: vm_ok_def inj_on_def)
  show "vm_ok pd fpt (s\<lparr>phys := m\<rparr>)" using V W inj pde tb by (simp add: vm_ok_def)
  show "pte_of pd m v = (if pdi v = i \<and> pti v = j then Some x else pte_of pd (phys s) v)"
  proof (cases "pdi v = i")
    case True
    have "wd m (?t + 4 * pti v) = (if pti v = j then x else wd (phys s) (?t + 4 * pti v))"
      unfolding m_def using T(2) j pti_less [of v]
      by (cases "pti v" j rule: linorder_cases) (simp_all add: wd_put_other)
    then show ?thesis using True pde [OF i(1)] tb [OF i(1)] p by (simp add: pte_of_def)
  next
    case False
    show ?thesis
    proof (cases "present (wd (phys s) (pd + 4 * pdi v))")
      case pv: True
      have "wd m (tbl pd (phys s) (pdi v) + 4 * pti v) = wd (phys s) (tbl pd (phys s) (pdi v) + 4 * pti v)"
        using T(1-3) T(8) [OF pdi_less pv False] vm_ok_table(2,3) [OF V pdi_less pv] pti_less
        by (intro wd_other_page [where t = ?t] o) auto
      then show ?thesis using False pde [OF pdi_less] tb [OF pdi_less] by (simp add: pte_of_def)
    qed (use False pde [OF pdi_less] in \<open>simp add: pte_of_def\<close>)
  qed
qed

lemma keeps_pages_refl [simp]: "keeps_pages pd s s"
  by (simp add: keeps_pages_def)

lemma keeps_pages_trans:
  assumes st: "keeps_pages pd s t" and tu: "keeps_pages pd t u"
  shows "keeps_pages pd s u"
  unfolding keeps_pages_def
proof (intro conjI allI impI)
  show "pmm_frames (frames u) \<subseteq> pmm_frames (frames s)" using st tu by (auto simp: keeps_pages_def)
  fix f assume f: "data_page pd s f"
  then have "data_page pd t f" using st by (simp add: keeps_pages_def)
  then show "data_page pd u f" using tu by (simp add: keeps_pages_def)
  show "phys u (of_nat y) = phys s (of_nat y)" if "f \<le> y \<and> y < f + 4096" for y
  proof -
    have "phys t (of_nat y) = phys s (of_nat y)" using st f that unfolding keeps_pages_def by blast
    moreover have "phys u (of_nat y) = phys t (of_nat y)"
      using tu \<open>data_page pd t f\<close> that unfolding keeps_pages_def by blast
    ultimately show ?thesis by simp
  qed
qed

lemma keeps_data_refl [simp]: "keeps_data pd s s"
  by (simp add: keeps_data_def)

lemma keeps_data_trans: "keeps_data pd s t \<Longrightarrow> keeps_data pd t u \<Longrightarrow> keeps_data pd s u"
  using keeps_pages_trans [of pd s t u] by (simp add: keeps_data_def)

lemma set_pte_keeps:
  assumes V: "vm_ok pd fpt s" and i: "i < 1024" and p: "present (wd (phys s) (pd + 4 * i))" and j: "j < 1024"
  shows "keeps_data pd s (s\<lparr>phys := put (tbl pd (phys s) i + 4 * j) x (phys s)\<rparr>)"
proof -
  let ?t = "tbl pd (phys s) i"
  let ?m = "put (?t + 4 * j) x (phys s)"
  note T = vm_ok_table [OF V i p] and D = vm_okD [OF V]
  have o: "?m (of_nat y) = phys s (of_nat y)" if "y < 4294967296" "y < ?t \<or> ?t + 4096 \<le> y" for y
    using that T j by (intro put_elsewhere) auto
  have pde: "wd ?m (pd + 4 * k) = wd (phys s) (pd + 4 * k)" if "k < 1024" for k
    using T D that by (intro wd_other_page [where t = ?t] o) auto
  have "data_page pd (s\<lparr>phys := ?m\<rparr>) f \<and> (\<forall>y. f \<le> y \<and> y < f + 4096 \<longrightarrow> ?m (of_nat y) = phys s (of_nat y))"
    if f: "data_page pd s f" for f
  proof (intro conjI allI impI)
    show "data_page pd (s\<lparr>phys := ?m\<rparr>) f" using f pde by (simp add: data_page_def tbl_def)
    fix y assume y: "f \<le> y \<and> y < f + 4096"
    have "f \<noteq> ?t" using f i p by (auto simp: data_page_def)
    then show "?m (of_nat y) = phys s (of_nat y)"
      using pages_apart [of f ?t] f y T(3) by (intro o) (auto simp: data_page_def)
  qed
  moreover have "owned pd (s\<lparr>phys := ?m\<rparr>) = owned pd s"
    using pde by (auto simp: owned_def tbl_def)
  ultimately show ?thesis by (simp add: keeps_data_def keeps_pages_def)
qed

lemma page_end: "x mod 4096 = 0 \<Longrightarrow> x < 0x400000 \<Longrightarrow> x + 4096 \<le> (0x400000 :: nat)"
  using pages_apart [of x "0x400000"] by auto

lemma entry_access:
  assumes "id_window pd fpt s" and "t mod 4096 = 0" "t < 0x400000" "i < 1024"
  shows "read32 (of_nat (t + 4 * i)) s = Done (wd (phys s) (t + 4 * i))"
    and "write32 (of_nat (t + 4 * i)) x s = Done (s\<lparr>phys := put (t + 4 * i) x (phys s)\<rparr>)"
  using assms(4) page_end [OF assms(2,3)] by (intro low_access [OF assms(1)]; simp)+

lemma get_pt_present:
  assumes V: "vm_ok pd fpt s" and p: "present (wd (phys s) (pd + 4 * pdi v))"
  shows "get_pt (of_nat pd) v c s = Done (of_nat (tbl pd (phys s) (pdi v)), s)"
proof -
  note D = vm_okD [OF V] and T = vm_ok_table [OF V pdi_less p]
  have "read32 (of_nat (pd + 4 * pdi v)) s = Done (wd (phys s) (pd + 4 * pdi v))"
    by (rule entry_access(1) [OF D(1-3) pdi_less])
  then show ?thesis
    unfolding get_pt_def Let_def entry_addr PAGE_PRESENT_def using p T(7)
    by (simp add: present_def del: of_nat_add)
qed

lemma get_pt_absent:
  assumes V: "vm_ok pd fpt s" and p: "\<not> present (wd (phys s) (pd + 4 * pdi v))"
  shows "get_pt (of_nat pd) v c s =
    (if \<not> c then Done (0, s)
     else let (pt, fr) = pmm_alloc (frames s); s = s\<lparr>frames := fr\<rparr> in
          if pt = 0 then Done (0, s)
          else and_then (fill_table pt (\<lambda>_. 0) s) (\<lambda>s.
               and_then (write32 (of_nat (pd + 4 * pdi v)) (pt OR 7) s) (\<lambda>s. Done (pt, s))))"
proof -
  note D = vm_okD [OF V]
  have "read32 (of_nat (pd + 4 * pdi v)) s = Done (wd (phys s) (pd + 4 * pdi v))"
    by (rule entry_access(1) [OF D(1-3) pdi_less])
  moreover have "(1 OR 2 OR 4 :: u32) = 7" by simp
  ultimately show ?thesis
    unfolding get_pt_def Let_def entry_addr PAGE_PRESENT_def PAGE_RW_def PAGE_USER_def using p
    by (simp add: present_def del: of_nat_add split: prod.split)
qed


lemma alloc_frame_free:
  assumes "pmm_alloc s = (a, fr)" "a \<noteq> 0"
  shows "a \<in> pmm_frames s" "pmm_frames fr = pmm_frames s - {a}"
proof -
  have "pmm_frames s \<noteq> {}" using pmm_frame.alloc_none [of s] assms by auto
  then show "a \<in> pmm_frames s" "pmm_frames fr = pmm_frames s - {a}"
    using pmm_frame.alloc_some [of s] assms by auto
qed

text \<open>A frame handed out for a page table is none of the tables in use.\<close>

lemma alloc_apart:
  assumes V: "vm_ok pd fpt s" and a: "pmm_alloc (frames s) = (a, fr)" "a \<noteq> 0" "a < 0x400000"
  shows "unat a < 0x400000" "0 < unat a" "unat a mod 4096 = 0" "of_nat (unat a) = a" "unat a \<noteq> pd" "unat a \<noteq> fpt"
    and "pmm_frames fr = pmm_frames (frames s) - {a}"
    and "k < 1024 \<Longrightarrow> present (wd (phys s) (pd + 4 * k)) \<Longrightarrow> unat a \<noteq> tbl pd (phys s) k"
proof -
  note D = vm_okD [OF V]
  note af = alloc_frame_free(1) [OF a(1,2)]
  show "pmm_frames fr = pmm_frames (frames s) - {a}" by (rule alloc_frame_free(2) [OF a(1,2)])
  show ta: "of_nat (unat a) = a" by (metis unat_of_nat32 word_unat_eq_iff unat_lt32)
  show "unat a < 0x400000" "0 < unat a" using a(2,3) by (simp_all add: word_less_nat_alt unat_gt_0)
  show "unat a mod 4096 = 0"
    using pmm_frame.frames_aligned [OF af] low_bits_unat [of a 12] by (simp add: page_masks)
  show "unat a \<noteq> pd" using D(5) af ta by metis
  show sepk: "unat a \<noteq> tbl pd (phys s) k" if "k < 1024" "present (wd (phys s) (pd + 4 * k))" for k
    using vm_ok_table(5) [OF V that] af ta by metis
  show "unat a \<noteq> fpt" using sepk [of 0] D(6,7) by simp
qed

text \<open>The state after a new, empty page table \<open>t\<close> has been entered for directory slot \<open>i\<close>.\<close>

lemma new_table:
  assumes V: "vm_ok pd fpt s" and i: "i < 1024" and p: "\<not> present (wd (phys s) (pd + 4 * i))"
    and a: "pmm_alloc (frames s) = (a, fr)" "a \<noteq> 0" "a < 0x400000"
    and m1: "\<And>k. k < 1024 \<Longrightarrow> wd m1 (unat a + 4 * k) = 0"
      "\<And>y. y < 4294967296 \<Longrightarrow> y < unat a \<or> unat a + 4096 \<le> y \<Longrightarrow> m1 (of_nat y) = phys s (of_nat y)"
  defines "m2 \<equiv> put (pd + 4 * i) (a OR 7) m1"
  shows "id_window pd fpt (s\<lparr>frames := fr, phys := m1\<rparr>)"
    and "vm_ok pd fpt (s\<lparr>frames := fr, phys := m2\<rparr>)"
    and "present (wd m2 (pd + 4 * i))" "tbl pd m2 i = unat a"
    and "pte_of pd m2 w = (if pdi w = i then Some 0 else pte_of pd (phys s) w)"
    and "keeps_data pd s (s\<lparr>frames := fr, phys := m2\<rparr>)"
proof -
  note D = vm_okD [OF V]
  let ?t = "unat a"
  note A = alloc_apart [OF V a]
  note t = A(1-3) and ta = A(4) and sep = A(5) and sepf = A(6) and fr = A(7) and sepk = A(8)
  have i0: "i \<noteq> 0" using p D(7) by (cases i) auto
  show W1: "id_window pd fpt (s\<lparr>frames := fr, phys := m1\<rparr>)"
    using id_window_keep [OF D(1) t(3) sep sepf m1(2)] by (simp add: id_window_def)
  have o2: "m2 (of_nat y) = m1 (of_nat y)" if "y < 4294967296" "y < pd \<or> pd + 4096 \<le> y" for y
    unfolding m2_def using that i D(3) by (intro put_elsewhere) auto
  have lo: "?t < 4294963200" "pd < 4294963200" "fpt < 4294963200"
    using t D(3) D(1) by (auto simp: id_window_def)
  have pde: "wd m2 (pd + 4 * k) = (if k = i then a OR 7 else wd (phys s) (pd + 4 * k))" if "k < 1024" for k
  proof -
    have "wd m1 (pd + 4 * k) = wd (phys s) (pd + 4 * k)"
      using t sep D(2) lo that by (intro wd_other_page [where t = ?t] m1(2)) auto
    moreover have "wd m2 (pd + 4 * k) = (if k = i then a OR 7 else wd m1 (pd + 4 * k))"
      unfolding m2_def using i D(3) that by (cases k i rule: linorder_cases) (simp_all add: wd_put_other)
    ultimately show ?thesis by simp
  qed
  have pr: "present (a OR 7)" and fa: "(a OR 7) AND 0xFFFFF000 = a"
    using entry7 [OF t(3)] ta by auto
  show pi: "present (wd m2 (pd + 4 * i))" using pde [OF i] pr by simp
  show ti: "tbl pd m2 i = ?t" using pde [OF i] fa by (simp add: tbl_def)
  have tk: "tbl pd m2 k = tbl pd (phys s) k" if "k < 1024" "k \<noteq> i" for k
    using pde [OF that(1)] that by (simp add: tbl_def)
  have tab: "wd m2 (x + 4 * k) = wd m1 (x + 4 * k)" if "x mod 4096 = 0" "x < 0x400000" "x \<noteq> pd" "k < 1024" for x k
    using that D(2) lo by (intro wd_other_page [where t = pd] o2) auto
  have W2: "id_window pd fpt (s\<lparr>frames := fr, phys := m2\<rparr>)"
  proof -
    have "wd m2 (fpt + 4 * j) = wd m1 (fpt + 4 * j)" if "j < 1024" for j
      using that W1 by (intro tab) (auto simp: id_window_def)
    moreover have "wd m2 pd = wd (phys s) pd" using pde [of 0] i0 by simp
    moreover have "wd m1 pd = wd (phys s) pd"
      using W1 D(1) by (simp add: id_window_def)
    ultimately show ?thesis using W1 by (simp add: id_window_def)
  qed
  have old: "present (wd (phys s) (pd + 4 * k))" if "k < 1024" "k \<noteq> i" "present (wd m2 (pd + 4 * k))" for k
    using that pde [OF that(1)] by simp
  have A: "0 < tbl pd m2 k \<and> tbl pd m2 k < 0x400000 \<and> tbl pd m2 k \<noteq> pd \<and> of_nat (tbl pd m2 k) \<notin> pmm_frames fr"
    if k: "k < 1024" "present (wd m2 (pd + 4 * k))" for k
  proof (cases "k = i")
    case True
    then show ?thesis using ti t sep fr ta by (simp del: of_nat_unat)
  next
    case False
    then show ?thesis using vm_ok_table [OF V k(1) old [OF k(1) False k(2)]] tk [OF k(1)] fr by simp
  qed
  have B: "inj_on (tbl pd m2) {k. k < 1024 \<and> present (wd m2 (pd + 4 * k))}"
  proof (rule inj_onI, simp only: mem_Collect_eq, elim conjE)
    fix x y assume x: "x < 1024" "present (wd m2 (pd + 4 * x))" and y: "y < 1024" "present (wd m2 (pd + 4 * y))"
      and e: "tbl pd m2 x = tbl pd m2 y"
    show "x = y"
    proof (cases "x = i \<or> y = i")
      case True
      then show ?thesis
        using e ti tk [OF x(1)] tk [OF y(1)] sepk [OF x(1)] sepk [OF y(1)] old [OF x(1)] old [OF y(1)] x y by metis
    next
      case False
      then show ?thesis
        using e tk x y old [OF x(1) _ x(2)] old [OF y(1) _ y(2)] vm_ok_table(8) [OF V x(1), of y] by metis
    qed
  qed
  have "data_page pd (s\<lparr>frames := fr, phys := m2\<rparr>) f \<and>
      (\<forall>y. f \<le> y \<and> y < f + 4096 \<longrightarrow> m2 (of_nat y) = phys s (of_nat y))" if f: "data_page pd s f" for f
  proof (intro conjI allI impI)
    have ft: "f \<noteq> ?t" using f ta alloc_frame_free [OF a(1,2)] by (auto simp: data_page_def)
    have "tbl pd m2 k \<noteq> f" if "k < 1024" "present (wd m2 (pd + 4 * k))" for k
      using f ft ti tk [OF that(1)] old [OF that(1) _ that(2)] that by (cases "k = i") (auto simp: data_page_def)
    then show "data_page pd (s\<lparr>frames := fr, phys := m2\<rparr>) f" using f fr by (simp add: data_page_def)
    fix y assume y: "f \<le> y \<and> y < f + 4096"
    have "m2 (of_nat y) = m1 (of_nat y)"
      using pages_apart [of f pd] f y D(2) by (intro o2) (auto simp: data_page_def)
    also have "\<dots> = phys s (of_nat y)"
      using pages_apart [of f ?t] f y t(3) ft by (intro m1(2)) (auto simp: data_page_def)
    finally show "m2 (of_nat y) = phys s (of_nat y)" .
  qed
  moreover have "owned pd (s\<lparr>frames := fr, phys := m2\<rparr>) = owned pd s"
  proof -
    let ?I = "\<lambda>m. {k. k < 1024 \<and> present (wd m (pd + 4 * k))}"
    have "?I m2 = insert i (?I (phys s))" using pde pr i by (auto split: if_splits)
    moreover have "(\<lambda>k. of_nat (tbl pd m2 k) :: u32) ` ?I (phys s) = (\<lambda>k. of_nat (tbl pd (phys s) k)) ` ?I (phys s)"
      using tk p by (intro image_cong refl) (metis (mono_tags, lifting) mem_Collect_eq)
    moreover have "of_nat (tbl pd m2 i) = a" using ti ta by simp
    ultimately show ?thesis using fr alloc_frame_free [OF a(1,2)] by (auto simp: owned_def)
  qed
  ultimately show "keeps_data pd s (s\<lparr>frames := fr, phys := m2\<rparr>)"
    using fr by (auto simp: keeps_data_def keeps_pages_def)
  show "vm_ok pd fpt (s\<lparr>frames := fr, phys := m2\<rparr>)"
    using W2 A B pmm_frame.alloc_ready [OF D(4)] a fr D(5) by (simp add: vm_ok_def)
  show "pte_of pd m2 w = (if pdi w = i then Some 0 else pte_of pd (phys s) w)"
  proof (cases "pdi w = i")
    case True
    then show ?thesis using pi ti tab [OF t(3,1) sep pti_less] m1(1) [OF pti_less] by (simp add: pte_of_def)
  next
    case False
    show ?thesis
    proof (cases "present (wd (phys s) (pd + 4 * pdi w))")
      case pw: True
      note T = vm_ok_table [OF V pdi_less pw]
      have "wd m2 (tbl pd (phys s) (pdi w) + 4 * pti w) = wd m1 (tbl pd (phys s) (pdi w) + 4 * pti w)"
        using tab [OF T(3) T(2) T(4) pti_less] .
      also have "\<dots> = wd (phys s) (tbl pd (phys s) (pdi w) + 4 * pti w)"
        using t sepk [OF pdi_less pw] T pti_less by (intro wd_other_page [where t = ?t] m1(2)) auto
      finally show ?thesis using False pde [OF pdi_less] tk [OF pdi_less] by (simp add: pte_of_def)
    qed (use False pde [OF pdi_less] in \<open>simp add: pte_of_def\<close>)
  qed
qed


lemma get_pt_create:
  assumes V: "vm_ok pd fpt s" and p: "\<not> present (wd (phys s) (pd + 4 * pdi v))"
    and a: "pmm_alloc (frames s) = (a, fr)" "a \<noteq> 0" "a < 0x400000"
  obtains s' where "get_pt (of_nat pd) v True s = Done (a, s')" "vm_ok pd fpt s'"
    "present (wd (phys s') (pd + 4 * pdi v))" "tbl pd (phys s') (pdi v) = unat a"
    "\<And>w. pte_of pd (phys s') w = (if pdi w = pdi v then Some 0 else pte_of pd (phys s) w)"
    "flushed s' = flushed s" "frames s' = fr" "handlers s' = handlers s" "keeps_data pd s s'"
proof -
  note A = alloc_apart [OF V a] and D = vm_okD [OF V]
  let ?s = "s\<lparr>frames := fr\<rparr>"
  have acc: "mmu (?s\<lparr>phys := m\<rparr>) (of_nat x) = Some (of_nat x)"
    if "\<And>y. y < 4294967296 \<Longrightarrow> y < unat a \<or> unat a + 4096 \<le> y \<Longrightarrow> m (of_nat y) = phys ?s (of_nat y)"
      and "x < unat a + 4096" for m x
  proof (rule id_window_mmu)
    show "id_window pd fpt (?s\<lparr>phys := m\<rparr>)"
      using id_window_keep [OF D(1) A(3,5,6), of m] that(1) by (simp add: id_window_def)
    show "x < 0x400000" using that(2) page_end [OF A(3,1)] by simp
  qed
  obtain m1 where m1: "fill_table (of_nat (unat a)) (\<lambda>_. 0) ?s = Done (?s\<lparr>phys := m1\<rparr>)"
    "\<And>i. i < 1024 \<Longrightarrow> wd m1 (unat a + 4 * i) = 0"
    "\<And>y. y < 4294967296 \<Longrightarrow> y < unat a \<or> unat a + 4096 \<le> y \<Longrightarrow> m1 (of_nat y) = phys ?s (of_nat y)"
    by (rule fill_table_done [of "unat a" ?s "\<lambda>_. 0", OF _ acc]) (use A(1) that in auto)
  note N = new_table [OF V pdi_less p a m1(2) m1(3) [simplified]]
  have "get_pt (of_nat pd) v True s =
      Done (a, s\<lparr>frames := fr, phys := put (pd + 4 * pdi v) (a OR 7) m1\<rparr>)"
    using get_pt_absent [OF V p, of True] a m1(1) entry_access(2) [OF N(1) D(2,3) pdi_less]
    unfolding A(4) by (simp del: of_nat_add)
  then show thesis
    using N by (intro that [of "s\<lparr>frames := fr, phys := put (pd + 4 * pdi v) (a OR 7) m1\<rparr>"]) auto
qed

lemma mmu_pte:
  assumes "vm_ok pd fpt s"
  shows "mmu s v = Option.bind (pte_of pd (phys s) v) (\<lambda>pte. pte_phys pte v)"
  using vm_okD [OF assms] walk_nat [of pd "phys s" v] by (simp add: mmu_def id_window_def)

lemma mmu_absent: "vm_ok pd fpt s \<Longrightarrow> \<not> present (wd (phys s) (pd + 4 * pdi v)) \<Longrightarrow> mmu s v = None"
  by (simp add: mmu_pte pte_of_def)


lemma same_page: "pdi v = pdi w \<and> pti v = pti w \<longleftrightarrow> v AND 0xFFFFF000 = w AND 0xFFFFF000"
proof -
  have p: "unat x div 4096 = pdi x * 1024 + pti x" for x
    by (simp add: pdi_def pti_def div_mult2_eq [of "unat x" 4096 1024, simplified])
  have "v AND 0xFFFFF000 = w AND 0xFFFFF000 \<longleftrightarrow> unat v div 4096 = unat w div 4096"
    by (simp add: word_unat_eq_iff frame_part)
  also have "\<dots> \<longleftrightarrow> pdi v = pdi w \<and> pti v = pti w"
    unfolding p using pti_less [of v] pti_less [of w]
    by (metis add.commute div_mult_self1 div_less add.right_neutral mod_mult_self1 mod_less zero_neq_numeral)
  finally show ?thesis by blast
qed

lemma kernel_window: "pdi v = 0 \<longleftrightarrow> v < 0x400000"
  by (simp add: pdi_def word_less_nat_alt div_eq_0_iff)

lemma invlpg_fields [simp]:
  "phys (invlpg v s) = phys s" "frames (invlpg v s) = frames s" "cr0 (invlpg v s) = cr0 s"
  "cr3 (invlpg v s) = cr3 s" "handlers (invlpg v s) = handlers s" "flushed (invlpg v s) = v # flushed s"
  by (simp_all add: invlpg_def)

lemma keeps_data_invlpg [simp]: "keeps_data pd s (invlpg v t) = keeps_data pd s t"
  by (simp add: keeps_data_def keeps_pages_def owned_def data_page_def)

lemma invlpg_vm_ok [simp]: "vm_ok pd fpt (invlpg v s) = vm_ok pd fpt s"
  by (simp add: vm_ok_def id_window_def)

lemma get_pt_total:
  assumes V: "vm_ok pd fpt s" and T: "table_possible pd virt s"
  obtains s' where "get_pt (of_nat pd) virt True s = Done (of_nat (tbl pd (phys s') (pdi virt)), s')"
    "vm_ok pd fpt s'" "present (wd (phys s') (pd + 4 * pdi virt))" "\<And>v. mmu s' v = mmu s v"
    "flushed s' = flushed s" "keeps_data pd s s'" "frames s' = frames s \<or> frames s' = snd (pmm_alloc (frames s))"
proof (cases "present (wd (phys s) (pd + 4 * pdi virt))")
  case True
  then show thesis using V by (intro that [of s]) (simp_all add: get_pt_present)
next
  case False
  obtain a fr where a: "pmm_alloc (frames s) = (a, fr)" "a \<noteq> 0" "a < 0x400000"
    using T False by (cases "pmm_alloc (frames s)") (auto simp: table_possible_def)
  obtain s' where s': "get_pt (of_nat pd) virt True s = Done (a, s')" "vm_ok pd fpt s'"
    "present (wd (phys s') (pd + 4 * pdi virt))" "tbl pd (phys s') (pdi virt) = unat a"
    "\<And>w. pte_of pd (phys s') w = (if pdi w = pdi virt then Some 0 else pte_of pd (phys s) w)"
    "flushed s' = flushed s" "frames s' = fr" "handlers s' = handlers s" "keeps_data pd s s'"
    by (rule get_pt_create [OF V False a]) (rule that)
  have "mmu s' v = mmu s v" for v
    using s'(5) False by (simp add: mmu_pte [OF V] mmu_pte [OF s'(2)] pte_phys_def present_def pte_of_def [of pd "phys s"])
  then show thesis using s' a(1) by (intro that [of s']) simp_all
qed

lemma vmm_map_done:
  assumes V: "vm_ok pd fpt s" and T: "table_possible pd virt s"
    and al: "virt AND 0xFFF = 0" "ph AND 0xFFF = 0" and hi: "0x400000 \<le> virt"
  obtains s' where "vmm_map (of_nat pd) virt ph flags s = Done (0, s')" "vm_ok pd fpt s'"
    "\<And>v. mmu s' v = (if v AND 0xFFFFF000 = virt then Some (ph OR (v AND 0xFFF)) else mmu s v)"
    "pte_of pd (phys s') virt = Some (ph OR (flags AND 0xFFF) OR 1)" "flushed s' = virt # flushed s"
    "keeps_data pd s s'" "frames s' = frames s \<or> frames s' = snd (pmm_alloc (frames s))"
proof -
  obtain s1 where g: "get_pt (of_nat pd) virt True s = Done (of_nat (tbl pd (phys s1) (pdi virt)), s1)"
    and V1: "vm_ok pd fpt s1" and p: "present (wd (phys s1) (pd + 4 * pdi virt))"
    and same: "\<And>v. mmu s1 v = mmu s v" and fl: "flushed s1 = flushed s" and kd: "keeps_data pd s s1"
    and fr: "frames s1 = frames s \<or> frames s1 = snd (pmm_alloc (frames s))"
    by (rule get_pt_total [OF V T]) (rule that)
  let ?t = "tbl pd (phys s1) (pdi virt)"
  define e where "e = ph OR ((flags AND 0xFFF) OR 1)"
  let ?m = "put (?t + 4 * pti virt) e (phys s1)"
  note Tb = vm_ok_table [OF V1 pdi_less p]
  have i0: "pdi virt \<noteq> 0" using hi by (simp add: kernel_window not_less)
  have fz: "(flags AND 0xFFF OR 1) AND 0xFFFFF000 = 0"
    unfolding page_masks by (rule bit_word_eqI) (auto simp: bit_simps)
  have nz: "(of_nat ?t :: u32) \<noteq> 0" using Tb(1,2) by (simp add: word_unat_eq_iff unat_of_nat32)
  have phf: "ph AND 0xFFFFF000 = ph" and vf: "virt AND 0xFFFFF000 = virt"
    using split_page [of ph] split_page [of virt] al by simp_all
  have or0: "(virt OR ph) AND 0xFFF = 0" using al by (simp add: bit.conj_disj_distrib2)
  have call: "vmm_map (of_nat pd) virt ph flags s = Done (0, invlpg virt (s1\<lparr>phys := ?m\<rparr>))"
    unfolding vmm_map_def g entry_addr PAGE_PRESENT_def phf
    using or0 nz entry_access(2) [OF vm_okD(1) [OF V1] Tb(3,2) pti_less]
    by (simp add: e_def entry_addr del: of_nat_add)
  note S = set_pte [where x = e, OF V1 pdi_less i0 p pti_less [of virt]]
  have V2: "vm_ok pd fpt (invlpg virt (s1\<lparr>phys := ?m\<rparr>))"
    using S(1) by simp
  have ep: "pte_phys e v = Some (ph OR (v AND 0xFFF))" for v
    using entry_parts [OF al(2) fz] by (simp add: pte_phys_def present_def e_def PAGE_OFFSET_def bit.conj_disj_distrib2)
  have "mmu (invlpg virt (s1\<lparr>phys := ?m\<rparr>)) v =
      (if v AND 0xFFFFF000 = virt then Some (ph OR (v AND 0xFFF)) else mmu s v)" for v
    using S(2) [of v] same_page [of v virt] ep [of v] vf same [of v]
    by (simp add: mmu_pte [OF V2] mmu_pte [OF V1])
  then show thesis
    using call V2 S(2) [of virt] fl fr keeps_data_invlpg
      keeps_data_trans [OF kd set_pte_keeps [OF V1 pdi_less p pti_less]]
    by (intro that [of "invlpg virt (s1\<lparr>phys := ?m\<rparr>)"]) (simp_all add: e_def)
qed


lemma vmm_unmap_done:
  assumes V: "vm_ok pd fpt s" and hi: "0x400000 \<le> virt"
  obtains s' where "vmm_unmap (of_nat pd) virt s = Done s'" "vm_ok pd fpt s'"
    "\<And>v. mmu s' v = (if v AND 0xFFFFF000 = virt AND 0xFFFFF000 then None else mmu s v)"
    "flushed s' = flushed s \<or> flushed s' = virt # flushed s"
    "mmu s virt \<noteq> None \<Longrightarrow> flushed s' = virt # flushed s" "keeps_data pd s s'" "frames s' = frames s"
proof (cases "present (wd (phys s) (pd + 4 * pdi virt))")
  case False
  have "vmm_unmap (of_nat pd) virt s = Done s"
    using get_pt_absent [OF V False, of False] by (simp add: vmm_unmap_def)
  moreover have "mmu s v = None" if "v AND 0xFFFFF000 = virt AND 0xFFFFF000" for v
    using mmu_absent [OF V, of v] False same_page [of v virt] that by simp
  ultimately show thesis using V by (intro that [of s]) auto
next
  case p: True
  note Tb = vm_ok_table [OF V pdi_less p]
  let ?t = "tbl pd (phys s) (pdi virt)"
  let ?m = "put (?t + 4 * pti virt) 0 (phys s)"
  have i0: "pdi virt \<noteq> 0" using hi by (simp add: kernel_window not_less)
  have nz: "(of_nat ?t :: u32) \<noteq> 0" using Tb(1,2) by (simp add: word_unat_eq_iff unat_of_nat32)
  have call: "vmm_unmap (of_nat pd) virt s = Done (invlpg virt (s\<lparr>phys := ?m\<rparr>))"
    unfolding vmm_unmap_def get_pt_present [OF V p]
    using nz entry_access(2) [OF vm_okD(1) [OF V] Tb(3,2) pti_less] by (simp add: entry_addr del: of_nat_add)
  note S = set_pte [where x = 0, OF V pdi_less i0 p pti_less [of virt]]
  have V2: "vm_ok pd fpt (invlpg virt (s\<lparr>phys := ?m\<rparr>))" using S(1) by simp
  have "mmu (invlpg virt (s\<lparr>phys := ?m\<rparr>)) v =
      (if v AND 0xFFFFF000 = virt AND 0xFFFFF000 then None else mmu s v)" for v
    using S(2) [of v] same_page [of v virt]
    by (simp add: mmu_pte [OF V2] mmu_pte [OF V] pte_phys_def present_def)
  then show thesis using call V2 set_pte_keeps [OF V pdi_less p pti_less [of virt], of 0] keeps_data_invlpg
    by (intro that [of "invlpg virt (s\<lparr>phys := ?m\<rparr>)"]) simp_all
qed

lemma vmm_get_phys_walk:
  assumes V: "vm_ok pd fpt s"
  shows "vmm_get_phys (of_nat pd) v s = Done (case mmu s v of None \<Rightarrow> 0xFFFFFFFF | Some p \<Rightarrow> p)"
proof (cases "present (wd (phys s) (pd + 4 * pdi v))")
  case False
  then show ?thesis
    using get_pt_absent [OF V False, of False] mmu_absent [OF V False] by (simp add: vmm_get_phys_def)
next
  case p: True
  note Tb = vm_ok_table [OF V pdi_less p]
  have nz: "(of_nat (tbl pd (phys s) (pdi v)) :: u32) \<noteq> 0"
    using Tb(1,2) by (simp add: word_unat_eq_iff unat_of_nat32)
  have "vmm_get_phys (of_nat pd) v s =
      (let pte = wd (phys s) (tbl pd (phys s) (pdi v) + 4 * pti v) in
       if pte AND 1 = 0 then Done 0xFFFFFFFF else Done ((pte AND 0xFFFFF000) OR PAGE_OFFSET v))"
    unfolding vmm_get_phys_def get_pt_present [OF V p] PAGE_PRESENT_def
    using nz entry_access(1) [OF vm_okD(1) [OF V] Tb(3,2) pti_less] by (simp add: entry_addr del: of_nat_add)
  then show ?thesis
    using p by (simp add: mmu_pte [OF V] pte_of_def pte_phys_def present_def Let_def)
qed

lemma low_not_free:
  assumes "pmm_ready s" and "x < 0x100000"
  shows "(of_nat x :: u32) \<notin> pmm_frames s"
proof
  assume "(of_nat x :: u32) \<in> pmm_frames s"
  then obtain p where p: "p < TOTAL_PAGES" "page_is_free p s" "of_nat x = p * 4096"
    by (auto simp: pmm_frames_def free_pages_def)
  have "unat (of_nat x :: u32) = x" using assms(2) by (simp add: unat_of_nat32)
  then have "unat (p * 4096) = x" using p(3) by simp
  then have "unat p * 4096 = x" using page_addr_unat p(1) by simp
  then have "p < 256" using assms(2) by (simp add: word_less_nat_alt)
  then show False using assms(1) p(2) by (simp add: pmm_ready_def)
qed

lemma pg_bit: "(c OR 0x80000000) AND 0x80000000 \<noteq> (0 :: u32)"
proof
  assume "(c OR 0x80000000) AND 0x80000000 = (0 :: u32)"
  then have "bit ((c OR 0x80000000) AND 0x80000000 :: u32) 31 = bit (0 :: u32) 31" by simp
  then show False by (simp add: bit_simps bit_numeral_rec)
qed

lemma paging_init_done:
  assumes off: "cr0 s AND 0x80000000 = 0" and L: "boot_layout pd fpt" and R: "pmm_ready (frames s)"
  obtains s' where "paging_init (of_nat pd) (of_nat fpt) s = Done s'" "vm_ok pd fpt s'"
    "\<And>i. i < 1024 \<Longrightarrow> 0 < i \<Longrightarrow> wd (phys s') (pd + 4 * i) = 0"
    "handlers s' = (handlers s)(14 := Page_fault_handler)" "frames s' = frames s" "flushed s' = flushed s"
proof -
  have lay: "pd mod 4096 = 0" "pd < 0x100000" "fpt mod 4096 = 0" "fpt < 0x100000" "pd \<noteq> fpt" "0 < fpt"
    using L by (auto simp: boot_layout_def)
  have id: "mmu (s\<lparr>phys := m\<rparr>) v = Some v" for m v using off by (simp add: mmu_def)
  obtain m1 where m1: "fill_table (of_nat pd) (\<lambda>_. 0) s = Done (s\<lparr>phys := m1\<rparr>)"
    "\<And>i. i < 1024 \<Longrightarrow> wd m1 (pd + 4 * i) = 0"
    "\<And>y. y < 4294967296 \<Longrightarrow> y < pd \<or> pd + 4096 \<le> y \<Longrightarrow> m1 (of_nat y) = phys s (of_nat y)"
    by (rule fill_table_done [of pd s "\<lambda>_. 0", OF _ id]) (use lay that in auto)
  let ?f = "\<lambda>i. (of_nat i * 0x1000) OR PAGE_RW OR PAGE_USER OR PAGE_PRESENT"
  obtain m2 where m2: "fill_table (of_nat fpt) ?f (s\<lparr>phys := m1\<rparr>) = Done (s\<lparr>phys := m2\<rparr>)"
    "\<And>i. i < 1024 \<Longrightarrow> wd m2 (fpt + 4 * i) = ?f i"
    "\<And>y. y < 4294967296 \<Longrightarrow> y < fpt \<or> fpt + 4096 \<le> y \<Longrightarrow> m2 (of_nat y) = m1 (of_nat y)"
    by (rule fill_table_done [of fpt "s\<lparr>phys := m1\<rparr>" ?f]) (use lay id that in auto)
  define m3 where "m3 = put pd (of_nat fpt OR 7) m2"
  let ?s = "enable_paging (load_cr3 (of_nat pd)
      (s\<lparr>phys := m3, handlers := isr_register 14 Page_fault_handler (handlers s)\<rparr>))"
  have call: "paging_init (of_nat pd) (of_nat fpt) s = Done ?s"
    using m1(1) m2(1) id [of m2 "of_nat pd"]
    by (simp add: paging_init_def write32_def m3_def put_def PAGE_RW_def PAGE_USER_def PAGE_PRESENT_def)
  have pde: "wd m3 (pd + 4 * i) = (if i = 0 then of_nat fpt OR 7 else 0)" if i: "i < 1024" for i
  proof (cases "i = 0")
    case False
    then have "wd m3 (pd + 4 * i) = wd m2 (pd + 4 * i)"
      unfolding m3_def using i lay by (intro wd_put_other) auto
    also have "\<dots> = wd m1 (pd + 4 * i)" using i lay by (intro wd_other_page [where t = fpt] m2(3)) auto
    finally show ?thesis using m1(2) [OF i] False by simp
  qed (simp add: m3_def)
  have pte: "wd m3 (fpt + 4 * j) = of_nat (4096 * j) OR 7" if j: "j < 1024" for j
  proof -
    have "wd m3 (fpt + 4 * j) = wd m2 (fpt + 4 * j)"
      unfolding m3_def using j lay pages_apart [of pd fpt] by (intro wd_put_other) auto
    then show ?thesis using m2(2) [OF j] by (simp add: PAGE_RW_def PAGE_USER_def PAGE_PRESENT_def mult.commute)
  qed
  have W: "id_window pd fpt ?s"
    using lay pde [of 0] pte pg_bit by (simp add: id_window_def enable_paging_def load_cr3_def)
  have pr: "i = 0" if "present (wd m3 (pd + 4 * i))" "i < 1024" for i
    using that pde [of i] by (auto simp: present_def split: if_splits)
  have t0: "tbl pd m3 0 = fpt" using pde [of 0] entry7(1) [of fpt] lay by (simp add: tbl_def unat_of_nat32)
  have "vm_ok pd fpt ?s"
    unfolding vm_ok_def
  proof (intro conjI allI impI)
    show "inj_on (tbl pd (phys ?s)) {i. i < 1024 \<and> present (wd (phys ?s) (pd + 4 * i))}"
      using pr by (auto simp: inj_on_def enable_paging_def load_cr3_def)
    fix i assume "i < 1024" "present (wd (phys ?s) (pd + 4 * i))"
    then have "i = 0" using pr by (simp add: enable_paging_def load_cr3_def)
    then show "0 < tbl pd (phys ?s) i" "tbl pd (phys ?s) i < 0x400000" "tbl pd (phys ?s) i \<noteq> pd"
      "of_nat (tbl pd (phys ?s) i) \<notin> pmm_frames (frames ?s)"
      using t0 lay low_not_free [OF R, of fpt] by (simp_all add: enable_paging_def load_cr3_def)
  qed (use W R lay low_not_free [OF R, of pd] in \<open>simp_all add: enable_paging_def load_cr3_def\<close>)
  then show thesis
    using call pde by (intro that [of ?s]) (simp_all add: enable_paging_def load_cr3_def isr_register_def)
qed

section \<open>The interface of the mapper\<close>

text \<open>
  What loaders rely on: mapping a page above the kernel window changes the translation of
  that page only, and unmapping removes it.  \<open>room\<close> says that the page table
  exists or can be created.
\<close>

locale page_mapper =
  fixes ok :: "'s \<Rightarrow> bool"
    and room :: "u32 \<Rightarrow> 's \<Rightarrow> bool"
    and xlate :: "'s \<Rightarrow> u32 \<Rightarrow> u32 option"
    and map_page :: "u32 \<Rightarrow> u32 \<Rightarrow> u32 \<Rightarrow> 's \<Rightarrow> (int \<times> 's) outcome"
    and unmap_page :: "u32 \<Rightarrow> 's \<Rightarrow> 's outcome"
  assumes map_law: "ok s \<Longrightarrow> room v s \<Longrightarrow> v AND 0xFFF = 0 \<Longrightarrow> p AND 0xFFF = 0 \<Longrightarrow> 0x400000 \<le> v \<Longrightarrow>
      \<exists>s'. map_page v p f s = Done (0, s') \<and> ok s' \<and>
        (\<forall>w. xlate s' w = (if w AND 0xFFFFF000 = v then Some (p OR (w AND 0xFFF)) else xlate s w))"
    and unmap_law: "ok s \<Longrightarrow> 0x400000 \<le> v \<Longrightarrow>
      \<exists>s'. unmap_page v s = Done s' \<and> ok s' \<and>
        (\<forall>w. xlate s' w = (if w AND 0xFFFFF000 = v AND 0xFFFFF000 then None else xlate s w))"
begin

lemma map_unmap:
  assumes "ok s" "room v s" "v AND 0xFFF = 0" "p AND 0xFFF = 0" "0x400000 \<le> v"
  shows "\<exists>s' s''. map_page v p f s = Done (0, s') \<and> unmap_page v s' = Done s'' \<and> ok s'' \<and>
    (\<forall>w. xlate s'' w = (if w AND 0xFFFFF000 = v then None else xlate s w))"
proof -
  have v: "v AND 0xFFFFF000 = v" using split_page [of v] assms(3) by simp
  from map_law [OF assms] obtain s' where
    s': "map_page v p f s = Done (0, s')" "ok s'"
      "\<And>w. xlate s' w = (if w AND 0xFFFFF000 = v then Some (p OR (w AND 0xFFF)) else xlate s w)" by blast
  from unmap_law [OF s'(2) assms(5)] obtain s'' where
    "unmap_page v s' = Done s''" "ok s''"
    "\<And>w. xlate s'' w = (if w AND 0xFFFFF000 = v AND 0xFFFFF000 then None else xlate s' w)" by blast
  then show ?thesis using s' v by auto
qed

lemma map_twice:
  assumes "ok s" "room v s" "v AND 0xFFF = 0" "p AND 0xFFF = 0" "0x400000 \<le> v"
    and "map_page v p f s = Done (0, s')"
    and "room u s'" "u AND 0xFFF = 0" "q AND 0xFFF = 0" "0x400000 \<le> u" "u \<noteq> v"
  shows "\<exists>s''. map_page u q g s' = Done (0, s'') \<and> xlate s'' v = Some p \<and> xlate s'' u = Some q"
proof -
  have al: "v AND 0xFFFFF000 = v" "u AND 0xFFFFF000 = u"
    using split_page [of v] split_page [of u] assms(3,8) by simp_all
  from map_law [OF assms(1-5), of f] assms(6) have s': "ok s'" "xlate s' v = Some p"
    using al assms(3) by auto
  from map_law [OF s'(1) assms(7-10), of g] show ?thesis using s' al assms(8,11) by auto
qed

end

interpretation vmm: page_mapper "vm_ok pd fpt" "table_possible pd" mmu "vmm_map (of_nat pd)" "vmm_unmap (of_nat pd)"
  for pd fpt
proof unfold_locales
  show "\<exists>s'. vmm_map (of_nat pd) v p f s = Done (0, s') \<and> vm_ok pd fpt s' \<and>
      (\<forall>w. mmu s' w = (if w AND 0xFFFFF000 = v then Some (p OR (w AND 0xFFF)) else mmu s w))"
    if "vm_ok pd fpt s" "table_possible pd v s" "v AND 0xFFF = 0" "p AND 0xFFF = 0" "0x400000 \<le> v" for s v p f
    by (rule vmm_map_done [OF that]) blast
  show "\<exists>s'. vmm_unmap (of_nat pd) v s = Done s' \<and> vm_ok pd fpt s' \<and>
      (\<forall>w. mmu s' w = (if w AND 0xFFFFF000 = v AND 0xFFFFF000 then None else mmu s w))"
    if "vm_ok pd fpt s" "0x400000 \<le> v" for s v
    by (rule vmm_unmap_done [OF that]) blast
qed

section \<open>Properties\<close>

text \<open>
  C27: \<open>paging_init\<close> turns paging on without moving anything.  With paging off and the two
  static tables page-aligned, distinct and below 1 MiB, it returns; afterwards the processor
  translates every address below 4 MiB to itself and no other address, the page-fault handler is
  registered at vector 14, the frame allocator is untouched and the address space is well formed.
\<close>
theorem paging_init_identity:
  assumes "cr0 s AND 0x80000000 = 0" and "boot_layout pd fpt" and "pmm_ready (frames s)"
  shows "\<exists>s'. paging_init (of_nat pd) (of_nat fpt) s = Done s' \<and> vm_ok pd fpt s' \<and>
    (\<forall>v. mmu s' v = (if v < 0x400000 then Some v else None)) \<and>
    handlers s' = (handlers s)(14 := Page_fault_handler) \<and> frames s' = frames s"
proof -
  obtain s' where s': "paging_init (of_nat pd) (of_nat fpt) s = Done s'" "vm_ok pd fpt s'"
    "\<And>i. i < 1024 \<Longrightarrow> 0 < i \<Longrightarrow> wd (phys s') (pd + 4 * i) = 0"
    "handlers s' = (handlers s)(14 := Page_fault_handler)" "frames s' = frames s"
    by (rule paging_init_done [OF assms]) (rule that)
  have "mmu s' v = (if v < 0x400000 then Some v else None)" for v
  proof (cases "v < 0x400000")
    case True
    then show ?thesis using id_window_mmu [OF vm_okD(1) [OF s'(2)], of "unat v"] by (simp add: word_less_nat_alt)
  next
    case False
    then have "\<not> present (wd (phys s') (pd + 4 * pdi v))"
      using s'(3) [OF pdi_less, of v] kernel_window [of v] by (simp add: present_def)
    then show ?thesis using mmu_absent [OF s'(2)] False by simp
  qed
  then show ?thesis using s' by blast
qed

lemma demo_vm_ready:
  "cr0 demo_vm AND 0x80000000 = 0" "boot_layout 0x50000 0x51000" "pmm_ready (frames demo_vm)"
  using pmm_init_ready by (simp_all add: demo_vm_def boot_layout_def)

theorem paging_init_identity_witness:
  "\<exists>s'. paging_init (of_nat 0x50000) (of_nat 0x51000) demo_vm = Done s' \<and>
     mmu s' 0x3FFFFF = Some 0x3FFFFF \<and> mmu s' 0x400000 = None"
proof -
  from paging_init_identity [OF demo_vm_ready] obtain s' where
    "paging_init (of_nat 0x50000) (of_nat 0x51000) demo_vm = Done s'"
    "\<forall>v. mmu s' v = (if v < 0x400000 then Some v else None)" by blast
  then show ?thesis by (intro exI [of _ s']) simp
qed

lemma demo_paged:
  obtains s where "vm_ok 0x50000 0x51000 s" "frames s = pmm_init sample_map boot_pmm"
    "\<And>i. i < 1024 \<Longrightarrow> 0 < i \<Longrightarrow> wd (phys s) (0x50000 + 4 * i) = 0" "flushed s = []"
proof -
  obtain s where "vm_ok 0x50000 0x51000 s" "frames s = frames demo_vm"
    "\<And>i. i < 1024 \<Longrightarrow> 0 < i \<Longrightarrow> wd (phys s) (0x50000 + 4 * i) = 0" "flushed s = flushed demo_vm"
    by (rule paging_init_done [OF demo_vm_ready]) (rule that)
  then show thesis by (intro that [of s]) (simp_all add: demo_vm_def)
qed

lemma sample_alloc: "fst (pmm_alloc (pmm_init sample_map boot_pmm)) = 0x100000"
proof -
  have "Min {256, 257, 258 :: u32} = 256" by simp
  then show ?thesis using pmm_alloc_ok [of "pmm_init sample_map boot_pmm"] by (simp add: sample_frames)
qed

text \<open>
  C3: \<open>vmm_map\<close> maps exactly the page it is asked for.  In a well-formed address space, for an
  aligned page at or above 4 MiB whose page table exists or can be made from a frame
  below 4 MiB, it returns 0; the processor then translates that page to the given frame with
  the given flags, every other address translates as before (also where a new table was
  created), the translation cache entry is flushed, and the address space stays well formed.
\<close>
theorem vmm_map_translates:
  assumes "vm_ok pd fpt s" and "table_possible pd virt s" and "virt AND 0xFFF = 0" and "ph AND 0xFFF = 0"
    and "0x400000 \<le> virt"
  shows "\<exists>s'. vmm_map (of_nat pd) virt ph flags s = Done (0, s') \<and> vm_ok pd fpt s' \<and>
    (\<forall>v. mmu s' v = (if v AND 0xFFFFF000 = virt then Some (ph OR (v AND 0xFFF)) else mmu s v)) \<and>
    pte_of pd (phys s') virt = Some (ph OR (flags AND 0xFFF) OR PAGE_PRESENT) \<and>
    flushed s' = virt # flushed s"
  by (rule vmm_map_done [OF assms, of flags]) (auto simp: PAGE_PRESENT_def)

theorem vmm_map_translates_witness:
  "\<exists>s s'. vmm_map (of_nat 0x50000) 0x800000 0x101000 7 s = Done (0, s') \<and>
     mmu s' 0x800123 = Some 0x101123 \<and> mmu s' 0x3000 = mmu s 0x3000"
proof -
  obtain s where s: "vm_ok 0x50000 0x51000 s" "frames s = pmm_init sample_map boot_pmm" by (rule demo_paged)
  have t: "table_possible 0x50000 0x800000 s" using sample_alloc by (simp add: table_possible_def s(2))
  from vmm_map_translates [OF s(1) t, of "0x101000" 7] obtain s' where
    "vmm_map (of_nat 0x50000) 0x800000 0x101000 7 s = Done (0, s')"
    "\<forall>v. mmu s' v = (if v AND 0xFFFFF000 = 0x800000 then Some (0x101000 OR (v AND 0xFFF)) else mmu s v)" by auto
  then show ?thesis by (intro exI [of _ s] exI [of _ s']) simp
qed


text \<open>
  C36: \<open>vmm_unmap\<close> undoes \<open>vmm_map\<close>.  Mapping an aligned page above the kernel window and unmapping
  it again succeeds, leaves that page untranslated and every other address translated as
  before both calls, in a well-formed address space.
\<close>
theorem vmm_map_unmap:
  assumes "vm_ok pd fpt s" and "table_possible pd virt s" and "virt AND 0xFFF = 0" and "ph AND 0xFFF = 0"
    and "0x400000 \<le> virt"
  shows "\<exists>s' s''. vmm_map (of_nat pd) virt ph flags s = Done (0, s') \<and>
    vmm_unmap (of_nat pd) virt s' = Done s'' \<and> vm_ok pd fpt s'' \<and>
    (\<forall>w. mmu s'' w = (if w AND 0xFFFFF000 = virt then None else mmu s w))"
  using assms by (rule vmm.map_unmap)

theorem vmm_map_unmap_witness:
  "\<exists>s s' s''. vmm_map (of_nat 0x50000) 0x800000 0x101000 7 s = Done (0, s') \<and>
     vmm_unmap (of_nat 0x50000) 0x800000 s' = Done s'' \<and> mmu s'' 0x800123 = None"
proof -
  obtain s where s: "vm_ok 0x50000 0x51000 s" "frames s = pmm_init sample_map boot_pmm" by (rule demo_paged)
  have t: "table_possible 0x50000 0x800000 s" using sample_alloc by (simp add: table_possible_def s(2))
  from vmm_map_unmap [OF s(1) t, of "0x101000" 7] obtain s' s'' where
    "vmm_map (of_nat 0x50000) 0x800000 0x101000 7 s = Done (0, s')"
    "vmm_unmap (of_nat 0x50000) 0x800000 s' = Done s''"
    "\<forall>w. mmu s'' w = (if w AND 0xFFFFF000 = 0x800000 then None else mmu s w)" by auto
  then show ?thesis by (intro exI [of _ s] exI [of _ s'] exI [of _ s'']) simp
qed

text \<open>
  The software walk agrees with the hardware.  In a well-formed address space \<open>vmm_get_phys\<close>
  never faults and returns the address the processor would use, or 0xFFFFFFFF where
  the processor would fault.
\<close>
lemma vmm_get_phys_is_mmu:
  assumes "vm_ok pd fpt s"
  shows "vmm_get_phys (of_nat pd) v s = Done (case mmu s v of None \<Rightarrow> 0xFFFFFFFF | Some p \<Rightarrow> p)"
  using assms by (rule vmm_get_phys_walk)

text \<open>
  The error returns of \<open>vmm_map\<close> change nothing.  An unaligned virtual or physical address, or a
  missing page table with no free frame left, gives -1 and the very same state.
\<close>
lemma vmm_map_errors:
  assumes "vm_ok pd fpt s"
    and "virt AND 0xFFF \<noteq> 0 \<or> ph AND 0xFFF \<noteq> 0 \<or>
      \<not> present (wd (phys s) (pd + 4 * pdi virt)) \<and> pmm_frames (frames s) = {}"
  shows "vmm_map (of_nat pd) virt ph flags s = Done (-1, s)"
proof (cases "(virt OR ph) AND 0xFFF = 0")
  case False
  then show ?thesis by (simp add: vmm_map_def)
next
  case True
  then have "virt AND 0xFFF = 0" "ph AND 0xFFF = 0"
    by (simp_all add: bit.conj_disj_distrib2 or_eq_0_iff)
  then have p: "\<not> present (wd (phys s) (pd + 4 * pdi virt))" and e: "pmm_frames (frames s) = {}"
    using assms(2) by auto
  then have "get_pt (of_nat pd) virt True s = Done (0, s)"
    using get_pt_absent [OF assms(1) p, of True] pmm_frame.alloc_none [OF e] by simp
  then show ?thesis using True by (simp add: vmm_map_def)
qed

text \<open>
  A page table cannot come from high memory.  When the directory slot is empty and the lowest
  free frame is an address that the processor does not translate (as every address from 4 MiB on, right after
  \<open>paging_init\<close>), \<open>vmm_map\<close> does not return -1: clearing the new table faults and the machine stops.
\<close>
lemma vmm_map_high_frame_halts:
  assumes "vm_ok pd fpt s" and "virt AND 0xFFF = 0" and "ph AND 0xFFF = 0"
    and "\<not> present (wd (phys s) (pd + 4 * pdi virt))"
    and "fst (pmm_alloc (frames s)) \<noteq> 0" and "mmu s (fst (pmm_alloc (frames s))) = None"
  shows "vmm_map (of_nat pd) virt ph flags s = Halted ''page fault''"
proof -
  obtain a fr where a: "pmm_alloc (frames s) = (a, fr)" by (cases "pmm_alloc (frames s)")
  have n: "mmu (s\<lparr>frames := fr\<rparr>) a = None" using assms(6) a by (simp add: mmu_def split: if_splits)
  have h: "for_range k 1024 (\<lambda>i r. and_then r (write32 (a + 4 * of_nat i) 0)) (Halted e) = Halted e" for k e
    by (rule for_range_keeps) auto
  have "fill_table a (\<lambda>_. 0) (s\<lparr>frames := fr\<rparr>) = Halted ''page fault''"
    unfolding fill_table_def using n h by (subst for_range_step) (simp_all add: write32_def)
  then have "get_pt (of_nat pd) virt True s = Halted ''page fault''"
    using get_pt_absent [OF assms(1,4), of True] a assms(5) by simp
  moreover have "(virt OR ph) AND 0xFFF = 0" using assms(2,3) by (simp add: bit.conj_disj_distrib2)
  ultimately show ?thesis by (simp add: vmm_map_def)
qed

lemma high_frames: "free_pages (pmm_init high_map boot_pmm) = {0x800}"
proof -
  have fits: "\<forall>e \<in> set high_map. entry_fits e" by (simp add: high_map_def entry_fits_def)
  have "p \<in> free_pages (pmm_init high_map boot_pmm) \<longleftrightarrow> unat p = 0x800" for p
    using pmm_init_free_iff [OF fits, of "unat p" boot_pmm]
    by (auto simp: high_map_def E820_USABLE_def free_pages_def word_less_nat_alt)
  moreover have "unat p = 0x800 \<longleftrightarrow> p = 0x800" for p :: u32 by (simp add: word_unat_eq_iff)
  ultimately show ?thesis by blast
qed

end
