(* ===== verification/Screen.thy ===== *)
theory Screen
  imports Ports
begin

text \<open>
  The VGA text console (\<^verbatim>\<open>src/drivers/screen.c\<close>): 80 by 25 cells of a character and an
  attribute byte from address 0xB8000 on, a cursor, and a mirror of everything that is printed
  on the serial line.  \<open>vga\<close> maps a byte offset from the base to its byte.  Characters
  are bytes.  Printing returns \<open>None\<close> when the serial transmitter never gets ready.
\<close>

unbundle bit_operations_syntax

section \<open>The driver\<close>

definition COLS :: int where [simp]: "COLS = 80"
definition ROWS :: int where [simp]: "ROWS = 25"

definition VGA_BLACK :: u8 where "VGA_BLACK = 0"
definition VGA_RED :: u8 where "VGA_RED = 4"
definition VGA_LIGHT_GREY :: u8 where "VGA_LIGHT_GREY = 7"
definition VGA_WHITE :: u8 where "VGA_WHITE = 15"

record screen =
  vga :: "nat \<Rightarrow> u8"
  cur_col :: int
  cur_row :: int
  com :: serial

definition vga_color :: "u8 \<Rightarrow> u8 \<Rightarrow> u8" where
  "vga_color fg bg = fg OR push_bit 4 bg"

definition scroll_up :: "screen \<Rightarrow> screen" where
  "scroll_up s =
     (let blank = vga_color VGA_LIGHT_GREY VGA_BLACK;
          v = for_range 0 24
                (\<lambda>row. for_range 0 80
                   (\<lambda>col v.
                      let src = ((row + 1) * 80 + col) * 2;
                          dst = (row * 80 + col) * 2;
                          v = v(dst := v src)
                      in v(dst + 1 := v (src + 1)))) (vga s);
          v = for_range 0 80
                (\<lambda>col v. let pos = (24 * 80 + col) * 2 in v(pos := 32, pos + 1 := blank)) v
      in s\<lparr>vga := v, cur_row := ROWS - 1\<rparr>)"

definition clear_screen :: "screen \<Rightarrow> screen" where
  "clear_screen s =
     (let attr = vga_color VGA_LIGHT_GREY VGA_BLACK
      in s\<lparr>vga := for_range 0 (25 * 80) (\<lambda>i v. v(i * 2 := 32, i * 2 + 1 := attr)) (vga s),
           cur_col := 0, cur_row := 0\<rparr>)"

definition put_cell :: "u8 \<Rightarrow> u8 \<Rightarrow> screen \<Rightarrow> screen" where
  "put_cell c attr s =
     (let pos = nat ((cur_row s * COLS + cur_col s) * 2)
      in s\<lparr>vga := (vga s)(pos := c, pos + 1 := attr)\<rparr>)"

definition wrap_cursor :: "screen \<Rightarrow> screen" where
  "wrap_cursor s =
     (let s = (if cur_col s \<ge> COLS then s\<lparr>cur_col := 0, cur_row := cur_row s + 1\<rparr> else s)
      in if cur_row s \<ge> ROWS then scroll_up s else s)"

text \<open>What \<open>kputchar_color\<close> does after the serial mirror.\<close>

definition draw_char :: "u8 \<Rightarrow> u8 \<Rightarrow> screen \<Rightarrow> screen" where
  "draw_char c attr s =
     (if c = 10 then wrap_cursor (s\<lparr>cur_col := 0, cur_row := cur_row s + 1\<rparr>)
      else if c = 13 then wrap_cursor (s\<lparr>cur_col := 0\<rparr>)
      else if c = 9 then wrap_cursor (s\<lparr>cur_col := (cur_col s + 8) AND NOT 7\<rparr>)
      else if c = 8
      then put_cell 32 attr
             (if cur_col s > 0 then s\<lparr>cur_col := cur_col s - 1\<rparr>
              else if cur_row s > 0 then s\<lparr>cur_row := cur_row s - 1, cur_col := COLS - 1\<rparr>
              else s)
      else wrap_cursor ((put_cell c attr s)\<lparr>cur_col := cur_col s + 1\<rparr>))"

definition kputchar_color :: "u8 \<Rightarrow> u8 \<Rightarrow> u8 \<Rightarrow> screen \<Rightarrow> screen option" where
  "kputchar_color c fg bg s =
     (case serial_putc c (com s) of
        None \<Rightarrow> None
      | Some u \<Rightarrow> Some (draw_char c (vga_color fg bg) (s\<lparr>com := u\<rparr>)))"

definition kputchar :: "u8 \<Rightarrow> screen \<Rightarrow> screen option" where
  "kputchar c s = kputchar_color c VGA_LIGHT_GREY VGA_BLACK s"

fun kprint :: "cstring \<Rightarrow> screen \<Rightarrow> screen option" where
  "kprint [] s = Some s"
| "kprint (c # cs) s = (case kputchar c s of None \<Rightarrow> None | Some s \<Rightarrow> kprint cs s)"

fun kprint_color :: "cstring \<Rightarrow> u8 \<Rightarrow> u8 \<Rightarrow> screen \<Rightarrow> screen option" where
  "kprint_color [] fg bg s = Some s"
| "kprint_color (c # cs) fg bg s =
     (case kputchar_color c fg bg s of None \<Rightarrow> None | Some s \<Rightarrow> kprint_color cs fg bg s)"

text \<open>The buffer that \<open>kprint_hex\<close> fills from the right, and the scan over leading zeros.\<close>

definition hex_table :: cstring where
  "hex_table = cstr ''0123456789ABCDEF''"

fun hex_fill :: "nat \<Rightarrow> u32 \<Rightarrow> cstring \<Rightarrow> cstring" where
  "hex_fill 0 n buf = buf"
| "hex_fill (Suc i) n buf = hex_fill i (drop_bit 4 n) (hex_table ! unat (n AND 0xF) # buf)"

fun skip_zeros :: "cstring \<Rightarrow> cstring" where
  "skip_zeros (c # d # cs) = (if c = 48 then skip_zeros (d # cs) else c # d # cs)"
| "skip_zeros cs = cs"

definition kprint_hex :: "u32 \<Rightarrow> screen \<Rightarrow> screen option" where
  "kprint_hex n s =
     (case kprint (cstr ''0x'') s of
        None \<Rightarrow> None
      | Some s \<Rightarrow> kprint (skip_zeros (hex_fill 8 n [])) s)"

function dec_fill :: "u32 \<Rightarrow> cstring \<Rightarrow> cstring" where
  "dec_fill n buf = (if n > 0 then dec_fill (n div 10) (ucast (48 + n mod 10) # buf) else buf)"
  by pat_completeness auto
termination
  by (relation "measure (\<lambda>(n, buf). unat n)") (auto simp: unat_div word_less_nat_alt)

declare dec_fill.simps [simp del]

definition kprint_dec :: "u32 \<Rightarrow> screen \<Rightarrow> screen option" where
  "kprint_dec n s = (if n = 0 then kputchar 48 s else kprint (dec_fill n []) s)"

definition kget_cursor :: "screen \<Rightarrow> int \<times> int" where
  "kget_cursor s = (cur_col s, cur_row s)"

section \<open>The console as a grid of cells\<close>

text \<open>
  The abstract console: a cell (character, attribute) for every row and column, and the cursor.
\<close>

type_synonym grid = "nat \<Rightarrow> nat \<Rightarrow> u8 \<times> u8"

definition cells :: "screen \<Rightarrow> grid" where
  "cells s r c = (if r < 25 \<and> c < 80 then (vga s (2 * (80 * r + c)), vga s (2 * (80 * r + c) + 1)) else (0, 0))"

definition screen_ok :: "screen \<Rightarrow> bool" where
  "screen_ok s \<longleftrightarrow> 0 \<le> cur_col s \<and> cur_col s < 80 \<and> 0 \<le> cur_row s \<and> cur_row s < 25"

definition set_cell :: "nat \<Rightarrow> nat \<Rightarrow> u8 \<times> u8 \<Rightarrow> grid \<Rightarrow> grid" where
  "set_cell r c x g = (\<lambda>i j. if i = r \<and> j = c then x else g i j)"

definition scrolled :: "grid \<Rightarrow> grid" where
  "scrolled g = (\<lambda>r c. if r < 24 then g (r + 1) c else if r = 24 \<and> c < 80 then (32, 7) else (0, 0))"

text \<open>Moving to the next row scrolls at the bottom.\<close>

fun next_row :: "grid \<times> nat \<Rightarrow> grid \<times> nat" where
  "next_row (g, r) = (if r = 24 then (scrolled g, 24) else (g, r + 1))"

fun type_char :: "u8 \<Rightarrow> u8 \<Rightarrow> grid \<times> nat \<times> nat \<Rightarrow> grid \<times> nat \<times> nat" where
  "type_char c attr (g, r, k) =
     (if c = 10 then (let (g, r) = next_row (g, r) in (g, r, 0))
      else if c = 13 then (g, r, 0)
      else if c = 9 then
        (if k < 72 then (g, r, (k div 8 + 1) * 8) else (let (g, r) = next_row (g, r) in (g, r, 0)))
      else if c = 8 then
        (if k > 0 then (set_cell r (k - 1) (32, attr) g, r, k - 1)
         else if r > 0 then (set_cell (r - 1) 79 (32, attr) g, r - 1, 79)
         else (set_cell 0 0 (32, attr) g, 0, 0))
      else
        (let g = set_cell r k (c, attr) g
         in if k < 79 then (g, r, k + 1) else (let (g, r) = next_row (g, r) in (g, r, 0))))"

definition screen_abs :: "screen \<Rightarrow> grid \<times> nat \<times> nat" where
  "screen_abs s = (cells s, nat (cur_row s), nat (cur_col s))"

text \<open>Reading printed digits back.\<close>

definition dec_value :: "cstring \<Rightarrow> nat" where
  "dec_value cs = foldl (\<lambda>a c. 10 * a + (unat c - 48)) 0 cs"

definition hex_digit_value :: "u8 \<Rightarrow> nat" where
  "hex_digit_value c = (if c \<le> 57 then unat c - 48 else unat c - 55)"

definition hex_value :: "cstring \<Rightarrow> nat" where
  "hex_value cs = foldl (\<lambda>a c. 16 * a + hex_digit_value c) 0 cs"

definition console_live :: "screen \<Rightarrow> bool" where
  "console_live s \<longleftrightarrow> g_initialized (com s) = 0 \<or> uart_recovers (bus (com s))"

definition mirrored :: "screen \<Rightarrow> cstring \<Rightarrow> u8 list" where
  "mirrored s cs = (if g_initialized (com s) = 0 then [] else crlf cs)"

definition dec_string :: "u32 \<Rightarrow> cstring" where
  "dec_string n = (if n = 0 then [48] else dec_fill n [])"

definition hex_string :: "u32 \<Rightarrow> cstring" where
  "hex_string n = cstr ''0x'' @ skip_zeros (hex_fill 8 n [])"

definition demo_screen :: screen where
  "demo_screen = clear_screen \<lparr>vga = (\<lambda>_. 0), cur_col = 0, cur_row = 0,
     com = serial_init \<lparr>bus = \<lparr>io_log = [], io_in = (\<lambda>_ _. 0x20)\<rparr>, g_initialized = 0\<rparr>\<rparr>"

lemma copy_row:
  "for_range 0 80 (\<lambda>col v. let src = ((row + 1) * 80 + col) * 2; dst = (row * 80 + col) * 2; v = v(dst := v src)
      in v(dst + 1 := v (src + 1))) v =
   (\<lambda>j. if 160 * row \<le> j \<and> j < 160 * (row + 1) then v (j + 160) else v j)" (is "for_range 0 80 ?b v = _")
proof -
  let ?P = "\<lambda>k w. \<forall>j. w j = (if 160 * row \<le> j \<and> j < 160 * row + 2 * k then v (j + 160) else v j)"
  have "?P 80 (for_range 0 80 ?b v)"
  proof (rule for_range_invariant [where P = ?P])
    fix k w assume k: "k < 80" and P: "?P k w"
    show "?P (Suc k) (?b k w)"
    proof
      fix j
      have "(row * 80 + k) * 2 = 160 * row + 2 * k" "((row + 1) * 80 + k) * 2 = 160 * row + 2 * k + 160"
        by simp_all
      then show "?b k w j = (if 160 * row \<le> j \<and> j < 160 * row + 2 * Suc k then v (j + 160) else v j)"
        using P unfolding Let_def by (auto simp: less_Suc_eq ac_simps)
    qed
  qed auto
  then show ?thesis by (auto simp: fun_eq_iff)
qed

lemma scroll_bytes:
  "vga (scroll_up s) j =
     (if j < 3840 then vga s (j + 160) else if j < 4000 then (if even j then 32 else 7) else vga s j)"
proof -
  let ?P = "\<lambda>k w. \<forall>j. w j = (if j < 160 * k then vga s (j + 160) else vga s j)"
  let ?b = "\<lambda>row. for_range 0 80 (\<lambda>col v. let src = ((row + 1) * 80 + col) * 2; dst = (row * 80 + col) * 2; v = v(dst := v src)
      in v(dst + 1 := v (src + 1)))"
  have P: "?P 24 (for_range 0 24 ?b (vga s))"
  proof (rule for_range_invariant [where P = ?P])
    fix k w assume "k < 24" and P: "?P k w"
    show "?P (Suc k) (?b k w)" unfolding copy_row using P by auto
  qed auto
  let ?Q = "\<lambda>v k w. \<forall>j. w j = (if 3840 \<le> j \<and> j < 3840 + 2 * k then (if even j then 32 else 7) else v j)"
  let ?c = "\<lambda>col v. let pos = (24 * 80 + col) * 2 in v(pos := 32, pos + 1 := vga_color VGA_LIGHT_GREY VGA_BLACK)"
  have Q: "?Q v 80 (for_range 0 80 ?c v)" for v
  proof (rule for_range_invariant [where P = "?Q v"])
    fix k w assume k: "k < 80" and P: "?Q v k w"
    show "?Q v (Suc k) (?c k w)"
      unfolding Let_def vga_color_def VGA_LIGHT_GREY_def VGA_BLACK_def
      using P by (auto simp: less_Suc_eq)
  qed auto
  show ?thesis
    unfolding scroll_up_def Let_def [of "vga_color _ _"] using P Q by (simp add: Let_def)
qed

lemma scroll_up_fields [simp]:
  "cur_col (scroll_up s) = cur_col s" "cur_row (scroll_up s) = 24" "com (scroll_up s) = com s"
  by (simp_all add: scroll_up_def Let_def)

lemma cells_scroll_up: "cells (scroll_up s) = scrolled (cells s)"
  by (auto simp: fun_eq_iff cells_def scrolled_def scroll_bytes ac_simps)

lemma clear_bytes:
  "vga (clear_screen s) j = (if j < 4000 then (if even j then 32 else 7) else vga s j)"
proof -
  let ?P = "\<lambda>k w. \<forall>j. w j = (if j < 2 * k then (if even j then 32 else 7) else vga s j)"
  let ?b = "\<lambda>i v. v(i * 2 := 32, i * 2 + 1 := vga_color VGA_LIGHT_GREY VGA_BLACK)"
  have "?P (25 * 80) (for_range 0 (25 * 80) ?b (vga s))"
  proof (rule for_range_invariant [where P = ?P])
    fix k w assume P: "?P k w"
    show "?P (Suc k) (?b k w)"
      unfolding vga_color_def VGA_LIGHT_GREY_def VGA_BLACK_def using P by (auto simp: less_Suc_eq)
  qed auto
  then show ?thesis by (simp add: clear_screen_def Let_def)
qed

lemma screen_okE:
  assumes "screen_ok s"
  obtains r k where "cur_row s = int r" "cur_col s = int k" "r < 25" "k < 80"
  using assms that [of "nat (cur_row s)" "nat (cur_col s)"] by (auto simp: screen_ok_def nat_less_iff)

lemma cells_put_cell:
  assumes "screen_ok s"
  shows "cells (put_cell c attr s) = set_cell (nat (cur_row s)) (nat (cur_col s)) (c, attr) (cells s)"
proof -
  obtain r k where rk: "cur_row s = int r" "cur_col s = int k" "r < 25" "k < 80"
    using assms by (rule screen_okE)
  have p: "nat ((cur_row s * COLS + cur_col s) * 2) = 2 * (80 * r + k)" unfolding rk by simp
  have e: "2 * (80 * i + j) = 2 * (80 * r + k) \<longleftrightarrow> i = r \<and> j = k" if "j < 80" for i j :: nat
  proof
    assume "2 * (80 * i + j) = 2 * (80 * r + k)"
    then have q: "80 * i + j = 80 * r + k" by simp
    from arg_cong [OF q, of "\<lambda>x. x div 80"] arg_cong [OF q, of "\<lambda>x. x mod 80"]
    show "i = r \<and> j = k" using that rk(4) by simp
  qed simp
  have o: "2 * (80 * i + j) \<noteq> Suc (2 * (80 * r + k))" for i j :: nat
    by (metis dvd_triv_left even_Suc)
  show ?thesis
    unfolding put_cell_def Let_def p
    using e o o [symmetric] rk by (auto simp: fun_eq_iff cells_def set_cell_def)
qed

lemma cells_cursor [simp]:
  "cells (s\<lparr>cur_col := x\<rparr>) = cells s" "cells (s\<lparr>cur_row := y\<rparr>) = cells s" "cells (s\<lparr>com := u\<rparr>) = cells s"
  by (simp_all add: cells_def fun_eq_iff)

lemma tab_stop: "(k + 8) AND - 8 = (k div 8 + 1) * (8 :: int)"
proof -
  have "(k + 8) AND 7 = k mod 8"
    using take_bit_eq_mask [of 3 "k + 8"] by (simp add: mask_eq_exp_minus_1 take_bit_eq_mod)
  then have "(k + 8) AND NOT 7 = (k div 8 + 1) * 8"
    unfolding and_not_eq_minus by (simp add: minus_mod_eq_div_mult [symmetric])
  then show ?thesis by simp
qed

lemma wrap_cursor_abs:
  assumes "0 \<le> cur_col s" "cur_col s \<le> 80" "0 \<le> cur_row s" "cur_row s \<le> 25"
  shows "screen_ok (wrap_cursor s)"
  using assms by (auto simp: wrap_cursor_def screen_ok_def Let_def)

lemma next_row_abs:
  assumes "0 \<le> cur_row s" "cur_row s < 25"
  shows "screen_abs (wrap_cursor (s\<lparr>cur_col := 0, cur_row := cur_row s + 1\<rparr>)) =
    (let (g, r) = next_row (cells s, nat (cur_row s)) in (g, r, 0))"
  using assms
  by (auto simp: wrap_cursor_def screen_abs_def cells_scroll_up Let_def nat_add_distrib)

lemma wrap_cursor_full:
  "cur_col s = 80 \<Longrightarrow> wrap_cursor s = wrap_cursor (s\<lparr>cur_col := 0, cur_row := cur_row s + 1\<rparr>)"
  by (simp add: wrap_cursor_def)

lemma wrap_cursor_same: "cur_col s < 80 \<Longrightarrow> cur_row s < 25 \<Longrightarrow> wrap_cursor s = s"
  by (simp add: wrap_cursor_def)

lemma put_cell_fields [simp]:
  "cur_col (put_cell c a s) = cur_col s" "cur_row (put_cell c a s) = cur_row s" "com (put_cell c a s) = com s"
  by (simp_all add: put_cell_def Let_def)

lemma draw_char_ok: "screen_ok s \<Longrightarrow> screen_ok (draw_char c attr s)"
  unfolding draw_char_def
  by (auto intro!: wrap_cursor_abs simp: tab_stop) (auto simp: screen_ok_def)

lemma draw_char_abs:
  assumes "screen_ok s"
  shows "screen_abs (draw_char c attr s) = type_char c attr (screen_abs s)"
proof -
  obtain r k where rk: "cur_row s = int r" "cur_col s = int k" "r < 25" "k < 80"
    using assms by (rule screen_okE)
  note row = next_row_abs [of s] next_row_abs [of "put_cell c attr s"]
  consider "c = 10" | "c = 13" | "c = 9" | "c = 8" | "c \<notin> {8, 9, 10, 13}" by auto
  then show ?thesis
  proof cases
    case 1
    then show ?thesis using row(1) rk by (simp add: draw_char_def screen_abs_def)
  next
    case 2
    then show ?thesis using rk by (simp add: draw_char_def screen_abs_def wrap_cursor_same)
  next
    case 3
    show ?thesis
    proof (cases "k < 72")
      case True
      then have "k div 8 < 9" by simp
      moreover have "(int k div 8 + 1) * 8 = int ((k div 8 + 1) * 8)" by (simp add: zdiv_int)
      ultimately show ?thesis using 3 rk True
        by (simp add: draw_char_def screen_abs_def wrap_cursor_same tab_stop del: of_nat_add of_nat_mult)
    next
      case False
      then have "k div 8 = 9" using rk by simp
      then have "int k div 8 = 9" by (metis of_nat_numeral zdiv_int)
      then show ?thesis using 3 rk False row(1) wrap_cursor_full [of "s\<lparr>cur_col := 80\<rparr>"]
        by (simp add: draw_char_def tab_stop) (simp add: screen_abs_def)
    qed
  next
    case 4
    then show ?thesis using rk
      by (auto simp: draw_char_def screen_abs_def cells_put_cell screen_ok_def nat_diff_distrib)
  next
    case 5
    show ?thesis
    proof (cases "k < 79")
      case True
      then show ?thesis using 5 rk assms
        by (simp add: draw_char_def screen_abs_def wrap_cursor_same cells_put_cell nat_add_distrib)
    next
      case False
      then have "k = 79" using rk by simp
      then show ?thesis using 5 rk row(2) wrap_cursor_full [of "(put_cell c attr s)\<lparr>cur_col := 80\<rparr>"] assms
        by (simp add: draw_char_def cells_put_cell) (simp add: screen_abs_def)
    qed
  qed
qed

lemma draw_char_com [simp]: "com (draw_char c attr s) = com s"
  by (simp add: draw_char_def wrap_cursor_def Let_def)

lemma put_cell_frame: "screen_ok s \<Longrightarrow> 4000 \<le> j \<Longrightarrow> vga (put_cell c attr s) j = vga s j"
  by (auto simp: put_cell_def Let_def screen_ok_def)

lemma wrap_cursor_frame: "4000 \<le> j \<Longrightarrow> vga (wrap_cursor s) j = vga s j"
  by (simp add: wrap_cursor_def Let_def scroll_bytes)

lemma draw_char_frame:
  assumes "screen_ok s" and "4000 \<le> j"
  shows "vga (draw_char c attr s) j = vga s j"
proof -
  have "screen_ok (s\<lparr>cur_col := cur_col s - 1\<rparr>)" if "cur_col s > 0"
    using assms(1) that by (simp add: screen_ok_def)
  moreover have "screen_ok (s\<lparr>cur_row := cur_row s - 1, cur_col := 79\<rparr>)" if "cur_row s > 0"
    using assms(1) that by (simp add: screen_ok_def)
  ultimately show ?thesis
    using assms by (simp add: draw_char_def put_cell_frame wrap_cursor_frame)
qed

lemma screen_com [simp]:
  "screen_ok (s\<lparr>com := u\<rparr>) = screen_ok s" "screen_abs (s\<lparr>com := u\<rparr>) = screen_abs s"
  by (simp_all add: screen_ok_def screen_abs_def)

lemma kputchar_color_returns:
  assumes "screen_ok s" and "console_live s"
  obtains t where "kputchar_color c fg bg s = Some t" "screen_ok t" "console_live t"
    "screen_abs t = type_char c (vga_color fg bg) (screen_abs s)"
    "sent (bus (com t)) = sent (bus (com s)) @ mirrored s [c]"
    "g_initialized (com t) = 0 \<longleftrightarrow> g_initialized (com s) = 0"
    "\<And>j. 4000 \<le> j \<Longrightarrow> vga t j = vga s j"
proof -
  obtain u where u: "serial_putc c (com s) = Some u" "sent (bus u) = sent (bus (com s)) @ mirrored s [c]"
    "g_initialized u = 0 \<longleftrightarrow> g_initialized (com s) = 0" "g_initialized u = 0 \<or> uart_recovers (bus u)"
  proof (cases "g_initialized (com s) = 0")
    case True
    then show thesis by (intro that [of "com s"]) (simp_all add: serial_putc_def mirrored_def)
  next
    case False
    then have "uart_recovers (bus (com s))" using assms(2) by (simp add: console_live_def)
    from serial_putc_returns [OF this False, of c] obtain u where
      "serial_putc c (com s) = Some u" "sent (bus u) = sent (bus (com s)) @ crlf [c]"
      "uart_recovers (bus u)" "g_initialized u \<noteq> 0" by blast
    then show thesis using False by (intro that [of u]) (simp_all add: mirrored_def)
  qed
  show thesis
  proof (rule that [of "draw_char c (vga_color fg bg) (s\<lparr>com := u\<rparr>)"])
    show "kputchar_color c fg bg s = Some (draw_char c (vga_color fg bg) (s\<lparr>com := u\<rparr>))"
      using u(1) by (simp add: kputchar_color_def)
  qed (use assms u in \<open>simp_all add: draw_char_ok draw_char_abs draw_char_frame console_live_def\<close>)
qed

lemma mirrored_Cons: "mirrored s (c # cs) = mirrored s [c] @ mirrored s cs"
  by (simp add: mirrored_def)

lemma kprint_color_returns:
  assumes "screen_ok s" and "console_live s"
  shows "\<exists>t. kprint_color cs fg bg s = Some t \<and> screen_ok t \<and> console_live t \<and>
    screen_abs t = fold (\<lambda>c. type_char c (vga_color fg bg)) cs (screen_abs s) \<and>
    sent (bus (com t)) = sent (bus (com s)) @ mirrored s cs \<and>
    (\<forall>j \<ge> 4000. vga t j = vga s j)"
  using assms
proof (induction cs arbitrary: s)
  case Nil
  then show ?case by (simp add: mirrored_def)
next
  case (Cons c cs)
  obtain t where t: "kputchar_color c fg bg s = Some t" "screen_ok t" "console_live t"
    "screen_abs t = type_char c (vga_color fg bg) (screen_abs s)"
    "sent (bus (com t)) = sent (bus (com s)) @ mirrored s [c]"
    "g_initialized (com t) = 0 \<longleftrightarrow> g_initialized (com s) = 0"
    "\<And>j. 4000 \<le> j \<Longrightarrow> vga t j = vga s j"
    by (rule kputchar_color_returns [OF Cons.prems, of c fg bg]) (rule that)
  have m: "mirrored t cs = mirrored s cs" using t(6) by (simp add: mirrored_def)
  from Cons.IH [OF t(2,3)] t(1,4,5,7) m show ?case
    unfolding mirrored_Cons [of s c cs] by fastforce
qed

lemma kprint_is_color: "kprint cs s = kprint_color cs VGA_LIGHT_GREY VGA_BLACK s"
  by (induction cs arbitrary: s) (auto simp: kputchar_def split: option.splits)

lemma kprint_color_append:
  "kprint_color (xs @ ys) fg bg s =
     (case kprint_color xs fg bg s of None \<Rightarrow> None | Some s \<Rightarrow> kprint_color ys fg bg s)"
  by (induction xs arbitrary: s) (auto split: option.splits)

lemma kprint_dec_string: "kprint_dec n s = kprint (dec_string n) s"
  by (auto simp: kprint_dec_def dec_string_def split: option.splits)

lemma kprint_hex_string: "kprint_hex n s = kprint (hex_string n) s"
  by (simp add: kprint_hex_def hex_string_def kprint_is_color kprint_color_append split: option.split)

lemma digit_char: "unat (ucast (48 + n mod 10 :: u32) :: u8) = 48 + unat n mod 10"
proof -
  have "unat n mod 10 < 10" by simp
  then show ?thesis by (simp add: unsigned_ucast_eq unat_word_ariths unat_mod take_bit_nat_eq_self)
qed

lemma dec_fill_digits:
  "\<exists>ds. dec_fill n buf = ds @ buf \<and> (\<forall>d \<in> set ds. 48 \<le> unat d \<and> unat d \<le> 57) \<and>
     dec_value ds = unat n \<and> (n \<noteq> 0 \<longrightarrow> ds \<noteq> [] \<and> hd ds \<noteq> 48) \<and> (\<forall>k. unat n < 10 ^ k \<longrightarrow> length ds \<le> k)"
proof (induction n buf rule: dec_fill.induct)
  case (1 n buf)
  show ?case
  proof (cases "n > 0")
    case False
    then have "n = 0" by (simp add: word_less_nat_alt unat_eq_zero)
    then show ?thesis by (auto simp: dec_fill.simps dec_value_def)
  next
    case True
    let ?d = "ucast (48 + n mod 10) :: u8"
    from "1.IH" [OF True] obtain ds where
      ds: "dec_fill (n div 10) (?d # buf) = ds @ ?d # buf" "\<forall>d \<in> set ds. 48 \<le> unat d \<and> unat d \<le> 57"
      "dec_value ds = unat n div 10" "n div 10 \<noteq> 0 \<longrightarrow> ds \<noteq> [] \<and> hd ds \<noteq> 48"
      "\<forall>k. unat n div 10 < 10 ^ k \<longrightarrow> length ds \<le> k"
      by (auto simp: unat_div)
    have v: "dec_value (ds @ [?d]) = unat n"
      using ds(3) digit_char [of n] by (simp add: dec_value_def)
    have u: "unat (n div 10) = unat n div 10" by (simp add: unat_div)
    have pos: "0 < unat n" using True by (simp add: word_less_nat_alt)
    have h: "hd (ds @ [?d]) \<noteq> 48"
    proof (cases "ds = []")
      case nil: True
      then have "unat n div 10 = 0" using ds(3) by (simp add: dec_value_def)
      then have "unat ?d \<noteq> 48" using pos digit_char [of n] by auto
      then show ?thesis using nil by auto
    next
      case False
      then have "n div 10 \<noteq> 0" using ds(5) [rule_format, of 0] u by auto
      then show ?thesis using ds(4) False by simp
    qed
    have l: "length (ds @ [?d]) \<le> k" if k: "unat n < 10 ^ k" for k
    proof (cases k)
      case 0
      then show ?thesis using k pos by simp
    next
      case (Suc j)
      then have "unat n div 10 < 10 ^ j" using k by (simp add: less_mult_imp_div_less mult.commute)
      then show ?thesis using ds(5) Suc by simp
    qed
    have "dec_fill n buf = (ds @ [?d]) @ buf" using True ds(1) by (subst dec_fill.simps) simp
    moreover have "\<forall>d \<in> set (ds @ [?d]). 48 \<le> unat d \<and> unat d \<le> 57"
      using ds(2) digit_char [of n] by auto
    ultimately show ?thesis using v h l by blast
  qed
qed

lemma hex_table_digit:
  assumes "k < 16"
  shows "hex_digit_value (hex_table ! k) = k"
proof -
  have "list_all (\<lambda>k. hex_digit_value (hex_table ! k) = k) [0..<16]" by code_simp
  then show ?thesis using assms by (auto simp: list_all_iff)
qed

lemma hex_fill_digits:
  "\<exists>ds. hex_fill k n buf = ds @ buf \<and> length ds = k \<and> set ds \<subseteq> set hex_table \<and>
     hex_value ds = unat n mod 16 ^ k"
proof (induction k n buf rule: hex_fill.induct)
  case (1 n buf)
  show ?case by (simp add: hex_value_def)
next
  case (2 i n buf)
  let ?d = "hex_table ! unat (n AND 0xF)"
  have u: "unat (n AND 0xF) = unat n mod 16"
    using low_bits_unat [of n 4] by (simp add: mask_eq_exp_minus_1)
  have d: "unat (drop_bit 4 n) = unat n div 16" by (simp add: drop_bit_eq_div unat_div)
  from "2.IH" obtain ds where
    ds: "hex_fill i (drop_bit 4 n) (?d # buf) = ds @ ?d # buf" "length ds = i" "set ds \<subseteq> set hex_table"
    "hex_value ds = unat n div 16 mod 16 ^ i" by (auto simp: d)
  have "?d \<in> set hex_table" by (rule nth_mem) (simp add: u hex_table_def cstr_def)
  moreover have "hex_value (ds @ [?d]) = unat n mod 16 ^ Suc i"
    using ds(4) hex_table_digit [of "unat n mod 16"]
    by (simp add: hex_value_def u mod_mult2_eq)
  ultimately show ?case using ds by (intro exI [of _ "ds @ [?d]"]) auto
qed

lemma skip_zeros_value: "hex_value (skip_zeros cs) = hex_value cs"
  by (induction cs rule: skip_zeros.induct) (auto simp: hex_value_def hex_digit_value_def)

lemma skip_zeros_hd: "cs \<noteq> [] \<Longrightarrow> skip_zeros cs \<noteq> [] \<and> (hd (skip_zeros cs) = 48 \<longrightarrow> length (skip_zeros cs) = 1)
   \<and> set (skip_zeros cs) \<subseteq> set cs \<and> length (skip_zeros cs) \<le> length cs"
  by (induction cs rule: skip_zeros.induct) auto

section \<open>Properties\<close>

text \<open>
  C11: Printing refines typing on an 80 by 25 grid.  On a console with the cursor on the screen and a
  serial port that is off or keeps becoming ready, printing any text in any colours
  returns, leaves the cursor on the screen, gives exactly the cells and cursor that typing the text
  character by character on the grid gives (scrolling, tabs, backspace and line wrap
  included), sends the text with CR LF line ends on the line, and writes no
  byte outside the 4000 bytes of video memory.
\<close>
theorem kprint_color_refines_typing:
  assumes "screen_ok s" and "console_live s"
  shows "\<exists>t. kprint_color cs fg bg s = Some t \<and> screen_ok t \<and> console_live t \<and>
    screen_abs t = fold (\<lambda>c. type_char c (vga_color fg bg)) cs (screen_abs s) \<and>
    sent (bus (com t)) = sent (bus (com s)) @ mirrored s cs \<and>
    (\<forall>j \<ge> 4000. vga t j = vga s j)"
  using assms by (rule kprint_color_returns)

lemma demo_screen_ok: "screen_ok demo_screen" "console_live demo_screen"
  by (auto simp: demo_screen_def clear_screen_def screen_ok_def console_live_def uart_recovers_def polls_to_def
      serial_init_def outb_def LSR_THR_EMPTY_def Let_def)

theorem kprint_color_refines_typing_witness:
  "\<exists>t. kprint_color (cstr ''ok'') 15 4 demo_screen = Some t \<and> screen_ok t \<and> console_live t"
  using kprint_color_refines_typing [OF demo_screen_ok, of "cstr ''ok''" 15 4] by blast

text \<open>
  \<open>kprint_dec\<close> prints the number.  Its output is the text of at most ten decimal digits that reads
  back as the number, without a leading zero unless the number is 0.
\<close>
lemma kprint_dec_reads_back:
  "\<exists>ds. kprint_dec n s = kprint ds s \<and> dec_value ds = unat n \<and> ds \<noteq> [] \<and> length ds \<le> 10 \<and>
     list_all (\<lambda>d. 48 \<le> unat d \<and> unat d \<le> 57) ds \<and> (hd ds = 48 \<longleftrightarrow> n = 0)"
proof (cases "n = 0")
  case True
  then show ?thesis unfolding kprint_dec_string
    by (intro exI [of _ "[48]"]) (simp add: dec_string_def dec_value_def)
next
  case False
  from dec_fill_digits [of n "[]"] obtain ds where
    "dec_fill n [] = ds" "\<forall>d \<in> set ds. 48 \<le> unat d \<and> unat d \<le> 57" "dec_value ds = unat n"
    "ds \<noteq> []" "hd ds \<noteq> 48" "unat n < 10 ^ 10 \<longrightarrow> length ds \<le> 10" using False by auto
  then show ?thesis unfolding kprint_dec_string using False unat_lt32 [of n]
    by (intro exI [of _ ds]) (auto simp: dec_string_def list_all_iff)
qed

text \<open>
  \<open>kprint_hex\<close> prints the number: 0x followed by one to eight hexadecimal digits that read back as
  the number, without a leading zero unless there is only one digit.
\<close>
lemma kprint_hex_reads_back:
  "\<exists>ds. kprint_hex n s = kprint (cstr ''0x'' @ ds) s \<and> hex_value ds = unat n \<and> ds \<noteq> [] \<and>
     length ds \<le> 8 \<and> set ds \<subseteq> set hex_table \<and> (hd ds = 48 \<longrightarrow> length ds = 1)"
proof -
  from hex_fill_digits [of 8 n "[]"] obtain ds where
    ds: "hex_fill 8 n [] = ds" "length ds = 8" "set ds \<subseteq> set hex_table" "hex_value ds = unat n"
    using unat_lt32 [of n] by auto
  then have "ds \<noteq> []" by auto
  from skip_zeros_hd [OF this] show ?thesis
    unfolding kprint_hex_string hex_string_def using ds
    by (intro exI [of _ "skip_zeros ds"]) (auto simp: skip_zeros_value)
qed

end
