(* ===== verification/Elf.thy ===== *)
theory Elf
  imports Paging Kheap_Spec
begin

text \<open>
  The ELF loader (\<^verbatim>\<open>src/proc/elf.c\<close>).  It reads the file through a kernel pointer, takes frames
  from the frame allocator, maps them, and fills them through their physical address, so all of
  its accesses go through the processor's translation.  The kernel heap lives in the same
  memory; its calls are the ones of the heap component, on the bytes at their link address.
  The \<open>user_image_t\<close> structures that \<open>kmalloc\<close> provides are kept as values in a store indexed by their
  address.  \<open>page_directory\<close> is the linker address of the page directory.
\<close>

unbundle bit_operations_syntax

section \<open>State\<close>

definition PT_LOAD :: u32 where "PT_LOAD = 1"
definition MAX_USER_SEGMENTS :: nat where "MAX_USER_SEGMENTS = 8"
definition SIZEOF_EHDR :: u32 where "SIZEOF_EHDR = 52"
definition SIZEOF_PHDR :: u32 where "SIZEOF_PHDR = 32"
definition SIZEOF_USER_IMAGE :: u32 where "SIZEOF_USER_IMAGE = 72"

record user_seg =
  vaddr :: u32
  pages :: u32

record user_image =
  seg_count :: nat
  segs :: "nat \<Rightarrow> user_seg"
  entry :: u32

record loader =
  space :: vm
  heap_head :: u32
  images :: "u32 \<rightharpoonup> user_image"

text \<open>Heap calls on the memory of the machine.\<close>

definition heap_view :: "loader \<Rightarrow> kheap" where
  "heap_view s = \<lparr>mem = phys (space s), head = heap_head s\<rparr>"

definition heap_back :: "loader \<Rightarrow> kheap \<Rightarrow> loader" where
  "heap_back s h = s\<lparr>space := (space s)\<lparr>phys := mem h\<rparr>, heap_head := head h\<rparr>"

definition ld_malloc :: "u32 \<Rightarrow> loader \<Rightarrow> (u32 \<times> loader) outcome option" where
  "ld_malloc n s =
     (case kmalloc n (heap_view s) of
        None \<Rightarrow> None
      | Some (Halted e) \<Rightarrow> Some (Halted e)
      | Some (Done (p, h)) \<Rightarrow> Some (Done (p, heap_back s h)))"

definition ld_free :: "u32 \<Rightarrow> loader \<Rightarrow> loader outcome" where
  "ld_free p s = and_then (kfree p (heap_view s)) (\<lambda>h. Done (heap_back s h))"

section \<open>Byte access\<close>

definition read8 :: "u32 \<Rightarrow> vm \<Rightarrow> u8 outcome" where
  "read8 v s = (case mmu s v of None \<Rightarrow> Halted ''page fault'' | Some p \<Rightarrow> Done (phys s p))"

definition write8 :: "u32 \<Rightarrow> u8 \<Rightarrow> vm \<Rightarrow> vm outcome" where
  "write8 v x s =
     (case mmu s v of
        None \<Rightarrow> Halted ''page fault''
      | Some p \<Rightarrow> Done (s\<lparr>phys := (phys s)(p := x)\<rparr>))"

definition read16 :: "u32 \<Rightarrow> vm \<Rightarrow> u16 outcome" where
  "read16 v s =
     and_then (read8 v s) (\<lambda>lo. and_then (read8 (v + 1) s) (\<lambda>hi.
       Done (ucast lo OR push_bit 8 (ucast hi))))"

definition uimemset :: "u32 \<Rightarrow> int \<Rightarrow> u32 \<Rightarrow> vm \<Rightarrow> vm outcome" where
  "uimemset dst v n s =
     for_range 0 (unat n) (\<lambda>i r. and_then r (write8 (dst + of_nat i) (of_int v))) (Done s)"

definition uimemcpy :: "u32 \<Rightarrow> u32 \<Rightarrow> u32 \<Rightarrow> vm \<Rightarrow> vm outcome" where
  "uimemcpy dst src n s =
     for_range 0 (unat n)
       (\<lambda>i r. and_then r (\<lambda>s. and_then (read8 (src + of_nat i) s) (\<lambda>x. write8 (dst + of_nat i) x s)))
       (Done s)"

section \<open>The loader\<close>

definition validate_ehdr :: "u32 \<Rightarrow> u32 \<Rightarrow> vm \<Rightarrow> bool outcome" where
  "validate_ehdr eh file_size s =
     (if file_size < SIZEOF_EHDR then Done False
      else
        and_then (read8 (eh + 0) s) (\<lambda>m0. if m0 \<noteq> 0x7F then Done False else
        and_then (read8 (eh + 1) s) (\<lambda>m1. if m1 \<noteq> 0x45 then Done False else
        and_then (read8 (eh + 2) s) (\<lambda>m2. if m2 \<noteq> 0x4C then Done False else
        and_then (read8 (eh + 3) s) (\<lambda>m3. if m3 \<noteq> 0x46 then Done False else
        and_then (read8 (eh + 4) s) (\<lambda>cls. if cls \<noteq> 1 then Done False else
        and_then (read8 (eh + 5) s) (\<lambda>dat. if dat \<noteq> 1 then Done False else
        and_then (read16 (eh + 18) s) (\<lambda>e_machine. if e_machine \<noteq> 3 then Done False else
        and_then (read16 (eh + 16) s) (\<lambda>e_type. if e_type \<noteq> 2 then Done False else
        and_then (read16 (eh + 42) s) (\<lambda>e_phentsize. if ucast e_phentsize \<noteq> SIZEOF_PHDR then Done False else
        and_then (read32 (eh + 28) s) (\<lambda>e_phoff.
        and_then (read16 (eh + 44) s) (\<lambda>e_phnum.
          Done (\<not> e_phoff + ucast e_phnum * SIZEOF_PHDR > file_size)))))))))))))"

text \<open>One page of \<open>elf_unload\<close>: look up, unmap, give the frame back.\<close>

definition unload_page :: "u32 \<Rightarrow> u32 \<Rightarrow> vm \<Rightarrow> vm outcome" where
  "unload_page page_directory va s =
     and_then (vmm_get_phys page_directory va s) (\<lambda>pa.
     and_then (vmm_unmap page_directory va s) (\<lambda>s.
       Done (if pa \<noteq> 0xFFFFFFFF then s\<lparr>frames := pmm_free (pa AND 0xFFFFF000) (frames s)\<rparr> else s)))"

definition unload_seg :: "u32 \<Rightarrow> user_seg \<Rightarrow> vm \<Rightarrow> vm outcome" where
  "unload_seg page_directory sg s =
     for_range 0 (unat (pages sg))
       (\<lambda>p r. and_then r (unload_page page_directory (vaddr sg + of_nat p * 0x1000))) (Done s)"

definition elf_unload :: "u32 \<Rightarrow> u32 \<Rightarrow> loader \<Rightarrow> loader outcome" where
  "elf_unload page_directory img_ptr s =
     (if img_ptr = 0 then Done s
      else case images s img_ptr of
        None \<Rightarrow> Halted ''no image''
      | Some img \<Rightarrow>
          and_then (for_range 0 (seg_count img)
                      (\<lambda>i r. and_then r (unload_seg page_directory (segs img i))) (Done (space s)))
            (\<lambda>v. ld_free img_ptr (s\<lparr>space := v, images := (images s)(img_ptr := None)\<rparr>)))"

text \<open>The part of a page that the file fills: \<open>lo\<close> and \<open>hi\<close> of \<open>load_segment\<close>.\<close>

definition copy_lo :: "u32 \<Rightarrow> u32 \<Rightarrow> u32" where
  "copy_lo page_v_start file_v_start =
     (if page_v_start > file_v_start then page_v_start else file_v_start)"

definition copy_hi :: "u32 \<Rightarrow> u32 \<Rightarrow> u32" where
  "copy_hi page_v_end file_v_end = (if page_v_end < file_v_end then page_v_end else file_v_end)"

record phdr =
  p_type :: u32
  p_offset :: u32
  p_vaddr :: u32
  p_filesz :: u32
  p_memsz :: u32

definition fill_page :: "u32 \<Rightarrow> phdr \<Rightarrow> u32 \<Rightarrow> u32 \<Rightarrow> vm \<Rightarrow> vm outcome" where
  "fill_page file ph v page s =
     and_then (uimemset page 0 0x1000 s) (\<lambda>s.
       let lo = copy_lo v (p_vaddr ph);
           hi = copy_hi (v + 0x1000) (p_vaddr ph + p_filesz ph)
       in if lo < hi
          then let copy_len = hi - lo;
                   file_off = p_offset ph + (lo - p_vaddr ph);
                   page_off = lo - v
               in uimemcpy (page + page_off) (file + file_off) copy_len s
          else Done s)"

text \<open>One turn of the page loop: \<open>True\<close> is "go on", \<open>False\<close> the return of -1.\<close>

definition load_page :: "u32 \<Rightarrow> u32 \<Rightarrow> phdr \<Rightarrow> u32 \<Rightarrow> vm \<Rightarrow> (bool \<times> vm) outcome" where
  "load_page page_directory file ph v s =
     (let (phy, fr) = pmm_alloc (frames s); s = s\<lparr>frames := fr\<rparr> in
      if phy = 0 then Done (False, s)
      else and_then (vmm_map page_directory v phy (PAGE_RW OR PAGE_USER) s) (\<lambda>(r, s).
        if r < 0 then Done (False, s\<lparr>frames := pmm_free phy (frames s)\<rparr>)
        else and_then (fill_page file ph v phy s) (\<lambda>s. Done (True, s))))"

text \<open>The page loop, with the number of pages mapped so far (\<open>seg->pages\<close>).\<close>

function load_pages :: "u32 \<Rightarrow> u32 \<Rightarrow> phdr \<Rightarrow> u32 \<Rightarrow> nat \<Rightarrow> nat \<Rightarrow> vm \<Rightarrow> (int \<times> nat \<times> vm) outcome" where
  "load_pages page_directory file ph vstart i n s =
     (if i < n then
        and_then (load_page page_directory file ph (vstart + of_nat i * 0x1000) s) (\<lambda>(ok, s).
          if ok then load_pages page_directory file ph vstart (Suc i) n s else Done (-1, i, s))
      else Done (0, i, s))"
  by pat_completeness auto
termination
  by (relation "measure (\<lambda>(pd, file, ph, vstart, i, n, s). n - i)") auto

declare load_pages.simps [simp del]

definition load_segment :: "u32 \<Rightarrow> u32 \<Rightarrow> phdr \<Rightarrow> u32 \<Rightarrow> loader \<Rightarrow> (int \<times> loader) outcome" where
  "load_segment page_directory file ph img_ptr s =
     (case images s img_ptr of
        None \<Rightarrow> Halted ''no image''
      | Some img \<Rightarrow>
          if seg_count img \<ge> MAX_USER_SEGMENTS then Done (-1, s)
          else
            let vstart = p_vaddr ph AND NOT 0xFFF;
                vend = (p_vaddr ph + p_memsz ph + 0xFFF) AND NOT 0xFFF
            in if vend \<le> vstart then Done (-1, s)
               else
                 let n = (vend - vstart) div 0x1000; k = seg_count img in
                 and_then (load_pages page_directory file ph vstart 0 (unat n) (space s))
                   (\<lambda>(r, cnt, v).
                      Done (r, s\<lparr>space := v,
                        images := (images s)(img_ptr \<mapsto>
                          img\<lparr>seg_count := k + 1,
                              segs := (segs img)(k := \<lparr>vaddr = vstart, pages = of_nat cnt\<rparr>)\<rparr>)\<rparr>)))"

text \<open>The program header at \<open>a\<close>; only its type is read before it is known to be a load segment.\<close>

definition read_phdr :: "u32 \<Rightarrow> vm \<Rightarrow> phdr outcome" where
  "read_phdr a s =
     and_then (read32 a s) (\<lambda>ty.
     and_then (read32 (a + 4) s) (\<lambda>off.
     and_then (read32 (a + 8) s) (\<lambda>va.
     and_then (read32 (a + 16) s) (\<lambda>fsz.
     and_then (read32 (a + 20) s) (\<lambda>msz.
       Done \<lparr>p_type = ty, p_offset = off, p_vaddr = va, p_filesz = fsz, p_memsz = msz\<rparr>)))))"

text \<open>The program-header loop; the result is the return value of \<open>elf_load\<close>.\<close>

function load_phdrs :: "u32 \<Rightarrow> u32 \<Rightarrow> u32 \<Rightarrow> u32 \<Rightarrow> u32 \<Rightarrow> nat \<Rightarrow> nat \<Rightarrow> loader \<Rightarrow> (int \<times> loader) outcome" where
  "load_phdrs page_directory file_data file_size ph img_ptr i n s =
     (if i < n then
        and_then (read32 (ph + of_nat i * SIZEOF_PHDR) (space s)) (\<lambda>ty.
          if ty \<noteq> PT_LOAD then load_phdrs page_directory file_data file_size ph img_ptr (Suc i) n s
          else and_then (read_phdr (ph + of_nat i * SIZEOF_PHDR) (space s)) (\<lambda>h.
            if p_memsz h = 0 then load_phdrs page_directory file_data file_size ph img_ptr (Suc i) n s
            else if p_offset h + p_filesz h > file_size
            then and_then (elf_unload page_directory img_ptr s) (\<lambda>s. Done (-4, s))
            else and_then (load_segment page_directory file_data h img_ptr s) (\<lambda>(r, s).
              if r < 0 then and_then (elf_unload page_directory img_ptr s) (\<lambda>s. Done (-5, s))
              else load_phdrs page_directory file_data file_size ph img_ptr (Suc i) n s)))
      else Done (0, s))"
  by pat_completeness auto
termination
  by (relation "measure (\<lambda>(pd, fd, fs, ph, img_ptr, i, n, s). n - i)") auto

declare load_phdrs.simps [simp del]

text \<open>The result carries the pointer stored through \<open>out_image\<close> (0 when nothing is stored).\<close>

definition elf_load :: "u32 \<Rightarrow> u32 \<Rightarrow> u32 \<Rightarrow> bool \<Rightarrow> loader \<Rightarrow> (int \<times> u32 \<times> loader) outcome option" where
  "elf_load page_directory file_data file_size have_out s =
     (if file_data = 0 \<or> \<not> have_out then Some (Done (-1, 0, s))
      else case validate_ehdr file_data file_size (space s) of
        Halted e \<Rightarrow> Some (Halted e)
      | Done False \<Rightarrow> Some (Done (-2, 0, s))
      | Done True \<Rightarrow>
          (case ld_malloc SIZEOF_USER_IMAGE s of
             None \<Rightarrow> None
           | Some (Halted e) \<Rightarrow> Some (Halted e)
           | Some (Done (img, s)) \<Rightarrow>
               if img = 0 then Some (Done (-3, 0, s))
               else Some (
                 and_then (read32 (file_data + 24) (space s)) (\<lambda>e_entry.
                 and_then (read32 (file_data + 28) (space s)) (\<lambda>e_phoff.
                 and_then (read16 (file_data + 44) (space s)) (\<lambda>e_phnum.
                 let s = s\<lparr>images := (images s)(img \<mapsto>
                            \<lparr>seg_count = 0, segs = (\<lambda>_. \<lparr>vaddr = 0, pages = 0\<rparr>), entry = e_entry\<rparr>)\<rparr> in
                 and_then (load_phdrs page_directory file_data file_size (file_data + e_phoff) img 0
                             (unat e_phnum) s) (\<lambda>(r, s).
                   Done (r, if r = 0 then img else 0, s))))))))"

end
