(* ===== verification/Elf_Spec.thy ===== *)
theory Elf_Spec
  imports Elf
begin

text \<open>
  What the ELF loader promises: the bytes of a loaded segment, that loading neither faults nor
  disturbs other pages, and that unloading gives every frame back.
\<close>

unbundle bit_operations_syntax

section \<open>The contents of a segment\<close>

text \<open>The byte that the program sees at address \<open>a\<close> of a segment: from the file, or zero.\<close>

definition seg_byte :: "memory \<Rightarrow> u32 \<Rightarrow> phdr \<Rightarrow> nat \<Rightarrow> u8" where
  "seg_byte m file ph a =
     (if unat (p_vaddr ph) \<le> a \<and> a < unat (p_vaddr ph) + unat (p_filesz ph)
      then m (of_nat (unat file + unat (p_offset ph) + (a - unat (p_vaddr ph)))) else 0)"

text \<open>
  The part of the file that a segment names lies below 1 MiB (kernel memory), and the segment's
  addresses do not wrap.
\<close>

definition file_low :: "u32 \<Rightarrow> phdr \<Rightarrow> bool" where
  "file_low file ph \<longleftrightarrow> unat file + unat (p_offset ph) + unat (p_filesz ph) \<le> 0x100000 \<and>
     unat (p_vaddr ph) + unat (p_filesz ph) < 4294967296"

text \<open>The file bytes of a segment are in pages that hold neither page tables nor free memory.\<close>

definition file_pages :: "nat \<Rightarrow> u32 \<Rightarrow> phdr \<Rightarrow> vm \<Rightarrow> bool" where
  "file_pages pd file ph s \<longleftrightarrow>
     (\<forall>y. unat file + unat (p_offset ph) \<le> y \<and> y < unat file + unat (p_offset ph) + unat (p_filesz ph) \<longrightarrow>
        data_page pd s (y - y mod 4096))"

text \<open>The free frames that the kernel can reach through the identity window.\<close>

definition low_frames :: "vm \<Rightarrow> u32 set" where
  "low_frames s = {a \<in> pmm_frames (frames s). a < 0x400000}"

text \<open>The page at virtual address \<open>v\<close> is backed by the data page at \<open>f\<close>, which no other kernel structure uses.\<close>

definition user_page :: "nat \<Rightarrow> vm \<Rightarrow> u32 \<Rightarrow> nat \<Rightarrow> bool" where
  "user_page pd s v f \<longleftrightarrow> data_page pd s f \<and> 0x100000 \<le> f \<and>
     (\<forall>j < 4096. mmu s (v + of_nat j) = Some (of_nat (f + j)))"

text \<open>
  Pages \<open>i\<close> to \<open>n - 1\<close> of a segment from \<open>vs\<close> on have been loaded between \<open>s\<close> and \<open>t\<close>, page \<open>k\<close> into the frame
  at \<open>F k\<close>: the frames were free and are distinct, every byte is the segment's, and no other
  translation has changed.
\<close>

definition seg_loaded :: "nat \<Rightarrow> u32 \<Rightarrow> phdr \<Rightarrow> u32 \<Rightarrow> nat \<Rightarrow> nat \<Rightarrow> (nat \<Rightarrow> nat) \<Rightarrow> vm \<Rightarrow> vm \<Rightarrow> bool" where
  "seg_loaded pd file ph vs i n F s t \<longleftrightarrow>
     (\<forall>k. i \<le> k \<and> k < n \<longrightarrow> user_page pd t (vs + of_nat k * 0x1000) (F k) \<and> of_nat (F k) \<in> pmm_frames (frames s) \<and>
        (\<forall>j < 4096. phys t (of_nat (F k + j)) = seg_byte (phys s) file ph (unat vs + 4096 * k + j))) \<and>
     inj_on F {i..<n} \<and> owned pd t = owned pd s - (\<lambda>k. of_nat (F k)) ` {i..<n} \<and>
     (\<forall>w. (\<forall>k. i \<le> k \<and> k < n \<longrightarrow> w AND 0xFFFFF000 \<noteq> vs + of_nat k * 0x1000) \<longrightarrow> mmu t w = mmu s w)"

text \<open>The pages of a segment: the first one, their number, and that they lie above the kernel's window without wrapping.\<close>

definition seg_start :: "phdr \<Rightarrow> nat" where
  "seg_start ph = unat (p_vaddr ph) div 4096 * 4096"

definition seg_pages :: "phdr \<Rightarrow> nat" where
  "seg_pages ph = (unat (p_vaddr ph) + unat (p_memsz ph) + 4095) div 4096 - unat (p_vaddr ph) div 4096"

definition user_range :: "phdr \<Rightarrow> bool" where
  "user_range ph \<longleftrightarrow> 0x400000 \<le> unat (p_vaddr ph) \<and> 0 < unat (p_memsz ph) \<and>
     unat (p_vaddr ph) + unat (p_memsz ph) + 4095 < 4294967296"

definition demo_ph :: phdr where
  "demo_ph = \<lparr>p_type = PT_LOAD, p_offset = 0x1000, p_vaddr = 0x400010, p_filesz = 0x20, p_memsz = 0x30\<rparr>"

definition demo_image :: user_image where
  "demo_image = \<lparr>seg_count = 0, segs = (\<lambda>_. \<lparr>vaddr = 0, pages = 0\<rparr>), entry = 0x400010\<rparr>"

section \<open>Filling a page\<close>

lemma byte_access:
  assumes "id_window pd fpt s" and "a < 0x400000"
  shows "read8 (of_nat a) s = Done (phys s (of_nat a))"
    and "write8 (of_nat a) x s = Done (s\<lparr>phys := (phys s)(of_nat a := x)\<rparr>)"
  using id_window_mmu [OF assms] by (simp_all add: read8_def write8_def)

text \<open>
  A loop that writes bytes into one page, each byte from a source that does not depend on that page.
\<close>

lemma byte_loop:
  assumes W: "id_window pd fpt s" and f: "f mod 4096 = 0" "f < 0x400000" "f \<noteq> pd" "f \<noteq> fpt"
    and n: "lo + n \<le> 4096"
    and src: "\<And>i m. i < n \<Longrightarrow> id_window pd fpt (s\<lparr>phys := m\<rparr>) \<Longrightarrow>
      (\<And>y. y < 4294967296 \<Longrightarrow> y < f \<or> f + 4096 \<le> y \<Longrightarrow> m (of_nat y) = phys s (of_nat y)) \<Longrightarrow>
      src i (s\<lparr>phys := m\<rparr>) = Done (v i)"
  shows "\<exists>m. for_range 0 n (\<lambda>i r. and_then r (\<lambda>s. and_then (src i s) (\<lambda>x. write8 (of_nat (f + lo + i)) x s))) (Done s) =
      Done (s\<lparr>phys := m\<rparr>) \<and>
    (\<forall>y < 4294967296. m (of_nat y) = (if f + lo \<le> y \<and> y < f + lo + n then v (y - (f + lo)) else phys s (of_nat y)))"
proof -
  let ?b = "\<lambda>i r. and_then r (\<lambda>s. and_then (src i s) (\<lambda>x. write8 (of_nat (f + lo + i)) x s))"
  let ?P = "\<lambda>k r. \<exists>m. r = Done (s\<lparr>phys := m\<rparr>) \<and>
    (\<forall>y < 4294967296. m (of_nat y) = (if f + lo \<le> y \<and> y < f + lo + k then v (y - (f + lo)) else phys s (of_nat y)))"
  have "?P n (for_range 0 n ?b (Done s))"
  proof (rule for_range_invariant [where P = ?P])
    show "?P 0 (Done s)" by (rule exI [of _ "phys s"]) auto
    fix k r assume k: "0 \<le> k" "k < n" and "?P k r"
    then obtain m where r: "r = Done (s\<lparr>phys := m\<rparr>)" and m: "\<And>y. y < 4294967296 \<Longrightarrow>
        m (of_nat y) = (if f + lo \<le> y \<and> y < f + lo + k then v (y - (f + lo)) else phys s (of_nat y))" by blast
    have o: "m (of_nat y) = phys s (of_nat y)" if "y < 4294967296" "y < f \<or> f + 4096 \<le> y" for y
      using m [OF that(1)] that(2) n k by auto
    have W': "id_window pd fpt (s\<lparr>phys := m\<rparr>)" by (rule id_window_keep [OF W f(1,3,4) o])
    have a: "f + lo + k < 0x400000" using page_end [OF f(1,2)] n k by simp
    have "?b k r = Done (s\<lparr>phys := m(of_nat (f + lo + k) := v k)\<rparr>)"
      using r src [OF k(2) W' o] byte_access(2) [OF W' a, of "v k"] by (simp del: of_nat_add)
    moreover have "(m(of_nat (f + lo + k) := v k)) (of_nat y) =
        (if f + lo \<le> y \<and> y < f + lo + Suc k then v (y - (f + lo)) else phys s (of_nat y))" if y: "y < 4294967296" for y
      using m [OF y] a y of_nat_eq_iff32 [of y "f + lo + k"] by (auto simp del: of_nat_add)
    ultimately show "?P (Suc k) (?b k r)" by blast
  qed simp
  then show ?thesis .
qed

lemma clear_page:
  assumes W: "id_window pd fpt s" and f: "f mod 4096 = 0" "f < 0x400000" "f \<noteq> pd" "f \<noteq> fpt"
  obtains m where "uimemset (of_nat f) 0 0x1000 s = Done (s\<lparr>phys := m\<rparr>)"
    "\<And>y. y < 4294967296 \<Longrightarrow> m (of_nat y) = (if f \<le> y \<and> y < f + 4096 then 0 else phys s (of_nat y))"
proof -
  have "\<exists>m. for_range 0 4096 (\<lambda>i r. and_then r (\<lambda>s. and_then (Done 0) (\<lambda>x. write8 (of_nat (f + 0 + i)) x s))) (Done s) =
      Done (s\<lparr>phys := m\<rparr>) \<and>
    (\<forall>y < 4294967296. m (of_nat y) = (if f + 0 \<le> y \<and> y < f + 0 + 4096 then 0 else phys s (of_nat y)))"
    by (rule byte_loop [OF W f]) simp_all
  then show thesis using that by (auto simp: uimemset_def)
qed

lemma copy_into_page:
  assumes W: "id_window pd fpt s" and f: "f mod 4096 = 0" "f < 0x400000" "f \<noteq> pd" "f \<noteq> fpt"
    and n: "lo + n \<le> 4096" and src: "a + n \<le> f" "a + n \<le> 0x400000"
  obtains m where "uimemcpy (of_nat (f + lo)) (of_nat a) (of_nat n) s = Done (s\<lparr>phys := m\<rparr>)"
    "\<And>y. y < 4294967296 \<Longrightarrow> m (of_nat y) =
       (if f + lo \<le> y \<and> y < f + lo + n then phys s (of_nat (a + (y - (f + lo)))) else phys s (of_nat y))"
proof -
  have "\<exists>m. for_range 0 n (\<lambda>i r. and_then r (\<lambda>s. and_then (read8 (of_nat (a + i)) s) (\<lambda>x. write8 (of_nat (f + lo + i)) x s))) (Done s) =
      Done (s\<lparr>phys := m\<rparr>) \<and>
    (\<forall>y < 4294967296. m (of_nat y) = (if f + lo \<le> y \<and> y < f + lo + n then phys s (of_nat (a + (y - (f + lo)))) else phys s (of_nat y)))"
  proof (rule byte_loop [OF W f n])
    fix i m assume i: "i < n" and W': "id_window pd fpt (s\<lparr>phys := m\<rparr>)"
      and o: "\<And>y. y < 4294967296 \<Longrightarrow> y < f \<or> f + 4096 \<le> y \<Longrightarrow> m (of_nat y) = phys s (of_nat y)"
    have "m (of_nat (a + i)) = phys s (of_nat (a + i))" using i src by (intro o) auto
    then show "read8 (of_nat (a + i)) (s\<lparr>phys := m\<rparr>) = Done (phys s (of_nat (a + i)))"
      using byte_access(1) [OF W', of "a + i"] i src by (simp del: of_nat_add)
  qed
  moreover have "n < 4294967296" using n by simp
  ultimately show thesis using that by (auto simp: uimemcpy_def add.assoc)
qed

lemma word_of_unat: "unat x = n \<Longrightarrow> x = of_nat n" for x :: u32
  by auto

lemma fill_page_spec:
  assumes W: "id_window pd fpt s" and f: "f mod 4096 = 0" "f < 0x400000" "f \<noteq> pd" "f \<noteq> fpt" "0x100000 \<le> f"
    and v: "unat v + 4096 < 4294967296" and fl: "file_low file ph"
  obtains m where "fill_page file ph v (of_nat f) s = Done (s\<lparr>phys := m\<rparr>)"
    "\<And>y. y < 4294967296 \<Longrightarrow> m (of_nat y) =
       (if f \<le> y \<and> y < f + 4096 then seg_byte (phys s) file ph (unat v + (y - f)) else phys s (of_nat y))"
proof -
  obtain m1 where m1: "uimemset (of_nat f) 0 0x1000 s = Done (s\<lparr>phys := m1\<rparr>)"
    "\<And>y. y < 4294967296 \<Longrightarrow> m1 (of_nat y) = (if f \<le> y \<and> y < f + 4096 then 0 else phys s (of_nat y))"
    by (rule clear_page [OF W f(1-4)]) (rule that)
  let ?V = "unat v" and ?P = "unat (p_vaddr ph)" and ?F = "unat (p_filesz ph)" and ?O = "unat file + unat (p_offset ph)"
  let ?lo = "copy_lo v (p_vaddr ph)" and ?hi = "copy_hi (v + 0x1000) (p_vaddr ph + p_filesz ph)"
  have fl': "?O + ?F \<le> 0x100000" "?P + ?F < 4294967296" using fl by (auto simp: file_low_def)
  have lo: "unat ?lo = max ?V ?P" by (auto simp: copy_lo_def word_less_nat_alt)
  have hi: "unat ?hi = min (?V + 4096) (?P + ?F)"
    using v fl' by (auto simp: copy_hi_def word_less_nat_alt unat_plus32)
  have f32: "f + 4096 \<le> 0x400000" by (rule page_end [OF f(1,2)])
  show thesis
  proof (cases "?lo < ?hi")
    case False
    have "seg_byte (phys s) file ph (?V + (y - f)) = 0" if "f \<le> y" "y < f + 4096" for y
      using False that unfolding word_less_nat_alt lo hi by (auto simp: seg_byte_def)
    then show thesis using False m1 by (intro that [of m1]) (auto simp: fill_page_def)
  next
    case True
    then have lt: "max ?V ?P < min (?V + 4096) (?P + ?F)" unfolding word_less_nat_alt lo hi .
    define j where "j = max ?V ?P - ?V"
    define a where "a = ?O + (max ?V ?P - ?P)"
    define n where "n = min (?V + 4096) (?P + ?F) - max ?V ?P"
    have b: "j + n \<le> 4096" "a + n \<le> f" "a + n \<le> 0x400000"
      using lt fl' f(5) by (auto simp: j_def n_def a_def)
    have e1: "of_nat f + (?lo - v) = of_nat (f + j)"
      using f32 b(1) by (intro word_of_unat) (simp add: unat_plus32 unat_minus32 lo word_le_nat_alt j_def)
    have e2: "?hi - ?lo = of_nat n"
      using True by (intro word_of_unat) (simp add: unat_minus32 lo hi n_def)
    have "unat (?lo - p_vaddr ph) = max ?V ?P - ?P" by (simp add: unat_minus32 lo word_le_nat_alt)
    then have "unat (p_offset ph + (?lo - p_vaddr ph)) = unat (p_offset ph) + (max ?V ?P - ?P)"
      using fl' lt by (subst unat_plus32) auto
    then have e3: "file + (p_offset ph + (?lo - p_vaddr ph)) = of_nat a"
      using fl' lt by (intro word_of_unat) (subst unat_plus32; auto simp: a_def)
    have W1: "id_window pd fpt (s\<lparr>phys := m1\<rparr>)"
      using m1(2) by (intro id_window_keep [OF W f(1,3,4)]) auto
    obtain m2 where m2: "uimemcpy (of_nat (f + j)) (of_nat a) (of_nat n) (s\<lparr>phys := m1\<rparr>) =
        Done (s\<lparr>phys := m1\<rparr>\<lparr>phys := m2\<rparr>)"
      "\<And>y. y < 4294967296 \<Longrightarrow> m2 (of_nat y) = (if f + j \<le> y \<and> y < f + j + n
         then phys (s\<lparr>phys := m1\<rparr>) (of_nat (a + (y - (f + j)))) else phys (s\<lparr>phys := m1\<rparr>) (of_nat y))"
      by (rule copy_into_page [OF W1 f(1-4) b]) (rule that)
    have c: "fill_page file ph v (of_nat f) s = Done (s\<lparr>phys := m2\<rparr>)"
      using m1(1) m2(1) True by (simp add: fill_page_def Let_def e1 e2 e3)
    show thesis
    proof (rule that [OF c])
      fix y :: nat assume y: "y < 4294967296"
      show "m2 (of_nat y) = (if f \<le> y \<and> y < f + 4096 then seg_byte (phys s) file ph (?V + (y - f)) else phys s (of_nat y))"
      proof (cases "f + j \<le> y \<and> y < f + j + n")
        case in_file: True
        define z where "z = a + (y - (f + j))"
        have z: "z < f" "z = ?O + (?V + (y - f) - ?P)" using in_file lt b(2) by (auto simp: z_def a_def j_def)
        have e: "m2 (of_nat y) = phys s (of_nat z)" using m2(2) [OF y] m1(2) [of z] in_file z(1) f32 by (simp add: z_def)
        have "?P \<le> ?V + (y - f)" "?V + (y - f) < ?P + ?F" "f \<le> y" "y < f + 4096"
          using in_file lt b(1) by (auto simp: j_def n_def)
        then show ?thesis unfolding e z(2) by (simp add: seg_byte_def)
      next
        case False
        then have "m2 (of_nat y) = m1 (of_nat y)" using m2(2) [OF y] by auto
        moreover have "seg_byte (phys s) file ph (?V + (y - f)) = 0" if "f \<le> y" "y < f + 4096"
          using False that lt by (auto simp: seg_byte_def j_def n_def)
        ultimately show ?thesis using m1(2) [OF y] by simp
      qed
    qed
  qed
qed

section \<open>Frames for user pages\<close>

lemma low_frames_finite [simp]: "finite (low_frames s)"
  using pmm_frame.frames_finite by (simp add: low_frames_def)

lemma alloc_low:
  assumes r: "pmm_ready (frames s)" and n: "low_frames s \<noteq> {}"
  obtains a fr where "pmm_alloc (frames s) = (a, fr)" "a \<noteq> 0" "a < 0x400000" "0x100000 \<le> a"
    "a \<in> pmm_frames (frames s)" "pmm_frames fr = pmm_frames (frames s) - {a}" "pmm_ready fr"
proof -
  obtain b where b: "b \<in> pmm_frames (frames s)" "b < 0x400000" using n by (auto simp: low_frames_def)
  then obtain q where q: "q \<in> free_pages (frames s)" "b = q * 4096" by (auto simp: pmm_frames_def)
  then have ne: "free_pages (frames s) \<noteq> {}" by auto
  let ?p = "Min (free_pages (frames s))"
  note m = Min_free_page [OF ne]
  have q': "q < TOTAL_PAGES" using q(1) by (simp add: free_pages_def)
  have "?p \<le> q" using q(1) by simp
  then have lt: "?p * 4096 < 0x400000"
    using b(2) q m(2) q' by (simp add: word_less_nat_alt word_le_nat_alt page_addr_unat)
  have "\<not> ?p < 256" using r m(3) by (auto simp: pmm_ready_def)
  then have hi: "0x100000 \<le> ?p * 4096" using m(2) by (simp add: word_le_nat_alt word_less_nat_alt page_addr_unat)
  have nz: "?p * 4096 \<noteq> 0" 
  proof
    assume "?p * 4096 = 0"
    with hi have "0x100000 \<le> (0 :: u32)" by (simp only:)
    then show False by simp
  qed
  let ?fr = "snd (pmm_alloc (frames s))"
  have e: "pmm_alloc (frames s) = (?p * 4096, ?fr)" by (simp add: pmm_alloc_ok [OF ne])
  show thesis using that [OF e nz lt hi] alloc_frame_free [OF e nz] pmm_frame.alloc_ready [OF r] by simp
qed

lemma fpt_not_data: "vm_ok pd fpt s \<Longrightarrow> data_page pd s f \<Longrightarrow> f \<noteq> fpt"
  using vm_okD [of pd fpt s] by (auto simp: data_page_def dest!: spec [of _ 0])

text \<open>Taking a frame out of the allocator makes it a data page and changes no translation.\<close>

lemma take_frame:
  assumes V: "vm_ok pd fpt s" and a: "pmm_alloc (frames s) = (a, fr)" "a \<noteq> 0" "a < 0x400000"
  shows "vm_ok pd fpt (s\<lparr>frames := fr\<rparr>)" "data_page pd (s\<lparr>frames := fr\<rparr>) (unat a)"
    "mmu (s\<lparr>frames := fr\<rparr>) w = mmu s w" "keeps_pages pd s (s\<lparr>frames := fr\<rparr>)"
    "owned pd (s\<lparr>frames := fr\<rparr>) = owned pd s - {a}" "\<not> data_page pd s (unat a)"
proof -
  note A = alloc_apart [OF V a] and D = vm_okD [OF V]
  have fr: "pmm_frames fr \<subseteq> pmm_frames (frames s)" using A(7) by auto
  show V': "vm_ok pd fpt (s\<lparr>frames := fr\<rparr>)"
    using V fr pmm_frame.alloc_ready [OF D(4)] a(1) by (auto simp: vm_ok_def id_window_def)
  have pa: "of_nat (unat a) \<notin> pmm_frames fr" unfolding A(4) A(7) by simp
  show "data_page pd (s\<lparr>frames := fr\<rparr>) (unat a)"
    using A(1-3) A(5) pa by (auto simp: data_page_def simp del: of_nat_unat dest!: A(8))
  show "mmu (s\<lparr>frames := fr\<rparr>) w = mmu s w" by (simp add: mmu_def)
  show "keeps_pages pd s (s\<lparr>frames := fr\<rparr>)" using fr by (auto simp: keeps_pages_def data_page_def)
  have "a \<notin> (\<lambda>i. of_nat (tbl pd (phys s) i)) ` {i. i < 1024 \<and> present (wd (phys s) (pd + 4 * i))}"
    using vm_ok_table(5) [OF V] alloc_frame_free(1) [OF a(1,2)] by auto
  then show "owned pd (s\<lparr>frames := fr\<rparr>) = owned pd s - {a}" unfolding owned_def by (auto simp: A(7))
  show "\<not> data_page pd s (unat a)" using alloc_frame_free(1) [OF a(1,2)] by (simp add: data_page_def)
qed

text \<open>Only the directory and the tables it names matter.\<close>

lemma tables_kept:
  assumes V: "vm_ok pd fpt s"
    and o: "\<forall>y. pd \<le> y \<and> y < pd + 4096 \<longrightarrow> m (of_nat y) = phys s (of_nat y)"
    and ot: "\<forall>i y. i < 1024 \<and> present (wd (phys s) (pd + 4 * i)) \<and> tbl pd (phys s) i \<le> y \<and> y < tbl pd (phys s) i + 4096 \<longrightarrow>
      m (of_nat y) = phys s (of_nat y)"
  shows "vm_ok pd fpt (s\<lparr>phys := m\<rparr>)" "mmu (s\<lparr>phys := m\<rparr>) w = mmu s w"
    "owned pd (s\<lparr>phys := m\<rparr>) = owned pd s" "data_page pd (s\<lparr>phys := m\<rparr>) g = data_page pd s g"
proof -
  note D = vm_okD [OF V]
  have pde: "wd m (pd + 4 * i) = wd (phys s) (pd + 4 * i)" if "i < 1024" for i
    using that by (intro wd_cong o [rule_format]) auto
  have tb: "tbl pd m i = tbl pd (phys s) i" if "i < 1024" for i using pde [OF that] by (simp add: tbl_def)
  have pt: "wd m (tbl pd (phys s) i + 4 * j) = wd (phys s) (tbl pd (phys s) i + 4 * j)"
    if "i < 1024" "present (wd (phys s) (pd + 4 * i))" "j < 1024" for i j
    using that by (intro wd_cong ot [rule_format, of i]) auto
  have W: "id_window pd fpt (s\<lparr>phys := m\<rparr>)"
    using D(1) pde [of 0] pt [of 0] D(6,7) by (simp add: id_window_def)
  have "inj_on (tbl pd m) {i. i < 1024 \<and> present (wd m (pd + 4 * i))}"
    using V tb pde by (auto simp: vm_ok_def inj_on_def)
  then show V': "vm_ok pd fpt (s\<lparr>phys := m\<rparr>)" using V W pde tb by (simp add: vm_ok_def)
  have "pte_of pd m w = pte_of pd (phys s) w"
    using pde [OF pdi_less] tb [OF pdi_less] pt [OF pdi_less _ pti_less] by (simp add: pte_of_def)
  then show "mmu (s\<lparr>phys := m\<rparr>) w = mmu s w" by (simp add: mmu_pte [OF V] mmu_pte [OF V'])
  show "owned pd (s\<lparr>phys := m\<rparr>) = owned pd s" using pde tb by (auto simp: owned_def)
  show "data_page pd (s\<lparr>phys := m\<rparr>) g = data_page pd s g" using pde tb by (auto simp: data_page_def)
qed

text \<open>Writes inside one data page leave tables, translations and all other data pages alone.\<close>

lemma write_data_page:
  assumes V: "vm_ok pd fpt s" and f: "data_page pd s f"
    and out: "\<forall>y < 4294967296. y < f \<or> f + 4096 \<le> y \<longrightarrow> m (of_nat y) = phys s (of_nat y)"
  shows "vm_ok pd fpt (s\<lparr>phys := m\<rparr>)" "mmu (s\<lparr>phys := m\<rparr>) w = mmu s w"
    "owned pd (s\<lparr>phys := m\<rparr>) = owned pd s" "data_page pd (s\<lparr>phys := m\<rparr>) g = data_page pd s g"
    "data_page pd s g \<Longrightarrow> g \<noteq> f \<Longrightarrow> g \<le> y \<Longrightarrow> y < g + 4096 \<Longrightarrow> m (of_nat y) = phys s (of_nat y)"
proof -
  have o: "\<And>y. y < 4294967296 \<Longrightarrow> y < f \<or> f + 4096 \<le> y \<Longrightarrow> m (of_nat y) = phys s (of_nat y)"
    using out by blast
  note D = vm_okD [OF V]
  have f': "f mod 4096 = 0" "f < 0x400000" "f \<noteq> pd" using f by (auto simp: data_page_def)
  have 1: "\<forall>y. pd \<le> y \<and> y < pd + 4096 \<longrightarrow> m (of_nat y) = phys s (of_nat y)"
    using pages_apart [OF f'(1) D(2) f'(3)] D(3) by (auto intro!: o)
  have 2: "\<forall>i y. i < 1024 \<and> present (wd (phys s) (pd + 4 * i)) \<and> tbl pd (phys s) i \<le> y \<and> y < tbl pd (phys s) i + 4096 \<longrightarrow>
      m (of_nat y) = phys s (of_nat y)"
  proof (intro allI impI, elim conjE)
    fix i y assume i: "i < 1024" "present (wd (phys s) (pd + 4 * i))"
      and y: "tbl pd (phys s) i \<le> y" "y < tbl pd (phys s) i + 4096"
    have "tbl pd (phys s) i \<noteq> f" using f i by (auto simp: data_page_def)
    then show "m (of_nat y) = phys s (of_nat y)"
      using pages_apart [of "tbl pd (phys s) i" f] vm_ok_table(2,3) [OF V i] f'(1) y by (intro o) auto
  qed
  note T = tables_kept [OF V 1 2]
  show "vm_ok pd fpt (s\<lparr>phys := m\<rparr>)" "mmu (s\<lparr>phys := m\<rparr>) w = mmu s w"
    "owned pd (s\<lparr>phys := m\<rparr>) = owned pd s" "data_page pd (s\<lparr>phys := m\<rparr>) g = data_page pd s g"
    by (rule T)+
  show "m (of_nat y) = phys s (of_nat y)" if "data_page pd s g" "g \<noteq> f" "g \<le> y" "y < g + 4096"
    using pages_apart [of g f] that f' by (intro o) (auto simp: data_page_def)
qed

lemma page_plus:
  assumes "v AND 0xFFF = 0" and "j < 4096"
  shows "v OR of_nat j = v + (of_nat j :: u32)" "(v + of_nat j) AND 0xFFFFF000 = v" "(v + of_nat j) AND 0xFFF = of_nat j"
proof -
  have j: "(of_nat j :: u32) AND 0xFFFFF000 = 0"
    using assms(2) unfolding word_unat_eq_iff frame_part by simp
  have b: "\<not> bit v n \<or> \<not> bit (x :: u32) n" if x: "x AND 0xFFFFF000 = 0" for n x
    using arg_cong [OF assms(1), of "\<lambda>w. bit w n"] arg_cong [OF x, of "\<lambda>w. bit w n"] bit_imp_le_length [of v n]
    unfolding page_masks by (auto simp: bit_simps)
  show o: "v OR of_nat j = v + (of_nat j :: u32)"
    using b [OF j] by (rule disjunctive_add [symmetric])
  show "(v + of_nat j) AND 0xFFFFF000 = v" "(v + of_nat j) AND 0xFFF = of_nat j"
    using entry_parts [OF assms(1) j] by (simp_all add: o)
qed

lemma page_of_other:
  fixes v w :: u32
  assumes "v AND 0xFFF = 0" and "w AND 0xFFF = 0" and "v \<noteq> w" and "j < 4096"
  shows "(w + of_nat j) AND 0xFFFFF000 \<noteq> v"
  using page_plus(2) [OF assms(2,4)] assms(3) by simp

lemma file_unchanged:
  assumes "file_pages pd file ph s" and "keeps_pages pd s t"
  shows "seg_byte (phys t) file ph a = seg_byte (phys s) file ph a"
proof (cases "unat (p_vaddr ph) \<le> a \<and> a < unat (p_vaddr ph) + unat (p_filesz ph)")
  case True
  define y where "y = unat file + unat (p_offset ph) + (a - unat (p_vaddr ph))"
  have "unat file + unat (p_offset ph) \<le> y" "y < unat file + unat (p_offset ph) + unat (p_filesz ph)"
    using True by (auto simp: y_def)
  then have "data_page pd s (y - y mod 4096)" using assms(1) unfolding file_pages_def by blast
  moreover have "y - y mod 4096 \<le> y" "y < y - y mod 4096 + 4096" using mod_less_divisor [of 4096 y] by auto
  ultimately have "phys t (of_nat y) = phys s (of_nat y)" using assms(2) unfolding keeps_pages_def by blast
  then show ?thesis using True unfolding seg_byte_def y_def by simp
qed (auto simp: seg_byte_def)

lemma low_after_take:
  assumes "pmm_frames (frames t) = pmm_frames (frames s) - {a}"
  shows "card (low_frames s) \<le> Suc (card (low_frames t))"
proof -
  have "low_frames t = low_frames s - {a}" using assms by (auto simp: low_frames_def)
  then show ?thesis using diff_card_le_card_Diff [of "{a}" "low_frames s"] by simp
qed

text \<open>Loading one page, when the allocator still has two frames below 4 MiB.\<close>

lemma load_page_ok:
  assumes V: "vm_ok pd fpt s" and c: "2 \<le> card (low_frames s)"
    and v: "v AND 0xFFF = 0" "0x400000 \<le> v" "unat v + 4096 < 4294967296"
    and fl: "file_low file ph" and fp: "file_pages pd file ph s"
  obtains s' f where "load_page (of_nat pd) file ph v s = Done (True, s')" "vm_ok pd fpt s'"
    "keeps_pages pd s s'" "card (low_frames s) \<le> card (low_frames s') + 2" "user_page pd s' v f"
    "of_nat f \<in> pmm_frames (frames s)" "owned pd s' = owned pd s - {of_nat f}"
    "\<And>w. w AND 0xFFFFF000 \<noteq> v \<Longrightarrow> mmu s' w = mmu s w"
    "\<And>j. j < 4096 \<Longrightarrow> phys s' (of_nat (f + j)) = seg_byte (phys s) file ph (unat v + j)"
proof -
  have r: "pmm_ready (frames s)" and ne: "low_frames s \<noteq> {}" using vm_okD(4) [OF V] c by auto
  obtain a fr where a: "pmm_alloc (frames s) = (a, fr)" "a \<noteq> 0" "a < 0x400000" "0x100000 \<le> a"
    "a \<in> pmm_frames (frames s)" "pmm_frames fr = pmm_frames (frames s) - {a}" "pmm_ready fr"
    by (rule alloc_low [OF r ne]) (rule that)
  let ?s1 = "s\<lparr>frames := fr\<rparr>" and ?f = "unat a"
  note T = take_frame [OF V a(1-3)] and A = alloc_apart [OF V a(1-3)]
  have c1: "card (low_frames s) \<le> Suc (card (low_frames ?s1))" by (rule low_after_take [of _ _ a]) (simp add: a(6))
  then have ne1: "low_frames ?s1 \<noteq> {}" and r1: "pmm_ready (frames ?s1)" using c a(7) by auto
  obtain b fr2 where b: "pmm_alloc (frames ?s1) = (b, fr2)" "b \<noteq> 0" "b < 0x400000" "0x100000 \<le> b"
    "b \<in> pmm_frames (frames ?s1)" "pmm_frames fr2 = pmm_frames (frames ?s1) - {b}" "pmm_ready fr2"
    by (rule alloc_low [OF r1 ne1]) (rule that)
  have tp: "table_possible pd v ?s1" using b(1-3) by (simp add: table_possible_def)
  have al: "a AND 0xFFF = 0" by (rule pmm_frame.frames_aligned [OF a(5)])
  obtain s2 where s2: "vmm_map (of_nat pd) v a (PAGE_RW OR PAGE_USER) ?s1 = Done (0, s2)" "vm_ok pd fpt s2"
    "\<And>w. mmu s2 w = (if w AND 0xFFFFF000 = v then Some (a OR (w AND 0xFFF)) else mmu ?s1 w)"
    "pte_of pd (phys s2) v = Some (a OR ((PAGE_RW OR PAGE_USER) AND 0xFFF) OR 1)" "flushed s2 = v # flushed ?s1"
    "keeps_data pd ?s1 s2" "frames s2 = frames ?s1 \<or> frames s2 = snd (pmm_alloc (frames ?s1))"
    by (rule vmm_map_done [OF T(1) tp v(1) al v(2), of "PAGE_RW OR PAGE_USER"]) (rule that)
  have k2: "keeps_pages pd s s2" using keeps_pages_trans [OF T(4)] s2(6) by (simp add: keeps_data_def)
  have c2: "card (low_frames ?s1) \<le> Suc (card (low_frames s2))"
  proof (cases "frames s2 = frames ?s1")
    case True
    then have "low_frames s2 = low_frames ?s1" unfolding low_frames_def by (simp only:)
    then show ?thesis by simp
  next
    case False
    then have "frames s2 = fr2" using s2(7) unfolding b(1) by simp
    then show ?thesis using b(6) by (intro low_after_take [of _ _ b]) simp
  qed
  have d2: "data_page pd s2 ?f" using s2(6) T(2) by (simp add: keeps_data_def keeps_pages_def)
  have f: "?f mod 4096 = 0" "?f < 0x400000" "?f \<noteq> pd" "?f \<noteq> fpt" "0x100000 \<le> ?f"
    using A a(4) by (auto simp: word_le_nat_alt)
  obtain m where m: "fill_page file ph v (of_nat ?f) s2 = Done (s2\<lparr>phys := m\<rparr>)"
    "\<And>y. y < 4294967296 \<Longrightarrow> m (of_nat y) =
       (if ?f \<le> y \<and> y < ?f + 4096 then seg_byte (phys s2) file ph (unat v + (y - ?f)) else phys s2 (of_nat y))"
    by (rule fill_page_spec [OF vm_okD(1) [OF s2(2)] f v(3) fl]) (rule that)
  have out: "\<forall>y < 4294967296. y < ?f \<or> ?f + 4096 \<le> y \<longrightarrow> m (of_nat y) = phys s2 (of_nat y)"
    using m(2) by auto
  note Wd = write_data_page [OF s2(2) d2 out]
  let ?s3 = "s2\<lparr>phys := m\<rparr>"
  have call: "load_page (of_nat pd) file ph v s = Done (True, ?s3)"
    using a(1,2) s2(1) m(1) unfolding A(4) by (simp add: load_page_def)
  have k3: "keeps_pages pd s ?s3"
  proof -
    have "m (of_nat y) = phys s (of_nat y)" if g: "data_page pd s g" and y: "g \<le> y" "y < g + 4096" for g y
    proof -
      have g2: "data_page pd s2 g" "phys s2 (of_nat y) = phys s (of_nat y)"
        using k2 g y unfolding keeps_pages_def by blast+
      have "g \<noteq> ?f" using T(6) g by auto
      then show ?thesis using Wd(5) [OF g2(1) _ y] g2(2) by simp
    qed
    then show ?thesis using k2 Wd(4) unfolding keeps_pages_def by simp
  qed
  have up: "user_page pd ?s3 v ?f"
    using d2 f(5) Wd(4) page_plus [OF v(1)] page_plus(1) [OF al] A(4) s2(3) Wd(2) by (simp add: user_page_def)
  show thesis
  proof (rule that [of ?s3 ?f, OF call Wd(1) k3 _ up])
    show "card (low_frames s) \<le> card (low_frames ?s3) + 2" using c1 c2 by (simp add: low_frames_def)
    show "of_nat ?f \<in> pmm_frames (frames s)" using a(5) A(4) by simp
    show "owned pd ?s3 = owned pd s - {of_nat ?f}" using Wd(3) s2(6) T(5) A(4) by (simp add: keeps_data_def)
    show "mmu ?s3 w = mmu s w" if "w AND 0xFFFFF000 \<noteq> v" for w using that s2(3) Wd(2) T(3) by simp
    show "phys ?s3 (of_nat (?f + j)) = seg_byte (phys s) file ph (unat v + j)" if "j < 4096" for j
      using m(2) [of "?f + j"] that f(2) file_unchanged [OF fp k2] by (simp del: of_nat_add)
  qed
qed

lemma file_pages_kept: "file_pages pd file ph s \<Longrightarrow> keeps_pages pd s t \<Longrightarrow> file_pages pd file ph t"
  by (simp add: file_pages_def keeps_pages_def)

text \<open>A page that was loaded before stays as it is while another page is loaded.\<close>

lemma user_page_kept:
  assumes "user_page pd s v f" and "keeps_pages pd s t" and "v AND 0xFFF = 0"
    and "\<forall>w. w AND 0xFFFFF000 = v \<longrightarrow> mmu t w = mmu s w"
  shows "user_page pd t v f" and "j < 4096 \<Longrightarrow> phys t (of_nat (f + j)) = phys s (of_nat (f + j))"
proof -
  show "user_page pd t v f"
    using assms(1,2) assms(4) page_plus(2) [OF assms(3)] unfolding user_page_def keeps_pages_def by simp
  show "phys t (of_nat (f + j)) = phys s (of_nat (f + j))" if "j < 4096"
    using assms(1,2) that unfolding user_page_def keeps_pages_def by (metis le_add1 nat_add_left_cancel_less)
qed

lemma page_addrs:
  fixes vs :: u32
  assumes "vs AND 0xFFF = 0" and "unat vs + 4096 * n < 4294967296" and "k < n"
  shows "unat (vs + of_nat k * 0x1000) = unat vs + 4096 * k" "(vs + of_nat k * 0x1000) AND 0xFFF = 0"
proof -
  have k: "unat (of_nat k * 0x1000 :: u32) = 4096 * k"
    using assms(2,3) by (simp add: unat_word_ariths)
  then show u: "unat (vs + of_nat k * 0x1000) = unat vs + 4096 * k"
    using assms(2,3) by (subst unat_plus32) auto
  have "unat vs mod 4096 = 0" using assms(1) low_bits_unat [of vs 12] unfolding page_masks by simp
  then have "unat ((vs + of_nat k * 0x1000) AND mask 12) = 0" unfolding low_bits_unat u by simp
  then show "(vs + of_nat k * 0x1000) AND 0xFFF = 0" unfolding page_masks by (metis unsigned_eq_0_iff)
qed

lemma load_pages_ok:
  assumes "vm_ok pd fpt s" and "2 * (n - i) \<le> card (low_frames s)" and "i \<le> n"
    and vs: "vs AND 0xFFF = 0" "0x400000 \<le> unat vs" "unat vs + 4096 * n < 4294967296"
    and fl: "file_low file ph" and "file_pages pd file ph s"
  shows "\<exists>s' F. load_pages (of_nat pd) file ph vs i n s = Done (0, n, s') \<and> vm_ok pd fpt s' \<and>
    keeps_pages pd s s' \<and> card (low_frames s) \<le> card (low_frames s') + 2 * (n - i) \<and>
    seg_loaded pd file ph vs i n F s s'"
  using assms(1-3,8)
proof (induction "n - i" arbitrary: i s)
  case 0
  then show ?case by (subst load_pages.simps) (auto simp: seg_loaded_def)
next
  case (Suc d)
  let ?v = "\<lambda>k. vs + of_nat k * 0x1000 :: u32"
  have i: "i < n" using Suc.hyps(2) by simp
  note pa = page_addrs [OF vs(1,3)]
  have v: "?v i AND 0xFFF = 0" "0x400000 \<le> ?v i" "unat (?v i) + 4096 < 4294967296"
    using pa [OF i] vs i by (auto simp: word_le_nat_alt)
  have "2 \<le> card (low_frames s)" using Suc.prems(2) i by simp
  then obtain s1 f where s1: "load_page (of_nat pd) file ph (?v i) s = Done (True, s1)" "vm_ok pd fpt s1"
    "keeps_pages pd s s1" "card (low_frames s) \<le> card (low_frames s1) + 2" "user_page pd s1 (?v i) f"
    "of_nat f \<in> pmm_frames (frames s)" "owned pd s1 = owned pd s - {of_nat f}"
    "\<And>w. w AND 0xFFFFF000 \<noteq> ?v i \<Longrightarrow> mmu s1 w = mmu s w"
    "\<And>j. j < 4096 \<Longrightarrow> phys s1 (of_nat (f + j)) = seg_byte (phys s) file ph (unat (?v i) + j)"
    by (rule load_page_ok [OF Suc.prems(1) _ v fl Suc.prems(4)]) (rule that)
  have "\<exists>s' F. load_pages (of_nat pd) file ph vs (Suc i) n s1 = Done (0, n, s') \<and> vm_ok pd fpt s' \<and>
      keeps_pages pd s1 s' \<and> card (low_frames s1) \<le> card (low_frames s') + 2 * (n - Suc i) \<and>
      seg_loaded pd file ph vs (Suc i) n F s1 s'"
    using Suc.hyps s1(2,4) Suc.prems i file_pages_kept [OF Suc.prems(4) s1(3)] by (intro Suc.hyps(1)) auto
  then obtain s' F where s': "load_pages (of_nat pd) file ph vs (Suc i) n s1 = Done (0, n, s')" "vm_ok pd fpt s'"
    "keeps_pages pd s1 s'" "seg_loaded pd file ph vs (Suc i) n F s1 s'"
    "card (low_frames s1) \<le> card (low_frames s') + 2 * (n - Suc i)" by blast
  have diff: "?v k \<noteq> ?v i" if "i < k" "k < n" for k
    using pa(1) [OF that(2)] pa(1) [OF i] that(1) by (metis add_left_cancel less_irrefl mult_left_cancel zero_neq_numeral)
  have mm: "\<forall>w. w AND 0xFFFFF000 = ?v i \<longrightarrow> mmu s' w = mmu s1 w"
    using s'(4) diff unfolding seg_loaded_def by (metis Suc_le_eq)
  note K = user_page_kept [OF s1(5) s'(3) v(1) mm]
  let ?F = "F(i := f)"
  have sub: "pmm_frames (frames s1) \<subseteq> pmm_frames (frames s)" using s1(3) by (simp add: keeps_pages_def)
  have fr: "of_nat (F k) \<in> pmm_frames (frames s1)" if "i < k" "k < n" for k
    using s'(4) that unfolding seg_loaded_def by simp
  have nf: "of_nat f \<notin> pmm_frames (frames s1)" using s1(5) by (simp add: user_page_def data_page_def)
  have set: "{i..<n} = insert i {Suc i..<n}" using i by auto
  have "seg_loaded pd file ph vs i n ?F s s'"
    unfolding seg_loaded_def
  proof (intro conjI allI impI)
    fix k assume k: "i \<le> k \<and> k < n"
    show "user_page pd s' (?v k) (?F k)" "of_nat (?F k) \<in> pmm_frames (frames s)"
      using K(1) s'(4) k s1(6) sub fr by (cases "k = i"; auto simp: seg_loaded_def)+
    show "phys s' (of_nat (?F k + j)) = seg_byte (phys s) file ph (unat vs + 4096 * k + j)" if "j < 4096" for j
    proof (cases "k = i")
      case True
      then show ?thesis using K(2) [OF that] s1(9) [OF that] pa(1) [OF i] by simp
    next
      case False
      then show ?thesis using s'(4) k that file_unchanged [OF Suc.prems(4) s1(3)] by (simp add: seg_loaded_def)
    qed
  next
    have "f \<notin> F ` {Suc i..<n}" using fr nf by auto
    then show "inj_on ?F {i..<n}" using s'(4) unfolding set seg_loaded_def by (auto simp: inj_on_def)
    show "owned pd s' = owned pd s - (\<lambda>k. of_nat (?F k)) ` {i..<n}"
      using s'(4) s1(7) unfolding set seg_loaded_def by auto
    show "mmu s' w = mmu s w" if "\<forall>k. i \<le> k \<and> k < n \<longrightarrow> w AND 0xFFFFF000 \<noteq> ?v k" for w
      using that i s'(4) s1(8) [of w] unfolding seg_loaded_def by (metis Suc_leD order_refl)
  qed
  then show ?case
    using s1(1,4) s' i keeps_pages_trans [OF s1(3) s'(3)]
    by (subst load_pages.simps) (auto intro!: exI [of _ ?F])
qed

section \<open>Loading a segment\<close>

lemma seg_bounds:
  assumes "user_range ph"
  shows "unat (p_vaddr ph AND NOT 0xFFF) = seg_start ph"
    "unat ((p_vaddr ph + p_memsz ph + 0xFFF) AND NOT 0xFFF) = seg_start ph + 4096 * seg_pages ph"
    "seg_start ph + 4096 * seg_pages ph < 4294967296" "0x400000 \<le> seg_start ph" "0 < seg_pages ph"
    "(p_vaddr ph AND NOT 0xFFF) AND 0xFFF = 0"
    "seg_start ph \<le> unat (p_vaddr ph)" "unat (p_vaddr ph) + unat (p_memsz ph) \<le> seg_start ph + 4096 * seg_pages ph"
proof -
  let ?P = "unat (p_vaddr ph)" and ?M = "unat (p_memsz ph)"
  have r: "0x400000 \<le> ?P" "0 < ?M" "?P + ?M + 4095 < 4294967296" using assms by (auto simp: user_range_def)
  have msk: "NOT (0xFFF :: u32) = NOT (mask 12)" by (simp add: mask_eq_exp_minus_1)
  show "unat (p_vaddr ph AND NOT 0xFFF) = seg_start ph"
    unfolding msk high_bits_unat by (simp add: seg_start_def)
  have "unat (p_vaddr ph + p_memsz ph + 0xFFF) = ?P + ?M + 4095"
    using r(3) by (simp add: unat_plus32)
  then have v: "unat ((p_vaddr ph + p_memsz ph + 0xFFF) AND NOT 0xFFF) = (?P + ?M + 4095) div 4096 * 4096"
    unfolding msk high_bits_unat by simp
  have le: "?P div 4096 < (?P + ?M + 4095) div 4096"
    using div_le_mono [of "?P + 4096" "?P + ?M + 4095" 4096] r(2) by simp
  then have e: "seg_start ph + 4096 * seg_pages ph = (?P + ?M + 4095) div 4096 * 4096"
    by (simp add: seg_start_def seg_pages_def algebra_simps diff_mult_distrib2)
  then show "unat ((p_vaddr ph + p_memsz ph + 0xFFF) AND NOT 0xFFF) = seg_start ph + 4096 * seg_pages ph"
    "seg_start ph + 4096 * seg_pages ph < 4294967296" "?P + ?M \<le> seg_start ph + 4096 * seg_pages ph"
    using v r(3) by (auto simp: e)
  show "0x400000 \<le> seg_start ph" using div_le_mono [OF r(1), of 4096] by (simp add: seg_start_def)
  show "0 < seg_pages ph" using le by (simp add: seg_pages_def)
  show "seg_start ph \<le> ?P" by (simp add: seg_start_def)
  have "(x AND NOT m) AND m = 0" for x m :: u32 by (rule bit_word_eqI) (simp add: bit_simps)
  then show "(p_vaddr ph AND NOT 0xFFF) AND 0xFFF = 0" .
qed

lemma load_segment_ok:
  assumes V: "vm_ok pd fpt (space s)" and im: "images s img = Some im" "seg_count im < MAX_USER_SEGMENTS"
    and u: "user_range ph" and fl: "file_low file ph" and fp: "file_pages pd file ph (space s)"
    and c: "2 * seg_pages ph \<le> card (low_frames (space s))"
  obtains t F where "load_segment (of_nat pd) file ph img s =
      Done (0, s\<lparr>space := t, images := (images s)(img \<mapsto>
        im\<lparr>seg_count := seg_count im + 1,
            segs := (segs im)(seg_count im := \<lparr>vaddr = of_nat (seg_start ph), pages = of_nat (seg_pages ph)\<rparr>)\<rparr>)\<rparr>)"
    "vm_ok pd fpt t" "keeps_pages pd (space s) t"
    "seg_loaded pd file ph (of_nat (seg_start ph)) 0 (seg_pages ph) F (space s) t"
    "card (low_frames (space s)) \<le> card (low_frames t) + 2 * seg_pages ph"
proof -
  let ?vs = "p_vaddr ph AND NOT 0xFFF" and ?ve = "(p_vaddr ph + p_memsz ph + 0xFFF) AND NOT 0xFFF"
  note B = seg_bounds [OF u]
  have vs: "?vs = of_nat (seg_start ph)" by (rule word_of_unat) (rule B(1))
  have le: "?vs < ?ve" using B(1,2,5) by (simp add: word_less_nat_alt)
  have "unat (?ve - ?vs) = 4096 * seg_pages ph" using unat_minus32 [of ?vs ?ve] le B(1,2) by (simp add: less_imp_le)
  then have n: "unat ((?ve - ?vs) div 0x1000) = seg_pages ph" by (simp add: unat_div)
  obtain t F where t: "load_pages (of_nat pd) file ph ?vs 0 (seg_pages ph) (space s) = Done (0, seg_pages ph, t)"
    "vm_ok pd fpt t" "keeps_pages pd (space s) t" "seg_loaded pd file ph ?vs 0 (seg_pages ph) F (space s) t"
    "card (low_frames (space s)) \<le> card (low_frames t) + 2 * seg_pages ph"
    using load_pages_ok [OF V _ _ B(6) _ _ fl fp, of "seg_pages ph" 0] c B by auto
  show thesis
  proof (rule that [of t F])
    show "load_segment (of_nat pd) file ph img s =
      Done (0, s\<lparr>space := t, images := (images s)(img \<mapsto>
        im\<lparr>seg_count := seg_count im + 1,
            segs := (segs im)(seg_count im := \<lparr>vaddr = of_nat (seg_start ph), pages = of_nat (seg_pages ph)\<rparr>)\<rparr>)\<rparr>)"
      using im le t(1) unfolding vs [symmetric] load_segment_def Let_def n by (simp add: not_le)
  qed (use t vs in simp_all)
qed

text \<open>The bytes of a loaded segment, address by address.\<close>

lemma seg_loaded_byte:
  assumes L: "seg_loaded pd file ph (of_nat st) 0 n F s t" and st: "(of_nat st :: u32) AND 0xFFF = 0" "st + 4096 * n < 4294967296"
    and a: "st \<le> a" "a < st + 4096 * n"
  shows "\<exists>p. mmu t (of_nat a) = Some p \<and> phys t p = seg_byte (phys s) file ph a"
proof -
  define k where "k = (a - st) div 4096"
  define j where "j = (a - st) mod 4096"
  have kj: "a = st + 4096 * k + j" "j < 4096" "k < n"
    using a by (auto simp: k_def j_def less_mult_imp_div_less)
  have "user_page pd t (of_nat st + of_nat k * 0x1000) (F k)"
    "phys t (of_nat (F k + j)) = seg_byte (phys s) file ph (unat (of_nat st :: u32) + 4096 * k + j)"
    using L kj(2,3) unfolding seg_loaded_def by auto
  moreover have "(of_nat st + of_nat k * 0x1000 + of_nat j :: u32) = of_nat a" by (simp add: kj(1))
  moreover have "unat (of_nat st :: u32) = st" using st(2) by simp
  ultimately show ?thesis using kj(1,2) by (auto simp: user_page_def simp del: of_nat_add)
qed

section \<open>Unloading\<close>

lemma user_page_facts:
  assumes "vm_ok pd fpt s" and "user_page pd s v f"
  shows "mmu s v = Some (of_nat f)" "(of_nat f :: u32) AND 0xFFF = 0" "(of_nat f :: u32) AND 0xFFFFF000 = of_nat f"
    "(of_nat f :: u32) \<noteq> 0xFFFFFFFF" "0x100000 \<le> (of_nat f :: u32)" "f < 4294967296"
proof -
  have f: "f mod 4096 = 0" "f < 0x400000" "0x100000 \<le> f" using assms(2) by (auto simp: user_page_def data_page_def)
  then have u: "unat (of_nat f :: u32) = f" by simp
  show "mmu s v = Some (of_nat f)" using assms(2) by (auto simp: user_page_def dest!: spec [of _ 0])
  show a: "(of_nat f :: u32) AND 0xFFFFF000 = of_nat f" using f by (intro aligned_frame) auto
  have "unat ((of_nat f :: u32) AND mask 12) = 0" unfolding low_bits_unat u using f(1) by simp
  then show "(of_nat f :: u32) AND 0xFFF = 0" unfolding page_masks by (metis unsigned_eq_0_iff)
  show "(of_nat f :: u32) \<noteq> 0xFFFFFFFF" using f(2) u by (auto dest: arg_cong [where f = unat])
  show "0x100000 \<le> (of_nat f :: u32)" using f(3) u by (simp add: word_le_nat_alt)
  show "f < 4294967296" using f(2) by simp
qed

text \<open>Giving back a data page above 1 MiB.\<close>

lemma release_page:
  assumes V: "vm_ok pd fpt s" and f: "data_page pd s f" "0x100000 \<le> (of_nat f :: u32)" "(of_nat f :: u32) AND 0xFFF = 0"
  shows "vm_ok pd fpt (s\<lparr>frames := pmm_free (of_nat f) (frames s)\<rparr>)"
    "pmm_frames (pmm_free (of_nat f) (frames s)) = insert (of_nat f) (pmm_frames (frames s))"
    "owned pd (s\<lparr>frames := pmm_free (of_nat f) (frames s)\<rparr>) = insert (of_nat f) (owned pd s)"
    "data_page pd s g \<Longrightarrow> g \<noteq> f \<Longrightarrow> data_page pd (s\<lparr>frames := pmm_free (of_nat f) (frames s)\<rparr>) g"
    "mmu (s\<lparr>frames := pmm_free (of_nat f) (frames s)\<rparr>) w = mmu s w"
proof -
  note D = vm_okD [OF V]
  show fr: "pmm_frames (pmm_free (of_nat f) (frames s)) = insert (of_nat f) (pmm_frames (frames s))"
    by (rule pmm_frame.release_frames [OF f(3)])
  have r: "pmm_ready (pmm_free (of_nat f) (frames s))" by (rule pmm_frame.release_ready [OF D(4) f(2)])
  have f': "f < 4294967296" "f \<noteq> pd" using f(1) by (auto simp: data_page_def)
  have tb: "of_nat (tbl pd (phys s) i) \<noteq> (of_nat f :: u32)"
    if "i < 1024" "present (wd (phys s) (pd + 4 * i))" for i
    using f(1) that vm_ok_table(2) [OF V that] f'(1) of_nat_eq_iff32 [of "tbl pd (phys s) i" f] by (auto simp: data_page_def)
  have "(of_nat pd :: u32) \<noteq> of_nat f" using of_nat_eq_iff32 [of pd f] D(3) f' by auto
  then show "vm_ok pd fpt (s\<lparr>frames := pmm_free (of_nat f) (frames s)\<rparr>)"
    using V r tb unfolding vm_ok_def by (simp add: fr id_window_def)
  show "owned pd (s\<lparr>frames := pmm_free (of_nat f) (frames s)\<rparr>) = insert (of_nat f) (owned pd s)"
    by (auto simp: owned_def fr)
  show "data_page pd (s\<lparr>frames := pmm_free (of_nat f) (frames s)\<rparr>) g" if "data_page pd s g" "g \<noteq> f"
    using that f' of_nat_eq_iff32 [of g f] by (auto simp: data_page_def fr)
  show "mmu (s\<lparr>frames := pmm_free (of_nat f) (frames s)\<rparr>) w = mmu s w" by (simp add: mmu_def)
qed

text \<open>The effect of \<open>elf_unload\<close> on one mapped page.\<close>

lemma unload_page_ok:
  assumes V: "vm_ok pd fpt s" and u: "user_page pd s v f" and v: "v AND 0xFFF = 0" "0x400000 \<le> v"
  obtains s' where "unload_page (of_nat pd) v s = Done s'" "vm_ok pd fpt s'"
    "pmm_frames (frames s') = insert (of_nat f) (pmm_frames (frames s))"
    "owned pd s' = insert (of_nat f) (owned pd s)"
    "\<And>w. mmu s' w = (if w AND 0xFFFFF000 = v then None else mmu s w)"
    "\<And>g. data_page pd s g \<Longrightarrow> g \<noteq> f \<Longrightarrow> data_page pd s' g"
    "\<And>g y. data_page pd s g \<Longrightarrow> g \<le> y \<Longrightarrow> y < g + 4096 \<Longrightarrow> phys s' (of_nat y) = phys s (of_nat y)"
proof -
  note U = user_page_facts [OF V u]
  obtain s1 where s1: "vmm_unmap (of_nat pd) v s = Done s1" "vm_ok pd fpt s1"
    "\<And>w. mmu s1 w = (if w AND 0xFFFFF000 = v AND 0xFFFFF000 then None else mmu s w)"
    "flushed s1 = flushed s \<or> flushed s1 = v # flushed s"
    "mmu s v \<noteq> None \<Longrightarrow> flushed s1 = v # flushed s" "keeps_data pd s s1" "frames s1 = frames s"
    by (rule vmm_unmap_done [OF V v(2)]) (rule that)
  have k: "data_page pd s g \<Longrightarrow> data_page pd s1 g"
    "data_page pd s g \<Longrightarrow> g \<le> y \<Longrightarrow> y < g + 4096 \<Longrightarrow> phys s1 (of_nat y) = phys s (of_nat y)" for g y
    using s1(6) unfolding keeps_data_def keeps_pages_def by blast+
  have d1: "data_page pd s1 f" using k(1) u by (simp add: user_page_def)
  note R = release_page [OF s1(2) d1 U(5,2)]
  have vf: "v AND 0xFFFFF000 = v" using split_page [of v] v(1) by simp
  have call: "unload_page (of_nat pd) v s = Done (s1\<lparr>frames := pmm_free (of_nat f) (frames s1)\<rparr>)"
    using s1(1) U(1,3,4) by (simp add: unload_page_def vmm_get_phys_walk [OF V])
  show thesis
    using R k s1(3,6,7) vf by (intro that [OF call]) (simp_all add: keeps_data_def)
qed

lemma unload_page_absent:
  assumes V: "vm_ok pd fpt s" and u: "mmu s v = None" and v: "0x400000 \<le> v"
  shows "\<exists>s'. unload_page (of_nat pd) v s = Done s' \<and> vm_ok pd fpt s' \<and> keeps_data pd s s' \<and> frames s' = frames s \<and>
    (\<forall>w. mmu s' w = (if w AND 0xFFFFF000 = v AND 0xFFFFF000 then None else mmu s w))"
proof -
  obtain s1 where s1: "vmm_unmap (of_nat pd) v s = Done s1" "vm_ok pd fpt s1"
    "\<And>w. mmu s1 w = (if w AND 0xFFFFF000 = v AND 0xFFFFF000 then None else mmu s w)"
    "flushed s1 = flushed s \<or> flushed s1 = v # flushed s"
    "mmu s v \<noteq> None \<Longrightarrow> flushed s1 = v # flushed s" "keeps_data pd s s1" "frames s1 = frames s"
    by (rule vmm_unmap_done [OF V v]) (rule that)
  then show ?thesis using u by (simp add: unload_page_def vmm_get_phys_walk [OF V])
qed

text \<open>
  Loading a segment of an ELF file, with enough free frames below 4 MiB: \<open>load_segment\<close> returns
  0 and never faults.  Afterwards every byte of the segment's pages is mapped; the bytes from
  \<open>p_vaddr\<close> to \<open>p_vaddr + p_filesz\<close> are the file's and all others are zero.  No translation outside
  these pages has changed, the address space is well formed, and the image records the
  segment's first page and page count, so that it can be unloaded.
\<close>

lemma load_segment_contents:
  assumes "vm_ok pd fpt (space s)" and "images s img = Some im" and "seg_count im < MAX_USER_SEGMENTS"
    and "user_range ph" and "file_low file ph" and "file_pages pd file ph (space s)"
    and "2 * seg_pages ph \<le> card (low_frames (space s))"
  shows "\<exists>s'. load_segment (of_nat pd) file ph img s = Done (0, s') \<and> vm_ok pd fpt (space s') \<and>
    (\<forall>a. seg_start ph \<le> a \<and> a < seg_start ph + 4096 * seg_pages ph \<longrightarrow>
       (\<exists>p. mmu (space s') (of_nat a) = Some p \<and> phys (space s') p = seg_byte (phys (space s)) file ph a)) \<and>
    (\<forall>w. unat w < seg_start ph \<or> seg_start ph + 4096 * seg_pages ph \<le> unat w \<longrightarrow>
       mmu (space s') w = mmu (space s) w) \<and>
    images s' img = Some (im\<lparr>seg_count := seg_count im + 1, segs := (segs im)(seg_count im :=
       \<lparr>vaddr = of_nat (seg_start ph), pages = of_nat (seg_pages ph)\<rparr>)\<rparr>)"
proof -
  obtain t F where t: "load_segment (of_nat pd) file ph img s =
      Done (0, s\<lparr>space := t, images := (images s)(img \<mapsto>
        im\<lparr>seg_count := seg_count im + 1,
            segs := (segs im)(seg_count im := \<lparr>vaddr = of_nat (seg_start ph), pages = of_nat (seg_pages ph)\<rparr>)\<rparr>)\<rparr>)"
    "vm_ok pd fpt t" "keeps_pages pd (space s) t"
    "seg_loaded pd file ph (of_nat (seg_start ph)) 0 (seg_pages ph) F (space s) t"
    "card (low_frames (space s)) \<le> card (low_frames t) + 2 * seg_pages ph"
    by (rule load_segment_ok [OF assms]) (rule that)
  note B = seg_bounds [OF assms(4)]
  have st: "(of_nat (seg_start ph) :: u32) AND 0xFFF = 0" using B(6) word_of_unat [OF B(1)] by simp
  have su: "unat (of_nat (seg_start ph) :: u32) = seg_start ph" using B(3) by simp
  have "mmu t w = mmu (space s) w" if w: "unat w < seg_start ph \<or> seg_start ph + 4096 * seg_pages ph \<le> unat w" for w
  proof -
    have "w AND 0xFFFFF000 \<noteq> of_nat (seg_start ph) + of_nat k * 0x1000" if k: "k < seg_pages ph" for k
    proof
      assume "w AND 0xFFFFF000 = of_nat (seg_start ph) + of_nat k * 0x1000"
      then have e: "unat w div 4096 * 4096 = seg_start ph + 4096 * k"
        using page_addrs(1) [OF st, of "seg_pages ph" k] B(3) k unfolding frame_part [symmetric] su by simp
      have "unat w div 4096 * 4096 \<le> unat w" "unat w < unat w div 4096 * 4096 + 4096"
        using div_mult_mod_eq [of "unat w" 4096] mod_less_divisor [of 4096 "unat w"] by linarith+
      then show False using w k e by (auto simp: algebra_simps)
    qed
    then show ?thesis using t(4) unfolding seg_loaded_def by simp
  qed
  then show ?thesis using t seg_loaded_byte [OF t(4) st B(3)] by auto
qed

lemma demo_data_page:
  assumes "vm_ok 0x50000 0x51000 s" and "\<And>i. i < 1024 \<Longrightarrow> 0 < i \<Longrightarrow> wd (phys s) (0x50000 + 4 * i) = 0"
    and "g mod 4096 = 0" "g < 0x100000" "g \<noteq> 0x50000" "g \<noteq> 0x51000"
  shows "data_page 0x50000 s g"
proof -
  have "i = 0" if "i < 1024" "present (wd (phys s) (0x50000 + 4 * i))" for i
    using assms(2) [of i] that by (cases i) (auto simp: present_def)
  then show ?thesis
    using assms vm_okD(6) [OF assms(1)] low_not_free [OF vm_okD(4) [OF assms(1)], of g]
    by (auto simp: data_page_def)
qed

lemma demo_low_frames: "frames s = pmm_init sample_map boot_pmm \<Longrightarrow> card (low_frames s) = 3"
proof -
  assume f: "frames s = pmm_init sample_map boot_pmm"
  have "low_frames s = {0x100000, 0x101000, 0x102000}"
    unfolding low_frames_def pmm_frames_def f sample_frames by auto
  then show ?thesis by simp
qed

end
