(* ===== verification/Loader_Spec.thy ===== *)
theory Loader_Spec
  imports Elf_Spec
begin

text \<open>
  The address space and the kernel heap live in the same memory.  \<open>mach_ok\<close> says that both are well
  formed and do not overlap; heap calls and loader calls keep it.  The heap contract
  \<open>heap_service\<close> then also holds for the heap calls on the whole machine.
\<close>

unbundle bit_operations_syntax

section \<open>The combined invariant\<close>

definition slab :: "nat \<Rightarrow> nat \<Rightarrow> bool" where
  "slab hs y \<longleftrightarrow> hs \<le> y \<and> y < hs + 262144"

definition space_ok :: "nat \<Rightarrow> nat \<Rightarrow> nat \<Rightarrow> loader \<Rightarrow> bool" where
  "space_ok hs pd fpt s \<longleftrightarrow> vm_ok pd fpt (space s) \<and> boot_layout pd fpt \<and> hs + 262144 \<le> 0x100000 \<and>
     (hs + 262144 \<le> pd \<or> pd + 4096 \<le> hs) \<and> (hs + 262144 \<le> fpt \<or> fpt + 4096 \<le> hs) \<and>
     (\<forall>a \<in> owned pd (space s). a = of_nat fpt \<or> 0x100000 \<le> a)"

definition mach_ok :: "nat \<Rightarrow> nat \<Rightarrow> nat \<Rightarrow> loader \<Rightarrow> bool" where
  "mach_ok hs pd fpt s \<longleftrightarrow> (\<exists>bs. heap_rel hs (heap_view s) bs) \<and> space_ok hs pd fpt s"

text \<open>The blocks that clients of the heap hold, and a byte of physical memory.\<close>

definition blocks :: "loader \<Rightarrow> (nat \<times> nat) set" where
  "blocks s = live (heap_view s)"

definition mbyte :: "loader \<Rightarrow> nat \<Rightarrow> u8" where
  "mbyte s a = phys (space s) (of_nat a)"

definition mpoke :: "nat \<Rightarrow> u8 \<Rightarrow> loader \<Rightarrow> loader" where
  "mpoke a v s = s\<lparr>space := (space s)\<lparr>phys := (phys (space s))(of_nat a := v)\<rparr>\<rparr>"

text \<open>A step that only writes inside the slab.\<close>

definition heap_step :: "nat \<Rightarrow> loader \<Rightarrow> loader \<Rightarrow> bool" where
  "heap_step hs s s' \<longleftrightarrow> (\<exists>m h. s' = s\<lparr>space := (space s)\<lparr>phys := m\<rparr>, heap_head := h\<rparr> \<and>
     (\<forall>y < 4294967296. \<not> slab hs y \<longrightarrow> m (of_nat y) = phys (space s) (of_nat y)))"

text \<open>A sequence of steps that may stop the machine.\<close>

fun run_all :: "('a \<Rightarrow> 's \<Rightarrow> 's outcome) \<Rightarrow> 'a list \<Rightarrow> 's \<Rightarrow> 's outcome" where
  "run_all f [] s = Done s"
| "run_all f (x # xs) s = and_then (f x s) (run_all f xs)"

text \<open>
  The virtual pages an image records, and that each of them is backed by its own frame \<open>F v\<close>.
\<close>

definition seg_addrs :: "user_seg \<Rightarrow> u32 list" where
  "seg_addrs sg = map (\<lambda>k. vaddr sg + of_nat k * 0x1000) [0..<unat (pages sg)]"

definition image_pages :: "user_image \<Rightarrow> u32 list" where
  "image_pages im = concat (map (\<lambda>i. seg_addrs (segs im i)) [0..<seg_count im])"

definition pages_mapped :: "nat \<Rightarrow> vm \<Rightarrow> u32 list \<Rightarrow> (u32 \<Rightarrow> nat) \<Rightarrow> bool" where
  "pages_mapped pd s vs F \<longleftrightarrow> distinct vs \<and> inj_on F (set vs) \<and>
     (\<forall>v \<in> set vs. user_page pd s v (F v) \<and> v AND 0xFFF = 0 \<and> 0x400000 \<le> v)"

text \<open>
  What is in the pages of an image: the byte at offset \<open>j\<close> of page \<open>v\<close> is \<open>C v j\<close>.
\<close>

definition pages_hold :: "vm \<Rightarrow> u32 list \<Rightarrow> (u32 \<Rightarrow> nat) \<Rightarrow> (u32 \<Rightarrow> nat \<Rightarrow> u8) \<Rightarrow> bool" where
  "pages_hold s vs F C \<longleftrightarrow> (\<forall>v \<in> set vs. \<forall>j < 4096. phys s (of_nat (F v + j)) = C v j)"

definition new_seg :: "phdr \<Rightarrow> user_seg" where
  "new_seg ph = \<lparr>vaddr = of_nat (seg_start ph), pages = of_nat (seg_pages ph)\<rparr>"

definition add_seg :: "phdr \<Rightarrow> user_image \<Rightarrow> user_image" where
  "add_seg ph im = im\<lparr>seg_count := seg_count im + 1, segs := (segs im)(seg_count im := new_seg ph)\<rparr>"

text \<open>The program headers of a file in memory, and those that \<open>elf_load\<close> loads.\<close>

definition phdr_at :: "memory \<Rightarrow> nat \<Rightarrow> phdr" where
  "phdr_at m a = \<lparr>p_type = wd m a, p_offset = wd m (a + 4), p_vaddr = wd m (a + 8), p_filesz = wd m (a + 16),
     p_memsz = wd m (a + 20)\<rparr>"

definition loads_from :: "memory \<Rightarrow> nat \<Rightarrow> nat \<Rightarrow> nat \<Rightarrow> phdr list" where
  "loads_from m tab i n = filter (\<lambda>h. p_type h = PT_LOAD \<and> p_memsz h \<noteq> 0) (map (\<lambda>k. phdr_at m (tab + 32 * k)) [i..<n])"

definition loads_pages :: "phdr list \<Rightarrow> u32 list" where
  "loads_pages hs = concat (map (\<lambda>h. seg_addrs (new_seg h)) hs)"

text \<open>A segment that fits: inside the file, inside the user range, no larger in the file than in memory.\<close>

definition seg_fits :: "nat \<Rightarrow> phdr \<Rightarrow> bool" where
  "seg_fits sz h \<longleftrightarrow> user_range h \<and> unat (p_offset h) + unat (p_filesz h) \<le> sz \<and> unat (p_filesz h) \<le> unat (p_memsz h)"

text \<open>Every page of the given segments is mapped to a frame \<open>F v\<close> that holds its bytes.\<close>

definition segs_hold :: "vm \<Rightarrow> memory \<Rightarrow> u32 \<Rightarrow> phdr list \<Rightarrow> (u32 \<Rightarrow> nat) \<Rightarrow> bool" where
  "segs_hold s m file hs F \<longleftrightarrow> (\<forall>h \<in> set hs. \<forall>v \<in> set (seg_addrs (new_seg h)). \<forall>j < 4096.
     phys s (of_nat (F v + j)) = seg_byte m file h (unat v + j))"

text \<open>The fields of the file header that \<open>elf_load\<close> uses, for a file at address \<open>q\<close>.\<close>

definition hw :: "memory \<Rightarrow> nat \<Rightarrow> u16" where
  "hw m a = ucast (m (of_nat a)) OR push_bit 8 (ucast (m (of_nat (a + 1))))"

definition elf_table :: "memory \<Rightarrow> nat \<Rightarrow> nat" where
  "elf_table m q = q + unat (wd m (q + 28))"

definition elf_loads :: "memory \<Rightarrow> nat \<Rightarrow> phdr list" where
  "elf_loads m q = loads_from m (elf_table m q) 0 (unat (hw m (q + 44)))"

text \<open>
  A file that the loader can load: it is in a heap block, passes the header check, its program
  header table lies inside it, its segments fit and occupy different pages, and there are
  enough frames below 4 MiB for them.
\<close>

definition elf_fits :: "nat \<Rightarrow> u32 \<Rightarrow> loader \<Rightarrow> bool" where
  "elf_fits q sz s \<longleftrightarrow> (\<exists>z. (q, z) \<in> blocks s \<and> unat sz \<le> z) \<and>
     validate_ehdr (of_nat q) sz (space s) = Done True \<and>
     (let m = phys (space s); L = elf_loads m q in
      elf_table m q + 32 * unat (hw m (q + 44)) \<le> q + unat sz \<and> (\<forall>h \<in> set L. seg_fits (unat sz) h) \<and>
      length L \<le> MAX_USER_SEGMENTS \<and> distinct (loads_pages L) \<and>
      2 * sum_list (map seg_pages L) \<le> card (low_frames (space s)))"

section \<open>Heap writes keep the address space\<close>

lemma heap_rel_cong:
  assumes "heap_rel hs s bs" and "head t = head s" and "\<forall>y. slab hs y \<longrightarrow> mem t (of_nat y) = mem s (of_nat y)"
  shows "heap_rel hs t bs"
proof -
  have "seg (mem t) 0 hs bs 0 = seg (mem s) 0 hs bs 0"
  proof (rule seg_frame)
    fix y assume "y \<in> hdr_bytes hs bs"
    from hdr_bytes_bounds [OF this] show "mem t (of_nat y) = mem s (of_nat y)"
      using assms(1,3) by (auto simp: heap_rel_def slab_def)
  qed
  then show ?thesis using assms by (simp add: heap_rel_def)
qed

lemma mach_ok_space: "mach_ok hs pd fpt s \<Longrightarrow> space_ok hs pd fpt s"
  by (simp add: mach_ok_def)

lemma table_place:
  assumes "space_ok hs pd fpt s" and "i < 1024" and "present (wd (phys (space s)) (pd + 4 * i))"
  shows "tbl pd (phys (space s)) i = fpt \<or> 0x100000 \<le> tbl pd (phys (space s)) i"
proof -
  have V: "vm_ok pd fpt (space s)" using assms(1) by (simp add: space_ok_def)
  note T = vm_ok_table(2) [OF V assms(2,3)]
  have "of_nat (tbl pd (phys (space s)) i) \<in> owned pd (space s)" using assms(2,3) by (auto simp: owned_def)
  then have "(of_nat (tbl pd (phys (space s)) i) :: u32) = of_nat fpt \<or> 0x100000 \<le> (of_nat (tbl pd (phys (space s)) i) :: u32)"
    using assms(1) by (auto simp: space_ok_def)
  moreover have "fpt < 4294967296" using V by (auto simp: vm_ok_def id_window_def)
  ultimately show ?thesis using T of_nat_eq_iff32 [of "tbl pd (phys (space s)) i" fpt] by (auto simp: word_le_nat_alt)
qed

lemma space_step_keeps:
  assumes M: "space_ok hs pd fpt s" and H: "heap_step hs s s'"
  shows "vm_ok pd fpt (space s')" "mmu (space s') w = mmu (space s) w" "owned pd (space s') = owned pd (space s)"
    "data_page pd (space s') g = data_page pd (space s) g" "images s' = images s" "frames (space s') = frames (space s)"
    "handlers (space s') = handlers (space s)"
proof -
  from H obtain m h where m: "s' = s\<lparr>space := (space s)\<lparr>phys := m\<rparr>, heap_head := h\<rparr>"
    "\<And>y. y < 4294967296 \<Longrightarrow> \<not> slab hs y \<Longrightarrow> m (of_nat y) = phys (space s) (of_nat y)" by (auto simp: heap_step_def)
  have V: "vm_ok pd fpt (space s)" using M by (simp add: space_ok_def)
  have L: "hs + 262144 \<le> 0x100000" "hs + 262144 \<le> pd \<or> pd + 4096 \<le> hs" "hs + 262144 \<le> fpt \<or> fpt + 4096 \<le> hs"
    "pd + 4096 \<le> 0x100000" "fpt + 4096 \<le> 0x100000"
    using M by (auto simp: space_ok_def boot_layout_def)
  have 1: "\<forall>y. pd \<le> y \<and> y < pd + 4096 \<longrightarrow> m (of_nat y) = phys (space s) (of_nat y)"
    using L by (auto intro!: m(2) simp: slab_def)
  have 2: "\<forall>i y. i < 1024 \<and> present (wd (phys (space s)) (pd + 4 * i)) \<and> tbl pd (phys (space s)) i \<le> y \<and>
      y < tbl pd (phys (space s)) i + 4096 \<longrightarrow> m (of_nat y) = phys (space s) (of_nat y)"
  proof (intro allI impI, elim conjE)
    fix i y assume i: "i < 1024" "present (wd (phys (space s)) (pd + 4 * i))"
      and y: "tbl pd (phys (space s)) i \<le> y" "y < tbl pd (phys (space s)) i + 4096"
    show "m (of_nat y) = phys (space s) (of_nat y)"
      using table_place [OF M i] vm_ok_table(2) [OF V i] y L by (intro m(2)) (auto simp: slab_def)
  qed
  note T = tables_kept [OF V 1 2]
  show "vm_ok pd fpt (space s')" "mmu (space s') w = mmu (space s) w" "owned pd (space s') = owned pd (space s)"
    "data_page pd (space s') g = data_page pd (space s) g" "images s' = images s" "frames (space s') = frames (space s)"
    "handlers (space s') = handlers (space s)"
    using T by (simp_all add: m(1))
qed

lemmas heap_step_keeps = space_step_keeps [OF mach_ok_space]

lemma heap_step_outside:
  assumes "heap_step hs s s'" and "\<not> slab hs y" and "y < 4294967296"
  shows "mbyte s' y = mbyte s y"
proof -
  from assms(1) obtain m h where m: "s' = s\<lparr>space := (space s)\<lparr>phys := m\<rparr>, heap_head := h\<rparr>"
    "\<And>y. y < 4294967296 \<Longrightarrow> \<not> slab hs y \<Longrightarrow> m (of_nat y) = phys (space s) (of_nat y)" by (auto simp: heap_step_def)
  then show ?thesis using m(2) [OF assms(3,2)] by (simp add: mbyte_def)
qed

section \<open>The heap contract on the machine\<close>

lemma heap_view_back [simp]: "heap_view (heap_back s h) = h"
  by (simp add: heap_view_def heap_back_def)

lemma phys_back [simp]: "phys (space (heap_back s h)) = mem h"
  by (simp add: heap_back_def)

lemma heap_back_view [simp]: "heap_back s (heap_view s) = s"
  by (simp add: heap_view_def heap_back_def)

lemma heap_view_fields [simp]: "mem (heap_view s) = phys (space s)" "head (heap_view s) = heap_head s"
  by (simp_all add: heap_view_def)

lemma mach_ok_heap: "mach_ok hs pd fpt s \<Longrightarrow> heap_ok (heap_view s)"
  by (auto simp: mach_ok_def space_ok_def heap_ok_def)

lemma heap_back_step:
  assumes "\<And>y. untouched hs bs y \<Longrightarrow> mem h (of_nat y) = phys (space s) (of_nat y)"
  shows "heap_step hs s (heap_back s h)"
  unfolding heap_step_def heap_back_def using assms
  by (intro exI [of _ "mem h"] exI [of _ "head h"]) (auto simp: slab_def untouched_def not_le not_less)

lemma heap_back_ok:
  assumes M: "mach_ok hs pd fpt s" and H: "heap_step hs s (heap_back s h)" and R: "heap_rel hs h bs"
  shows "mach_ok hs pd fpt (heap_back s h)"
  using M R heap_step_keeps(1,3) [OF M H] by (auto simp: mach_ok_def space_ok_def)

lemma heap_step_refl [simp]: "heap_step hs s s"
  unfolding heap_step_def by (intro exI [of _ "phys (space s)"] exI [of _ "heap_head s"]) simp

lemma ld_malloc_ok:
  assumes M: "mach_ok hs pd fpt s"
  shows "\<exists>p h. kmalloc n (heap_view s) = Some (Done (p, h)) \<and> ld_malloc n s = Some (Done (p, heap_back s h)) \<and>
    mach_ok hs pd fpt (heap_back s h) \<and> heap_step hs s (heap_back s h)"
proof -
  from M obtain bs where R: "heap_rel hs (heap_view s) bs" by (auto simp: mach_ok_def space_ok_def)
  show ?thesis using R
  proof (cases rule: kmalloc_cases [where n = n])
    case none
    then show ?thesis using M by (auto simp: ld_malloc_def)
  next
    case (some k q bs' h)
    have H: "heap_step hs s (heap_back s h)" using some(5) by (intro heap_back_step) simp
    show ?thesis using some(1) H heap_back_ok [OF M H some(3)] by (auto simp: ld_malloc_def)
  qed
qed

lemma ld_free_ok:
  assumes M: "mach_ok hs pd fpt s" and L: "(p, z) \<in> blocks s"
  shows "\<exists>h. kfree (of_nat p) (heap_view s) = Done h \<and> ld_free (of_nat p) s = Done (heap_back s h) \<and>
    mach_ok hs pd fpt (heap_back s h) \<and> heap_step hs s (heap_back s h)"
proof -
  from M obtain bs where R: "heap_rel hs (heap_view s) bs" by (auto simp: mach_ok_def space_ok_def)
  have L': "(p, z) \<in> live_blocks hs bs" using L live_rel [OF R] by (simp add: blocks_def)
  obtain h where h: "kfree (of_nat p) (heap_view s) = Done h" "heap_rel hs h (heap_free p hs bs)"
    "live_blocks hs (heap_free p hs bs) = live_blocks hs bs - {(p, z)}"
    "\<And>y. untouched hs bs y \<Longrightarrow> mem h (of_nat y) = mem (heap_view s) (of_nat y)"
    by (rule kfree_rel [OF R L']) (rule that)
  have H: "heap_step hs s (heap_back s h)" using h(4) by (intro heap_back_step) simp
  show ?thesis using h(1) H heap_back_ok [OF M H h(2)] by (auto simp: ld_free_def)
qed

lemma block_in_slab:
  assumes "mach_ok hs pd fpt s" and "(p, z) \<in> blocks s"
  shows "hs + 20 \<le> p" "p + z \<le> hs + 262144"
proof -
  from assms(1) obtain bs where R: "heap_rel hs (heap_view s) bs" by (auto simp: mach_ok_def space_ok_def)
  have "(p, z) \<in> live_blocks hs bs" using assms(2) live_rel [OF R] by (simp add: blocks_def)
  from live_blocks_bounds [OF this] show "hs + 20 \<le> p" "p + z \<le> hs + 262144" using R by (auto simp: heap_rel_def)
qed

lemma blocks_unique:
  assumes "mach_ok hs pd fpt s" and "(p, z) \<in> blocks s" and "(p, y) \<in> blocks s"
  shows "y = z"
proof -
  from assms(1) obtain bs where R: "heap_rel hs (heap_view s) bs" by (auto simp: mach_ok_def)
  show ?thesis
    using live_blocks_disjoint [of p z hs bs p y] assms(2,3) live_rel [OF R] by (simp add: blocks_def)
qed

lemma mbyte_view: "mbyte s a = heap_byte (heap_view s) a"
  by (simp add: mbyte_def heap_byte_def)

lemma mpoke_view: "heap_view (mpoke a v s) = poke a v (heap_view s)"
  by (simp add: heap_view_def mpoke_def poke_def)

lemma mpoke_ok:
  assumes M: "mach_ok hs pd fpt s" and L: "(p, z) \<in> blocks s" and i: "i < z"
  shows "mach_ok hs pd fpt (mpoke (p + i) v s)" "heap_step hs s (mpoke (p + i) v s)"
proof -
  from M obtain bs where R: "heap_rel hs (heap_view s) bs" by (auto simp: mach_ok_def space_ok_def)
  have L': "(p, z) \<in> live_blocks hs bs" using L live_rel [OF R] by (simp add: blocks_def)
  have sl: "slab hs (p + i)" "p + i < 4294967296" using block_in_slab [OF M L] i M by (auto simp: slab_def mach_ok_def space_ok_def)
  show H: "heap_step hs s (mpoke (p + i) v s)"
    unfolding heap_step_def mpoke_def
  proof (intro exI [of _ "(phys (space s))(of_nat (p + i) := v)"] exI [of _ "heap_head s"] conjI allI impI)
    fix y :: nat assume y: "y < 4294967296" "\<not> slab hs y"
    then have "y \<noteq> p + i" using sl(1) by auto
    then show "((phys (space s))(of_nat (p + i) := v)) (of_nat y) = phys (space s) (of_nat y)"
      using of_nat_eq_iff32 [OF y(1) sl(2)] by (simp del: of_nat_add)
  qed simp
  have "heap_rel hs (heap_view (mpoke (p + i) v s)) bs"
    unfolding mpoke_view by (rule poke_rel [OF R L' i])
  then show "mach_ok hs pd fpt (mpoke (p + i) v s)"
    using M heap_step_keeps(1,3) [OF M H] by (auto simp: mach_ok_def space_ok_def)
qed

interpretation lh: heap_service "mach_ok hs pd fpt" blocks mbyte ld_malloc ld_free mpoke for hs pd fpt
proof unfold_locales
  fix s n assume M: "mach_ok hs pd fpt s"
  obtain p h where h: "kmalloc n (heap_view s) = Some (Done (p, h))" "ld_malloc n s = Some (Done (p, heap_back s h))"
    "mach_ok hs pd fpt (heap_back s h)" using ld_malloc_ok [OF M] by blast
  note A = kh.alloc_result [OF mach_ok_heap [OF M] h(1)]
  show "\<exists>p s'. ld_malloc n s = Some (Done (p, s')) \<and> mach_ok hs pd fpt s' \<and> (p = 0 \<longrightarrow> s' = s) \<and>
      (p \<noteq> 0 \<longrightarrow> (\<exists>z. unat p \<notin> fst ` blocks s \<and> blocks s' = insert (unat p, z) (blocks s) \<and>
                      (n \<le> 0xFFFFFFF8 \<longrightarrow> unat n \<le> z))) \<and>
      (\<forall>q y i. (q, y) \<in> blocks s \<longrightarrow> i < y \<longrightarrow> mbyte s' (q + i) = mbyte s (q + i))"
    using h A by (intro exI [of _ p] exI [of _ "heap_back s h"])
      (auto simp: blocks_def mbyte_def heap_byte_def simp del: of_nat_add)
next
  fix s p z assume M: "mach_ok hs pd fpt s" and L: "(p, z) \<in> blocks s"
  obtain h where h: "kfree (of_nat p) (heap_view s) = Done h" "ld_free (of_nat p) s = Done (heap_back s h)"
    "mach_ok hs pd fpt (heap_back s h)" using ld_free_ok [OF M L] by blast
  show "\<exists>s'. ld_free (of_nat p) s = Done s' \<and> mach_ok hs pd fpt s' \<and> blocks s' = blocks s - {(p, z)} \<and>
      (\<forall>q y i. (q, y) \<in> blocks s \<longrightarrow> i < y \<longrightarrow> mbyte s' (q + i) = mbyte s (q + i))"
    using h kh.release_law [OF mach_ok_heap [OF M], of p z] L
    by (auto simp: blocks_def mbyte_def heap_byte_def simp del: of_nat_add)
next
  fix s p z i v assume M: "mach_ok hs pd fpt s" and L: "(p, z) \<in> blocks s" and i: "i < z"
  show "mach_ok hs pd fpt (mpoke (p + i) v s) \<and> blocks (mpoke (p + i) v s) = blocks s \<and>
      (\<forall>a < 4294967296. mbyte (mpoke (p + i) v s) a = (if a = p + i then v else mbyte s a))"
    using mpoke_ok(1) [OF M L i] kh.write_law [OF mach_ok_heap [OF M], of p z i v] L i
    unfolding blocks_def mbyte_view mpoke_view by simp
next
  fix s p z assume M: "mach_ok hs pd fpt s" and L: "(p, z) \<in> blocks s"
  show "0 < p \<and> p + z < 4294967296" using kh.live_range [OF mach_ok_heap [OF M]] L by (simp add: blocks_def)
next
  fix s p z q y assume M: "mach_ok hs pd fpt s" and L: "(p, z) \<in> blocks s" "(q, y) \<in> blocks s"
  show "p = q \<and> z = y \<or> p + z \<le> q \<or> q + y \<le> p"
    using kh.live_apart [OF mach_ok_heap [OF M]] L by (simp add: blocks_def)
qed

section \<open>Unloading an image\<close>

lemma run_all_append: "run_all f (xs @ ys) = (\<lambda>s. and_then (run_all f xs s) (run_all f ys))"
  by (induction xs) (rule ext; simp add: and_then_assoc)+

lemma for_range_run_all: "for_range 0 n (\<lambda>i r. and_then r (f i)) (Done s) = run_all f [0..<n] s"
proof -
  have "fold (\<lambda>i r. and_then r (f i)) xs r = and_then r (run_all f xs)" for xs and r
  proof (induction xs arbitrary: r)
    case Nil
    then show ?case by (cases r) simp_all
  next
    case (Cons x xs)
    then show ?case by (cases r) simp_all
  qed
  then show ?thesis by (simp add: for_range_fold)
qed

lemma run_all_concat: "run_all (\<lambda>i. run_all f (g i)) is = run_all f (concat (map g is))"
  by (induction "is") (rule ext; simp add: run_all_append)+

lemma run_all_map: "run_all f (map g xs) = run_all (\<lambda>x. f (g x)) xs"
  by (induction xs) (rule ext; simp)+

lemma unload_seg_pages: "unload_seg pd sg = run_all (unload_page pd) (seg_addrs sg)"
  by (auto simp: fun_eq_iff unload_seg_def seg_addrs_def for_range_run_all run_all_map)

lemma elf_unload_pages:
  "img \<noteq> 0 \<Longrightarrow> images s img = Some im \<Longrightarrow> elf_unload pd img s =
     and_then (run_all (unload_page pd) (image_pages im) (space s))
       (\<lambda>v. ld_free img (s\<lparr>space := v, images := (images s)(img := None)\<rparr>))"
  by (simp add: elf_unload_def for_range_run_all unload_seg_pages image_pages_def run_all_concat)

lemma unload_pages_ok:
  assumes "vm_ok pd fpt s" and "pages_mapped pd s vs F"
  shows "\<exists>s'. run_all (unload_page (of_nat pd)) vs s = Done s' \<and> vm_ok pd fpt s' \<and>
    pmm_frames (frames s') = (\<lambda>v. of_nat (F v)) ` set vs \<union> pmm_frames (frames s) \<and>
    owned pd s' = (\<lambda>v. of_nat (F v)) ` set vs \<union> owned pd s \<and>
    (\<forall>w. mmu s' w = (if w AND 0xFFFFF000 \<in> set vs then None else mmu s w)) \<and>
    (\<forall>g. data_page pd s g \<and> g \<notin> F ` set vs \<longrightarrow> data_page pd s' g \<and>
       (\<forall>y. g \<le> y \<and> y < g + 4096 \<longrightarrow> phys s' (of_nat y) = phys s (of_nat y)))"
  using assms
proof (induction vs arbitrary: s)
  case Nil
  then show ?case by simp
next
  case (Cons v vs)
  have v: "user_page pd s v (F v)" "v AND 0xFFF = 0" "0x400000 \<le> v" "v \<notin> set vs" "F v \<notin> F ` set vs"
    using Cons.prems(2) by (auto simp: pages_mapped_def)
  obtain s1 where s1: "unload_page (of_nat pd) v s = Done s1" "vm_ok pd fpt s1"
    "pmm_frames (frames s1) = insert (of_nat (F v)) (pmm_frames (frames s))"
    "owned pd s1 = insert (of_nat (F v)) (owned pd s)"
    "\<And>w. mmu s1 w = (if w AND 0xFFFFF000 = v then None else mmu s w)"
    "\<And>g. data_page pd s g \<Longrightarrow> g \<noteq> F v \<Longrightarrow> data_page pd s1 g"
    "\<And>g y. data_page pd s g \<Longrightarrow> g \<le> y \<Longrightarrow> y < g + 4096 \<Longrightarrow> phys s1 (of_nat y) = phys s (of_nat y)"
    by (rule unload_page_ok [OF Cons.prems(1) v(1-3)]) (rule that)
  have "user_page pd s1 u (F u)" if u: "u \<in> set vs" for u
  proof -
    have "F u \<noteq> F v" using v(5) u by (metis imageI)
    moreover have "user_page pd s u (F u)" "u AND 0xFFF = 0" "u \<noteq> v"
      using Cons.prems(2) u v(4) by (auto simp: pages_mapped_def)
    ultimately show ?thesis using s1(5,6) page_plus(2) [of u] by (simp add: user_page_def)
  qed
  then have "pages_mapped pd s1 vs F" using Cons.prems(2) by (auto simp: pages_mapped_def)
  from Cons.IH [OF s1(2) this] obtain s' where s': "run_all (unload_page (of_nat pd)) vs s1 = Done s'" "vm_ok pd fpt s'"
    "pmm_frames (frames s') = (\<lambda>v. of_nat (F v)) ` set vs \<union> pmm_frames (frames s1)"
    "owned pd s' = (\<lambda>v. of_nat (F v)) ` set vs \<union> owned pd s1"
    "\<forall>w. mmu s' w = (if w AND 0xFFFFF000 \<in> set vs then None else mmu s1 w)"
    "\<forall>g. data_page pd s1 g \<and> g \<notin> F ` set vs \<longrightarrow> data_page pd s' g \<and>
       (\<forall>y. g \<le> y \<and> y < g + 4096 \<longrightarrow> phys s' (of_nat y) = phys s1 (of_nat y))" by blast
  show ?case
  proof (intro exI [of _ s'] conjI allI impI)
    fix g assume g: "data_page pd s g \<and> g \<notin> F ` set (v # vs)"
    then have g1: "data_page pd s1 g" "g \<notin> F ` set vs" using s1(6) by auto
    then show "data_page pd s' g" using s'(6) by blast
    show "phys s' (of_nat y) = phys s (of_nat y)" if "g \<le> y \<and> y < g + 4096" for y
      using s'(6) g1 that s1(7) [of g y] g by simp
  qed (use s1 s' in \<open>simp_all\<close>)
qed

lemma slab_data_page:
  assumes M: "mach_ok hs pd fpt s" and y: "slab hs y"
  shows "data_page pd (space s) (y - y mod 4096)" "y - y mod 4096 \<le> y" "y < y - y mod 4096 + 4096" "y - y mod 4096 < 0x100000"
proof -
  let ?g = "y - y mod 4096"
  have V: "vm_ok pd fpt (space s)" using M by (simp add: mach_ok_def space_ok_def)
  have L: "hs + 262144 \<le> 0x100000" "hs + 262144 \<le> pd \<or> pd + 4096 \<le> hs" "hs + 262144 \<le> fpt \<or> fpt + 4096 \<le> hs"
    using M by (auto simp: mach_ok_def space_ok_def)
  show a: "?g \<le> y" "y < ?g + 4096" using mod_less_divisor [of 4096 y] by auto
  show b: "?g < 0x100000" using a(1) y L(1) unfolding slab_def by linarith
  have "?g \<noteq> pd" "?g \<noteq> fpt" using a y L by (auto simp: slab_def)
  moreover have "tbl pd (phys (space s)) i \<noteq> ?g" if "i < 1024" "present (wd (phys (space s)) (pd + 4 * i))" for i
    using table_place [OF mach_ok_space [OF M] that] b \<open>?g \<noteq> fpt\<close> by auto
  moreover have "of_nat ?g \<notin> pmm_frames (frames (space s))" using low_not_free [OF vm_okD(4) [OF V] b] .
  ultimately show "data_page pd (space s) ?g" using b by (simp add: data_page_def minus_mod_eq_mult_div)
qed

text \<open>\<open>elf_unload\<close> of a mapped image: every frame goes back, every page is unmapped, the image structure is freed.\<close>

lemma elf_unload_ok:
  assumes M: "mach_ok hs pd fpt s" and im: "images s (of_nat p) = Some im" and L: "(p, z) \<in> blocks s"
    and F: "pages_mapped pd (space s) (image_pages im) F"
  obtains s' where "elf_unload (of_nat pd) (of_nat p) s = Done s'" "mach_ok hs pd fpt s'"
    "blocks s' = blocks s - {(p, z)}" "images s' = (images s)(of_nat p := None)"
    "pmm_frames (frames (space s')) = (\<lambda>v. of_nat (F v)) ` set (image_pages im) \<union> pmm_frames (frames (space s))"
    "owned pd (space s') = (\<lambda>v. of_nat (F v)) ` set (image_pages im) \<union> owned pd (space s)"
    "\<And>w. mmu (space s') w = (if w AND 0xFFFFF000 \<in> set (image_pages im) then None else mmu (space s) w)"
    "\<And>g. data_page pd (space s) g \<Longrightarrow> g \<notin> F ` set (image_pages im) \<Longrightarrow> data_page pd (space s') g"
    "\<And>q y i. (q, y) \<in> blocks s \<Longrightarrow> i < y \<Longrightarrow> mbyte s' (q + i) = mbyte s (q + i)"
    "\<And>g y. data_page pd (space s) g \<Longrightarrow> g \<notin> F ` set (image_pages im) \<Longrightarrow> g \<le> y \<Longrightarrow> y < g + 4096 \<Longrightarrow>
       \<not> slab hs y \<Longrightarrow> mbyte s' y = mbyte s y"
proof -
  let ?vs = "image_pages im"
  have V: "vm_ok pd fpt (space s)" using M by (simp add: mach_ok_def space_ok_def)
  from unload_pages_ok [OF V F] obtain t where t: "run_all (unload_page (of_nat pd)) ?vs (space s) = Done t" "vm_ok pd fpt t"
    "pmm_frames (frames t) = (\<lambda>v. of_nat (F v)) ` set ?vs \<union> pmm_frames (frames (space s))"
    "owned pd t = (\<lambda>v. of_nat (F v)) ` set ?vs \<union> owned pd (space s)"
    "\<forall>w. mmu t w = (if w AND 0xFFFFF000 \<in> set ?vs then None else mmu (space s) w)"
    "\<forall>g. data_page pd (space s) g \<and> g \<notin> F ` set ?vs \<longrightarrow> data_page pd t g \<and>
       (\<forall>y. g \<le> y \<and> y < g + 4096 \<longrightarrow> phys t (of_nat y) = phys (space s) (of_nat y))" by blast
  let ?s1 = "s\<lparr>space := t, images := (images s)(of_nat p := None)\<rparr>"
  have hi: "0x100000 \<le> F v" if "v \<in> set ?vs" for v using F that by (simp add: pages_mapped_def user_page_def)
  have hi32: "0x100000 \<le> (of_nat (F v) :: u32)" if "v \<in> set ?vs" for v
    using user_page_facts(5) [OF V, of v "F v"] F that by (simp add: pages_mapped_def)
  have sl: "phys t (of_nat y) = phys (space s) (of_nat y)" if y: "slab hs y" for y
  proof -
    note g = slab_data_page [OF M y]
    have "y - y mod 4096 \<notin> F ` set ?vs" using g(4) hi by fastforce
    then show ?thesis using t(6) g(1-3) by blast
  qed
  obtain bs where R: "heap_rel hs (heap_view s) bs" using M by (auto simp: mach_ok_def space_ok_def)
  have R1: "heap_rel hs (heap_view ?s1) bs" using sl by (intro heap_rel_cong [OF R]) auto
  have M1: "mach_ok hs pd fpt ?s1"
    using M R1 t(2) hi32 by (auto simp: mach_ok_def space_ok_def t(4))
  have b1: "blocks ?s1 = blocks s" using live_rel [OF R] live_rel [OF R1] by (simp add: blocks_def)
  have by1: "mbyte ?s1 (q + i) = mbyte s (q + i)" if "(q, y) \<in> blocks s" "i < y" for q y i
    using block_in_slab [OF M that(1)] that(2) sl [of "q + i"] by (simp add: mbyte_def slab_def)
  have pn: "of_nat p \<noteq> (0 :: u32)" using lh.live_range [OF M L] by (intro of_nat_nonzero) auto
  have L1: "(p, z) \<in> blocks ?s1" using L b1 by simp
  obtain h where h: "ld_free (of_nat p) ?s1 = Done (heap_back ?s1 h)" "mach_ok hs pd fpt (heap_back ?s1 h)"
    "heap_step hs ?s1 (heap_back ?s1 h)" using ld_free_ok [OF M1 L1] by blast
  have rel: "blocks (heap_back ?s1 h) = blocks s - {(p, z)}"
    "\<And>q y i. (q, y) \<in> blocks s \<Longrightarrow> i < y \<Longrightarrow> mbyte (heap_back ?s1 h) (q + i) = mbyte s (q + i)"
    using lh.release_law [OF M1 L1] h(1) b1 by1 by auto
  note K = heap_step_keeps [OF M1 h(3)]
  have out: "mbyte (heap_back ?s1 h) y = mbyte ?s1 y" if "\<not> slab hs y" "y < 4294967296" for y
    by (rule heap_step_outside [OF h(3) that])
  show thesis
  proof (rule that [of "heap_back ?s1 h"])
    show "elf_unload (of_nat pd) (of_nat p) s = Done (heap_back ?s1 h)"
      using elf_unload_pages [OF pn im] t(1) h(1) by simp
    show "mbyte (heap_back ?s1 h) y = mbyte s y"
      if g: "data_page pd (space s) g" "g \<notin> F ` set ?vs" "g \<le> y" "y < g + 4096" "\<not> slab hs y" for g y
    proof -
      have "phys t (of_nat y) = phys (space s) (of_nat y)" using t(6) g by blast
      moreover have "y < 4294967296" using g(1,4) by (simp add: data_page_def)
      ultimately show ?thesis using out [of y] g by (simp add: mbyte_def)
    qed
  qed (use h(2) rel K t in \<open>simp_all\<close>)
qed

section \<open>Adding a segment to an image\<close>

lemma space_change_ok:
  assumes M: "mach_ok hs pd fpt s" and V: "vm_ok pd fpt t" and K: "keeps_pages pd (space s) t"
    and O: "owned pd t \<subseteq> owned pd (space s)"
  shows "mach_ok hs pd fpt (s\<lparr>space := t, images := g\<rparr>)" "blocks (s\<lparr>space := t, images := g\<rparr>) = blocks s"
    "slab hs y \<Longrightarrow> phys t (of_nat y) = phys (space s) (of_nat y)"
proof -
  have sl: "phys t (of_nat y) = phys (space s) (of_nat y)" if "slab hs y" for y
    using slab_data_page [OF M that] K unfolding keeps_pages_def by blast
  then show "slab hs y \<Longrightarrow> phys t (of_nat y) = phys (space s) (of_nat y)" .
  obtain bs where R: "heap_rel hs (heap_view s) bs" using M by (auto simp: mach_ok_def space_ok_def)
  have R1: "heap_rel hs (heap_view (s\<lparr>space := t, images := g\<rparr>)) bs" using sl by (intro heap_rel_cong [OF R]) auto
  show "mach_ok hs pd fpt (s\<lparr>space := t, images := g\<rparr>)" using M R1 V O by (auto simp: mach_ok_def space_ok_def)
  show "blocks (s\<lparr>space := t, images := g\<rparr>) = blocks s" using live_rel [OF R] live_rel [OF R1] by (simp add: blocks_def)
qed

lemma image_pages_add: "image_pages (add_seg ph im) = image_pages im @ seg_addrs (new_seg ph)"
proof -
  have "concat (map (\<lambda>i. seg_addrs (if i = seg_count im then new_seg ph else segs im i)) [0..<seg_count im]) =
      concat (map (\<lambda>i. seg_addrs (segs im i)) [0..<seg_count im])"
    by (rule arg_cong [where f = concat], rule map_cong) auto
  then show ?thesis by (simp add: image_pages_def add_seg_def)
qed

lemma new_addrs:
  assumes "user_range ph"
  shows "seg_addrs (new_seg ph) = map (\<lambda>k. of_nat (seg_start ph) + of_nat k * 0x1000) [0..<seg_pages ph]"
    and "k < seg_pages ph \<Longrightarrow> unat (of_nat (seg_start ph) + of_nat k * 0x1000 :: u32) = seg_start ph + 4096 * k"
    and "v \<in> set (seg_addrs (new_seg ph)) \<Longrightarrow> v AND 0xFFF = 0 \<and> 0x400000 \<le> v"
    and "distinct (seg_addrs (new_seg ph))"
proof -
  note B = seg_bounds [OF assms]
  have st: "(of_nat (seg_start ph) :: u32) AND 0xFFF = 0" using B(6) word_of_unat [OF B(1)] by simp
  have su: "unat (of_nat (seg_start ph) :: u32) = seg_start ph" using B(3) by simp
  have pa: "unat (of_nat (seg_start ph) + of_nat k * 0x1000 :: u32) = seg_start ph + 4096 * k"
    "(of_nat (seg_start ph) + of_nat k * 0x1000 :: u32) AND 0xFFF = 0" if "k < seg_pages ph" for k
    using page_addrs [OF st _ that] B(3) unfolding su by auto
  have n: "unat (of_nat (seg_pages ph) :: u32) = seg_pages ph" using B(3) by simp
  show e: "seg_addrs (new_seg ph) = map (\<lambda>k. of_nat (seg_start ph) + of_nat k * 0x1000) [0..<seg_pages ph]"
    by (simp add: seg_addrs_def new_seg_def n)
  show "unat (of_nat (seg_start ph) + of_nat k * 0x1000 :: u32) = seg_start ph + 4096 * k" if "k < seg_pages ph"
    by (rule pa(1) [OF that])
  show "v AND 0xFFF = 0 \<and> 0x400000 \<le> v" if "v \<in> set (seg_addrs (new_seg ph))"
    using that pa B(4) unfolding e by (auto simp: word_le_nat_alt)
  show "distinct (seg_addrs (new_seg ph))"
    unfolding e distinct_map using pa(1) by (auto simp: inj_on_def) (metis add_left_cancel mult_left_cancel zero_neq_numeral)
qed

lemma pages_mapped_kept:
  assumes P: "pages_mapped pd s vs F" and K: "keeps_pages pd s t" and mm: "\<forall>w. w AND 0xFFFFF000 \<in> set vs \<longrightarrow> mmu t w = mmu s w"
  shows "pages_mapped pd t vs F" and "pages_hold s vs F C \<Longrightarrow> pages_hold t vs F C"
proof -
  have k: "user_page pd t v (F v)" "j < 4096 \<Longrightarrow> phys t (of_nat (F v + j)) = phys s (of_nat (F v + j))" if "v \<in> set vs" for v j
    using user_page_kept [of pd s v "F v" t] P K mm that by (auto simp: pages_mapped_def)
  show "pages_mapped pd t vs F" using P k(1) by (simp add: pages_mapped_def)
  show "pages_hold s vs F C \<Longrightarrow> pages_hold t vs F C" using k(2) by (simp add: pages_hold_def)
qed

lemma seg_loaded_mapped:
  assumes L: "seg_loaded pd file ph (of_nat (seg_start ph)) 0 (seg_pages ph) F s t" and u: "user_range ph"
    and G_def: "\<forall>v. G v = F ((unat v - seg_start ph) div 4096)"
  shows "pages_mapped pd t (seg_addrs (new_seg ph)) G"
    and "pages_hold t (seg_addrs (new_seg ph)) G (\<lambda>v j. seg_byte (phys s) file ph (unat v + j))"
    and "(\<lambda>v. of_nat (G v) :: u32) ` set (seg_addrs (new_seg ph)) = (\<lambda>k. of_nat (F k)) ` {0..<seg_pages ph}"
    and "v \<in> set (seg_addrs (new_seg ph)) \<Longrightarrow> of_nat (G v) \<in> pmm_frames (frames s)"
    and "\<forall>w. w AND 0xFFFFF000 \<notin> set (seg_addrs (new_seg ph)) \<longrightarrow> mmu t w = mmu s w"
proof -
  note N = new_addrs [OF u]
  let ?v = "\<lambda>k. of_nat (seg_start ph) + of_nat k * 0x1000 :: u32"
  have G: "G (?v k) = F k" if "k < seg_pages ph" for k using N(2) [OF that] by (simp add: G_def)
  have set: "set (seg_addrs (new_seg ph)) = ?v ` {0..<seg_pages ph}" by (simp add: N(1))
  have su: "unat (of_nat (seg_start ph) :: u32) = seg_start ph" using seg_bounds(3) [OF u] by simp
  have inj: "inj_on ?v {0..<seg_pages ph}" using N(4) unfolding N(1) distinct_map by simp
  have "inj_on G (?v ` {0..<seg_pages ph})"
    using L G unfolding seg_loaded_def inj_on_def by auto
  then show "pages_mapped pd t (seg_addrs (new_seg ph)) G"
    using L G N(3,4) unfolding pages_mapped_def set seg_loaded_def by auto
  show "pages_hold t (seg_addrs (new_seg ph)) G (\<lambda>v j. seg_byte (phys s) file ph (unat v + j))"
    using L G N(2) unfolding pages_hold_def set seg_loaded_def su by auto
  show "(\<lambda>v. of_nat (G v) :: u32) ` set (seg_addrs (new_seg ph)) = (\<lambda>k. of_nat (F k)) ` {0..<seg_pages ph}"
    unfolding set image_image using G by (intro image_cong) auto
  show "of_nat (G v) \<in> pmm_frames (frames s)" if "v \<in> set (seg_addrs (new_seg ph))"
    using that L G unfolding set seg_loaded_def by auto
  show "\<forall>w. w AND 0xFFFFF000 \<notin> set (seg_addrs (new_seg ph)) \<longrightarrow> mmu t w = mmu s w"
  proof (intro allI impI)
    fix w assume "w AND 0xFFFFF000 \<notin> set (seg_addrs (new_seg ph))"
    then have "\<forall>k. 0 \<le> k \<and> k < seg_pages ph \<longrightarrow> w AND 0xFFFFF000 \<noteq> ?v k" unfolding set by (metis imageI atLeastLessThan_iff)
    then show "mmu t w = mmu s w" using L unfolding seg_loaded_def by blast
  qed
qed

text \<open>
  One segment: the image grows by the segment's pages, which hold the segment's bytes; the pages
  it had are unchanged, and so is the heap.
\<close>

lemma add_segment_ok:
  assumes M: "mach_ok hs pd fpt s" and im: "images s img = Some im" "seg_count im < MAX_USER_SEGMENTS"
    and u: "user_range ph" and fl: "file_low file ph" and fp: "file_pages pd file ph (space s)"
    and c: "2 * seg_pages ph \<le> card (low_frames (space s))"
    and P: "pages_mapped pd (space s) (image_pages im) F" and C: "pages_hold (space s) (image_pages im) F C"
    and dj: "set (seg_addrs (new_seg ph)) \<inter> set (image_pages im) = {}"
  obtains s' F' where "load_segment (of_nat pd) file ph img s = Done (0, s')" "mach_ok hs pd fpt s'" "blocks s' = blocks s"
    "images s' = (images s)(img \<mapsto> add_seg ph im)" "pages_mapped pd (space s') (image_pages (add_seg ph im)) F'"
    "pages_hold (space s') (image_pages (add_seg ph im)) F'
       (\<lambda>v j. if v \<in> set (image_pages im) then C v j else seg_byte (phys (space s)) file ph (unat v + j))"
    "\<And>y. slab hs y \<Longrightarrow> mbyte s' y = mbyte s y" "keeps_pages pd (space s) (space s')"
    "card (low_frames (space s)) \<le> card (low_frames (space s')) + 2 * seg_pages ph"
    "\<And>w. w AND 0xFFFFF000 \<notin> set (seg_addrs (new_seg ph)) \<Longrightarrow> mmu (space s') w = mmu (space s) w"
    "owned pd (space s') \<union> (\<lambda>v. of_nat (F' v)) ` set (seg_addrs (new_seg ph)) = owned pd (space s)"
    "\<And>v. v \<in> set (image_pages im) \<Longrightarrow> F' v = F v"
proof -
  have V: "vm_ok pd fpt (space s)" using M by (simp add: mach_ok_def space_ok_def)
  obtain t Fk where t: "load_segment (of_nat pd) file ph img s =
      Done (0, s\<lparr>space := t, images := (images s)(img \<mapsto>
        im\<lparr>seg_count := seg_count im + 1,
            segs := (segs im)(seg_count im := \<lparr>vaddr = of_nat (seg_start ph), pages = of_nat (seg_pages ph)\<rparr>)\<rparr>)\<rparr>)"
    "vm_ok pd fpt t" "keeps_pages pd (space s) t"
    "seg_loaded pd file ph (of_nat (seg_start ph)) 0 (seg_pages ph) Fk (space s) t"
    "card (low_frames (space s)) \<le> card (low_frames t) + 2 * seg_pages ph"
    by (rule load_segment_ok [OF V im u fl fp c]) (rule that)
  define G where "G = (\<lambda>v :: u32. Fk ((unat v - seg_start ph) div 4096))"
  have "\<forall>v. G v = Fk ((unat v - seg_start ph) div 4096)" by (simp add: G_def)
  note L = seg_loaded_mapped [OF t(4) u this]
  let ?s' = "s\<lparr>space := t, images := (images s)(img \<mapsto> add_seg ph im)\<rparr>"
  let ?vs = "image_pages im" and ?ws = "seg_addrs (new_seg ph)"
  define F' where "F' = (\<lambda>v. if v \<in> set ?vs then F v else G v)"
  have own: "owned pd t = owned pd (space s) - (\<lambda>v. of_nat (G v)) ` set ?ws"
    using t(4) unfolding L(3) seg_loaded_def by blast
  have sub: "(\<lambda>v. of_nat (G v)) ` set ?ws \<subseteq> owned pd (space s)" using L(4) by (auto simp: owned_def)
  have ow: "owned pd t \<subseteq> owned pd (space s)" using own by auto
  note S = space_change_ok [OF M t(2,3) ow]
  have mm: "\<forall>w. w AND 0xFFFFF000 \<in> set ?vs \<longrightarrow> mmu t w = mmu (space s) w" using L(5) dj by blast
  note K = pages_mapped_kept [OF P t(3) mm]
  have G': "F' v = G v" if "v \<in> set ?ws" for v using that dj by (auto simp: F'_def)
  have cross: "F v \<noteq> G w" if "v \<in> set ?vs" "w \<in> set ?ws" for v w
    using P L(4) that by (auto simp: pages_mapped_def user_page_def data_page_def)
  have vF: "F' v = F v" if "v \<in> set ?vs" for v using that by (simp add: F'_def)
  have "inj_on F' (set ?vs)" "inj_on F' (set ?ws)"
    using P L(1) inj_on_cong [of "set ?vs" F' F] inj_on_cong [of "set ?ws" F' G] vF G' by (auto simp: pages_mapped_def)
  moreover have "F' ` set ?vs \<inter> F' ` set ?ws = {}" using cross vF G' by auto
  ultimately have "inj_on F' (set (?vs @ ?ws))" by (auto simp: inj_on_Un)
  then have pm: "pages_mapped pd t (image_pages (add_seg ph im)) F'"
    using K(1) L(1) dj vF G' unfolding image_pages_add pages_mapped_def by auto
  have ph: "pages_hold t (image_pages (add_seg ph im)) F'
      (\<lambda>v j. if v \<in> set ?vs then C v j else seg_byte (phys (space s)) file ph (unat v + j))"
    using K(2) [OF C] L(2) dj vF G' unfolding image_pages_add pages_hold_def by auto
  show thesis
  proof (rule that [of ?s' F'])
    show "load_segment (of_nat pd) file ph img s = Done (0, ?s')" using t(1) by (simp add: add_seg_def new_seg_def)
    show "owned pd (space ?s') \<union> (\<lambda>v. of_nat (F' v)) ` set ?ws = owned pd (space s)"
      using own sub G' by auto
    show "mbyte ?s' y = mbyte s y" if "slab hs y" for y using S(3) that by (simp add: mbyte_def)
  qed (use S(1,2) pm ph t(3,5) L(5) vF in simp_all)
qed

section \<open>The program-header loop\<close>

lemma seg_byte_cong:
  assumes "\<forall>y. unat file \<le> y \<and> y < unat file + sz \<longrightarrow> m' (of_nat y) = m (of_nat y)" and "seg_fits sz h"
  shows "seg_byte m' file h a = seg_byte m file h a"
proof (cases "unat (p_vaddr h) \<le> a \<and> a < unat (p_vaddr h) + unat (p_filesz h)")
  case True
  define y where "y = unat file + unat (p_offset h) + (a - unat (p_vaddr h))"
  have "unat file \<le> y \<and> y < unat file + sz" using True assms(2) by (auto simp: y_def seg_fits_def)
  then have "m' (of_nat y) = m (of_nat y)" using assms(1) by blast
  then show ?thesis using True unfolding seg_byte_def y_def by simp
qed (auto simp: seg_byte_def)

lemma wd_slab:
  assumes "\<forall>y. slab hs y \<longrightarrow> m' (of_nat y) = m (of_nat y)" and "hs \<le> a" "a + 4 \<le> hs + 262144"
  shows "wd m' a = wd m a"
  using assms(2,3) by (intro wd_cong assms(1) [rule_format]) (auto simp: slab_def)

lemma seg_fits_low:
  assumes M: "mach_ok hs pd fpt s" and b: "hs \<le> unat file" "unat file + sz \<le> hs + 262144" and f: "seg_fits sz h"
  shows "file_low file h" "file_pages pd file h (space s)"
proof -
  have "hs + 262144 \<le> 0x100000" using M by (simp add: mach_ok_def space_ok_def)
  then show "file_low file h" using b f by (auto simp: file_low_def seg_fits_def user_range_def)
  show "file_pages pd file h (space s)"
    unfolding file_pages_def using b f by (auto intro!: slab_data_page(1) [OF M] simp: slab_def seg_fits_def)
qed

text \<open>The abstract loop: add the segments one after the other.\<close>

lemma read_slab:
  assumes M: "mach_ok hs pd fpt s" and "hs \<le> a" "a + 4 \<le> hs + 262144"
  shows "read32 (of_nat a) (space s) = Done (wd (phys (space s)) a)"
proof -
  have "id_window pd fpt (space s)" "hs + 262144 \<le> 0x100000" using M by (auto simp: mach_ok_def space_ok_def vm_ok_def)
  then show ?thesis using assms(3) by (intro low_access(1)) auto
qed

lemma read_phdr_slab:
  assumes M: "mach_ok hs pd fpt s" and "hs \<le> a" "a + 32 \<le> hs + 262144"
  shows "read_phdr (of_nat a) (space s) = Done (phdr_at (phys (space s)) a)"
proof -
  have r: "read32 (of_nat a + of_nat k) (space s) = Done (wd (phys (space s)) (a + k))" if "k \<le> 28" for k
    using read_slab [OF M, of "a + k"] that assms(2,3) by simp
  show ?thesis using r [of 0] r [of 4] r [of 8] r [of 16] r [of 20] by (simp add: read_phdr_def phdr_at_def)
qed

lemma loads_pages_Cons [simp]: "loads_pages (h # hs) = seg_addrs (new_seg h) @ loads_pages hs"
  "loads_pages [] = []" "loads_pages (hs @ ks) = loads_pages hs @ loads_pages ks"
  by (simp_all add: loads_pages_def)

lemma loads_from_step:
  "i < n \<Longrightarrow> loads_from m tab i n =
     (let h = phdr_at m (tab + 32 * i) in
      if p_type h = PT_LOAD \<and> p_memsz h \<noteq> 0 then h # loads_from m tab (Suc i) n else loads_from m tab (Suc i) n)"
  by (simp add: loads_from_def upt_conv_Cons Let_def)

lemma phdr_at_slab:
  assumes "\<forall>y. slab hs y \<longrightarrow> m' (of_nat y) = m (of_nat y)" and "hs \<le> a" "a + 32 \<le> hs + 262144"
  shows "phdr_at m' a = phdr_at m a"
  using assms(2,3) wd_slab [OF assms(1)] by (simp add: phdr_at_def)

text \<open>The state of the loop: \<open>dn\<close> is loaded, the file is as in \<open>m\<close>.\<close>

lemma load_phdrs_ok:
  assumes b: "hs \<le> unat file" "unat file + unat sz \<le> hs + 262144"
    and tab: "unat file \<le> tab" "tab + 32 * n \<le> unat file + unat sz"
  shows "\<lbrakk> mach_ok hs pd fpt s; \<forall>y. slab hs y \<longrightarrow> phys (space s) (of_nat y) = m (of_nat y); i \<le> n;
      images s img = Some im; \<forall>h \<in> set (loads_from m tab i n). seg_fits (unat sz) h; image_pages im = loads_pages dn;
      seg_count im + length (loads_from m tab i n) \<le> MAX_USER_SEGMENTS; distinct (loads_pages (dn @ loads_from m tab i n));
      2 * sum_list (map seg_pages (loads_from m tab i n)) \<le> card (low_frames (space s));
      pages_mapped pd (space s) (loads_pages dn) F; segs_hold (space s) m file dn F \<rbrakk> \<Longrightarrow>
    \<exists>s' F'. load_phdrs (of_nat pd) file sz (of_nat tab) img i n s = Done (0, s') \<and> mach_ok hs pd fpt s' \<and>
      blocks s' = blocks s \<and> (\<forall>y. slab hs y \<longrightarrow> phys (space s') (of_nat y) = m (of_nat y)) \<and>
      images s' = (images s)(img \<mapsto> fold add_seg (loads_from m tab i n) im) \<and>
      image_pages (fold add_seg (loads_from m tab i n) im) = loads_pages (dn @ loads_from m tab i n) \<and>
      pages_mapped pd (space s') (loads_pages (dn @ loads_from m tab i n)) F' \<and>
      segs_hold (space s') m file (dn @ loads_from m tab i n) F' \<and>
      (\<forall>w. w AND 0xFFFFF000 \<notin> set (loads_pages (loads_from m tab i n)) \<longrightarrow> mmu (space s') w = mmu (space s) w) \<and>
      owned pd (space s') \<union> (\<lambda>v. of_nat (F' v)) ` set (loads_pages (loads_from m tab i n)) = owned pd (space s) \<and>
      (\<forall>v \<in> set (loads_pages dn). F' v = F v)"
proof (induction "n - i" arbitrary: i s im dn F)
  case 0
  then have "i = n" by simp
  then show ?case using 0
    by (intro exI [of _ s] exI [of _ F]) (simp add: load_phdrs.simps loads_from_def fun_upd_idem)
next
  case (Suc d)
  have i: "i < n" using Suc.hyps(2) by simp
  note M = Suc.prems(1) and same = Suc.prems(2)
  let ?a = "tab + 32 * i" and ?h = "phdr_at m (tab + 32 * i)" and ?rest = "loads_from m tab (Suc i) n"
  have a: "hs \<le> ?a" "?a + 32 \<le> hs + 262144" using b tab i by auto
  have addr: "of_nat tab + of_nat i * SIZEOF_PHDR = (of_nat ?a :: u32)" by (simp add: SIZEOF_PHDR_def)
  have hd: "phdr_at (phys (space s)) ?a = ?h" by (rule phdr_at_slab [OF same a])
  have ty: "read32 (of_nat ?a) (space s) = Done (p_type ?h)"
    using read_slab [OF M, of ?a] a hd by (simp add: phdr_at_def del: of_nat_add)
  have rd: "read_phdr (of_nat ?a) (space s) = Done ?h" using read_phdr_slab [OF M a] hd by simp
  note step = load_phdrs.simps [of "of_nat pd" "file" sz "of_nat tab" img i n s, unfolded addr ty rd]
  show ?case
  proof (cases "p_type ?h = PT_LOAD \<and> p_memsz ?h \<noteq> 0")
    case False
    have e: "loads_from m tab i n = ?rest" using loads_from_step [OF i] False by (simp add: Let_def)
    have "load_phdrs (of_nat pd) file sz (of_nat tab) img i n s = load_phdrs (of_nat pd) file sz (of_nat tab) img (Suc i) n s"
      using step i False by auto
    then show ?thesis unfolding e
      using Suc.hyps Suc.prems i unfolding e by (simp only:)
  next
    case True
    have e: "loads_from m tab i n = ?h # ?rest" using loads_from_step [OF i] True by (simp add: Let_def)
    have fit: "seg_fits (unat sz) ?h" using Suc.prems(5) unfolding e by simp
    then have u: "user_range ?h" by (simp add: seg_fits_def)
    note low = seg_fits_low [OF M b fit]
    have cnt: "seg_count im < MAX_USER_SEGMENTS" using Suc.prems(7) unfolding e by simp
    have lf: "2 * seg_pages ?h \<le> card (low_frames (space s))" using Suc.prems(9) unfolding e by simp
    have dj: "set (seg_addrs (new_seg ?h)) \<inter> set (image_pages im) = {}"
      using Suc.prems(6,8) unfolding e by auto
    have P: "pages_mapped pd (space s) (image_pages im) F" using Suc.prems(6,10) by simp
    have C: "pages_hold (space s) (image_pages im) F (\<lambda>v j. phys (space s) (of_nat (F v + j)))" by (simp add: pages_hold_def)
    obtain s1 F1 where s1: "load_segment (of_nat pd) file ?h img s = Done (0, s1)" "mach_ok hs pd fpt s1" "blocks s1 = blocks s"
      "images s1 = (images s)(img \<mapsto> add_seg ?h im)" "pages_mapped pd (space s1) (image_pages (add_seg ?h im)) F1"
      "pages_hold (space s1) (image_pages (add_seg ?h im)) F1 (\<lambda>v j. if v \<in> set (image_pages im)
         then phys (space s) (of_nat (F v + j)) else seg_byte (phys (space s)) file ?h (unat v + j))"
      "\<And>y. slab hs y \<Longrightarrow> mbyte s1 y = mbyte s y" "keeps_pages pd (space s) (space s1)"
      "card (low_frames (space s)) \<le> card (low_frames (space s1)) + 2 * seg_pages ?h"
      "\<And>w. w AND 0xFFFFF000 \<notin> set (seg_addrs (new_seg ?h)) \<Longrightarrow> mmu (space s1) w = mmu (space s) w"
      "owned pd (space s1) \<union> (\<lambda>v. of_nat (F1 v)) ` set (seg_addrs (new_seg ?h)) = owned pd (space s)"
      "\<And>v. v \<in> set (image_pages im) \<Longrightarrow> F1 v = F v"
      by (rule add_segment_ok [OF M Suc.prems(4) cnt u low lf P C dj]) (rule that)
    have ip: "image_pages (add_seg ?h im) = loads_pages (dn @ [?h])" using Suc.prems(6) by (simp add: image_pages_add)
    have same1: "\<forall>y. slab hs y \<longrightarrow> phys (space s1) (of_nat y) = m (of_nat y)" using s1(7) same by (simp add: mbyte_def)
    have sb: "seg_byte (phys (space s)) file ?h a' = seg_byte m file ?h a'" for a'
      using same b by (intro seg_byte_cong [OF _ fit]) (auto simp: slab_def)
    have hold: "segs_hold (space s1) m file (dn @ [?h]) F1"
      unfolding segs_hold_def
    proof (intro ballI allI impI)
      fix k v j assume k: "k \<in> set (dn @ [?h])" and v: "v \<in> set (seg_addrs (new_seg k))" and j: "j < (4096 :: nat)"
      show "phys (space s1) (of_nat (F1 v + j)) = seg_byte m file k (unat v + j)"
      proof (cases "k \<in> set dn")
        case True
        then have vi: "v \<in> set (image_pages im)" using v Suc.prems(6) by (auto simp: loads_pages_def)
        then have "phys (space s1) (of_nat (F1 v + j)) = phys (space s) (of_nat (F v + j))"
          using s1(6) j unfolding pages_hold_def image_pages_add by simp
        then show ?thesis using Suc.prems(11) True v j unfolding segs_hold_def by simp
      next
        case False
        then have "k = ?h" using k by simp
        then have "v \<notin> set (image_pages im)" using v dj by auto
        then show ?thesis using s1(6) j v \<open>k = ?h\<close> sb unfolding pages_hold_def image_pages_add by simp
      qed
    qed
    have rest: "n - Suc i = d" using Suc.hyps(2) by simp
    have low1: "2 * sum_list (map seg_pages ?rest) \<le> card (low_frames (space s1))"
      using Suc.prems(9) s1(9) unfolding e by simp
    have ih: "\<exists>s' F'. load_phdrs (of_nat pd) file sz (of_nat tab) img (Suc i) n s1 = Done (0, s') \<and> mach_ok hs pd fpt s' \<and>
      blocks s' = blocks s1 \<and> (\<forall>y. slab hs y \<longrightarrow> phys (space s') (of_nat y) = m (of_nat y)) \<and>
      images s' = (images s1)(img \<mapsto> fold add_seg ?rest (add_seg ?h im)) \<and>
      image_pages (fold add_seg ?rest (add_seg ?h im)) = loads_pages ((dn @ [?h]) @ ?rest) \<and>
      pages_mapped pd (space s') (loads_pages ((dn @ [?h]) @ ?rest)) F' \<and>
      segs_hold (space s') m file ((dn @ [?h]) @ ?rest) F' \<and>
      (\<forall>w. w AND 0xFFFFF000 \<notin> set (loads_pages ?rest) \<longrightarrow> mmu (space s') w = mmu (space s1) w) \<and>
      owned pd (space s') \<union> (\<lambda>v. of_nat (F' v)) ` set (loads_pages ?rest) = owned pd (space s1) \<and>
      (\<forall>v \<in> set (loads_pages (dn @ [?h])). F' v = F1 v)"
      using s1(2,4,5) same1 i Suc.prems(5,7,8) ip low1 hold unfolding e
      by (intro Suc.hyps(1) [OF rest [symmetric]]) (simp_all add: add_seg_def [of ?h im])
    have call: "load_phdrs (of_nat pd) file sz (of_nat tab) img i n s = load_phdrs (of_nat pd) file sz (of_nat tab) img (Suc i) n s1"
    proof -
      have "unat (p_offset ?h + p_filesz ?h) = unat (p_offset ?h) + unat (p_filesz ?h)"
        using fit le_less_trans [OF _ unat_lt32 [of sz]] by (intro unat_plus32) (simp add: seg_fits_def)
      then have "\<not> sz < p_offset ?h + p_filesz ?h" using fit by (simp add: seg_fits_def word_less_nat_alt)
      then show ?thesis using step i True s1(1) by simp
    qed
    from ih obtain s' F' where s': "load_phdrs (of_nat pd) file sz (of_nat tab) img (Suc i) n s1 = Done (0, s')" "mach_ok hs pd fpt s'"
      "blocks s' = blocks s1" "\<forall>y. slab hs y \<longrightarrow> phys (space s') (of_nat y) = m (of_nat y)"
      "images s' = (images s1)(img \<mapsto> fold add_seg ?rest (add_seg ?h im))"
      "image_pages (fold add_seg ?rest (add_seg ?h im)) = loads_pages ((dn @ [?h]) @ ?rest)"
      "pages_mapped pd (space s') (loads_pages ((dn @ [?h]) @ ?rest)) F'"
      "segs_hold (space s') m file ((dn @ [?h]) @ ?rest) F'"
      "\<forall>w. w AND 0xFFFFF000 \<notin> set (loads_pages ?rest) \<longrightarrow> mmu (space s') w = mmu (space s1) w"
      "owned pd (space s') \<union> (\<lambda>v. of_nat (F' v)) ` set (loads_pages ?rest) = owned pd (space s1)"
      "\<forall>v \<in> set (loads_pages (dn @ [?h])). F' v = F1 v" by blast
    have own: "owned pd (space s') \<union> (\<lambda>v. of_nat (F' v)) ` set (loads_pages (?h # ?rest)) = owned pd (space s)"
    proof -
      have "(\<lambda>v. of_nat (F' v) :: u32) ` set (seg_addrs (new_seg ?h)) = (\<lambda>v. of_nat (F1 v)) ` set (seg_addrs (new_seg ?h))"
        using s'(11) by (intro image_cong) auto
      then show ?thesis
        by (simp only: s1(11) [symmetric] s'(10) [symmetric] loads_pages_Cons set_append image_Un Un_ac)
    qed
    have F: "\<forall>v \<in> set (loads_pages dn). F' v = F v" using s'(11) s1(12) Suc.prems(6) by simp
    show ?thesis
      unfolding e call using s' s1(3,4,10) own F
      by (intro exI [of _ s'] exI [of _ F']) (simp del: loads_pages_Cons(1), simp)
  qed
qed

section \<open>Loading a program\<close>

lemma file_cong:
  assumes "\<forall>y. q \<le> y \<and> y < q + sz \<longrightarrow> m' (of_nat y) = m (of_nat y)"
  shows "q \<le> a \<Longrightarrow> a + 4 \<le> q + sz \<Longrightarrow> wd m' a = wd m a"
    and "q \<le> a \<Longrightarrow> a + 2 \<le> q + sz \<Longrightarrow> hw m' a = hw m a"
    and "q \<le> tab \<Longrightarrow> tab + 32 * n \<le> q + sz \<Longrightarrow> loads_from m' tab i n = loads_from m tab i n"
proof -
  show w: "wd m' a = wd m a" if "q \<le> a" "a + 4 \<le> q + sz" for a
    using that by (intro wd_cong assms [rule_format]) auto
  show "hw m' a = hw m a" if "q \<le> a" "a + 2 \<le> q + sz"
    using that assms [rule_format, of a] assms [rule_format, of "a + 1"] by (simp add: hw_def)
  show "loads_from m' tab i n = loads_from m tab i n" if "q \<le> tab" "tab + 32 * n \<le> q + sz"
    unfolding loads_from_def using that
    by (intro arg_cong [where f = "filter _"] map_cong) (auto simp: phdr_at_def intro!: w)
qed

lemma read16_slab:
  assumes M: "mach_ok hs pd fpt s" and "hs \<le> a" "a + 2 \<le> hs + 262144"
  shows "read16 (of_nat a) (space s) = Done (hw (phys (space s)) a)"
proof -
  have W: "id_window pd fpt (space s)" "hs + 262144 \<le> 0x100000" using M by (auto simp: mach_ok_def space_ok_def vm_ok_def)
  have "read8 (of_nat a) (space s) = Done (phys (space s) (of_nat a))"
    "read8 (of_nat (a + 1)) (space s) = Done (phys (space s) (of_nat (a + 1)))"
    using W(2) assms(3) by (auto intro!: byte_access(1) [OF W(1)] simp del: of_nat_add of_nat_Suc)
  then show ?thesis by (simp add: read16_def hw_def add.commute)
qed

lemma validate_size: "validate_ehdr eh sz v = Done True \<Longrightarrow> 52 \<le> unat sz"
  by (auto simp: validate_ehdr_def SIZEOF_EHDR_def word_less_nat_alt split: if_splits)

lemma elf_load_ok:
  assumes M: "mach_ok hs pd fpt s" and fits: "elf_fits q sz s"
    and alloc: "ld_malloc SIZEOF_USER_IMAGE s = Some (Done (img, s1))" "img \<noteq> 0"
  defines "L \<equiv> elf_loads (phys (space s)) q"
  obtains s' F z im where "elf_load (of_nat pd) (of_nat q) sz True s = Some (Done (0, img, s'))"
    "mach_ok hs pd fpt s'" "unat img \<notin> fst ` blocks s" "blocks s' = insert (unat img, z) (blocks s)"
    "images s' = (images s)(img \<mapsto> im)" "entry im = wd (phys (space s)) (q + 24)" "image_pages im = loads_pages L"
    "pages_mapped pd (space s') (loads_pages L) F" "segs_hold (space s') (phys (space s)) (of_nat q) L F"
    "\<And>w. w AND 0xFFFFF000 \<notin> set (loads_pages L) \<Longrightarrow> mmu (space s') w = mmu (space s) w"
    "owned pd (space s') \<union> (\<lambda>v. of_nat (F v)) ` set (loads_pages L) = owned pd (space s)"
    "\<And>p y i. (p, y) \<in> blocks s \<Longrightarrow> i < y \<Longrightarrow> mbyte s' (p + i) = mbyte s (p + i)"
proof -
  let ?m = "phys (space s)"
  from fits obtain zf where zf: "(q, zf) \<in> blocks s" "unat sz \<le> zf" and val: "validate_ehdr (of_nat q) sz (space s) = Done True"
    and tb: "elf_table ?m q + 32 * unat (hw ?m (q + 44)) \<le> q + unat sz" and fit: "\<forall>h \<in> set L. seg_fits (unat sz) h"
    and len: "length L \<le> MAX_USER_SEGMENTS" and dis: "distinct (loads_pages L)"
    and low: "2 * sum_list (map seg_pages L) \<le> card (low_frames (space s))"
    by (auto simp: elf_fits_def Let_def L_def)
  have q: "hs \<le> q" "q + unat sz \<le> hs + 262144" "q < 4294967296" "0 < q"
    using block_in_slab [OF M zf(1)] zf(2) lh.live_range [OF M zf(1)] by auto
  have uq: "unat (of_nat q :: u32) = q" using q(3) by simp
  have s52: "52 \<le> unat sz" by (rule validate_size [OF val])
  obtain h where h: "s1 = heap_back s h" "mach_ok hs pd fpt s1" "heap_step hs s s1"
    using ld_malloc_ok [OF M, of SIZEOF_USER_IMAGE] alloc(1) by auto
  note K = heap_step_keeps [OF M h(3)]
  note A = lh.alloc_result [OF M alloc(1)]
  obtain z where z: "unat img \<notin> fst ` blocks s" "blocks s1 = insert (unat img, z) (blocks s)" using A(3) [OF alloc(2)] by blast
  have same: "\<forall>y. q \<le> y \<and> y < q + unat sz \<longrightarrow> phys (space s1) (of_nat y) = ?m (of_nat y)"
  proof (intro allI impI)
    fix y assume y: "q \<le> y \<and> y < q + unat sz"
    then have "y - q < zf" using zf(2) by arith
    then show "phys (space s1) (of_nat y) = ?m (of_nat y)"
      using A(4) [OF zf(1), of "y - q"] y by (simp add: mbyte_def)
  qed
  note C = file_cong [OF same]
  let ?m1 = "phys (space s1)" and ?tab = "elf_table ?m q" and ?n = "unat (hw ?m (q + 44))"
  let ?im = "\<lparr>seg_count = 0, segs = (\<lambda>_. \<lparr>vaddr = 0, pages = 0\<rparr>), entry = wd ?m (q + 24)\<rparr>"
  let ?s2 = "s1\<lparr>images := (images s1)(img \<mapsto> ?im)\<rparr>"
  have L1: "loads_from ?m1 ?tab 0 ?n = L" unfolding L_def elf_loads_def using tb by (intro C(3)) (auto simp: elf_table_def)
  have rd: "read32 (of_nat q + 24) (space s1) = Done (wd ?m (q + 24))" "read32 (of_nat q + 28) (space s1) = Done (wd ?m (q + 28))"
    "read16 (of_nat q + 44) (space s1) = Done (hw ?m (q + 44))"
    using read_slab [OF h(2), of "q + 24"] read_slab [OF h(2), of "q + 28"] read16_slab [OF h(2), of "q + 44"]
      C(1) [of "q + 24"] C(1) [of "q + 28"] C(2) [of "q + 44"] q s52 by auto
  have M2: "mach_ok hs pd fpt ?s2" using h(2) by (simp add: mach_ok_def space_ok_def heap_view_def)
  have b2: "blocks ?s2 = blocks s1" by (simp add: blocks_def heap_view_def)
  have ip: "image_pages ?im = loads_pages []" by (simp add: image_pages_def)
  have low1: "low_frames (space s1) = low_frames (space s)" using K(6) by (simp add: low_frames_def)
  have b: "hs \<le> unat (of_nat q :: u32)" "unat (of_nat q :: u32) + unat sz \<le> hs + 262144"
    "unat (of_nat q :: u32) \<le> ?tab" "?tab + 32 * ?n \<le> unat (of_nat q :: u32) + unat sz"
    using q tb unfolding uq by (simp_all add: elf_table_def)
  note X = load_phdrs_ok [OF b M2, where m = ?m1 and i = 0 and img = img and im = ?im and dn = "[]" and F = "\<lambda>_. 0", unfolded L1 b2]
  from X obtain s' F where s': "load_phdrs (of_nat pd) (of_nat q) sz (of_nat ?tab) img 0 ?n ?s2 = Done (0, s')" "mach_ok hs pd fpt s'"
    "blocks s' = blocks s1" "images s' = (images s)(img \<mapsto> fold add_seg L ?im)"
    "image_pages (fold add_seg L ?im) = loads_pages L" "pages_mapped pd (space s') (loads_pages L) F"
    "segs_hold (space s') ?m1 (of_nat q) L F" "\<forall>y. slab hs y \<longrightarrow> phys (space s') (of_nat y) = ?m1 (of_nat y)"
    "\<forall>w. w AND 0xFFFFF000 \<notin> set (loads_pages L) \<longrightarrow> mmu (space s') w = mmu (space s1) w"
    "owned pd (space s') \<union> (\<lambda>v. of_nat (F v)) ` set (loads_pages L) = owned pd (space s1)"
    using fit len dis low ip K(5) by (auto simp: low1 pages_mapped_def segs_hold_def loads_pages_def)
  have ent: "entry (fold add_seg hs' i') = entry i'" for hs' i'
    by (induction hs' arbitrary: i') (simp_all add: add_seg_def)
  have "seg_byte ?m1 (of_nat q) k a = seg_byte ?m (of_nat q) k a" if "k \<in> set L" for k a
    using same fit that by (intro seg_byte_cong [of _ "unat sz"]) (auto simp: uq)
  then have hold: "segs_hold (space s') ?m (of_nat q) L F" using s'(7) by (auto simp: segs_hold_def)
  have call: "elf_load (of_nat pd) (of_nat q) sz True s = Some (Done (0, img, s'))"
    using q of_nat_nonzero [of q] val alloc rd s'(1) by (simp add: elf_load_def elf_table_def)
  have "mbyte s' (p + i) = mbyte s (p + i)" if "(p, y) \<in> blocks s" "i < y" for p y i
    using A(4) [OF that] s'(8) [rule_format, of "p + i"] block_in_slab [OF M that(1)] that(2)
    by (simp add: mbyte_def slab_def del: of_nat_add)
  then show thesis
    using that [OF call s'(2) z(1), of z "fold add_seg L ?im" F] s' z hold K(2,3) ent by simp
qed

end
