(* ===== verification/Exec_Spec.thy ===== *)
theory Exec_Spec
  imports Loader_Spec
begin

text \<open>
  Properties of the loader as a whole on a booted machine: what the boot order of
  \<^verbatim>\<open>pmm_init\<close>, \<^verbatim>\<open>paging_init\<close>, \<^verbatim>\<open>kheap_init\<close> establishes, what memory looks like after
  \<^verbatim>\<open>elf_load\<close>, and that \<^verbatim>\<open>elf_unload\<close> gives everything back.
\<close>

unbundle bit_operations_syntax

text \<open>A small program: one segment of 8 bytes at 4 MiB, four of them in the file.\<close>

definition demo_prog :: "u8 list" where
  "demo_prog =
     [0x7F, 0x45, 0x4C, 0x46, 1, 1, 1, 0, 0, 0, 0, 0, 0, 0, 0, 0,
      2, 0, 3, 0, 1, 0, 0, 0, 0, 0, 0x40, 0, 52, 0, 0, 0,
      0, 0, 0, 0, 0, 0, 0, 0, 52, 0, 32, 0, 1, 0, 0, 0, 0, 0, 0, 0,
      1, 0, 0, 0, 84, 0, 0, 0, 0, 0, 0x40, 0, 0, 0, 0x40, 0,
      4, 0, 0, 0, 8, 0, 0, 0, 5, 0, 0, 0, 0, 0x10, 0, 0,
      0xEB, 0xFE, 0x90, 0x90]"

text \<open>The same file with a program header table placed at \<open>2^32 - 32\<close>.\<close>

definition wrap_prog :: "u8 list" where
  "wrap_prog = demo_prog[28 := 0xE0, 29 := 0xFF, 30 := 0xFF, 31 := 0xFF]"

definition poke_list :: "nat \<Rightarrow> u8 list \<Rightarrow> loader \<Rightarrow> loader" where
  "poke_list p xs s = fold (\<lambda>i. mpoke (p + i) (xs ! i)) [0..<length xs] s"

section \<open>The booted machine\<close>

lemma frames_back [simp]: "frames (space (heap_back s h)) = frames (space s)"
  by (simp add: heap_back_def)

lemma kheap_init_outside:
  assumes "y < 4294967296" and "hs + 262144 < 4294967296" and "y < hs \<or> hs + 20 \<le> y"
  shows "mem (kheap_init (of_nat hs) h) (of_nat y) = mem h (of_nat y)"
  using assms by (auto simp: kheap_init_def Let_def hdr_nat put_elsewhere)

lemma boot_heap:
  assumes S: "space_ok hs pd fpt s" and "0 < hs"
  shows "mach_ok hs pd fpt (heap_back s (kheap_init (of_nat hs) (heap_view s)))"
    "heap_rel hs (kheap_init (of_nat hs) (heap_view s)) [(262124, False)]"
    "heap_step hs s (heap_back s (kheap_init (of_nat hs) (heap_view s)))"
proof -
  let ?h = "kheap_init (of_nat hs) (heap_view s)"
  have b: "hs + 262144 < 4294967296" using S by (simp add: space_ok_def)
  show R: "heap_rel hs ?h [(262124, False)]" by (rule kheap_init_rel [OF assms(2) b])
  show H: "heap_step hs s (heap_back s ?h)"
    unfolding heap_step_def heap_back_def using b
    by (intro exI [of _ "mem ?h"] exI [of _ "head ?h"])
      (auto simp: slab_def kheap_init_outside not_le not_less)
  show "mach_ok hs pd fpt (heap_back s ?h)"
    using S R space_step_keeps(1,3) [OF S H] by (auto simp: mach_ok_def space_ok_def)
qed

lemma boot_space:
  assumes "cr0 (space s) AND 0x80000000 = 0" and "boot_layout pd fpt" and "pmm_ready (frames (space s))"
    and "hs + 262144 \<le> 0x100000" and "hs + 262144 \<le> pd \<or> pd + 4096 \<le> hs" and "hs + 262144 \<le> fpt \<or> fpt + 4096 \<le> hs"
  obtains t where "paging_init (of_nat pd) (of_nat fpt) (space s) = Done t" "space_ok hs pd fpt (s\<lparr>space := t\<rparr>)"
    "frames t = frames (space s)" "\<And>i. i < 1024 \<Longrightarrow> 0 < i \<Longrightarrow> wd (phys t) (pd + 4 * i) = 0"
proof -
  obtain t where t: "paging_init (of_nat pd) (of_nat fpt) (space s) = Done t" "vm_ok pd fpt t"
    "\<And>i. i < 1024 \<Longrightarrow> 0 < i \<Longrightarrow> wd (phys t) (pd + 4 * i) = 0" "frames t = frames (space s)"
    by (rule paging_init_done [OF assms(1-3)]) (rule that)
  have "a = of_nat fpt \<or> 0x100000 \<le> a" if o: "a \<in> owned pd t" for a
  proof (cases "a \<in> pmm_frames (frames t)")
    case True
    then have "\<not> unat a < 0x100000" using low_not_free [OF assms(3), of "unat a"] t(4) by auto
    then show ?thesis by (simp add: word_le_nat_alt)
  next
    case False
    then obtain i where i: "i < 1024" "present (wd (phys t) (pd + 4 * i))" "a = of_nat (tbl pd (phys t) i)"
      using o by (auto simp: owned_def)
    then have "i = 0" using t(3) [of i] by (cases "0 < i") (simp_all add: present_def)
    moreover have "id_window pd fpt t" using t(2) by (simp add: vm_ok_def)
    ultimately show ?thesis using i(3) assms(2) by (simp add: tbl_def id_window_def boot_layout_def entry7)
  qed
  then have "space_ok hs pd fpt (s\<lparr>space := t\<rparr>)" using t(2) assms(2,4-6) by (simp add: space_ok_def)
  then show thesis using that t by blast
qed

text \<open>
  The boot order of \<open>kmain\<close> establishes the machine invariant.  With paging off, the
  frame allocator initialised from any memory map, and the page directory, the first page table and
  the heap arena at separate places below 1 MiB, \<open>paging_init\<close> succeeds and \<open>kheap_init\<close> after it
  gives a machine in which the heap and the address space are well formed and do not
  overlap; the heap has no live block.
\<close>
lemma boot_machine_ok:
  assumes "cr0 (space s) AND 0x80000000 = 0" and "frames (space s) = pmm_init e820 p" and "boot_layout pd fpt"
    and "0 < hs" and "hs + 262144 \<le> 0x100000"
    and "hs + 262144 \<le> pd \<or> pd + 4096 \<le> hs" and "hs + 262144 \<le> fpt \<or> fpt + 4096 \<le> hs"
  shows "\<exists>t s'. paging_init (of_nat pd) (of_nat fpt) (space s) = Done t \<and>
    s' = heap_back (s\<lparr>space := t\<rparr>) (kheap_init (of_nat hs) (heap_view (s\<lparr>space := t\<rparr>))) \<and>
    mach_ok hs pd fpt s' \<and> blocks s' = {}"
proof -
  have r: "pmm_ready (frames (space s))" unfolding assms(2) by (rule pmm_init_ready)
  obtain t where t: "paging_init (of_nat pd) (of_nat fpt) (space s) = Done t" "space_ok hs pd fpt (s\<lparr>space := t\<rparr>)"
    by (rule boot_space [OF assms(1,3) r assms(5-7)]) (rule that)
  note B = boot_heap [OF t(2) assms(4)]
  show ?thesis
    using t(1) B(1) live_rel [OF B(2)] by (simp add: blocks_def)
qed

text \<open>A booted machine with three frames below 4 MiB, and a file written into a fresh heap block.\<close>

lemma demo_machine:
  obtains s where "mach_ok 0x10000 0x50000 0x51000 s" "heap_rel 0x10000 (heap_view s) [(262124, False)]"
    "frames (space s) = pmm_init sample_map boot_pmm"
proof -
  let ?s0 = "\<lparr>space = demo_vm, heap_head = 0, images = Map.empty\<rparr>"
  obtain t where t: "space_ok 0x10000 0x50000 0x51000 (?s0\<lparr>space := t\<rparr>)" "frames t = frames demo_vm"
    by (rule boot_space [of ?s0 "0x50000" "0x51000" "0x10000"]) (use demo_vm_ready in \<open>auto intro: that\<close>)
  show thesis
    using boot_heap(2) [OF t(1)] t(2) by (intro that [OF boot_heap(1) [OF t(1)]]) (auto simp: demo_vm_def)
qed

lemma poke_list_ok:
  assumes "mach_ok hs pd fpt s" and "(p, z) \<in> blocks s" and "length xs \<le> z" and "heap_rel hs (heap_view s) bs"
  shows "mach_ok hs pd fpt (poke_list p xs s) \<and> blocks (poke_list p xs s) = blocks s \<and>
    heap_rel hs (heap_view (poke_list p xs s)) bs \<and> frames (space (poke_list p xs s)) = frames (space s) \<and>
    (\<forall>i < length xs. mbyte (poke_list p xs s) (p + i) = xs ! i)"
proof -
  let ?t = "\<lambda>n. fold (\<lambda>i. mpoke (p + i) (xs ! i)) [0..<n] s"
  have "mach_ok hs pd fpt (?t n) \<and> blocks (?t n) = blocks s \<and> heap_rel hs (heap_view (?t n)) bs \<and>
    frames (space (?t n)) = frames (space s) \<and> (\<forall>i < n. mbyte (?t n) (p + i) = xs ! i)" if "n \<le> length xs" for n
    using that
  proof (induction n)
    case (Suc n)
    then have IH: "mach_ok hs pd fpt (?t n)" "(p, z) \<in> blocks (?t n)" "blocks (?t n) = blocks s" "n < z"
      "heap_rel hs (heap_view (?t n)) bs" "frames (space (?t n)) = frames (space s)" "\<forall>i < n. mbyte (?t n) (p + i) = xs ! i"
      using assms by auto
    have r: "p + z < 4294967296" using lh.live_range [OF IH(1,2)] by simp
    have b: "(p, z) \<in> live_blocks hs bs" using IH(2) live_rel [OF IH(5)] by (simp add: blocks_def)
    show ?case
      using lh.write_law [OF IH(1,2,4), of "xs ! n"] IH poke_rel [OF IH(5) b IH(4), of "xs ! n"] r
      by (auto simp: mpoke_view less_Suc_eq) (simp add: mpoke_def)
  qed (use assms in simp)
  from this [of "length xs"] show ?thesis by (simp add: poke_list_def)
qed

text \<open>A machine with the bytes \<open>xs\<close> in a heap block of 88 bytes at 65556.\<close>

lemma demo_file:
  assumes "length xs = 88"
  obtains s img s1 where "mach_ok 0x10000 0x50000 0x51000 s" "(65556, 88) \<in> blocks s"
    "\<forall>i < 88. phys (space s) (of_nat (65556 + i)) = xs ! i" "card (low_frames (space s)) = 3"
    "ld_malloc SIZEOF_USER_IMAGE s = Some (Done (img, s1))" "img \<noteq> 0"
proof -
  obtain s0 where s0: "mach_ok 0x10000 0x50000 0x51000 s0" "heap_rel 0x10000 (heap_view s0) [(262124, False)]"
    "frames (space s0) = pmm_init sample_map boot_pmm" by (rule demo_machine)
  have A: "heap_alloc 88 0x10000 [(262124, False)] = (65556, [(88, True), (262016, False)])"
    by (simp add: heap_alloc_def round8_def carve_def)
  from kmalloc_rel(1) [OF s0(2) _ _ A] obtain h where
    h: "kmalloc 88 (heap_view s0) = Some (Done (65556, h))" "heap_rel 0x10000 h [(88, True), (262016, False)]" by auto
  then have m: "ld_malloc 88 s0 = Some (Done (65556, heap_back s0 h))" by (simp add: ld_malloc_def)
  have L: "(65556, 88) \<in> blocks (heap_back s0 h)" using live_rel [OF h(2)] by (simp add: blocks_def)
  let ?s = "poke_list 65556 xs (heap_back s0 h)"
  have s: "mach_ok 0x10000 0x50000 0x51000 ?s" "blocks ?s = blocks (heap_back s0 h)"
    "heap_rel 0x10000 (heap_view ?s) [(88, True), (262016, False)]" "frames (space ?s) = pmm_init sample_map boot_pmm"
    "\<forall>i < length xs. mbyte ?s (65556 + i) = xs ! i"
    using poke_list_ok [OF lh.alloc_result(1) [OF s0(1) m] L, of xs] assms h(2) s0(3) by simp_all
  have A2: "heap_alloc 72 0x10000 [(88, True), (262016, False)] = (65664, [(88, True), (72, True), (261924, False)])"
    by (simp add: heap_alloc_def round8_def carve_def)
  from kmalloc_rel(1) [OF s(3) _ _ A2] obtain h2 where "kmalloc 72 (heap_view ?s) = Some (Done (65664, h2))" by auto
  then have "ld_malloc SIZEOF_USER_IMAGE ?s = Some (Done (65664, heap_back ?s h2))"
    by (simp add: ld_malloc_def SIZEOF_USER_IMAGE_def)
  then show thesis
    using s L assms demo_low_frames [OF s(4)] by (intro that) (auto simp: mbyte_def simp del: of_nat_add)
qed

lemma demo_reads:
  assumes "mach_ok 0x10000 pd fpt s" and "\<forall>i < 88. phys (space s) (of_nat (65556 + i)) = xs ! i"
  shows "k < 88 \<Longrightarrow> read8 (of_nat (65556 + k)) (space s) = Done (xs ! k)"
    and "k < 87 \<Longrightarrow> hw (phys (space s)) (65556 + k) = ucast (xs ! k) OR push_bit 8 (ucast (xs ! (k + 1)))"
    and "k < 87 \<Longrightarrow> read16 (of_nat (65556 + k)) (space s) = Done (ucast (xs ! k) OR push_bit 8 (ucast (xs ! (k + 1))))"
    and "k < 85 \<Longrightarrow> wd (phys (space s)) (65556 + k) = ucast (xs ! k) OR push_bit 8 (ucast (xs ! (k + 1))) OR
      push_bit 16 (ucast (xs ! (k + 2))) OR push_bit 24 (ucast (xs ! (k + 3)))"
    and "k < 85 \<Longrightarrow> read32 (of_nat (65556 + k)) (space s) = Done (wd (phys (space s)) (65556 + k))"
proof -
  have W: "id_window pd fpt (space s)" using assms(1) by (simp add: mach_ok_def space_ok_def vm_ok_def)
  show "k < 88 \<Longrightarrow> read8 (of_nat (65556 + k)) (space s) = Done (xs ! k)"
    using byte_access(1) [OF W, of "65556 + k"] assms(2) [rule_format, of k] by (simp del: of_nat_add)
  show H: "k < 87 \<Longrightarrow> hw (phys (space s)) (65556 + k) = ucast (xs ! k) OR push_bit 8 (ucast (xs ! (k + 1)))"
    using assms(2) [rule_format, of k] assms(2) [rule_format, of "k + 1"] by (simp add: hw_def add.assoc del: of_nat_add)
  show "k < 87 \<Longrightarrow> read16 (of_nat (65556 + k)) (space s) = Done (ucast (xs ! k) OR push_bit 8 (ucast (xs ! (k + 1))))"
    using read16_slab [OF assms(1), of "65556 + k"] H by simp
  show "k < 85 \<Longrightarrow> wd (phys (space s)) (65556 + k) = ucast (xs ! k) OR push_bit 8 (ucast (xs ! (k + 1))) OR
      push_bit 16 (ucast (xs ! (k + 2))) OR push_bit 24 (ucast (xs ! (k + 3)))"
    using assms(2) [rule_format, of k] assms(2) [rule_format, of "k + 1"] assms(2) [rule_format, of "k + 2"] assms(2) [rule_format, of "k + 3"]
    by (simp add: wd_def ld32_def ac_simps)
  show "k < 85 \<Longrightarrow> read32 (of_nat (65556 + k)) (space s) = Done (wd (phys (space s)) (65556 + k))"
    by (rule read_slab [OF assms(1)]) simp_all
qed

lemma demo_validate:
  assumes "mach_ok 0x10000 pd fpt s" and B: "\<forall>i < 88. phys (space s) (of_nat (65556 + i)) = xs ! i"
    and xs: "xs = demo_prog \<or> xs = wrap_prog"
  shows "validate_ehdr (of_nat 65556) 88 (space s) = Done True"
proof -
  note R = demo_reads [OF assms(1,2)]
  have b: "read8 65556 (space s) = Done 0x7F" "read8 65557 (space s) = Done 0x45" "read8 65558 (space s) = Done 0x4C"
    "read8 65559 (space s) = Done 0x46" "read8 65560 (space s) = Done 1" "read8 65561 (space s) = Done 1"
    using R(1) [of 0] R(1) [of 1] R(1) [of 2] R(1) [of 3] R(1) [of 4] R(1) [of 5] xs
    by (auto simp: demo_prog_def wrap_prog_def)
  have h: "read16 65574 (space s) = Done 3" "read16 65572 (space s) = Done 2" "read16 65598 (space s) = Done 32"
    "read16 65600 (space s) = Done 1"
    using R(3) [of 18] R(3) [of 16] R(3) [of 42] R(3) [of 44] xs by (auto simp: demo_prog_def wrap_prog_def)
  have w: "read32 65584 (space s) = Done (if xs = demo_prog then 52 else 0xFFFFFFE0)"
    using R(5) [of 28] R(4) [of 28] xs by (auto simp: demo_prog_def wrap_prog_def)
  show ?thesis by (simp add: validate_ehdr_def SIZEOF_EHDR_def SIZEOF_PHDR_def b h w)
qed

lemma demo_fits:
  assumes M: "mach_ok 0x10000 pd fpt s" and L: "(65556, 88) \<in> blocks s" and low: "card (low_frames (space s)) = 3"
    and B: "\<forall>i < 88. phys (space s) (of_nat (65556 + i)) = demo_prog ! i"
  shows "elf_fits 65556 88 s" "elf_loads (phys (space s)) 65556 =
      [\<lparr>p_type = PT_LOAD, p_offset = 84, p_vaddr = 0x400000, p_filesz = 4, p_memsz = 8\<rparr>]"
proof -
  note R = demo_reads [OF M B]
  let ?m = "phys (space s)" and ?h = "\<lparr>p_type = PT_LOAD, p_offset = 84, p_vaddr = 0x400000, p_filesz = 4, p_memsz = 8\<rparr>"
  have t: "elf_table ?m 65556 = 65608" using R(4) [of 28] by (simp add: elf_table_def demo_prog_def)
  have n: "hw ?m (65556 + 44) = 1" using R(2) [of 44] by (simp add: demo_prog_def)
  have p: "phdr_at ?m 65608 = ?h"
    using R(4) [of 52] R(4) [of 56] R(4) [of 60] R(4) [of 68] R(4) [of 72] by (simp add: phdr_at_def demo_prog_def PT_LOAD_def)
  show e: "elf_loads ?m 65556 = [?h]" using n t p by (simp add: elf_loads_def loads_from_def PT_LOAD_def)
  have g: "seg_pages ?h = 1" "seg_start ?h = 0x400000" by (simp_all add: seg_pages_def seg_start_def)
  have "seg_fits 88 ?h" by (simp add: seg_fits_def user_range_def)
  moreover have "loads_pages [?h] = [0x400000]" by (simp add: loads_pages_def seg_addrs_def new_seg_def g)
  ultimately show "elf_fits 65556 88 s"
    unfolding elf_fits_def Let_def e using L t n g low demo_validate [OF M B]
    by (auto simp: MAX_USER_SEGMENTS_def)
qed

section \<open>Loading and unloading a program\<close>

lemma held_byte:
  assumes F: "pages_mapped pd t (loads_pages L) F" "segs_hold t m file L F" and h: "h \<in> set L" "user_range h"
    and a: "seg_start h \<le> a" "a < seg_start h + 4096 * seg_pages h"
  shows "\<exists>p. mmu t (of_nat a) = Some p \<and> phys t p = seg_byte m file h a"
proof -
  note B = seg_bounds [OF h(2)]
  define k where "k = (a - seg_start h) div 4096"
  define j where "j = (a - seg_start h) mod 4096"
  have kj: "a = seg_start h + 4096 * k + j" "j < 4096" "k < seg_pages h"
    using a by (auto simp: k_def j_def less_mult_imp_div_less)
  let ?v = "of_nat (seg_start h) + of_nat k * 0x1000 :: u32"
  have st: "unat (of_nat (seg_start h) :: u32) = seg_start h" "unat (of_nat (seg_pages h) :: u32) = seg_pages h" using B(3) by simp_all
  have "(of_nat (seg_start h) :: u32) AND 0xFFF = 0" using B(6) word_of_unat [OF B(1)] by simp
  then have u: "unat ?v = seg_start h + 4096 * k" using page_addrs(1) [of "of_nat (seg_start h)" "seg_pages h" k] B(3) kj(3) st(1) by simp
  have "?v \<in> set (seg_addrs (new_seg h))" using kj(3) st(2) by (auto simp: seg_addrs_def new_seg_def)
  moreover from this have "?v \<in> set (loads_pages L)" using h(1) by (auto simp: loads_pages_def)
  ultimately have "user_page pd t ?v (F ?v)" "phys t (of_nat (F ?v + j)) = seg_byte m file h (unat ?v + j)"
    using F h(1) kj(2) by (auto simp: pages_mapped_def segs_hold_def)
  moreover have "?v + of_nat j = of_nat a" by (simp add: kj(1))
  ultimately show ?thesis using kj(1,2) u by (auto simp: user_page_def simp del: of_nat_add)
qed

text \<open>
  C8: Loading a program.  For a file in a heap block that passes the header check, whose program
  headers lie inside it and whose segments fit and occupy different pages, and with enough frames
  below 4 MiB, \<open>elf_load\<close> returns 0 unless the image record cannot be allocated.  Then every byte
  of every loadable segment's pages is mapped and holds the file's byte or zero, no other
  translation has changed, the entry point is the one in the header, the machine invariant holds and
  the heap has gained exactly the image record.
\<close>
theorem elf_load_maps_program:
  assumes "mach_ok hs pd fpt s" and "elf_fits q sz s"
    and "ld_malloc SIZEOF_USER_IMAGE s = Some (Done (img, s1))" and "img \<noteq> 0"
  shows "\<exists>s' z im. elf_load (of_nat pd) (of_nat q) sz True s = Some (Done (0, img, s')) \<and>
    mach_ok hs pd fpt s' \<and> unat img \<notin> fst ` blocks s \<and> blocks s' = insert (unat img, z) (blocks s) \<and>
    images s' img = Some im \<and> entry im = wd (phys (space s)) (q + 24) \<and>
    (\<forall>h \<in> set (elf_loads (phys (space s)) q). \<forall>a. seg_start h \<le> a \<and> a < seg_start h + 4096 * seg_pages h \<longrightarrow>
       (\<exists>p. mmu (space s') (of_nat a) = Some p \<and>
            phys (space s') p = seg_byte (phys (space s)) (of_nat q) h a)) \<and>
    (\<forall>w. w AND 0xFFFFF000 \<notin> set (loads_pages (elf_loads (phys (space s)) q)) \<longrightarrow>
       mmu (space s') w = mmu (space s) w)"
proof -
  obtain s' F z im where s': "elf_load (of_nat pd) (of_nat q) sz True s = Some (Done (0, img, s'))" "mach_ok hs pd fpt s'"
    "unat img \<notin> fst ` blocks s" "blocks s' = insert (unat img, z) (blocks s)" "images s' = (images s)(img \<mapsto> im)"
    "entry im = wd (phys (space s)) (q + 24)" "pages_mapped pd (space s') (loads_pages (elf_loads (phys (space s)) q)) F"
    "segs_hold (space s') (phys (space s)) (of_nat q) (elf_loads (phys (space s)) q) F"
    "\<And>w. w AND 0xFFFFF000 \<notin> set (loads_pages (elf_loads (phys (space s)) q)) \<Longrightarrow> mmu (space s') w = mmu (space s) w"
    by (rule elf_load_ok [OF assms]) (rule that)
  have "user_range h" if "h \<in> set (elf_loads (phys (space s)) q)" for h
    using assms(2) that by (auto simp: elf_fits_def Let_def seg_fits_def)
  then have "\<exists>p. mmu (space s') (of_nat a) = Some p \<and> phys (space s') p = seg_byte (phys (space s)) (of_nat q) h a"
    if "h \<in> set (elf_loads (phys (space s)) q)" "seg_start h \<le> a" "a < seg_start h + 4096 * seg_pages h" for h a
    using held_byte [OF s'(7,8) that(1) _ that(2,3)] that(1) by simp
  then show ?thesis using s' by (intro exI [of _ s'] exI [of _ z] exI [of _ im]) simp
qed

theorem elf_load_maps_program_witness:
  "\<exists>s img s' p. elf_load (of_nat 0x50000) (of_nat 65556) 88 True s = Some (Done (0, img, s')) \<and>
     mmu (space s') (of_nat 0x400001) = Some p \<and> phys (space s') p = 0xFE"
proof -
  obtain s img s1 where s: "mach_ok 0x10000 0x50000 0x51000 s" "(65556, 88) \<in> blocks s"
    "\<forall>i < 88. phys (space s) (of_nat (65556 + i)) = demo_prog ! i" "card (low_frames (space s)) = 3"
    "ld_malloc SIZEOF_USER_IMAGE s = Some (Done (img, s1))" "img \<noteq> 0"
    by (rule demo_file [of demo_prog]) (simp add: demo_prog_def, rule that)
  note D = demo_fits [OF s(1,2,4,3)]
  let ?h = "\<lparr>p_type = PT_LOAD, p_offset = 84, p_vaddr = 0x400000, p_filesz = 4, p_memsz = 8\<rparr>"
  obtain s' where s': "elf_load (of_nat 0x50000) (of_nat 65556) 88 True s = Some (Done (0, img, s'))"
    "\<forall>a. seg_start ?h \<le> a \<and> a < seg_start ?h + 4096 * seg_pages ?h \<longrightarrow> (\<exists>p. mmu (space s') (of_nat a) = Some p \<and>
       phys (space s') p = seg_byte (phys (space s)) (of_nat 65556) ?h a)"
    using elf_load_maps_program [OF s(1) D(1) s(5,6)] unfolding D(2) by auto
  have "seg_byte (phys (space s)) (of_nat 65556) ?h 0x400001 = 0xFE"
    using s(3) [rule_format, of 85] by (simp add: seg_byte_def demo_prog_def)
  then show ?thesis using s'(1) s'(2) [rule_format, of "0x400001"] by (auto simp: seg_start_def seg_pages_def)
qed



text \<open>
  The header check of \<open>elf_load\<close> is computed modulo \<open>2^32\<close>: it accepts a file whose program
  header table lies beyond the end of the file.  There is a booted machine with an 88-byte file
  that passes \<open>validate_ehdr\<close> although its table starts at offset \<open>2^32 - 32\<close>.
\<close>
lemma validate_ehdr_wraps:
  "\<exists>s. mach_ok 0x10000 0x50000 0x51000 s \<and> validate_ehdr (of_nat 65556) 88 (space s) = Done True \<and>
     88 < unat (wd (phys (space s)) (65556 + 28))"
proof -
  obtain s where s: "mach_ok 0x10000 0x50000 0x51000 s"
    "\<forall>i < 88. phys (space s) (of_nat (65556 + i)) = wrap_prog ! i"
    by (rule demo_file [of wrap_prog]) (simp add: demo_prog_def wrap_prog_def, rule that)
  have "wd (phys (space s)) (65556 + 28) = 0xFFFFFFE0"
    using demo_reads(4) [OF s, of 28] by (simp add: demo_prog_def wrap_prog_def)
  then show ?thesis using s(1) demo_validate [OF s] by auto
qed

end
