(* ===== verification/Keyboard.thy ===== *)
theory Keyboard
  imports Cpu_Tables
begin

text \<open>
  The keyboard driver (\<^verbatim>\<open>src/drivers/keyboard.c\<close>): the ring buffer between the interrupt
  handler and the shell, the two scancode tables, and the modifier state.  The abstract view is
  a queue of at most 255 characters and a decoder that turns scancodes into characters.
\<close>

unbundle bit_operations_syntax

section \<open>The driver\<close>

definition KB_DATA :: u16 where "KB_DATA = 0x60"
definition BUF_SIZE :: nat where [simp]: "BUF_SIZE = 256"

record keyboard =
  kbuf :: "nat \<Rightarrow> u8"
  khead :: nat
  ktail :: nat
  kshift :: bool
  kcaps :: bool

definition buf_push :: "u8 \<Rightarrow> keyboard \<Rightarrow> keyboard" where
  "buf_push c s =
     (let nxt = (khead s + 1) mod BUF_SIZE
      in if nxt \<noteq> ktail s then s\<lparr>kbuf := (kbuf s)(khead s := c), khead := nxt\<rparr> else s)"

definition sc_normal :: "u8 list" where
  "sc_normal =
     [0, 27] @ cstr ''1234567890-='' @ [8, 9] @ cstr ''qwertyuiop[]'' @ [10, 0] @
     cstr ''asdfghjkl;'' @ [39] @ [96] @ [0, 92] @ cstr ''zxcvbnm,./'' @ [0] @ cstr ''*'' @ [0] @ cstr '' ''"

definition sc_shifted :: "u8 list" where
  "sc_shifted =
     [0, 27] @ cstr ''!@#$%^&*()_+'' @ [8, 9] @ cstr ''QWERTYUIOP{}'' @ [10, 0] @
     cstr ''ASDFGHJKL:'' @ [34] @ [126] @ [0, 124] @ cstr ''ZXCVBNM<>?'' @ [0] @ cstr ''*'' @ [0] @ cstr '' ''"

text \<open>The interrupt handler after the scancode has been read.\<close>

definition kb_scancode :: "u8 \<Rightarrow> keyboard \<Rightarrow> keyboard" where
  "kb_scancode sc s =
     (if sc AND 0x80 \<noteq> 0
      then let sc = sc AND 0x7F in if sc = 0x2A \<or> sc = 0x36 then s\<lparr>kshift := False\<rparr> else s
      else if sc = 0x2A \<or> sc = 0x36 then s\<lparr>kshift := True\<rparr>
      else if sc = 0x3A then s\<lparr>kcaps := \<not> kcaps s\<rparr>
      else if sc = 0x1D \<or> sc = 0x38 then s
      else if sc \<ge> 58 then s
      else
        let b = sc_normal ! unat sc;
            use_shift = (if kcaps s \<and> b \<ge> 97 \<and> b \<le> 122 then \<not> kshift s else kshift s);
            c = (if use_shift then sc_shifted ! unat sc else sc_normal ! unat sc)
        in if c \<noteq> 0 then buf_push c s else s)"

definition kb_irq_handler :: "keyboard \<Rightarrow> ports \<Rightarrow> keyboard \<times> ports" where
  "kb_irq_handler s p = (case inb KB_DATA p of (sc, p) \<Rightarrow> (kb_scancode sc s, p))"

definition keyboard_init :: "(u8 \<Rightarrow> isr_handler_t) \<Rightarrow> u8 \<Rightarrow> isr_handler_t" where
  "keyboard_init handlers = isr_register 33 Kb_irq_handler handlers"

definition keyboard_haschar :: "keyboard \<Rightarrow> bool" where
  "keyboard_haschar s \<longleftrightarrow> khead s \<noteq> ktail s"

text \<open>
  \<open>keyboard_getchar\<close> sleeps in \<^verbatim>\<open>hlt\<close> while the buffer is empty.  What the interrupts served during
  the \<open>n\<close>-th \<^verbatim>\<open>hlt\<close> do to the driver's state is the argument \<open>hlt n\<close>; the result carries the number of
  the next one.
\<close>

partial_function (option) keyboard_getchar ::
    "(nat \<Rightarrow> keyboard \<Rightarrow> keyboard) \<Rightarrow> nat \<Rightarrow> keyboard \<Rightarrow> (u8 \<times> nat \<times> keyboard) option" where
  "keyboard_getchar hlt n s =
     (if \<not> keyboard_haschar s then keyboard_getchar hlt (Suc n) (hlt n s)
      else Some (kbuf s (ktail s), n, s\<lparr>ktail := (ktail s + 1) mod BUF_SIZE\<rparr>))"

section \<open>The abstract keyboard\<close>

text \<open>The characters waiting in the buffer, oldest first.\<close>

definition kb_chars :: "keyboard \<Rightarrow> u8 list" where
  "kb_chars s = map (\<lambda>i. kbuf s ((ktail s + i) mod 256)) [0..<(khead s + 256 - ktail s) mod 256]"

definition kb_ok :: "keyboard \<Rightarrow> bool" where
  "kb_ok s \<longleftrightarrow> khead s < 256 \<and> ktail s < 256"

text \<open>
  The decoder: modifier state (shift held, caps lock on) and a scancode give the new modifier
  state and at most one character.  Bit 7 is a key release; a letter is shifted when exactly one
  of shift and caps lock is active.
\<close>

definition is_letter_key :: "u8 \<Rightarrow> bool" where
  "is_letter_key sc \<longleftrightarrow> 0x10 \<le> sc \<and> sc \<le> 0x19 \<or> 0x1E \<le> sc \<and> sc \<le> 0x26 \<or> 0x2C \<le> sc \<and> sc \<le> 0x32"

definition is_shift_key :: "u8 \<Rightarrow> bool" where
  "is_shift_key sc \<longleftrightarrow> sc = 0x2A \<or> sc = 0x36"

definition key_char :: "bool \<times> bool \<Rightarrow> u8 \<Rightarrow> u8" where
  "key_char mods sc =
     (let shifted = (if is_letter_key sc then fst mods \<noteq> snd mods else fst mods)
      in if sc < 58 then (if shifted then sc_shifted else sc_normal) ! unat sc else 0)"

definition decode :: "bool \<times> bool \<Rightarrow> u8 \<Rightarrow> (bool \<times> bool) \<times> u8 list" where
  "decode mods sc =
     (if is_shift_key sc then ((True, snd mods), [])
      else if is_shift_key (sc XOR 0x80) then ((False, snd mods), [])
      else if sc = 0x3A then ((fst mods, \<not> snd mods), [])
      else (mods, if sc < 0x80 \<and> key_char mods sc \<noteq> 0 then [key_char mods sc] else []))"

fun decode_all :: "bool \<times> bool \<Rightarrow> u8 list \<Rightarrow> (bool \<times> bool) \<times> u8 list" where
  "decode_all mods [] = (mods, [])"
| "decode_all mods (sc # scs) =
     (case decode mods sc of (mods, cs) \<Rightarrow>
        (case decode_all mods scs of (mods, ds) \<Rightarrow> (mods, cs @ ds)))"

definition mods_of :: "keyboard \<Rightarrow> bool \<times> bool" where
  "mods_of s = (kshift s, kcaps s)"

definition demo_kb :: keyboard where
  "demo_kb = \<lparr>kbuf = (\<lambda>_. 0), khead = 254, ktail = 254, kshift = False, kcaps = False\<rparr>"

text \<open>The scancodes that the next \<open>k\<close> interrupts read from the data port.\<close>

fun scancodes :: "ports \<Rightarrow> nat \<Rightarrow> u8 list" where
  "scancodes p 0 = []"
| "scancodes p (Suc k) = (case inb KB_DATA p of (sc, p) \<Rightarrow> sc # scancodes p k)"

definition demo_keys :: ports where
  "demo_keys = \<lparr>io_log = [], io_in = (\<lambda>l _. [0x2A, 0x23, 0xAA, 0x17] ! length l)\<rparr>"

section \<open>The ring buffer is a bounded queue\<close>

lemma ring_add: "a < 256 \<Longrightarrow> b \<le> 256 \<Longrightarrow> (a + b) mod 256 = (if a + b < 256 then a + b else a + b - 256)" for a :: nat
  by (simp add: mod_if)

lemma ring_dist: "h < 256 \<Longrightarrow> t < 256 \<Longrightarrow> (h + 256 - t) mod 256 = (if t \<le> h then h - t else h + 256 - t)" for h :: nat
  using ring_add [of h "256 - t"] by auto

lemma kb_chars_length: "length (kb_chars s) = (khead s + 256 - ktail s) mod 256"
  by (simp add: kb_chars_def)

lemma haschar_iff: "kb_ok s \<Longrightarrow> keyboard_haschar s \<longleftrightarrow> kb_chars s \<noteq> []"
  by (auto simp: keyboard_haschar_def kb_chars_def kb_ok_def ring_dist split: if_splits)

lemma full_iff: "kb_ok s \<Longrightarrow> (khead s + 1) mod 256 = ktail s \<longleftrightarrow> length (kb_chars s) = 255"
  using ring_add [of "khead s" 1] by (auto simp: kb_chars_length kb_ok_def ring_dist split: if_splits)

lemma chars_bound: "length (kb_chars s) \<le> 255"
  unfolding kb_chars_length using mod_less_divisor [of 256 "khead s + 256 - ktail s"] by linarith

lemma buf_push_ok: "kb_ok s \<Longrightarrow> kb_ok (buf_push c s)"
  by (simp add: buf_push_def kb_ok_def Let_def)

lemma buf_push_chars:
  assumes "kb_ok s"
  shows "kb_chars (buf_push c s) = (if length (kb_chars s) < 255 then kb_chars s @ [c] else kb_chars s)"
proof (cases "(khead s + 1) mod 256 = ktail s")
  case True
  then show ?thesis using full_iff [OF assms] by (simp add: buf_push_def)
next
  case False
  let ?n = "(khead s + 256 - ktail s) mod 256"
  have b: "khead s < 256" "ktail s < 256" using assms by (simp_all add: kb_ok_def)
  have lt: "?n < 255" using False full_iff [OF assms] chars_bound [of s] by (simp add: kb_chars_length)
  have n': "((khead s + 1) mod 256 + 256 - ktail s) mod 256 = Suc ?n"
    using False b ring_add [of "khead s" 1] by (auto simp: ring_dist split: if_splits)
  have pos: "(ktail s + ?n) mod 256 = khead s"
    using b by (auto simp: ring_dist ring_add split: if_splits)
  have "(ktail s + i) mod 256 \<noteq> khead s" if "i < ?n" for i
    using b that by (auto simp: ring_dist ring_add split: if_splits)
  then show ?thesis using False lt n' pos
    by (simp add: buf_push_def kb_chars_def)
qed

lemma getchar_step:
  assumes "kb_ok s" and "keyboard_haschar s"
  shows "\<exists>s'. keyboard_getchar hlt n s = Some (hd (kb_chars s), n, s') \<and> kb_ok s' \<and>
    kb_chars s' = tl (kb_chars s) \<and> mods_of s' = mods_of s"
proof -
  let ?n = "(khead s + 256 - ktail s) mod 256"
  have n: "0 < ?n" using assms haschar_iff [of s] kb_chars_length [of s] by (metis length_greater_0_conv)
  then have h: "hd (kb_chars s) = kbuf s (ktail s)"
    using assms by (simp add: kb_chars_def hd_map kb_ok_def)
  have n': "(khead s + 256 - (ktail s + 1) mod 256) mod 256 = ?n - 1"
    using assms(1) n ring_add [of "ktail s" 1] by (auto simp: kb_ok_def ring_dist split: if_splits)
  have idx: "(Suc (ktail s) mod 256 + i) mod 256 = Suc (ktail s + i) mod 256" for i
    by (metis add_Suc mod_add_left_eq)
  have "tl (kb_chars s) = map (\<lambda>i. kbuf s ((ktail s + i) mod 256)) (map Suc [0..<?n - 1])"
    unfolding kb_chars_def map_tl [symmetric] map_Suc_upt using n
    by (simp add: upt_conv_Cons)
  then show ?thesis
    using assms h n' by (subst keyboard_getchar.simps) (simp add: kb_chars_def idx kb_ok_def mods_of_def comp_def)
qed

section \<open>The handler follows the decoder\<close>

lemma top_bit: "sc < 0x80 \<longleftrightarrow> \<not> bit (sc :: u8) 7"
proof -
  have "unat sc div 128 = 0 \<or> unat sc div 128 = 1" using unat_lt8 [of sc] by auto
  moreover have "bit sc 7 = bit (unat sc) 7" by (simp add: bit_unsigned_iff)
  ultimately show ?thesis by (auto simp: word_less_nat_alt bit_iff_odd [where 'a = nat])
qed

lemma release_bits:
  "sc AND 0x80 \<noteq> 0 \<longleftrightarrow> \<not> sc < (0x80 :: u8)"
  "\<not> sc < 0x80 \<Longrightarrow> sc AND 0x7F = sc XOR 0x80"
  "\<not> sc < 0x80 \<Longrightarrow> \<not> is_shift_key sc"
  "sc < 0x80 \<Longrightarrow> \<not> is_shift_key (sc XOR 0x80)"
proof -
  have b80: "bit (0x80 :: u8) n \<longleftrightarrow> n = 7" for n using bit_exp_iff [of 7 n, where 'a = u8] by auto
  have b7F: "bit (0x7F :: u8) n \<longleftrightarrow> n < 7" for n
    using bit_mask_iff [of 7 n, where 'a = u8] by (auto simp: mask_eq_exp_minus_1)
  show "sc AND 0x80 \<noteq> 0 \<longleftrightarrow> \<not> sc < (0x80 :: u8)"
    using and_exp_eq_0_iff_not_bit [of sc 7] by (simp add: top_bit)
  show "sc AND 0x7F = sc XOR 0x80" if "\<not> sc < 0x80"
  proof (rule bit_word_eqI)
    fix n assume "n < LENGTH(8)"
    then show "bit (sc AND 0x7F) n = bit (sc XOR 0x80) n"
      using that unfolding top_bit bit_and_iff bit_xor_iff b80 b7F by (auto simp: less_Suc_eq)
  qed
  show "\<not> is_shift_key sc" if "\<not> sc < 0x80"
    using that unfolding is_shift_key_def by auto
  show "\<not> is_shift_key (sc XOR 0x80)" if "sc < 0x80"
  proof -
    have "bit (sc XOR 0x80) 7" using that unfolding top_bit bit_xor_iff b80 by simp
    then have "\<not> sc XOR 0x80 < 0x80" by (simp add: top_bit)
    then show ?thesis unfolding is_shift_key_def by auto
  qed
qed

lemma letter_keys:
  "\<forall>n \<in> set [0..<58]. (let b = sc_normal ! n in 97 \<le> b \<and> b \<le> 122) = is_letter_key (word_of_nat n)"
  unfolding sc_normal_def by code_simp

lemma silent_keys:
  "sc_normal ! 42 = 0" "sc_normal ! 54 = 0" "sc_normal ! 29 = 0" "sc_normal ! 56 = 0"
  "sc_shifted ! 42 = 0" "sc_shifted ! 54 = 0" "sc_shifted ! 29 = 0" "sc_shifted ! 56 = 0"
  by code_simp+

lemma letter_key: "sc < 58 \<Longrightarrow> 97 \<le> sc_normal ! unat sc \<and> sc_normal ! unat sc \<le> 122 \<longleftrightarrow> is_letter_key sc"
  using bspec [OF letter_keys, of "unat sc"] by (simp add: Let_def word_less_nat_alt)

lemma kb_scancode_decodes:
  "kb_scancode sc s = (case decode (mods_of s) sc of (m, cs) \<Rightarrow>
     fold buf_push cs (s\<lparr>kshift := fst m, kcaps := snd m\<rparr>))"
proof (cases "sc < 0x80")
  case False
  then have "sc \<noteq> 0x3A" by auto
  then show ?thesis using False release_bits [of sc]
    by (auto simp: kb_scancode_def decode_def mods_of_def is_shift_key_def Let_def)
next
  case True
  note r = release_bits(1) [of sc] release_bits(4) [OF True]
  consider (shift) "is_shift_key sc" | (caps) "sc = 0x3A" | (ctl) "sc = 0x1D \<or> sc = 0x38"
    | (far) "58 \<le> sc" "\<not> is_shift_key sc" "sc \<noteq> 0x3A"
    | (key) "sc < 58" "\<not> is_shift_key sc" "sc \<noteq> 0x1D" "sc \<noteq> 0x38" "sc \<noteq> 0x3A"
    by (metis not_less)
  then show ?thesis
  proof cases
    case key
    then show ?thesis using True r letter_key [of sc]
      by (auto simp: kb_scancode_def decode_def key_char_def mods_of_def is_shift_key_def Let_def not_le)
  qed (use True r silent_keys in \<open>auto simp: kb_scancode_def decode_def key_char_def mods_of_def is_shift_key_def Let_def\<close>)
qed

lemma kb_scancode_spec:
  assumes "kb_ok s" and "decode (mods_of s) sc = (m, cs)"
  shows "kb_ok (kb_scancode sc s)" "mods_of (kb_scancode sc s) = m"
    and "kb_chars (kb_scancode sc s) = take 255 (kb_chars s @ cs)"
proof -
  let ?t = "s\<lparr>kshift := fst m, kcaps := snd m\<rparr>"
  have t: "kb_ok ?t" "kb_chars ?t = kb_chars s" "mods_of ?t = m"
    using assms(1) by (simp_all add: kb_ok_def kb_chars_def mods_of_def)
  have e: "kb_scancode sc s = fold buf_push cs ?t" using assms(2) by (simp add: kb_scancode_decodes)
  have m: "mods_of (buf_push c u) = mods_of u" for c u by (simp add: buf_push_def mods_of_def Let_def)
  consider "cs = []" | c where "cs = [c]" using assms(2) by (auto simp: decode_def split: if_splits)
  then have "kb_ok (fold buf_push cs ?t) \<and> mods_of (fold buf_push cs ?t) = m \<and>
      kb_chars (fold buf_push cs ?t) = take 255 (kb_chars s @ cs)"
    using t m buf_push_ok [OF t(1)] buf_push_chars [OF t(1)] chars_bound [of s] by cases auto
  then show "kb_ok (kb_scancode sc s)" "mods_of (kb_scancode sc s) = m"
    "kb_chars (kb_scancode sc s) = take 255 (kb_chars s @ cs)" by (simp_all add: e)
qed

lemma scancodes_spec:
  assumes "kb_ok s" and "decode_all (mods_of s) scs = (m, cs)"
  shows "kb_ok (fold kb_scancode scs s) \<and> mods_of (fold kb_scancode scs s) = m \<and>
    kb_chars (fold kb_scancode scs s) = take 255 (kb_chars s @ cs)"
  using assms
proof (induction scs arbitrary: s cs)
  case Nil
  then show ?case using chars_bound [of s] by simp
next
  case (Cons sc scs)
  obtain m1 c1 where d: "decode (mods_of s) sc = (m1, c1)" by fastforce
  obtain ds where ds: "decode_all m1 scs = (m, ds)" "cs = c1 @ ds"
    using Cons.prems(2) d by (auto split: prod.splits)
  note S = kb_scancode_spec [OF Cons.prems(1) d]
  then show ?case using Cons.IH [OF S(1), of ds] ds
    by (simp add: take_add [of 255 0] min_def)
qed

lemma decode_all_append:
  "decode_all m (xs @ ys) = (case decode_all m xs of (m', cs) \<Rightarrow>
     (case decode_all m' ys of (m'', ds) \<Rightarrow> (m'', cs @ ds)))"
  by (induction xs arbitrary: m) (auto split: prod.splits)

lemma irq_run:
  "\<exists>p'. ((\<lambda>(s, p). kb_irq_handler s p) ^^ k) (s, p) = (fold kb_scancode (scancodes p k) s, p')"
  by (induction k arbitrary: s p)
    (auto simp: funpow_Suc_right kb_irq_handler_def simp del: funpow.simps(2) split: prod.splits)

lemma getchar_waits:
  assumes "kb_ok s" and "decode_all (mods_of s) (concat (map keys [n..<n + k])) = (m, cs)"
    and "kb_chars s @ cs \<noteq> []"
  shows "\<exists>j s'. keyboard_getchar (\<lambda>i. fold kb_scancode (keys i)) n s = Some (hd (kb_chars s @ cs), j, s') \<and>
    n \<le> j \<and> j \<le> n + k \<and> kb_ok s'"
  using assms
proof (induction k arbitrary: n s cs)
  case 0
  then show ?case
    using getchar_step [of s "\<lambda>i. fold kb_scancode (keys i)" n] haschar_iff [of s] by auto
next
  case (Suc k)
  let ?h = "\<lambda>i. fold kb_scancode (keys i)"
  show ?case
  proof (cases "keyboard_haschar s")
    case True
    then show ?thesis using Suc.prems getchar_step [of s ?h n] haschar_iff [of s]
      by (auto intro!: exI [of _ n])
  next
    case False
    then have e: "kb_chars s = []" using Suc.prems(1) haschar_iff by blast
    obtain m1 c1 where d: "decode_all (mods_of s) (keys n) = (m1, c1)" by fastforce
    have up: "[n..<n + Suc k] = n # [Suc n..<Suc n + k]" by (simp add: upt_rec)
    obtain ds where ds: "decode_all m1 (concat (map keys [Suc n..<Suc n + k])) = (m, ds)" "cs = c1 @ ds"
      using Suc.prems(2) d unfolding up by (auto simp: decode_all_append split: prod.splits)
    note S = scancodes_spec [OF Suc.prems(1) d]
    have h: "hd (take 255 c1 @ ds) = hd cs" "take 255 c1 @ ds \<noteq> []"
      using ds(2) Suc.prems(3) e by (cases c1; simp)+
    have "\<exists>j s'. keyboard_getchar ?h (Suc n) (?h n s) = Some (hd (kb_chars (?h n s) @ ds), j, s') \<and>
        Suc n \<le> j \<and> j \<le> Suc n + k \<and> kb_ok s'"
      using S ds(1) h e by (intro Suc.IH) auto
    then show ?thesis using False e S h by (subst keyboard_getchar.simps) auto
  qed
qed

section \<open>Properties\<close>

text \<open>
  C10: Whatever scancodes the keyboard sends, after \<open>k\<close> keyboard interrupts the ring buffer is the
  queue of at most 255 characters behind the decoder: the characters of the keys pressed, shifted
  as the modifier state says, are appended in order, characters that arrive while 255 are waiting
  are dropped, and no waiting character is overwritten.
\<close>

theorem keyboard_is_queue:
  assumes "kb_ok s" and "decode_all (mods_of s) (scancodes p k) = (m, cs)"
  shows "\<exists>s' p'. ((\<lambda>(s, p). kb_irq_handler s p) ^^ k) (s, p) = (s', p') \<and>
    kb_ok s' \<and> mods_of s' = m \<and> kb_chars s' = take 255 (kb_chars s @ cs)"
  using scancodes_spec [OF assms] irq_run [where s = s and p = p and k = k] by auto

theorem keyboard_is_queue_witness:
  "kb_ok demo_kb \<and>
   (\<exists>s' p'. ((\<lambda>(s, p). kb_irq_handler s p) ^^ 4) (demo_kb, demo_keys) = (s', p') \<and>
      mods_of s' = (False, False) \<and> kb_chars s' = [72, 105])"
proof -
  have ok: "kb_ok demo_kb" by (simp add: kb_ok_def demo_kb_def)
  have d: "decode_all (mods_of demo_kb) (scancodes demo_keys 4) = ((False, False), [72, 105])" by code_simp
  have e: "kb_chars demo_kb = []" by (simp add: kb_chars_def demo_kb_def)
  show ?thesis using keyboard_is_queue [OF ok d] ok unfolding e by auto
qed

text \<open>
  C28: Reading a character ends: if the keys that the interrupts of the next \<open>k\<close> sleeps report
  contain one that gives a character (or one is waiting already), \<open>keyboard_getchar\<close> returns, with
  the oldest character, after at most \<open>k\<close> sleeps.
\<close>

theorem getchar_delivers:
  assumes "kb_ok s" and "decode_all (mods_of s) (concat (map keys [n..<n + k])) = (m, cs)"
    and "kb_chars s @ cs \<noteq> []"
  shows "\<exists>j s'. keyboard_getchar (\<lambda>i. fold kb_scancode (keys i)) n s = Some (hd (kb_chars s @ cs), j, s') \<and>
    n \<le> j \<and> j \<le> n + k \<and> kb_ok s'"
  by (rule getchar_waits [OF assms])

theorem getchar_delivers_witness:
  "\<exists>j s'. keyboard_getchar (\<lambda>i. fold kb_scancode (if i = 1 then [0x23] else [0x2A])) 0 demo_kb =
     Some (72, j, s') \<and> j \<le> 2 \<and> kb_ok s'"
proof -
  let ?keys = "\<lambda>i :: nat. if i = 1 then [0x23] else [0x2A :: u8]"
  have ok: "kb_ok demo_kb" by (simp add: kb_ok_def demo_kb_def)
  have d: "decode_all (mods_of demo_kb) (concat (map ?keys [0..<0 + 2])) = ((True, False), [72])" by code_simp
  have e: "kb_chars demo_kb = []" by (simp add: kb_chars_def demo_kb_def)
  show ?thesis using getchar_delivers [OF ok d] unfolding e by auto
qed

end
