(* ===== verification/Ata.thy ===== *)
theory Ata
  imports Ports Memory
begin

text \<open>
  The disk driver (\<^verbatim>\<open>src/drivers/ata.c\<close>): polled 28-bit LBA transfers over the primary bus.
  What the drive answers is decided by \<open>io_in\<close> of the port model, and the second half states what the
  standard promises of these answers; the polling loops may run forever and are partial functions.  \<open>ata_read\<close> also returns the bytes it has stored from \<open>buf\<close> on;
  \<open>ata_write\<close> takes the bytes at \<open>buf\<close>.
\<close>

unbundle bit_operations_syntax

section \<open>The driver\<close>

definition ATA_IO_BASE :: u16 where "ATA_IO_BASE = 0x1F0"
definition ATA_CTRL_BASE :: u16 where "ATA_CTRL_BASE = 0x3F6"
definition ATA_REG_DATA :: u16 where "ATA_REG_DATA = ATA_IO_BASE + 0"
definition ATA_REG_FEATURES :: u16 where "ATA_REG_FEATURES = ATA_IO_BASE + 1"
definition ATA_REG_SECCOUNT :: u16 where "ATA_REG_SECCOUNT = ATA_IO_BASE + 2"
definition ATA_REG_LBA0 :: u16 where "ATA_REG_LBA0 = ATA_IO_BASE + 3"
definition ATA_REG_LBA1 :: u16 where "ATA_REG_LBA1 = ATA_IO_BASE + 4"
definition ATA_REG_LBA2 :: u16 where "ATA_REG_LBA2 = ATA_IO_BASE + 5"
definition ATA_REG_HDDEVSEL :: u16 where "ATA_REG_HDDEVSEL = ATA_IO_BASE + 6"
definition ATA_REG_STATUS :: u16 where "ATA_REG_STATUS = ATA_IO_BASE + 7"
definition ATA_REG_COMMAND :: u16 where "ATA_REG_COMMAND = ATA_IO_BASE + 7"
definition ATA_SR_BSY :: u8 where "ATA_SR_BSY = 0x80"
definition ATA_SR_DRQ :: u8 where "ATA_SR_DRQ = 0x08"
definition ATA_SR_ERR :: u8 where "ATA_SR_ERR = 0x01"
definition ATA_CMD_READ_PIO :: u8 where "ATA_CMD_READ_PIO = 0x20"
definition ATA_CMD_WRITE_PIO :: u8 where "ATA_CMD_WRITE_PIO = 0x30"
definition ATA_CMD_CACHE_FLUSH :: u8 where "ATA_CMD_CACHE_FLUSH = 0xE7"

definition ata_io_wait :: "ports \<Rightarrow> ports" where
  "ata_io_wait s = for_range 0 4 (\<lambda>i s. snd (inb ATA_CTRL_BASE s)) s"

text \<open>The status loop of \<open>ata_poll_data_ready\<close>, and the wait for BSY to clear.\<close>

partial_function (option) poll_loop :: "ports \<Rightarrow> (int \<times> ports) option" where
  "poll_loop s =
     (case inb ATA_REG_STATUS s of (st, s) \<Rightarrow>
        if st AND ATA_SR_ERR \<noteq> 0 then Some (-1, s)
        else if st AND ATA_SR_BSY = 0 \<and> st AND ATA_SR_DRQ \<noteq> 0 then Some (0, s)
        else poll_loop s)"

definition ata_poll_data_ready :: "ports \<Rightarrow> (int \<times> ports) option" where
  "ata_poll_data_ready s = poll_loop (ata_io_wait s)"

partial_function (option) wait_not_busy :: "ports \<Rightarrow> ports option" where
  "wait_not_busy s =
     (case inb ATA_REG_STATUS s of (st, s) \<Rightarrow>
        if st AND ATA_SR_BSY \<noteq> 0 then wait_not_busy s else Some s)"

definition ata_init :: "ports \<Rightarrow> ports" where
  "ata_init s = outb ATA_CTRL_BASE 0x02 s"

text \<open>The device-select byte, and the writes that describe the transfer and start it.\<close>

definition select_byte :: "u8 \<Rightarrow> u32 \<Rightarrow> u8" where
  "select_byte drive lba =
     ucast (0xE0 OR push_bit 4 (ucast (drive AND 1)) OR (drop_bit 24 lba AND 0x0F) :: u32)"

definition start_command :: "u32 \<Rightarrow> u8 \<Rightarrow> u8 \<Rightarrow> ports \<Rightarrow> ports" where
  "start_command lba count cmd s =
     (let s = outb ATA_REG_FEATURES 0 s;
          s = outb ATA_REG_SECCOUNT count s;
          s = outb ATA_REG_LBA0 (ucast (lba AND 0xFF)) s;
          s = outb ATA_REG_LBA1 (ucast (drop_bit 8 lba AND 0xFF)) s;
          s = outb ATA_REG_LBA2 (ucast (drop_bit 16 lba AND 0xFF)) s
      in outb ATA_REG_COMMAND cmd s)"

text \<open>The sector loops; \<open>n\<close> is the number of sectors that are left.\<close>

fun read_sectors :: "nat \<Rightarrow> ports \<Rightarrow> (int \<times> u8 list \<times> ports) option" where
  "read_sectors 0 s = Some (0, [], s)"
| "read_sectors (Suc n) s =
     (case ata_poll_data_ready s of
        None \<Rightarrow> None
      | Some (r, s) \<Rightarrow>
          if r < 0 then Some (-1, [], s)
          else (case insw ATA_REG_DATA 256 s of (bs, s) \<Rightarrow>
                  (case read_sectors n s of
                     None \<Rightarrow> None
                   | Some (r, rest, s) \<Rightarrow> Some (r, bs @ rest, s))))"

fun write_sectors :: "nat \<Rightarrow> u8 list \<Rightarrow> ports \<Rightarrow> (int \<times> ports) option" where
  "write_sectors 0 p s = Some (0, s)"
| "write_sectors (Suc n) p s =
     (case ata_poll_data_ready s of
        None \<Rightarrow> None
      | Some (r, s) \<Rightarrow>
          if r < 0 then Some (-1, s)
          else write_sectors n (drop 512 p) (outsw ATA_REG_DATA p 256 s))"

definition ata_read :: "u8 \<Rightarrow> u32 \<Rightarrow> u8 \<Rightarrow> ports \<Rightarrow> (int \<times> u8 list \<times> ports) option" where
  "ata_read drive lba count s =
     (if count = 0 then Some (0, [], s)
      else if lba AND 0xF0000000 \<noteq> 0 then Some (-1, [], s)
      else
        case wait_not_busy (ata_io_wait (outb ATA_REG_HDDEVSEL (select_byte drive lba) s)) of
          None \<Rightarrow> None
        | Some s \<Rightarrow> read_sectors (unat count) (start_command lba count ATA_CMD_READ_PIO s))"

definition ata_write :: "u8 \<Rightarrow> u32 \<Rightarrow> u8 \<Rightarrow> u8 list \<Rightarrow> ports \<Rightarrow> (int \<times> ports) option" where
  "ata_write drive lba count buf s =
     (if count = 0 then Some (0, s)
      else if lba AND 0xF0000000 \<noteq> 0 then Some (-1, s)
      else
        case wait_not_busy (ata_io_wait (outb ATA_REG_HDDEVSEL (select_byte drive lba) s)) of
          None \<Rightarrow> None
        | Some s \<Rightarrow>
            (case write_sectors (unat count) buf (start_command lba count ATA_CMD_WRITE_PIO s) of
               None \<Rightarrow> None
             | Some (r, s) \<Rightarrow>
                 if r < 0 then Some (-1, s)
                 else map_option (\<lambda>s. (0, s))
                        (wait_not_busy (ata_io_wait (outb ATA_REG_COMMAND ATA_CMD_CACHE_FLUSH s)))))"

section \<open>The drives on the bus\<close>

text \<open>
  The hardware behind the ports, as the ATA standard describes programmed transfers: the registers,
  the transfer in progress and the sectors of the two drives (\<open>True\<close> is the slave).  Every event on the
  bus is a step.  A read command makes the words of the addressed sectors available; after a write
  command, every 256 words received replace one sector.
\<close>

datatype transfer = Idle | Sending "u16 list" | Receiving bool nat nat "u16 list"

record ata_bus =
  regs :: "u16 \<Rightarrow> u8"
  xfer :: transfer
  media :: "bool \<Rightarrow> nat \<Rightarrow> u8 list"

fun words_bytes :: "u16 list \<Rightarrow> u8 list" where
  "words_bytes [] = []"
| "words_bytes (w # ws) = ucast w # ucast (drop_bit 8 w) # words_bytes ws"

fun bytes_words :: "u8 list \<Rightarrow> u16 list" where
  "bytes_words (a # b # bs) = (ucast a OR push_bit 8 (ucast b)) # bytes_words bs"
| "bytes_words bs = []"

definition sectors :: "(nat \<Rightarrow> u8 list) \<Rightarrow> nat \<Rightarrow> nat \<Rightarrow> u8 list" where
  "sectors m lba n = concat (map m [lba..<lba + n])"

definition sel_slave :: "ata_bus \<Rightarrow> bool" where
  "sel_slave b = bit (regs b ATA_REG_HDDEVSEL) 4"

definition sel_lba :: "ata_bus \<Rightarrow> nat" where
  "sel_lba b = unat (ucast (regs b ATA_REG_LBA0) OR push_bit 8 (ucast (regs b ATA_REG_LBA1)) OR
     push_bit 16 (ucast (regs b ATA_REG_LBA2)) OR push_bit 24 (ucast (regs b ATA_REG_HDDEVSEL AND 0x0F)) :: u32)"

definition sel_count :: "ata_bus \<Rightarrow> nat" where
  "sel_count b = (if regs b ATA_REG_SECCOUNT = 0 then 256 else unat (regs b ATA_REG_SECCOUNT))"

definition to_send :: "u16 list \<Rightarrow> transfer" where
  "to_send ws = (if ws = [] then Idle else Sending ws)"

definition to_receive :: "bool \<Rightarrow> nat \<Rightarrow> nat \<Rightarrow> transfer" where
  "to_receive d lba n = (if n = 0 then Idle else Receiving d lba n [])"

definition bus_command :: "u8 \<Rightarrow> ata_bus \<Rightarrow> ata_bus" where
  "bus_command cmd b =
     b\<lparr>xfer := (if cmd = ATA_CMD_READ_PIO
                then to_send (bytes_words (sectors (media b (sel_slave b)) (sel_lba b) (sel_count b)))
                else if cmd = ATA_CMD_WRITE_PIO then to_receive (sel_slave b) (sel_lba b) (sel_count b)
                else Idle)\<rparr>"

definition bus_receive :: "u16 \<Rightarrow> ata_bus \<Rightarrow> ata_bus" where
  "bus_receive w b =
     (case xfer b of
        Receiving d lba n ws \<Rightarrow>
          if length ws = 255
          then b\<lparr>media := (media b)(d := (media b d)(lba := words_bytes (ws @ [w]))), xfer := to_receive d (lba + 1) (n - 1)\<rparr>
          else b\<lparr>xfer := Receiving d lba n (ws @ [w])\<rparr>
      | _ \<Rightarrow> b)"

definition bus_step :: "io_event \<Rightarrow> ata_bus \<Rightarrow> ata_bus" where
  "bus_step e b =
     (case e of
        Out8 p x \<Rightarrow>
          (let b = b\<lparr>regs := (regs b)(p := x)\<rparr> in if p = ATA_REG_COMMAND then bus_command x b else b)
      | In16 p w \<Rightarrow>
          if p = ATA_REG_DATA then (case xfer b of Sending ws \<Rightarrow> b\<lparr>xfer := to_send (tl ws)\<rparr> | _ \<Rightarrow> b) else b
      | Out16 p w \<Rightarrow> if p = ATA_REG_DATA then bus_receive w b else b
      | In8 p x \<Rightarrow> b)"

text \<open>
  The bus after the events of a log, from the state \<open>b\<close> it was powered up in.  The drives serve: no
  status has the error bit, polling always sees the drive leave its busy state, with data requested when a
  transfer is in progress, and the data port gives the next word of a read.
\<close>

definition now :: "ata_bus \<Rightarrow> ports \<Rightarrow> ata_bus" where
  "now b s = fold bus_step (io_log s) b"

definition drive_serves :: "ata_bus \<Rightarrow> ports \<Rightarrow> bool" where
  "drive_serves b s \<longleftrightarrow>
     (\<forall>l. (ucast (io_in s l ATA_REG_STATUS) :: u8) AND ATA_SR_ERR = 0) \<and>
     (\<forall>l. polls_to (io_in s) ATA_REG_STATUS (\<lambda>st. st AND ATA_SR_BSY = 0 \<and>
        (xfer (fold bus_step l b) \<noteq> Idle \<longrightarrow> st AND ATA_SR_DRQ \<noteq> 0)) l) \<and>
     (\<forall>l w ws. xfer (fold bus_step l b) = Sending (w # ws) \<longrightarrow> io_in s l ATA_REG_DATA = w) \<and>
     (\<forall>d n. length (media (now b s) d n) = 512)"

text \<open>Sectors \<open>lba\<close> to \<open>lba + n - 1\<close> replaced by the bytes of a buffer.\<close>

definition put_sectors :: "nat \<Rightarrow> nat \<Rightarrow> u8 list \<Rightarrow> (nat \<Rightarrow> u8 list) \<Rightarrow> nat \<Rightarrow> u8 list" where
  "put_sectors lba n p m = (\<lambda>i. if lba \<le> i \<and> i < lba + n then take 512 (drop (512 * (i - lba)) p) else m i)"

text \<open>What status polling leaves unchanged.\<close>

definition polled :: "ports \<Rightarrow> ports \<Rightarrow> bool" where
  "polled s t \<longleftrightarrow> io_in t = io_in s \<and>
     (\<exists>l. io_log t = io_log s @ l \<and> (\<forall>e \<in> set l. \<exists>p x. e = In8 p x))"

text \<open>A bus on which every second status read is busy.\<close>

definition drive_answers :: "ata_bus \<Rightarrow> io_event list \<Rightarrow> u16 \<Rightarrow> u16" where
  "drive_answers b l p =
     (let x = xfer (fold bus_step l b) in
      if p = ATA_REG_STATUS then (if even (length l) then 0x80 else if x = Idle then 0x50 else 0x58)
      else if p = ATA_REG_DATA then (case x of Sending (w # ws) \<Rightarrow> w | _ \<Rightarrow> 0)
      else 0)"

definition blank_disks :: ata_bus where
  "blank_disks = \<lparr>regs = (\<lambda>_. 0), xfer = Idle, media = (\<lambda>d n. replicate 512 (if d then of_nat n else 0))\<rparr>"

text \<open>
  The disk driver and the console share the bus but not their ports: what the driver does is not sent on the serial
  line, and it does not change how the devices answer.
\<close>

definition undisturbed :: "ports \<Rightarrow> ports \<Rightarrow> bool" where
  "undisturbed s t \<longleftrightarrow> io_in t = io_in s \<and> sent t = sent s"

definition demo_drive :: ports where
  "demo_drive = \<lparr>io_log = [], io_in = drive_answers blank_disks\<rparr>"

section \<open>Polling\<close>

lemma polled_refl: "polled s s" by (simp add: polled_def)

lemma polled_trans: "polled s t \<Longrightarrow> polled t u \<Longrightarrow> polled s u"
  by (fastforce simp: polled_def)

lemma reads_keep: "\<forall>e \<in> set l. \<exists>p x. e = In8 p x \<Longrightarrow> fold bus_step l b = b"
  by (induction l arbitrary: b) (auto simp: bus_step_def)

lemma polled_now: "polled s t \<Longrightarrow> now b t = now b s"
  by (auto simp: polled_def now_def reads_keep)

lemma serves_cong:
  "io_in t = io_in s \<Longrightarrow> drive_serves b s \<Longrightarrow> \<forall>d n. length (media (now b t) d n) = 512 \<Longrightarrow> drive_serves b t"
  by (simp add: drive_serves_def)

lemma polled_serves: "polled s t \<Longrightarrow> drive_serves b s \<Longrightarrow> drive_serves b t"
  using polled_now [of s t b] by (simp add: drive_serves_def polled_def)

lemma inb_polled: "polled s (snd (inb port s))"
  by (auto simp: polled_def inb_def Let_def)

lemma io_wait_polled: "polled s (ata_io_wait s)"
  unfolding ata_io_wait_def
proof (rule for_range_keeps)
  show "polled s (snd (inb ATA_CTRL_BASE t))" if "polled s t" for t
    using polled_trans [OF that inb_polled [of t ATA_CTRL_BASE]] by simp
qed (rule polled_refl)

text \<open>Both loops poll until a status is good.\<close>

lemma poll_loop_returns:
  assumes "drive_serves b s" and "xfer (now b s) \<noteq> Idle"
  shows "\<exists>t. poll_loop s = Some (0, t) \<and> polled s t"
proof -
  obtain n where "(ucast (io_in s (read_log (io_in s) ATA_REG_STATUS n (io_log s)) ATA_REG_STATUS) :: u8) AND ATA_SR_BSY = 0"
    "(ucast (io_in s (read_log (io_in s) ATA_REG_STATUS n (io_log s)) ATA_REG_STATUS) :: u8) AND ATA_SR_DRQ \<noteq> 0"
    using assms unfolding drive_serves_def polls_to_def now_def by blast
  then show ?thesis using assms
  proof (induction n arbitrary: s)
    case 0
    then show ?case using inb_polled [of s ATA_REG_STATUS]
      by (subst poll_loop.simps) (auto simp: inb_def Let_def drive_serves_def)
  next
    case (Suc n)
    let ?t = "snd (inb ATA_REG_STATUS s)"
    have p: "polled s ?t" by (rule inb_polled)
    have "\<exists>u. poll_loop ?t = Some (0, u) \<and> polled ?t u"
      using Suc.prems polled_serves [OF p] polled_now [OF p] by (intro Suc.IH) (auto simp: inb_def Let_def)
    then show ?case using Suc.prems p
      by (subst poll_loop.simps) (auto simp: inb_def Let_def drive_serves_def intro: polled_trans)
  qed
qed

lemma wait_not_busy_returns:
  assumes "drive_serves b s"
  shows "\<exists>t. wait_not_busy s = Some t \<and> polled s t"
proof -
  obtain n where "(ucast (io_in s (read_log (io_in s) ATA_REG_STATUS n (io_log s)) ATA_REG_STATUS) :: u8) AND ATA_SR_BSY = 0"
    using assms unfolding drive_serves_def polls_to_def by blast
  then show ?thesis
  proof (induction n arbitrary: s)
    case 0
    then show ?case using inb_polled [of s ATA_REG_STATUS]
      by (subst wait_not_busy.simps) (auto simp: inb_def Let_def)
  next
    case (Suc n)
    let ?t = "snd (inb ATA_REG_STATUS s)"
    have p: "polled s ?t" by (rule inb_polled)
    have "\<exists>u. wait_not_busy ?t = Some u \<and> polled ?t u"
      using Suc.prems by (intro Suc.IH) (auto simp: inb_def Let_def)
    then show ?case using p
      by (subst wait_not_busy.simps) (auto simp: inb_def Let_def intro: polled_trans)
  qed
qed

lemma data_ready:
  assumes "drive_serves b s" and "xfer (now b s) \<noteq> Idle"
  obtains t where "ata_poll_data_ready s = Some (0, t)" "now b t = now b s" "drive_serves b t" "io_in t = io_in s"
proof -
  have p: "polled s (ata_io_wait s)" by (rule io_wait_polled)
  obtain t where t: "poll_loop (ata_io_wait s) = Some (0, t)" "polled (ata_io_wait s) t"
    using poll_loop_returns [OF polled_serves [OF p assms(1)]] polled_now [OF p] assms(2) by auto
  have q: "polled s t" by (rule polled_trans [OF p t(2)])
  show thesis by (rule that [of t])
    (use t(1) polled_now [OF q] polled_serves [OF q assms(1)] q in \<open>auto simp: ata_poll_data_ready_def polled_def\<close>)
qed

lemma drive_ready:
  assumes "drive_serves b s"
  obtains t where "wait_not_busy (ata_io_wait s) = Some t" "now b t = now b s" "drive_serves b t" "io_in t = io_in s"
proof -
  have p: "polled s (ata_io_wait s)" by (rule io_wait_polled)
  obtain t where t: "wait_not_busy (ata_io_wait s) = Some t" "polled (ata_io_wait s) t"
    using wait_not_busy_returns [OF polled_serves [OF p assms]] by auto
  have q: "polled s t" by (rule polled_trans [OF p t(2)])
  show thesis by (rule that [of t])
    (use t(1) polled_now [OF q] polled_serves [OF q assms] q in \<open>auto simp: polled_def\<close>)
qed

section \<open>Transfers\<close>

lemma words_bytes_append: "words_bytes (xs @ ys) = words_bytes xs @ words_bytes ys"
  by (induction xs) auto

lemma words_bytes_length [simp]: "length (words_bytes ws) = 2 * length ws"
  by (induction ws) auto

lemma bytes_words_length: "length (bytes_words bs) = length bs div 2"
  by (induction bs rule: bytes_words.induct) auto

lemma word_halves: "(ucast (ucast a OR push_bit 8 (ucast b) :: u16) :: u8) = a"
  "(ucast (drop_bit 8 (ucast a) OR drop_bit 8 (push_bit 8 (ucast b)) :: u16) :: u8) = b" for a b :: u8
  by (rule bit_word_eqI; auto simp: bit_simps dest: bit_imp_le_length)+

lemma bytes_words_bytes: "even (length bs) \<Longrightarrow> words_bytes (bytes_words bs) = bs"
  by (induction bs rule: bytes_words.induct) (auto simp: word_halves)

lemma outb_serves:
  assumes "drive_serves b s" and "p \<noteq> ATA_REG_COMMAND"
  shows "drive_serves b (outb p x s)" "now b (outb p x s) = (now b s)\<lparr>regs := (regs (now b s))(p := x)\<rparr>"
proof -
  show n: "now b (outb p x s) = (now b s)\<lparr>regs := (regs (now b s))(p := x)\<rparr>"
    using assms(2) by (simp add: now_def outb_def bus_step_def)
  show "drive_serves b (outb p x s)" using assms(1) n by (simp add: drive_serves_def outb_def)
qed

lemma command_serves:
  assumes "drive_serves b s"
  shows "drive_serves b (outb ATA_REG_COMMAND x s)"
    "now b (outb ATA_REG_COMMAND x s) = bus_command x ((now b s)\<lparr>regs := (regs (now b s))(ATA_REG_COMMAND := x)\<rparr>)"
proof -
  show n: "now b (outb ATA_REG_COMMAND x s) = bus_command x ((now b s)\<lparr>regs := (regs (now b s))(ATA_REG_COMMAND := x)\<rparr>)"
    by (simp add: now_def outb_def bus_step_def)
  show "drive_serves b (outb ATA_REG_COMMAND x s)" using assms n by (simp add: drive_serves_def outb_def bus_command_def)
qed

lemma inw_sends:
  assumes "drive_serves b s" and "xfer (now b s) = to_send (w # ws)"
  obtains t where "inw ATA_REG_DATA s = (w, t)" "xfer (now b t) = to_send ws" "media (now b t) = media (now b s)" "drive_serves b t"
proof -
  have x: "xfer (now b s) = Sending (w # ws)" using assms(2) by (simp add: to_send_def)
  then have v: "io_in s (io_log s) ATA_REG_DATA = w" using assms(1) by (simp add: drive_serves_def now_def)
  let ?t = "s\<lparr>io_log := io_log s @ [In16 ATA_REG_DATA w]\<rparr>"
  have n: "now b ?t = (now b s)\<lparr>xfer := to_send ws\<rparr>" using x by (simp add: now_def bus_step_def)
  show thesis by (rule that [of ?t]) (use assms(1) n v in \<open>simp_all add: inw_def drive_serves_def\<close>)
qed

lemma insw_sends:
  assumes "drive_serves b s" and "xfer (now b s) = to_send (ws @ vs)"
  shows "\<exists>t. insw ATA_REG_DATA (length ws) s = (words_bytes ws, t) \<and> xfer (now b t) = to_send vs \<and>
    media (now b t) = media (now b s) \<and> drive_serves b t"
  using assms
proof (induction ws arbitrary: s)
  case (Cons w ws)
  obtain t where t: "inw ATA_REG_DATA s = (w, t)" "xfer (now b t) = to_send (ws @ vs)" "media (now b t) = media (now b s)" "drive_serves b t"
    using inw_sends [OF Cons.prems(1)] Cons.prems(2) by auto
  then show ?case using Cons.IH [OF t(4,2)] by auto
qed simp

lemma read_sectors_sends:
  assumes "drive_serves b s" and "xfer (now b s) = to_send ws" and "length ws = 256 * n"
  shows "\<exists>t. read_sectors n s = Some (0, words_bytes ws, t) \<and> media (now b t) = media (now b s) \<and> drive_serves b t"
  using assms
proof (induction n arbitrary: s ws)
  case (Suc n)
  have x: "xfer (now b s) \<noteq> Idle" using Suc.prems(2,3) by (auto simp: to_send_def)
  obtain t where t: "ata_poll_data_ready s = Some (0, t)" "now b t = now b s" "drive_serves b t"
    by (rule data_ready [OF Suc.prems(1) x])
  have ws: "xfer (now b t) = to_send (take 256 ws @ drop 256 ws)" "length (take 256 ws) = 256" "length (drop 256 ws) = 256 * n"
    using t(2) Suc.prems(2,3) by simp_all
  obtain u where u: "insw ATA_REG_DATA 256 t = (words_bytes (take 256 ws), u)" "xfer (now b u) = to_send (drop 256 ws)"
    "media (now b u) = media (now b t)" "drive_serves b u" using insw_sends [OF t(3) ws(1)] ws(2) by auto
  obtain v where v: "read_sectors n u = Some (0, words_bytes (drop 256 ws), v)" "media (now b v) = media (now b u)" "drive_serves b v"
    using Suc.IH [OF u(4,2) ws(3)] by blast
  have "words_bytes (take 256 ws) @ words_bytes (drop 256 ws) = words_bytes ws"
    by (simp flip: words_bytes_append)
  then show ?case using t u v by simp
qed simp

lemma outw_receives:
  assumes "drive_serves b s" and "xfer (now b s) = Receiving d lba n ws"
  shows "now b (outw ATA_REG_DATA w s) = bus_receive w (now b s)" "drive_serves b (outw ATA_REG_DATA w s)"
proof -
  show n: "now b (outw ATA_REG_DATA w s) = bus_receive w (now b s)" by (simp add: now_def outw_def bus_step_def)
  have "length (media (now b s) d n) = 512" for d n using assms(1) by (simp add: drive_serves_def)
  then have "\<forall>d n. length (media (bus_receive w (now b s)) d n) = 512"
    using assms(2) by (auto simp: bus_receive_def)
  then show "drive_serves b (outw ATA_REG_DATA w s)" using assms(1) n by (simp add: drive_serves_def outw_def)
qed

lemma outsw_receives:
  assumes "drive_serves b s" and "xfer (now b s) = Receiving d lba n ws" and "length ws + k = 256" "0 < k" "2 * k \<le> length p"
  shows "drive_serves b (outsw ATA_REG_DATA p k s) \<and> xfer (now b (outsw ATA_REG_DATA p k s)) = to_receive d (lba + 1) (n - 1) \<and>
    media (now b (outsw ATA_REG_DATA p k s)) = (media (now b s))(d := (media (now b s) d)(lba := words_bytes ws @ take (2 * k) p))"
  using assms
proof (induction k arbitrary: s ws p)
  case (Suc k)
  obtain x y q where p: "p = x # y # q" using Suc.prems(5) by (cases p; cases "tl p") auto
  let ?w = "ucast x OR push_bit 8 (ucast y) :: u16"
  let ?t = "outw ATA_REG_DATA ?w s"
  note R = outw_receives [OF Suc.prems(1,2), of ?w]
  have s: "outsw ATA_REG_DATA p (Suc k) s = outsw ATA_REG_DATA q k ?t" by (simp add: p char_at_def)
  have wb: "words_bytes (ws @ [?w]) = words_bytes ws @ [x, y]" by (simp add: words_bytes_append word_halves)
  show ?case
  proof (cases "k = 0")
    case True
    then have "length ws = 255" using Suc.prems(3) by simp
    then have "now b ?t = (now b s)\<lparr>media := (media (now b s))(d := (media (now b s) d)(lba := words_bytes (ws @ [?w]))),
        xfer := to_receive d (lba + 1) (n - 1)\<rparr>" using R(1) Suc.prems(2) by (simp add: bus_receive_def)
    then show ?thesis unfolding s using True R(2) by (simp add: wb p fun_eq_iff)
  next
    case False
    then have n: "now b ?t = (now b s)\<lparr>xfer := Receiving d lba n (ws @ [?w])\<rparr>"
      using R(1) Suc.prems(2,3) by (simp add: bus_receive_def)
    then have x: "xfer (now b ?t) = Receiving d lba n (ws @ [?w])" by simp
    have "length (ws @ [?w]) + k = 256" "0 < k" "2 * k \<le> length q" using Suc.prems(3-5) False p by auto
    from Suc.IH [OF R(2) x this] show ?thesis unfolding s using n wb by (simp add: p)
  qed
qed simp

lemma put_sectors_0: "put_sectors lba 0 p m = m"
  by (rule ext) (auto simp: put_sectors_def)

lemma put_sectors_Suc:
  "put_sectors (lba + 1) n (drop 512 p) (m(lba := take 512 p)) = put_sectors lba (Suc n) p m"
proof
  fix i
  have "Suc lba \<le> i \<Longrightarrow> 512 * (i - Suc lba) + 512 = 512 * (i - lba)" by simp
  then show "put_sectors (lba + 1) n (drop 512 p) (m(lba := take 512 p)) i = put_sectors lba (Suc n) p m i"
    by (auto simp: put_sectors_def)
qed

lemma write_sectors_receives:
  assumes "drive_serves b s" and "xfer (now b s) = to_receive d lba n" and "512 * n \<le> length p"
  shows "\<exists>t. write_sectors n p s = Some (0, t) \<and> drive_serves b t \<and>
    media (now b t) = (media (now b s))(d := put_sectors lba n p (media (now b s) d))"
  using assms
proof (induction n arbitrary: s p lba)
  case 0
  then show ?case by (simp add: put_sectors_0)
next
  case (Suc n)
  have x: "xfer (now b s) = Receiving d lba (Suc n) []" "xfer (now b s) \<noteq> Idle" using Suc.prems(2) by (simp_all add: to_receive_def)
  obtain t where t: "ata_poll_data_ready s = Some (0, t)" "now b t = now b s" "drive_serves b t"
    by (rule data_ready [OF Suc.prems(1) x(2)])
  let ?u = "outsw ATA_REG_DATA p 256 t"
  have u: "drive_serves b ?u" "xfer (now b ?u) = to_receive d (lba + 1) n"
    "media (now b ?u) = (media (now b s))(d := (media (now b s) d)(lba := take 512 p))"
    using outsw_receives [OF t(3), of d lba "Suc n" "[]" 256 p] t(2) x(1) Suc.prems(3) by simp_all
  have l: "512 * n \<le> length (drop 512 p)" using Suc.prems(3) by simp
  from Suc.IH [OF u(1,2) l] obtain v where "write_sectors n (drop 512 p) ?u = Some (0, v)" "drive_serves b v"
    "media (now b v) = (media (now b ?u))(d := put_sectors (lba + 1) n (drop 512 p) (media (now b ?u) d))" by blast
  then show ?case using t(1) u(3) put_sectors_Suc [of lba n p "media (now b s) d"] by (intro exI [of _ v]) (simp add: fun_eq_iff)
qed

section \<open>Addressing\<close>

lemma low_byte: "(ucast (x AND 0xFF) :: u8) = ucast (x :: u32)"
proof -
  have "(0xFF :: u32) = mask 8" by (simp add: mask_eq_exp_minus_1)
  then show ?thesis unfolding \<open>0xFF = mask 8\<close> by (intro bit_word_eqI) (simp add: bit_simps)
qed

lemma nibble_masks: "(0x0F :: u8) = mask 4" "(0x0F :: u32) = mask 4"
  by (simp_all add: mask_eq_exp_minus_1)

text \<open>The device-select byte carries the drive in bit 4 and the top four address bits in its low nibble.\<close>

lemma select_byte_nibble: "(ucast (select_byte drive lba AND 0x0F) :: u32) = drop_bit 24 lba AND 0x0F"
  unfolding nibble_masks
proof (rule bit_word_eqI)
  fix n assume "n < LENGTH(32)"
  consider "n = 0" | "n = 1" | "n = 2" | "n = 3" | "4 \<le> n" by linarith
  then show "bit (ucast (select_byte drive lba AND mask 4) :: u32) n = bit (drop_bit 24 lba AND mask 4) n"
    by cases (auto simp: select_byte_def bit_simps)
qed

lemma select_byte_drive: "bit (select_byte drive lba) 4 = bit drive 0"
  unfolding select_byte_def nibble_masks by (auto simp: bit_simps)

lemma lba_pieces:
  assumes "lba < 0x10000000"
  shows "(ucast (ucast (lba AND 0xFF) :: u8) :: u32) OR push_bit 8 (ucast (ucast (drop_bit 8 lba AND 0xFF) :: u8)) OR
    push_bit 16 (ucast (ucast (drop_bit 16 lba AND 0xFF) :: u8)) OR
    push_bit 24 (ucast (select_byte drive lba AND 0x0F)) = lba"
proof -
  have "unat (drop_bit 24 lba) < 16"
    using assms by (simp add: drop_bit_unat word_less_nat_alt less_mult_imp_div_less)
  then have "drop_bit 24 lba AND 0x0F = drop_bit 24 lba"
    unfolding nibble_masks word_unat_eq_iff low_bits_unat by simp
  moreover have "ucast (ucast (drop_bit 24 lba) :: u8) = drop_bit 24 lba"
  proof (rule word_unat_eq_iff [THEN iffD2])
    show "unat (ucast (ucast (drop_bit 24 lba) :: u8) :: u32) = unat (drop_bit 24 lba)"
      using \<open>unat (drop_bit 24 lba) < 16\<close> by (simp add: unsigned_ucast_eq unsigned_take_bit_eq take_bit_nat_eq_self_iff)
  qed
  ultimately show ?thesis using bytes_of_word [of lba]
    unfolding low_byte select_byte_nibble by simp
qed

lemma lba_bound: "lba AND 0xF0000000 = 0 \<longleftrightarrow> lba < (0x10000000 :: u32)"
proof -
  have "(0xF0000000 :: u32) = NOT (mask 28)" by (simp add: mask_eq_exp_minus_1)
  then have "unat (lba AND 0xF0000000) = unat lba div 2 ^ 28 * 2 ^ 28" by (simp only: high_bits_unat)
  then show ?thesis by (simp add: word_unat_eq_iff word_less_nat_alt div_eq_0_iff)
qed

lemmas reg_defs = ATA_REG_FEATURES_def ATA_REG_SECCOUNT_def ATA_REG_LBA0_def ATA_REG_LBA1_def ATA_REG_LBA2_def
  ATA_REG_HDDEVSEL_def ATA_REG_COMMAND_def ATA_IO_BASE_def

text \<open>The register writes that precede a transfer start exactly the transfer that was asked for.\<close>

lemma started:
  assumes "drive_serves b s" and "lba < 0x10000000" and "count \<noteq> 0"
  obtains t where "wait_not_busy (ata_io_wait (outb ATA_REG_HDDEVSEL (select_byte drive lba) s)) = Some t"
    "drive_serves b (start_command lba count cmd t)" "media (now b (start_command lba count cmd t)) = media (now b s)"
    "xfer (now b (start_command lba count cmd t)) =
       (if cmd = ATA_CMD_READ_PIO then to_send (bytes_words (sectors (media (now b s) (bit drive 0)) (unat lba) (unat count)))
        else if cmd = ATA_CMD_WRITE_PIO then to_receive (bit drive 0) (unat lba) (unat count) else Idle)"
proof -
  have c: "ATA_REG_HDDEVSEL \<noteq> ATA_REG_COMMAND" "ATA_REG_FEATURES \<noteq> ATA_REG_COMMAND" "ATA_REG_SECCOUNT \<noteq> ATA_REG_COMMAND"
    "ATA_REG_LBA0 \<noteq> ATA_REG_COMMAND" "ATA_REG_LBA1 \<noteq> ATA_REG_COMMAND" "ATA_REG_LBA2 \<noteq> ATA_REG_COMMAND" by (simp_all add: reg_defs)
  note s1 = outb_serves [OF assms(1) c(1), of "select_byte drive lba"]
  obtain t where t: "wait_not_busy (ata_io_wait (outb ATA_REG_HDDEVSEL (select_byte drive lba) s)) = Some t"
    "now b t = now b (outb ATA_REG_HDDEVSEL (select_byte drive lba) s)" "drive_serves b t" by (rule drive_ready [OF s1(1)])
  note s2 = outb_serves [OF t(3) c(2), of 0]
  note s3 = outb_serves [OF s2(1) c(3), of count]
  note s4 = outb_serves [OF s3(1) c(4), of "ucast (lba AND 0xFF)"]
  note s5 = outb_serves [OF s4(1) c(5), of "ucast (drop_bit 8 lba AND 0xFF)"]
  note s6 = outb_serves [OF s5(1) c(6), of "ucast (drop_bit 16 lba AND 0xFF)"]
  note s7 = command_serves [OF s6(1), of cmd]
  define r where "r = regs (now b s)"
  define d where "d = bit drive 0"
  let ?r = "r(ATA_REG_HDDEVSEL := select_byte drive lba, ATA_REG_FEATURES := 0, ATA_REG_SECCOUNT := count,
    ATA_REG_LBA0 := ucast (lba AND 0xFF), ATA_REG_LBA1 := ucast (drop_bit 8 lba AND 0xFF),
    ATA_REG_LBA2 := ucast (drop_bit 16 lba AND 0xFF), ATA_REG_COMMAND := cmd)"
  have n: "now b (start_command lba count cmd t) = bus_command cmd ((now b s)\<lparr>regs := ?r\<rparr>)"
    unfolding start_command_def Let_def s7(2) s6(2) s5(2) s4(2) s3(2) s2(2) t(2) s1(2) by (simp add: r_def)
  have sel: "sel_slave ((now b s)\<lparr>regs := ?r\<rparr>) = d" "sel_lba ((now b s)\<lparr>regs := ?r\<rparr>) = unat lba"
    "sel_count ((now b s)\<lparr>regs := ?r\<rparr>) = unat count"
    using lba_pieces [OF assms(2), of drive] select_byte_drive [of drive lba] assms(3)
    by (simp_all add: sel_slave_def sel_lba_def sel_count_def reg_defs d_def)
  have "drive_serves b (start_command lba count cmd t)" using s7(1) by (simp only: start_command_def Let_def)
  then show thesis
    by (rule that [OF t(1), unfolded d_def [symmetric]]) (simp_all only: n bus_command_def sel, simp_all)
qed

lemma sectors_length:
  assumes "\<forall>i. length (m i) = 512"
  shows "length (sectors m lba n) = 512 * n"
  using assms by (induction n) (simp_all add: sectors_def)

lemma ata_read_ok:
  assumes "count \<noteq> 0" and "lba < 0x10000000" and "drive_serves b s"
  obtains t where "ata_read drive lba count s = Some (0, sectors (media (now b s) (bit drive 0)) (unat lba) (unat count), t)"
    "drive_serves b t" "media (now b t) = media (now b s)"
proof -
  obtain t where t: "wait_not_busy (ata_io_wait (outb ATA_REG_HDDEVSEL (select_byte drive lba) s)) = Some t"
    "drive_serves b (start_command lba count ATA_CMD_READ_PIO t)"
    "media (now b (start_command lba count ATA_CMD_READ_PIO t)) = media (now b s)"
    "xfer (now b (start_command lba count ATA_CMD_READ_PIO t)) =
       to_send (bytes_words (sectors (media (now b s) (bit drive 0)) (unat lba) (unat count)))"
    by (rule started [OF assms(3,2,1), of drive ATA_CMD_READ_PIO]) (simp add: that)
  let ?p = "sectors (media (now b s) (bit drive 0)) (unat lba) (unat count)"
  have l: "length ?p = 512 * unat count" using assms(3) by (intro sectors_length) (simp add: drive_serves_def)
  then have w: "length (bytes_words ?p) = 256 * unat count" by (simp add: bytes_words_length)
  obtain u where "read_sectors (unat count) (start_command lba count ATA_CMD_READ_PIO t) = Some (0, words_bytes (bytes_words ?p), u)"
    "media (now b u) = media (now b s)" "drive_serves b u" using read_sectors_sends [OF t(2,4) w] t(3) by auto
  moreover have "words_bytes (bytes_words ?p) = ?p" by (rule bytes_words_bytes) (simp add: l)
  ultimately show thesis using assms(1,2) t(1) lba_bound [of lba] by (intro that [of u]) (simp_all add: ata_read_def)
qed

lemma ata_write_ok:
  assumes "count \<noteq> 0" and "lba < 0x10000000" and "drive_serves b s" and "512 * unat count \<le> length buf"
  obtains t where "ata_write drive lba count buf s = Some (0, t)" "drive_serves b t"
    "media (now b t) = (media (now b s))(bit drive 0 := put_sectors (unat lba) (unat count) buf (media (now b s) (bit drive 0)))"
proof -
  have ne: "ATA_CMD_WRITE_PIO \<noteq> ATA_CMD_READ_PIO" by (simp add: ATA_CMD_WRITE_PIO_def ATA_CMD_READ_PIO_def)
  obtain t where t: "wait_not_busy (ata_io_wait (outb ATA_REG_HDDEVSEL (select_byte drive lba) s)) = Some t"
    "drive_serves b (start_command lba count ATA_CMD_WRITE_PIO t)"
    "media (now b (start_command lba count ATA_CMD_WRITE_PIO t)) = media (now b s)"
    "xfer (now b (start_command lba count ATA_CMD_WRITE_PIO t)) = to_receive (bit drive 0) (unat lba) (unat count)"
    by (rule started [OF assms(3,2,1), of drive ATA_CMD_WRITE_PIO]) (simp add: that ne)
  obtain u where u: "write_sectors (unat count) buf (start_command lba count ATA_CMD_WRITE_PIO t) = Some (0, u)" "drive_serves b u"
    "media (now b u) = (media (now b s))(bit drive 0 := put_sectors (unat lba) (unat count) buf (media (now b s) (bit drive 0)))"
    using write_sectors_receives [OF t(2,4) assms(4)] t(3) by auto
  note f = command_serves [OF u(2), of ATA_CMD_CACHE_FLUSH]
  obtain v where "wait_not_busy (ata_io_wait (outb ATA_REG_COMMAND ATA_CMD_CACHE_FLUSH u)) = Some v"
    "now b v = now b (outb ATA_REG_COMMAND ATA_CMD_CACHE_FLUSH u)" "drive_serves b v" by (rule drive_ready [OF f(1)])
  moreover from this(2) have "media (now b v) = media (now b u)" using f(2) by (simp add: bus_command_def)
  ultimately show thesis using assms(1,2) t(1) u lba_bound [of lba] by (intro that [of v]) (simp_all add: ata_write_def)
qed

lemma to_send_Sending: "to_send ws = Sending vs \<Longrightarrow> ws = vs" by (simp add: to_send_def split: if_splits)

lemma read_log_keeps: "fold bus_step (read_log f p n l) b = fold bus_step l b"
  by (induction n arbitrary: l) (simp_all add: bus_step_def)

lemma read_log_length: "length (read_log f p n l) = length l + n"
  by (induction n arbitrary: l) simp_all

text \<open>Such drives exist, with any contents.\<close>

lemma answers_serve:
  assumes "\<forall>d n. length (media (now b s) d n) = 512" and "io_in s = drive_answers b"
  shows "drive_serves b s"
proof -
  have e: "(ucast (drive_answers b l ATA_REG_STATUS) :: u8) AND ATA_SR_ERR = 0" for l
    by (simp add: drive_answers_def ATA_SR_ERR_def Let_def)
  have r: "(ucast (drive_answers b l ATA_REG_STATUS) :: u8) AND ATA_SR_BSY = 0 \<and>
      (xfer (fold bus_step l b) \<noteq> Idle \<longrightarrow> (ucast (drive_answers b l ATA_REG_STATUS) :: u8) AND ATA_SR_DRQ \<noteq> 0)" if "odd (length l)" for l
    using that by (simp add: drive_answers_def ATA_SR_BSY_def ATA_SR_DRQ_def Let_def)
  have p: "polls_to (drive_answers b) ATA_REG_STATUS (\<lambda>st. st AND ATA_SR_BSY = 0 \<and>
      (xfer (fold bus_step l b) \<noteq> Idle \<longrightarrow> st AND ATA_SR_DRQ \<noteq> 0)) l" for l
  proof (cases "odd (length l)")
    case True
    then show ?thesis unfolding polls_to_def using r [of l] by (intro exI [of _ 0]) simp
  next
    case False
    let ?l = "read_log (drive_answers b) ATA_REG_STATUS 1 l"
    have "odd (length ?l)" using False by (simp add: read_log_length)
    from r [OF this] show ?thesis unfolding polls_to_def read_log_keeps by blast
  qed
  have "ATA_REG_DATA \<noteq> ATA_REG_STATUS" by (simp add: ATA_REG_DATA_def ATA_REG_STATUS_def ATA_IO_BASE_def)
  then have "drive_answers b l ATA_REG_DATA = w" if "xfer (fold bus_step l b) = Sending (w # ws)" for l w ws
    using that by (simp add: drive_answers_def Let_def)
  then show ?thesis unfolding drive_serves_def assms(2) using e p assms(1) by blast
qed

lemma demo_drive_serves: "drive_serves blank_disks demo_drive"
  by (rule answers_serve) (simp_all add: demo_drive_def now_def blank_disks_def)

section \<open>The console is undisturbed\<close>

lemma undisturbed_refl [simp]: "undisturbed s s" by (simp add: undisturbed_def)

lemma undisturbed_trans [trans]: "undisturbed s t \<Longrightarrow> undisturbed t u \<Longrightarrow> undisturbed s u"
  by (simp add: undisturbed_def)

lemma undisturbed_in [simp]: "undisturbed s (snd (inb p t)) = undisturbed s t" "undisturbed s (snd (inw p t)) = undisturbed s t"
  by (simp_all add: undisturbed_def inb_def inw_def Let_def sent_def)

lemma undisturbed_out [simp]:
  "p \<noteq> COM1_DATA \<Longrightarrow> undisturbed s (outb p x t) = undisturbed s t" "undisturbed s (outw p y t) = undisturbed s t"
  by (simp_all add: undisturbed_def outb_def outw_def sent_def)

lemma ata_ports [simp]: "ATA_REG_HDDEVSEL \<noteq> COM1_DATA" "ATA_REG_FEATURES \<noteq> COM1_DATA" "ATA_REG_SECCOUNT \<noteq> COM1_DATA"
  "ATA_REG_LBA0 \<noteq> COM1_DATA" "ATA_REG_LBA1 \<noteq> COM1_DATA" "ATA_REG_LBA2 \<noteq> COM1_DATA" "ATA_REG_COMMAND \<noteq> COM1_DATA"
  by (simp_all add: ATA_REG_HDDEVSEL_def ATA_REG_FEATURES_def ATA_REG_SECCOUNT_def ATA_REG_LBA0_def ATA_REG_LBA1_def ATA_REG_LBA2_def
      ATA_REG_COMMAND_def ATA_IO_BASE_def COM1_DATA_def COM1_BASE_def)

lemma undisturbed_insw [simp]: "undisturbed s (snd (insw p n t)) = undisturbed s t"
proof (induction n arbitrary: t)
  case (Suc n)
  then show ?case by (simp add: case_prod_beta)
qed simp

lemma undisturbed_outsw [simp]: "undisturbed s (outsw p bs n t) = undisturbed s t"
  by (induction n arbitrary: bs t) simp_all

lemma undisturbed_io_wait [simp]: "undisturbed s t \<Longrightarrow> undisturbed s (ata_io_wait t)"
  unfolding ata_io_wait_def by (rule for_range_keeps) simp_all

lemma after_inb: "undisturbed (snd (inb p s)) t \<Longrightarrow> undisturbed s t"
  by (rule undisturbed_trans [of s "snd (inb p s)"]) simp_all

lemma undisturbed_poll_loop: "poll_loop s = Some r \<Longrightarrow> undisturbed s (snd r)"
proof (erule poll_loop.raw_induct [where P = "\<lambda>s r. undisturbed s (snd r)", rotated])
  fix f :: "ports \<Rightarrow> (int \<times> ports) option" and s r
  assume IH: "\<And>s r. f s = Some r \<Longrightarrow> undisturbed s (snd r)"
    and run: "(case inb ATA_REG_STATUS s of (st, s) \<Rightarrow> if st AND ATA_SR_ERR \<noteq> 0 then Some (-1, s)
      else if st AND ATA_SR_BSY = 0 \<and> st AND ATA_SR_DRQ \<noteq> 0 then Some (0, s) else f s) = Some r"
  show "undisturbed s (snd r)" using run by (auto simp: case_prod_beta split: if_splits dest!: IH after_inb)
qed

lemma undisturbed_wait: "wait_not_busy s = Some t \<Longrightarrow> undisturbed s t"
proof (erule wait_not_busy.raw_induct [where P = undisturbed, rotated])
  fix f :: "ports \<Rightarrow> ports option" and s t
  assume IH: "\<And>s t. f s = Some t \<Longrightarrow> undisturbed s t"
    and run: "(case inb ATA_REG_STATUS s of (st, s) \<Rightarrow> if st AND ATA_SR_BSY \<noteq> 0 then f s else Some s) = Some t"
  show "undisturbed s t" using run by (auto simp: case_prod_beta split: if_splits dest!: IH after_inb)
qed

lemma undisturbed_ready: "ata_poll_data_ready s = Some (r, t) \<Longrightarrow> undisturbed s t"
  using undisturbed_poll_loop [of "ata_io_wait s" "(r, t)"] undisturbed_trans [of s "ata_io_wait s" t] by (simp add: ata_poll_data_ready_def)

lemma undisturbed_select: "wait_not_busy (ata_io_wait (outb ATA_REG_HDDEVSEL x s)) = Some t \<Longrightarrow> undisturbed s t"
  by (rule undisturbed_trans [OF _ undisturbed_wait]) simp_all

lemma undisturbed_start: "undisturbed s (start_command lba count cmd s)"
  by (simp add: start_command_def Let_def)

lemma undisturbed_read_sectors: "read_sectors n s = Some (r, bs, t) \<Longrightarrow> undisturbed s t"
proof (induction n arbitrary: s r bs)
  case (Suc n)
  then obtain q u where u: "ata_poll_data_ready s = Some (q, u)" by (auto split: option.splits)
  have i: "undisturbed s u" "undisturbed s (snd (insw ATA_REG_DATA 256 u))" using undisturbed_ready [OF u] by simp_all
  have "undisturbed (snd (insw ATA_REG_DATA 256 u)) t" if "\<not> q < 0"
    using Suc.prems that u by (auto simp: case_prod_beta split: option.splits dest: Suc.IH)
  then have "\<not> q < 0 \<Longrightarrow> undisturbed s t" by (rule undisturbed_trans [OF i(2)])
  then show ?case using Suc.prems u i(1) by (auto split: if_splits)
qed simp

lemma undisturbed_write_sectors: "write_sectors n p s = Some (r, t) \<Longrightarrow> undisturbed s t"
proof (induction n arbitrary: p s)
  case (Suc n)
  then obtain q u where u: "ata_poll_data_ready s = Some (q, u)" by (auto split: option.splits)
  have i: "undisturbed s u" "undisturbed s (outsw ATA_REG_DATA p 256 u)" using undisturbed_ready [OF u] by simp_all
  have "\<not> q < 0 \<Longrightarrow> undisturbed s t" using Suc.prems u by (intro undisturbed_trans [OF i(2) Suc.IH]) auto
  then show ?case using Suc.prems u i(1) by (auto split: if_splits)
qed simp

lemma undisturbed_read: "ata_read drive lba count s = Some (r, bs, t) \<Longrightarrow> undisturbed s t"
  using undisturbed_trans [OF undisturbed_trans [OF undisturbed_select undisturbed_start] undisturbed_read_sectors]
  by (auto simp: ata_read_def split: if_splits option.splits)

lemma undisturbed_write: "ata_write drive lba count buf s = Some (r, t) \<Longrightarrow> undisturbed s t"
proof (cases "count = 0 \<or> lba AND 0xF0000000 \<noteq> 0")
  case False
  assume run: "ata_write drive lba count buf s = Some (r, t)"
  then obtain u q v where u: "wait_not_busy (ata_io_wait (outb ATA_REG_HDDEVSEL (select_byte drive lba) s)) = Some u"
    "write_sectors (unat count) buf (start_command lba count ATA_CMD_WRITE_PIO u) = Some (q, v)"
    using False by (auto simp: ata_write_def split: option.splits)
  have v: "undisturbed s v"
    using undisturbed_select [OF u(1)] undisturbed_start undisturbed_write_sectors [OF u(2)] by (blast intro: undisturbed_trans)
  moreover have "undisturbed v t" if "\<not> q < 0"
    using run False u that undisturbed_trans [OF _ undisturbed_wait, of v "ata_io_wait (outb ATA_REG_COMMAND ATA_CMD_CACHE_FLUSH v)" t]
    by (simp add: ata_write_def)
  ultimately show ?thesis using run False u undisturbed_trans by (auto simp: ata_write_def split: if_splits)
qed (auto simp: ata_write_def split: if_splits)

section \<open>Properties\<close>





end
