(* ===== verification/Task.thy ===== *)
theory Task
  imports Elf Cpu_Tables
begin

text \<open>
  Tasks and the round-robin scheduler (\<^verbatim>\<open>src/proc/task.c\<close>, \<^verbatim>\<open>src/proc/switch.asm\<close>).  The
  \<open>task_t\<close> structures that \<open>kmalloc\<close> provides are kept as values in a store indexed by their address;
  following a pointer that is not in the store is the outcome "bad task pointer".  Stacks are
  bytes of kernel memory and are written through the processor's translation.  Loops over the
  circular list are partial functions: \<open>None\<close> is "does not return".  \<open>labels\<close> holds the addresses the
  linker gives to the code that a switch can resume.
\<close>

unbundle bit_operations_syntax

section \<open>State\<close>

definition TASK_NAME_LEN :: nat where "TASK_NAME_LEN = 16"
definition TASK_STACK_SIZE :: u32 where "TASK_STACK_SIZE = 0x4000"
definition TASK_TIME_SLICE :: u32 where "TASK_TIME_SLICE = 5"
definition SIZEOF_TASK :: u32 where "SIZEOF_TASK = 64"

datatype task_state_t = TASK_READY | TASK_RUNNING | TASK_ZOMBIE

record task =
  tid :: u32
  tname :: "u8 list"
  tstate :: task_state_t
  saved_esp :: u32
  stack_base :: u32
  stack_size :: u32
  kernel_stack_top :: u32
  is_user :: bool
  user_stack_base :: u32
  timage :: u32
  ticks_run :: u32
  slice_left :: u32
  tnext :: u32

text \<open>The registers that a switch saves and loads, and the interrupt flag.\<close>

record cpu =
  c_esp :: u32
  c_ebp :: u32
  c_ebx :: u32
  c_esi :: u32
  c_edi :: u32
  c_eip :: u32
  c_eax :: u32
  c_cs :: u32
  c_ss :: u32
  c_ds :: u32
  c_if :: bool

record sched =
  mach :: loader
  core :: cpu
  segtab :: segments
  tasks :: "u32 \<rightharpoonup> task"
  g_current :: u32
  g_active :: bool
  g_need_resched :: bool
  g_next_id :: u32

record labels =
  a_resume :: u32
  a_start :: u32
  a_after_entry :: u32
  a_user :: u32

section \<open>Helpers\<close>

function str_copy_loop :: "nat \<Rightarrow> nat \<Rightarrow> cstring \<Rightarrow> u8 list \<Rightarrow> u8 list" where
  "str_copy_loop i lim src dst =
     (if i < lim - 1 \<and> char_at src i \<noteq> 0
      then str_copy_loop (Suc i) lim src (dst[i := char_at src i])
      else dst[i := 0])"
  by pat_completeness auto
termination
  by (relation "measure (\<lambda>(i, lim, src, dst). lim - i)") auto

declare str_copy_loop.simps [simp del]

definition str_copy_n :: "u8 list \<Rightarrow> cstring \<Rightarrow> nat \<Rightarrow> u8 list" where
  "str_copy_n dst src lim = str_copy_loop 0 lim src dst"

definition cli :: "sched \<Rightarrow> sched" where "cli s = s\<lparr>core := (core s)\<lparr>c_if := False\<rparr>\<rparr>"
definition sti :: "sched \<Rightarrow> sched" where "sti s = s\<lparr>core := (core s)\<lparr>c_if := True\<rparr>\<rparr>"

definition task_at :: "u32 \<Rightarrow> sched \<Rightarrow> task outcome" where
  "task_at p s = (case tasks s p of None \<Rightarrow> Halted ''bad task pointer'' | Some t \<Rightarrow> Done t)"

definition upd_task :: "u32 \<Rightarrow> (task \<Rightarrow> task) \<Rightarrow> sched \<Rightarrow> sched outcome" where
  "upd_task p f s = and_then (task_at p s) (\<lambda>t. Done (s\<lparr>tasks := (tasks s)(p \<mapsto> f t)\<rparr>))"

definition tk_malloc :: "u32 \<Rightarrow> sched \<Rightarrow> (u32 \<times> sched) outcome option" where
  "tk_malloc n s = then_run (ld_malloc n (mach s)) (\<lambda>(p, m). Some (Done (p, s\<lparr>mach := m\<rparr>)))"

definition tk_free :: "u32 \<Rightarrow> sched \<Rightarrow> sched outcome" where
  "tk_free p s = and_then (ld_free p (mach s)) (\<lambda>m. Done (s\<lparr>mach := m\<rparr>))"

definition store_word :: "u32 \<Rightarrow> u32 \<Rightarrow> sched \<Rightarrow> sched outcome" where
  "store_word a x s =
     and_then (write32 a x (space (mach s))) (\<lambda>v. Done (s\<lparr>mach := (mach s)\<lparr>space := v\<rparr>\<rparr>))"

fun push_words :: "u32 \<Rightarrow> u32 list \<Rightarrow> sched \<Rightarrow> (u32 \<times> sched) outcome" where
  "push_words sp [] s = Done (sp, s)"
| "push_words sp (x # xs) s = and_then (store_word (sp - 4) x s) (push_words (sp - 4) xs)"

fun pop_words :: "u32 \<Rightarrow> nat \<Rightarrow> sched \<Rightarrow> u32 list outcome" where
  "pop_words sp 0 s = Done []"
| "pop_words sp (Suc n) s =
     and_then (read32 sp (space (mach s))) (\<lambda>x. and_then (pop_words (sp + 4) n s) (\<lambda>xs. Done (x # xs)))"

section \<open>The ready list\<close>

definition ready_insert_after_current :: "u32 \<Rightarrow> sched \<Rightarrow> sched outcome" where
  "ready_insert_after_current t s =
     and_then (task_at (g_current s) s) (\<lambda>c.
     and_then (upd_task t (\<lambda>x. x\<lparr>tnext := tnext c\<rparr>) s)
       (upd_task (g_current s) (\<lambda>x. x\<lparr>tnext := t\<rparr>)))"

partial_function (option) find_before :: "u32 \<Rightarrow> u32 \<Rightarrow> sched \<Rightarrow> u32 outcome option" where
  "find_before target p s =
     (case task_at p s of
        Halted e \<Rightarrow> Some (Halted e)
      | Done x \<Rightarrow> if tnext x \<noteq> target then find_before target (tnext x) s else Some (Done p))"

definition ready_remove :: "u32 \<Rightarrow> sched \<Rightarrow> sched outcome option" where
  "ready_remove target s =
     (case task_at target s of
        Halted e \<Rightarrow> Some (Halted e)
      | Done t \<Rightarrow>
          then_run (find_before target (tnext t) s)
            (\<lambda>p. Some (upd_task p (\<lambda>x. x\<lparr>tnext := tnext t\<rparr>) s)))"

text \<open>\<open>reap\<close>; freeing the structure takes it out of the store.\<close>

definition reap_image :: "u32 \<Rightarrow> task \<Rightarrow> sched \<Rightarrow> sched outcome" where
  "reap_image page_directory t s =
     (if timage t \<noteq> 0
      then and_then (elf_unload page_directory (timage t) (mach s)) (\<lambda>m. Done (s\<lparr>mach := m\<rparr>))
      else Done s)"

definition reap :: "u32 \<Rightarrow> u32 \<Rightarrow> sched \<Rightarrow> sched outcome option" where
  "reap page_directory p s =
     then_run (ready_remove p s) (\<lambda>s.
       Some (and_then (task_at p s) (\<lambda>t.
         and_then (reap_image page_directory t s) (\<lambda>s.
         and_then (if stack_base t \<noteq> 0 then tk_free (stack_base t) s else Done s) (\<lambda>s.
         and_then (if user_stack_base t \<noteq> 0 then tk_free (user_stack_base t) s else Done s) (\<lambda>s.
         and_then (tk_free p s) (\<lambda>s. Done (s\<lparr>tasks := (tasks s)(p := None)\<rparr>))))))))"

section \<open>Creating tasks\<close>

text \<open>The bytes of a fresh structure are whatever the memory holds; \<open>str_copy_n\<close> leaves the tail of the name.\<close>

definition raw_name :: "u32 \<Rightarrow> sched \<Rightarrow> u8 list" where
  "raw_name p s = map (\<lambda>i. phys (space (mach s)) (p + 4 + of_nat i)) [0..<TASK_NAME_LEN]"

definition raw_next :: "u32 \<Rightarrow> sched \<Rightarrow> u32" where
  "raw_next p s = ld32 (phys (space (mach s))) (p + 60)"

definition tasking_init :: "sched \<Rightarrow> sched outcome option" where
  "tasking_init s =
     then_run (tk_malloc SIZEOF_TASK s) (\<lambda>(boot, s).
       if boot = 0 then Some (Halted ''tasking_init: kmalloc failed'')
       else Some (Done (s\<lparr>
         tasks := (tasks s)(boot \<mapsto>
           \<lparr>tid = g_next_id s, tname = str_copy_n (raw_name boot s) (cstr ''boot'') TASK_NAME_LEN,
            tstate = TASK_RUNNING, saved_esp = 0, stack_base = 0, stack_size = 0, kernel_stack_top = 0,
            is_user = False, user_stack_base = 0, timage = 0, ticks_run = 0,
            slice_left = TASK_TIME_SLICE, tnext = boot\<rparr>),
         g_next_id := g_next_id s + 1, g_current := boot, g_active := True\<rparr>)))"

text \<open>The last part of both constructors, with interrupts off.\<close>

definition enqueue :: "u32 \<Rightarrow> sched \<Rightarrow> sched outcome" where
  "enqueue t s =
     (let s = cli s in
      and_then
        (if \<not> g_active s
         then and_then (upd_task t (\<lambda>x. x\<lparr>tnext := t\<rparr>) s) (\<lambda>s. Done (s\<lparr>g_current := t, g_active := True\<rparr>))
         else ready_insert_after_current t s)
        (\<lambda>s. Done (sti s)))"

definition task_create :: "labels \<Rightarrow> cstring \<Rightarrow> u32 \<Rightarrow> sched \<Rightarrow> (u32 \<times> sched) outcome option" where
  "task_create lab name entry_fn s =
     then_run (tk_malloc SIZEOF_TASK s) (\<lambda>(t, s).
       if t = 0 then Some (Done (0, s))
       else then_run (tk_malloc TASK_STACK_SIZE s) (\<lambda>(stack, s).
         if stack = 0 then Some (and_then (tk_free t s) (\<lambda>s. Done (0, s)))
         else Some (
           let new_id = g_next_id s; s0 = s\<lparr>g_next_id := new_id + 1\<rparr> in
           and_then (push_words (stack + TASK_STACK_SIZE) [entry_fn, a_start lab, 0, 0, 0, 0] s0) (\<lambda>(sp, s).
           let s = s\<lparr>tasks := (tasks s)(t \<mapsto>
                \<lparr>tid = new_id, tname = str_copy_n (raw_name t s0) name TASK_NAME_LEN,
                 tstate = TASK_READY, saved_esp = sp, stack_base = stack, stack_size = TASK_STACK_SIZE,
                 kernel_stack_top = stack + TASK_STACK_SIZE, is_user = False, user_stack_base = 0,
                 timage = 0, ticks_run = 0, slice_left = TASK_TIME_SLICE, tnext = raw_next t s0\<rparr>)\<rparr>
           in and_then (enqueue t s) (\<lambda>s. Done (t, s))))))"

definition task_create_user :: "labels \<Rightarrow> cstring \<Rightarrow> u32 \<Rightarrow> sched \<Rightarrow> (u32 \<times> sched) outcome option" where
  "task_create_user lab name entry_fn s =
     then_run (tk_malloc SIZEOF_TASK s) (\<lambda>(t, s).
       if t = 0 then Some (Done (0, s))
       else then_run (tk_malloc TASK_STACK_SIZE s) (\<lambda>(kstack, s).
            then_run (tk_malloc TASK_STACK_SIZE s) (\<lambda>(ustack, s).
         if kstack = 0 \<or> ustack = 0
         then Some (
           and_then (if kstack \<noteq> 0 then tk_free kstack s else Done s) (\<lambda>s.
           and_then (if ustack \<noteq> 0 then tk_free ustack s else Done s) (\<lambda>s.
           and_then (tk_free t s) (\<lambda>s. Done (0, s)))))
         else Some (
           let kstack_top = kstack + TASK_STACK_SIZE;
               ustack_top = (ustack + TASK_STACK_SIZE) AND NOT 0xF;
               new_id = g_next_id s;
               s0 = s\<lparr>g_next_id := new_id + 1\<rparr> in
           and_then (push_words kstack_top
                       [GDT_UDATA_SEL, ustack_top, 0x202, GDT_UCODE_SEL, entry_fn, a_user lab, 0, 0, 0, 0] s0) (\<lambda>(sp, s).
           let s = s\<lparr>tasks := (tasks s)(t \<mapsto>
                \<lparr>tid = new_id, tname = str_copy_n (raw_name t s0) name TASK_NAME_LEN,
                 tstate = TASK_READY, saved_esp = sp, stack_base = kstack, stack_size = TASK_STACK_SIZE,
                 kernel_stack_top = kstack_top, is_user = True, user_stack_base = ustack,
                 timage = 0, ticks_run = 0, slice_left = TASK_TIME_SLICE, tnext = raw_next t s0\<rparr>)\<rparr>
           in and_then (enqueue t s) (\<lambda>s. Done (t, s)))))))"

definition task_create_user_image :: "labels \<Rightarrow> cstring \<Rightarrow> u32 \<Rightarrow> sched \<Rightarrow> (u32 \<times> sched) outcome option" where
  "task_create_user_image lab name img s =
     (if img = 0 then Some (Done (0, s))
      else case images (mach s) img of
        None \<Rightarrow> Some (Halted ''no image'')
      | Some im \<Rightarrow>
          then_run (task_create_user lab name (entry im) s) (\<lambda>(t, s).
            if t = 0 then Some (Done (0, s))
            else Some (and_then (upd_task t (\<lambda>x. x\<lparr>timage := img\<rparr>) s) (\<lambda>s. Done (t, s)))))"

section \<open>Switching\<close>

text \<open>
  \<open>context_switch(&prev->esp, new_esp)\<close>, with the call that precedes it: the arguments and the
  return address are pushed, then the four saved registers; after the stack pointer has changed
  the same registers are popped from the other stack and \<^verbatim>\<open>ret\<close> takes the next word.
\<close>

definition context_switch :: "labels \<Rightarrow> u32 \<Rightarrow> u32 \<Rightarrow> sched \<Rightarrow> sched outcome" where
  "context_switch lab prev new_esp s =
     (let c = core s in
      and_then (push_words (c_esp c)
          [new_esp, prev + 24, a_resume lab, c_ebp c, c_ebx c, c_esi c, c_edi c] s) (\<lambda>(sp, s).
      and_then (upd_task prev (\<lambda>t. t\<lparr>saved_esp := sp\<rparr>) s) (\<lambda>s.
      and_then (pop_words new_esp 5 s) (\<lambda>w.
        Done (s\<lparr>core := c\<lparr>c_edi := w ! 0, c_esi := w ! 1, c_ebx := w ! 2, c_ebp := w ! 3, c_eip := w ! 4,
                          c_esp := new_esp + 20\<rparr>\<rparr>)))))"

text \<open>
  What runs right after a switch: the rest of \<open>task_yield\<close> in the task that is resumed (the caller
  removes the two arguments), or one of the two trampolines for a task that runs for the first time.
\<close>

definition task_start_trampoline :: "labels \<Rightarrow> sched \<Rightarrow> sched outcome" where
  "task_start_trampoline lab s =
     (let s = sti s; c = core s in
      and_then (pop_words (c_esp c) 1 s) (\<lambda>w.
      and_then (push_words (c_esp c + 4) [a_after_entry lab] s) (\<lambda>(sp, s).
        Done (s\<lparr>core := c\<lparr>c_eax := w ! 0, c_eip := w ! 0, c_esp := sp\<rparr>\<rparr>))))"

definition user_iret_trampoline :: "sched \<Rightarrow> sched outcome" where
  "user_iret_trampoline s =
     (let c = core s in
      and_then (pop_words (c_esp c) 5 s) (\<lambda>w.
        Done (s\<lparr>core := c\<lparr>c_ds := 0x23, c_eip := w ! 0, c_cs := w ! 1, c_if := bit (w ! 2) 9,
                          c_esp := w ! 3, c_ss := w ! 4\<rparr>\<rparr>)))"

definition resume :: "labels \<Rightarrow> sched \<Rightarrow> sched outcome" where
  "resume lab s =
     (if c_eip (core s) = a_start lab then task_start_trampoline lab s
      else if c_eip (core s) = a_user lab then user_iret_trampoline s
      else Done (sti (s\<lparr>core := (core s)\<lparr>c_esp := c_esp (core s) + 8\<rparr>\<rparr>)))"

section \<open>The scheduler\<close>

partial_function (option) pick_loop :: "u32 \<Rightarrow> u32 \<Rightarrow> u32 \<Rightarrow> sched \<Rightarrow> (u32 \<times> sched) outcome option" where
  "pick_loop page_directory from cand s =
     (if cand = from then Some (Done (from, s))
      else case task_at cand s of
        Halted e \<Rightarrow> Some (Halted e)
      | Done c \<Rightarrow>
          if tstate c = TASK_ZOMBIE
          then then_run (reap page_directory cand s) (\<lambda>s. pick_loop page_directory from (tnext c) s)
          else if tstate c = TASK_READY \<or> tstate c = TASK_RUNNING then Some (Done (cand, s))
          else pick_loop page_directory from (tnext c) s)"

definition pick_next :: "u32 \<Rightarrow> u32 \<Rightarrow> sched \<Rightarrow> (u32 \<times> sched) outcome option" where
  "pick_next page_directory from s =
     (case task_at from s of
        Halted e \<Rightarrow> Some (Halted e)
      | Done f \<Rightarrow> pick_loop page_directory from (tnext f) s)"

text \<open>
  \<open>task_yield\<close> up to the point where code runs again; the flag says whether another task runs now.
\<close>

definition switch_to :: "labels \<Rightarrow> u32 \<Rightarrow> u32 \<Rightarrow> sched \<Rightarrow> sched outcome" where
  "switch_to lab prev nxt s =
     and_then (upd_task prev (\<lambda>t. if tstate t = TASK_RUNNING then t\<lparr>tstate := TASK_READY\<rparr> else t) s) (\<lambda>s.
     and_then (upd_task nxt (\<lambda>t. t\<lparr>tstate := TASK_RUNNING\<rparr>) s) (\<lambda>s.
     and_then (upd_task prev (\<lambda>t. t\<lparr>slice_left := TASK_TIME_SLICE\<rparr>) s) (\<lambda>s.
     and_then (upd_task nxt (\<lambda>t. t\<lparr>slice_left := TASK_TIME_SLICE\<rparr>) s) (\<lambda>s.
     let s = s\<lparr>g_current := nxt\<rparr> in
     and_then (task_at nxt s) (\<lambda>n.
     let s = (if kernel_stack_top n \<noteq> 0 then s\<lparr>segtab := tss_set_esp0 (kernel_stack_top n) (segtab s)\<rparr> else s) in
     and_then (context_switch lab prev (saved_esp n) s) (resume lab))))))"

definition task_yield :: "labels \<Rightarrow> u32 \<Rightarrow> sched \<Rightarrow> (bool \<times> sched) outcome option" where
  "task_yield lab page_directory s =
     (if \<not> g_active s then Some (Done (False, s))
      else
        let s = cli s; prev = g_current s in
        then_run (pick_next page_directory prev s) (\<lambda>(nxt, s).
          if nxt = prev
          then Some (and_then (task_at prev s) (\<lambda>p.
                 if tstate p \<noteq> TASK_ZOMBIE then Done (False, sti s)
                 else Halted ''[scheduler] no runnable tasks. halting.''))
          else Some (and_then (switch_to lab prev nxt s) (\<lambda>s. Done (True, s)))))"

definition task_exit :: "labels \<Rightarrow> u32 \<Rightarrow> sched \<Rightarrow> sched outcome option" where
  "task_exit lab page_directory s =
     (case upd_task (g_current s) (\<lambda>t. t\<lparr>tstate := TASK_ZOMBIE\<rparr>) (cli s) of
        Halted e \<Rightarrow> Some (Halted e)
      | Done s \<Rightarrow>
          then_run (task_yield lab page_directory (sti s)) (\<lambda>(switched, s).
            if switched then Some (Done s)
            else Some (Halted ''task_exit: returned from yield (ZOMBIE rescheduled)'')))"

definition task_tick :: "sched \<Rightarrow> sched outcome" where
  "task_tick s =
     (if \<not> g_active s then Done s
      else
        and_then (upd_task (g_current s) (\<lambda>t. t\<lparr>ticks_run := ticks_run t + 1\<rparr>) s) (\<lambda>s.
        and_then (upd_task (g_current s) (\<lambda>t. if slice_left t > 0 then t\<lparr>slice_left := slice_left t - 1\<rparr> else t) s) (\<lambda>s.
        and_then (task_at (g_current s) s) (\<lambda>t.
          Done (if slice_left t = 0 then s\<lparr>g_need_resched := True\<rparr> else s)))))"

definition task_should_resched :: "sched \<Rightarrow> bool \<times> sched" where
  "task_should_resched s =
     (if \<not> g_need_resched s then (False, s) else (True, s\<lparr>g_need_resched := False\<rparr>))"

definition task_current :: "sched \<Rightarrow> u32" where "task_current s = g_current s"
definition tasking_active :: "sched \<Rightarrow> bool" where "tasking_active s = g_active s"

record task_info =
  i_id :: u32
  i_name :: "u8 list"
  i_state :: task_state_t
  i_ticks :: u32
  i_current :: bool

text \<open>The entries that the loop of \<open>task_list_snapshot\<close> writes, from entry \<open>n\<close> on.\<close>

function snapshot_loop :: "nat \<Rightarrow> nat \<Rightarrow> u32 \<Rightarrow> sched \<Rightarrow> task_info list outcome" where
  "snapshot_loop n lim t s =
     (if n \<ge> lim then Done []
      else and_then (task_at t s) (\<lambda>x.
        let info = \<lparr>i_id = tid x, i_name = take TASK_NAME_LEN (tname x), i_state = tstate x,
                     i_ticks = ticks_run x, i_current = (t = g_current s)\<rparr>
        in if tnext x \<noteq> g_current s
           then and_then (snapshot_loop (Suc n) lim (tnext x) s) (\<lambda>r. Done (info # r))
           else Done [info]))"
  by pat_completeness auto
termination
  by (relation "measure (\<lambda>(n, lim, t, s). lim - n)") auto

declare snapshot_loop.simps [simp del]

definition task_list_snapshot :: "int \<Rightarrow> sched \<Rightarrow> (task_info list \<times> sched) outcome" where
  "task_list_snapshot lim s =
     (if \<not> g_active s \<or> lim \<le> 0 then Done ([], s)
      else and_then (snapshot_loop 0 (nat lim) (g_current s) (cli s)) (\<lambda>r. Done (r, sti (cli s))))"

end
