(* ===== verification/Interrupts.thy ===== *)
theory Interrupts
  imports Task Keyboard Screen
begin

text \<open>
  What runs when an interrupt arrives: the dispatcher (\<^verbatim>\<open>src/cpu/isr.c\<close>), the page-fault
  report (\<^verbatim>\<open>src/mem/paging.c\<close>), the timer (\<^verbatim>\<open>src/drivers/timer.c\<close>) and the system calls
  (\<^verbatim>\<open>src/proc/syscall.c\<close>), on the state of the whole kernel.  All port traffic is on the bus that
  the screen component carries.  \<open>cr2\<close> is the processor's fault-address register.  A \<^verbatim>\<open>hlt\<close> in a
  waiting loop lets interrupts and other tasks run until the waiting task runs again; what they do
  to the kernel's state is the argument \<open>hlt\<close>.
\<close>

unbundle bit_operations_syntax

section \<open>The kernel's state\<close>

record kernel =
  sys :: sched
  scr :: screen
  kbd :: keyboard
  g_ticks :: u32

definition on_bus :: "(ports \<Rightarrow> ports) \<Rightarrow> kernel \<Rightarrow> kernel" where
  "on_bus f k = k\<lparr>scr := (scr k)\<lparr>com := (com (scr k))\<lparr>bus := f (bus (com (scr k)))\<rparr>\<rparr>\<rparr>"

definition handlers_of :: "kernel \<Rightarrow> u8 \<Rightarrow> isr_handler_t" where
  "handlers_of k = handlers (space (mach (sys k)))"

definition set_handlers :: "(u8 \<Rightarrow> isr_handler_t) \<Rightarrow> kernel \<Rightarrow> kernel" where
  "set_handlers h k = k\<lparr>sys := (sys k)\<lparr>mach := (mach (sys k))\<lparr>space := (space (mach (sys k)))\<lparr>handlers := h\<rparr>\<rparr>\<rparr>\<rparr>"

text \<open>Bytes stored one after the other, through the page tables.\<close>

fun store_bytes :: "u32 \<Rightarrow> u8 list \<Rightarrow> vm \<Rightarrow> vm outcome" where
  "store_bytes a [] v = Done v"
| "store_bytes a (x # xs) v = and_then (write8 a x v) (store_bytes (a + 1) xs)"

section \<open>The timer\<close>

definition PIT_CH0_DATA :: u16 where "PIT_CH0_DATA = 0x40"
definition PIT_COMMAND :: u16 where "PIT_COMMAND = 0x43"
definition PIT_BASE_HZ :: u32 where "PIT_BASE_HZ = 1193182"
definition IRQ0_VECTOR :: u8 where "IRQ0_VECTOR = 32"
definition TIMER_HZ :: u32 where "TIMER_HZ = 100"

definition timer_irq :: "kernel \<Rightarrow> kernel outcome" where
  "timer_irq k =
     (let k = k\<lparr>g_ticks := g_ticks k + 1\<rparr>
      in and_then (task_tick (sys k)) (\<lambda>s. Done (k\<lparr>sys := s\<rparr>)))"

definition timer_init :: "kernel \<Rightarrow> kernel" where
  "timer_init k =
     (let divisor = PIT_BASE_HZ div TIMER_HZ;
          divisor = (if divisor = 0 then 1 else divisor);
          divisor = (if divisor > 0xFFFF then 0xFFFF else divisor);
          k = on_bus (outb PIT_COMMAND 0x36) k;
          k = on_bus (outb PIT_CH0_DATA (ucast (divisor AND 0xFF))) k;
          k = on_bus (outb PIT_CH0_DATA (ucast (drop_bit 8 divisor AND 0xFF))) k
      in set_handlers (isr_register IRQ0_VECTOR Timer_irq (handlers_of k)) k)"

definition timer_ticks :: "kernel \<Rightarrow> u32" where "timer_ticks k = g_ticks k"

definition timer_uptime_seconds :: "kernel \<Rightarrow> u32" where
  "timer_uptime_seconds k = g_ticks k div TIMER_HZ"

partial_function (option) sleep_loop ::
    "(kernel \<Rightarrow> kernel outcome option) \<Rightarrow> u32 \<Rightarrow> kernel \<Rightarrow> kernel outcome option" where
  "sleep_loop hlt target k =
     (if g_ticks k < target then then_run (hlt k) (sleep_loop hlt target) else Some (Done k))"

definition ticks_to_wait :: "u32 \<Rightarrow> u32" where
  "ticks_to_wait ms = (ms + (1000 div TIMER_HZ) - 1) div (1000 div TIMER_HZ)"

definition timer_sleep_ms :: "(kernel \<Rightarrow> kernel outcome option) \<Rightarrow> u32 \<Rightarrow> kernel \<Rightarrow> kernel outcome option" where
  "timer_sleep_ms hlt ms k = sleep_loop hlt (g_ticks k + ticks_to_wait ms) k"

section \<open>System calls\<close>

definition SYS_EXIT :: u32 where "SYS_EXIT = 0"
definition SYS_WRITE :: u32 where "SYS_WRITE = 1"
definition SYS_GETPID :: u32 where "SYS_GETPID = 2"
definition SYS_SLEEP_MS :: u32 where "SYS_SLEEP_MS = 3"

definition sys_exit_impl :: "labels \<Rightarrow> u32 \<Rightarrow> kernel \<Rightarrow> kernel outcome option" where
  "sys_exit_impl lab page_directory k =
     then_run (task_exit lab page_directory (sys k)) (\<lambda>s. Some (Done (k\<lparr>sys := s\<rparr>)))"

text \<open>The loop of \<open>sys_write_impl\<close>: \<open>n\<close> bytes from address \<open>a\<close> on, read through the page tables.\<close>

fun write_loop :: "nat \<Rightarrow> u32 \<Rightarrow> kernel \<Rightarrow> kernel outcome option" where
  "write_loop 0 a k = Some (Done k)"
| "write_loop (Suc n) a k =
     (case read8 a (space (mach (sys k))) of
        Halted e \<Rightarrow> Some (Halted e)
      | Done c \<Rightarrow>
          (case kputchar c (scr k) of
             None \<Rightarrow> None
           | Some t \<Rightarrow> write_loop n (a + 1) (k\<lparr>scr := t\<rparr>)))"

definition sys_write_impl :: "int \<Rightarrow> u32 \<Rightarrow> u32 \<Rightarrow> kernel \<Rightarrow> (int \<times> kernel) outcome option" where
  "sys_write_impl fd buf n k =
     (if fd \<noteq> 1 \<and> fd \<noteq> 2 then Some (Done (-1, k))
      else if buf = 0 then Some (Done (-1, k))
      else then_run (write_loop (unat n) buf k) (\<lambda>k. Some (Done (sint n, k))))"

definition sys_getpid_impl :: "kernel \<Rightarrow> int outcome" where
  "sys_getpid_impl k =
     (let t = task_current (sys k) in
      if t = 0 then Done (-1) else and_then (task_at t (sys k)) (\<lambda>x. Done (sint (tid x))))"

definition sys_sleep_ms_impl ::
    "(kernel \<Rightarrow> kernel outcome option) \<Rightarrow> u32 \<Rightarrow> kernel \<Rightarrow> (int \<times> kernel) outcome option" where
  "sys_sleep_ms_impl hlt ms k =
     (let ms = (if ms > 60000 then 60000 else ms)
      in then_run (timer_sleep_ms hlt ms k) (\<lambda>k. Some (Done (0, k))))"

definition syscall_dispatch ::
    "labels \<Rightarrow> u32 \<Rightarrow> (kernel \<Rightarrow> kernel outcome option) \<Rightarrow> registers \<Rightarrow> kernel \<Rightarrow> (registers \<times> kernel) outcome option" where
  "syscall_dispatch lab page_directory hlt regs k =
     then_run
       (let num = r_eax regs in
        if num = SYS_EXIT
        then then_run (sys_exit_impl lab page_directory k) (\<lambda>k. Some (Done (0, k)))
        else if num = SYS_WRITE then sys_write_impl (sint (r_ebx regs)) (r_ecx regs) (r_edx regs) k
        else if num = SYS_GETPID then Some (and_then (sys_getpid_impl k) (\<lambda>r. Done (r, k)))
        else if num = SYS_SLEEP_MS then sys_sleep_ms_impl hlt (r_ebx regs) k
        else Some (Done (-1, k)))
       (\<lambda>(ret, k). Some (Done (regs\<lparr>r_eax := of_int ret\<rparr>, k)))"

section \<open>Faults and the dispatcher\<close>

text \<open>A sequence of prints; each step may not return.\<close>

definition and_print :: "screen option \<Rightarrow> (screen \<Rightarrow> screen option) \<Rightarrow> screen option" where
  "and_print m f = Option.bind m f"

text \<open>The report of \<open>page_fault_handler\<close>, before the machine stops.\<close>

definition page_fault_report :: "u32 \<Rightarrow> registers \<Rightarrow> screen \<Rightarrow> screen option" where
  "page_fault_report cr2 regs s =
     (let err = r_err_code regs in
      fold (\<lambda>f m. and_print m f)
       [kprint_color (10 # cstr ''*** PAGE FAULT ***'' @ [10]) VGA_WHITE VGA_RED,
        kprint_color (cstr ''addr='') VGA_LIGHT_GREY VGA_BLACK,
        kprint_hex cr2,
        kprint_color (cstr ''  eip='') VGA_LIGHT_GREY VGA_BLACK,
        kprint_hex (r_eip regs),
        kprint_color (cstr ''  err='') VGA_LIGHT_GREY VGA_BLACK,
        kprint_hex err,
        kprint (10 # cstr ''  reason: ''),
        kprint (if err AND 0x1 \<noteq> 0 then cstr ''protection-violation'' else cstr ''non-present-page''),
        kprint (if err AND 0x2 \<noteq> 0 then cstr '' | write'' else cstr '' | read''),
        kprint (if err AND 0x4 \<noteq> 0 then cstr '' | user-mode'' else cstr '' | kernel-mode''),
        (if err AND 0x8 \<noteq> 0 then kprint (cstr '' | reserved-bit-set'') else Some),
        (if err AND 0x10 \<noteq> 0 then kprint (cstr '' | instruction-fetch'') else Some),
        kprint (10 # cstr ''System halted.'' @ [10])]
       (Some s))"

definition page_fault_handler :: "u32 \<Rightarrow> registers \<Rightarrow> kernel \<Rightarrow> kernel outcome option" where
  "page_fault_handler cr2 regs k =
     (case page_fault_report cr2 regs (scr k) of
        None \<Rightarrow> None
      | Some t \<Rightarrow> Some (Halted ''page fault''))"

definition exception_names :: "string list" where
  "exception_names =
     [''Division Error'', ''Debug'', ''Non-Maskable Interrupt'', ''Breakpoint'', ''Overflow'',
      ''Bound Range Exceeded'', ''Invalid Opcode'', ''Device Not Available'', ''Double Fault'',
      ''Coprocessor Segment Overrun'', ''Invalid TSS'', ''Segment Not Present'', ''Stack-Segment Fault'',
      ''General Protection Fault'', ''Page Fault'', ''Reserved'', ''x87 FPU Error'', ''Alignment Check'',
      ''Machine Check'', ''SIMD FP Exception'', ''Virtualization Exception'']"

definition exception_report :: "registers \<Rightarrow> screen \<Rightarrow> screen option" where
  "exception_report regs s =
     fold (\<lambda>f m. and_print m f)
       [kprint_color (10 # cstr ''*** EXCEPTION ***  '') VGA_WHITE VGA_RED,
        (if r_int_no regs < 21
         then kprint_color (cstr (exception_names ! unat (r_int_no regs))) VGA_WHITE VGA_RED else Some),
        kprint [10],
        kprint_color (cstr ''INT='') VGA_LIGHT_GREY VGA_BLACK,
        kprint_dec (r_int_no regs),
        kprint_color (cstr ''  ERR='') VGA_LIGHT_GREY VGA_BLACK,
        kprint_hex (r_err_code regs),
        kprint_color (cstr ''  EIP='') VGA_LIGHT_GREY VGA_BLACK,
        kprint_hex (r_eip regs),
        kprint (10 # cstr ''System halted.'' @ [10])]
       (Some s)"

definition call_handler :: "isr_handler_t \<Rightarrow> u32 \<Rightarrow> registers \<Rightarrow> kernel \<Rightarrow> kernel outcome option" where
  "call_handler h cr2 regs k =
     (case h of
        No_handler \<Rightarrow> Some (Done k)
      | Page_fault_handler \<Rightarrow> page_fault_handler cr2 regs k
      | Timer_irq \<Rightarrow> Some (timer_irq k)
      | Kb_irq_handler \<Rightarrow>
          (case kb_irq_handler (kbd k) (bus (com (scr k))) of
             (b, p) \<Rightarrow> Some (Done (on_bus (\<lambda>_. p) (k\<lparr>kbd := b\<rparr>)))))"

definition isr_handler ::
    "labels \<Rightarrow> u32 \<Rightarrow> (kernel \<Rightarrow> kernel outcome option) \<Rightarrow> u32 \<Rightarrow> registers \<Rightarrow> kernel \<Rightarrow>
       (registers \<times> kernel) outcome option" where
  "isr_handler lab page_directory hlt cr2 regs k =
     (let n = r_int_no regs in
      if n < 32
      then if handlers_of k (ucast n) \<noteq> No_handler
           then then_run (call_handler (handlers_of k (ucast n)) cr2 regs k) (\<lambda>k. Some (Done (regs, k)))
           else (case exception_report regs (scr k) of
                   None \<Rightarrow> None
                 | Some t \<Rightarrow> Some (Halted ''unhandled exception''))
      else if n < 48
      then let irq = ucast (n - 32) in
           then_run (call_handler (handlers_of k (ucast n)) cr2 regs k) (\<lambda>k.
             let k = on_bus (pic_send_eoi irq) k;
                 (again, s) = task_should_resched (sys k);
                 k = k\<lparr>sys := s\<rparr>
             in if again
                then then_run (task_yield lab page_directory (sys k)) (\<lambda>(switched, s). Some (Done (regs, k\<lparr>sys := s\<rparr>)))
                else Some (Done (regs, k)))
      else if n = 128 then syscall_dispatch lab page_directory hlt regs k
      else Some (Done (regs, k)))"

end
