(* ===== verification/User.thy ===== *)
theory User
  imports Interrupts
begin

text \<open>
  Ring-3 programs: the system-call wrappers (\<^verbatim>\<open>src/proc/syscall.h\<close>), the built-in demo
  (\<^verbatim>\<open>src/proc/user_demo.c\<close>) and the program on the disk image (\<^verbatim>\<open>src/userland/hello.c\<close> with
  \<^verbatim>\<open>src/userland/crt0.S\<close>).  A program sees the kernel through interrupt 0x80 only.  String constants and stack
  buffers are in memory, at addresses that the compiler chooses (arguments of the model), and are read
  through the page tables.
\<close>

unbundle bit_operations_syntax

section \<open>System calls\<close>

record world =
  w_lab :: labels
  w_pd :: u32
  w_hlt :: "kernel \<Rightarrow> kernel outcome option"

definition int80 :: "world \<Rightarrow> registers \<Rightarrow> kernel \<Rightarrow> (registers \<times> kernel) outcome option" where
  "int80 w r k = isr_handler (w_lab w) (w_pd w) (w_hlt w) 0 (r\<lparr>r_int_no := 128, r_err_code := 0\<rparr>) k"

definition syscall0 :: "world \<Rightarrow> u32 \<Rightarrow> registers \<Rightarrow> kernel \<Rightarrow> (int \<times> registers \<times> kernel) outcome option" where
  "syscall0 w num r k =
     then_run (int80 w (r\<lparr>r_eax := num\<rparr>) k) (\<lambda>(r, k). Some (Done (sint (r_eax r), r, k)))"

definition syscall1 :: "world \<Rightarrow> u32 \<Rightarrow> u32 \<Rightarrow> registers \<Rightarrow> kernel \<Rightarrow> (int \<times> registers \<times> kernel) outcome option" where
  "syscall1 w num a r k =
     then_run (int80 w (r\<lparr>r_eax := num, r_ebx := a\<rparr>) k) (\<lambda>(r, k). Some (Done (sint (r_eax r), r, k)))"

definition syscall3 ::
    "world \<Rightarrow> u32 \<Rightarrow> u32 \<Rightarrow> u32 \<Rightarrow> u32 \<Rightarrow> registers \<Rightarrow> kernel \<Rightarrow> (int \<times> registers \<times> kernel) outcome option" where
  "syscall3 w num a b c r k =
     then_run (int80 w (r\<lparr>r_eax := num, r_ebx := a, r_ecx := b, r_edx := c\<rparr>) k)
       (\<lambda>(r, k). Some (Done (sint (r_eax r), r, k)))"

type_synonym user = "registers \<times> kernel"

definition u_write :: "world \<Rightarrow> u32 \<Rightarrow> u32 \<Rightarrow> u32 \<Rightarrow> user \<Rightarrow> user outcome option" where
  "u_write w fd buf len u =
     then_run (syscall3 w SYS_WRITE fd buf len (fst u) (snd u)) (\<lambda>(x, u). Some (Done u))"

definition u_sleep_ms :: "world \<Rightarrow> u32 \<Rightarrow> user \<Rightarrow> user outcome option" where
  "u_sleep_ms w ms u = then_run (syscall1 w SYS_SLEEP_MS ms (fst u) (snd u)) (\<lambda>(x, u). Some (Done u))"

definition u_exit :: "world \<Rightarrow> u32 \<Rightarrow> user \<Rightarrow> user outcome option" where
  "u_exit w code u = then_run (syscall1 w SYS_EXIT code (fst u) (snd u)) (\<lambda>(x, u). Some (Done u))"

definition u_getpid :: "world \<Rightarrow> user \<Rightarrow> (int \<times> user) outcome option" where
  "u_getpid w u = syscall0 w SYS_GETPID (fst u) (snd u)"

section \<open>Strings in user memory\<close>

definition space_of :: "user \<Rightarrow> vm" where
  "space_of u = space (mach (sys (snd u)))"

partial_function (option) ulen_loop :: "vm \<Rightarrow> u32 \<Rightarrow> u32 \<Rightarrow> u32 outcome option" where
  "ulen_loop v s n =
     (case read8 (s + n) v of
        Halted e \<Rightarrow> Some (Halted e)
      | Done c \<Rightarrow> if c \<noteq> 0 then ulen_loop v s (n + 1) else Some (Done n))"

definition ulen :: "u32 \<Rightarrow> user \<Rightarrow> u32 outcome option" where
  "ulen s u = ulen_loop (space_of u) s 0"

definition uputs :: "world \<Rightarrow> u32 \<Rightarrow> user \<Rightarrow> user outcome option" where
  "uputs w s u = then_run (ulen s u) (\<lambda>n. u_write w 1 s n u)"

text \<open>The digits that the conversion loop puts in its buffer, last one first; \<open>i\<close> of them are there.\<close>

function itoa_digits :: "u32 \<Rightarrow> nat \<Rightarrow> u8 list" where
  "itoa_digits v i = (if v > 0 \<and> i < 15 then ucast (48 + v mod 10) # itoa_digits (v div 10) (i + 1) else [])"
  by pat_completeness auto
termination
  by (relation "measure (\<lambda>(v, i). 15 - i)") auto

declare itoa_digits.simps [simp del]

definition u_itoa :: "u32 \<Rightarrow> cstring" where
  "u_itoa v = (if v = 0 then [48] else rev (itoa_digits v 0))"

text \<open>The signed variant of \<open>hello.c\<close>; negation is that of the 32-bit register.\<close>

definition uitoa :: "u32 \<Rightarrow> cstring" where
  "uitoa v =
     (let (sign, v) = (if sint v < 0 then ([45], - v) else ([], v)) in
      if v = 0 then sign @ [48] else sign @ rev (if sint v > 0 then itoa_digits v 0 else []))"

definition store_string :: "u32 \<Rightarrow> cstring \<Rightarrow> user \<Rightarrow> user outcome option" where
  "store_string a cs u =
     Some (and_then (store_bytes a (cs @ [0]) (space_of u)) (\<lambda>v.
       let k = snd u; t = sys k
       in Done (fst u, k\<lparr>sys := t\<lparr>mach := (mach t)\<lparr>space := v\<rparr>\<rparr>\<rparr>)))"

section \<open>The programs\<close>

record demo_strings =
  d_hello :: u32
  d_pid :: u32
  d_newline :: u32
  d_sleep :: u32
  d_bye :: u32
  d_buf :: u32

definition user_demo_entry :: "world \<Rightarrow> demo_strings \<Rightarrow> user \<Rightarrow> user outcome option" where
  "user_demo_entry w d u =
     then_run (uputs w (d_hello d) u) (\<lambda>u.
     then_run (u_getpid w u) (\<lambda>(pid, u).
     then_run (store_string (d_buf d) (u_itoa (of_int pid)) u) (\<lambda>u.
     then_run (uputs w (d_pid d) u) (\<lambda>u.
     then_run (uputs w (d_buf d) u) (\<lambda>u.
     then_run (u_write w 1 (d_newline d) 1 u) (\<lambda>u.
     then_run (uputs w (d_sleep d) u) (\<lambda>u.
     then_run (u_sleep_ms w 2000 u) (\<lambda>u.
     then_run (uputs w (d_bye d) u) (u_exit w 0)))))))))"

record hello_strings =
  h_intro :: "u32 list"
  h_pid :: u32
  h_newline :: u32
  h_count :: u32
  h_prompt :: u32
  h_bye :: u32
  h_buf :: u32
  h_digit :: u32

fun hello_count :: "world \<Rightarrow> hello_strings \<Rightarrow> nat \<Rightarrow> u32 \<Rightarrow> user \<Rightarrow> user outcome option" where
  "hello_count w h 0 i u = Some (Done u)"
| "hello_count w h (Suc k) i u =
     then_run (store_string (h_digit h) [ucast (48 + i), 10] u) (\<lambda>u.
     then_run (uputs w (h_prompt h) u) (\<lambda>u.
     then_run (u_write w 1 (h_digit h) 2 u) (\<lambda>u.
     then_run (u_sleep_ms w 1000 u) (hello_count w h k (i + 1)))))"

fun uputs_all :: "world \<Rightarrow> u32 list \<Rightarrow> user \<Rightarrow> user outcome option" where
  "uputs_all w [] u = Some (Done u)"
| "uputs_all w (s # ss) u = then_run (uputs w s u) (uputs_all w ss)"

definition hello_main :: "world \<Rightarrow> hello_strings \<Rightarrow> user \<Rightarrow> user outcome option" where
  "hello_main w h u =
     then_run (uputs_all w (h_intro h) u) (\<lambda>u.
     then_run (u_getpid w u) (\<lambda>(pid, u).
     then_run (store_string (h_buf h) (uitoa (of_int pid)) u) (\<lambda>u.
     then_run (uputs w (h_pid h) u) (\<lambda>u.
     then_run (uputs w (h_buf h) u) (\<lambda>u.
     then_run (uputs w (h_newline h) u) (\<lambda>u.
     then_run (uputs w (h_count h) u) (\<lambda>u.
     then_run (hello_count w h 3 1 u) (uputs w (h_bye h)))))))))"

text \<open>The entry point of a program: run \<open>main\<close>, then exit with its return value, which is 0.\<close>

definition hello_start :: "world \<Rightarrow> hello_strings \<Rightarrow> user \<Rightarrow> user outcome option" where
  "hello_start w h u = then_run (hello_main w h u) (u_exit w 0)"

end
