(* ===== verification/Fat32.thy ===== *)
theory Fat32
  imports Ata "HOL-Library.Monad_Syntax"
begin

text \<open>
  The FAT32 file system (\<^verbatim>\<open>src/fs/fat32.c\<close>, \<^verbatim>\<open>src/fs/fat32.h\<close>) on the disk driver.  The state
  has the fields of \<^verbatim>\<open>fs\<close>, the two static buffers and the bus.  Every routine returns an option:
  \<open>None\<close> is "does not return", because the drive is polled forever or because a cluster chain is
  cyclic.  A buffer is a list of bytes; a result that the code stores through a pointer is part of
  the value.  Loops over cluster chains are partial functions, loops with a counter are primitive
  recursive in the number of turns left.
\<close>

unbundle bit_operations_syntax

section \<open>Bytes\<close>

definition get16 :: "u8 list \<Rightarrow> nat \<Rightarrow> u16" where
  "get16 bs i = ucast (char_at bs i) OR push_bit 8 (ucast (char_at bs (i + 1)))"

definition get32 :: "u8 list \<Rightarrow> nat \<Rightarrow> u32" where
  "get32 bs i = ucast (char_at bs i) OR push_bit 8 (ucast (char_at bs (i + 1))) OR
     push_bit 16 (ucast (char_at bs (i + 2))) OR push_bit 24 (ucast (char_at bs (i + 3)))"

definition bytes16 :: "u16 \<Rightarrow> u8 list" where
  "bytes16 v = [ucast v, ucast (drop_bit 8 v)]"

definition bytes32 :: "u32 \<Rightarrow> u8 list" where
  "bytes32 v = [ucast v, ucast (drop_bit 8 v), ucast (drop_bit 16 v), ucast (drop_bit 24 v)]"

text \<open>Storing \<open>new\<close> into a buffer from offset \<open>i\<close> on.\<close>

definition overwrite :: "nat \<Rightarrow> u8 list \<Rightarrow> u8 list \<Rightarrow> u8 list" where
  "overwrite i new buf = take i buf @ new @ drop (i + length new) buf"

section \<open>Data structures\<close>

record fat32_dirent =
  e_name :: "u8 list"
  e_attr :: u8
  ntres :: u8
  crt_time_tenth :: u8
  crt_time :: u16
  crt_date :: u16
  lst_acc_date :: u16
  cluster_hi :: u16
  wrt_time :: u16
  wrt_date :: u16
  cluster_lo :: u16
  e_size :: u32

definition dirent_at :: "u8 list \<Rightarrow> nat \<Rightarrow> fat32_dirent" where
  "dirent_at bs o' =
     \<lparr>e_name = map (\<lambda>i. char_at bs (o' + i)) [0..<11], e_attr = char_at bs (o' + 11), ntres = char_at bs (o' + 12),
      crt_time_tenth = char_at bs (o' + 13), crt_time = get16 bs (o' + 14), crt_date = get16 bs (o' + 16),
      lst_acc_date = get16 bs (o' + 18), cluster_hi = get16 bs (o' + 20), wrt_time = get16 bs (o' + 22),
      wrt_date = get16 bs (o' + 24), cluster_lo = get16 bs (o' + 26), e_size = get32 bs (o' + 28)\<rparr>"

definition dirent_bytes :: "fat32_dirent \<Rightarrow> u8 list" where
  "dirent_bytes e =
     e_name e @ [e_attr e, ntres e, crt_time_tenth e] @ bytes16 (crt_time e) @ bytes16 (crt_date e) @
     bytes16 (lst_acc_date e) @ bytes16 (cluster_hi e) @ bytes16 (wrt_time e) @ bytes16 (wrt_date e) @
     bytes16 (cluster_lo e) @ bytes32 (e_size e)"

definition zero_dirent :: fat32_dirent where
  "zero_dirent = \<lparr>e_name = replicate 11 0, e_attr = 0, ntres = 0, crt_time_tenth = 0, crt_time = 0, crt_date = 0,
     lst_acc_date = 0, cluster_hi = 0, wrt_time = 0, wrt_date = 0, cluster_lo = 0, e_size = 0\<rparr>"

definition FAT_ATTR_DIRECTORY :: u8 where "FAT_ATTR_DIRECTORY = 0x10"
definition FAT_ATTR_VOLUME_ID :: u8 where "FAT_ATTR_VOLUME_ID = 0x08"
definition FAT_ATTR_LFN :: u8 where "FAT_ATTR_LFN = 0x0F"
definition FAT32_CLUSTER_BUF_MAX :: u32 where "FAT32_CLUSTER_BUF_MAX = 128 * 512"

text \<open>The fields of the boot sector that are used.\<close>

record bpb32 =
  bpb_bytes_per_sector :: u16
  bpb_sectors_per_cluster :: u8
  bpb_reserved_sectors :: u16
  bpb_num_fats :: u8
  bpb_total_sectors_16 :: u16
  bpb_total_sectors_32 :: u32
  bpb_fat_size_32 :: u32
  bpb_root_cluster :: u32

definition bpb_of :: "u8 list \<Rightarrow> bpb32" where
  "bpb_of boot =
     \<lparr>bpb_bytes_per_sector = get16 boot 0x0B, bpb_sectors_per_cluster = char_at boot 0x0D,
      bpb_reserved_sectors = get16 boot 0x0E, bpb_num_fats = char_at boot 0x10, bpb_total_sectors_16 = get16 boot 0x13,
      bpb_total_sectors_32 = get32 boot 0x20, bpb_fat_size_32 = get32 boot 0x24, bpb_root_cluster = get32 boot 0x2C\<rparr>"

record fat32 =
  fs_drive :: u8
  sectors_per_cluster :: u8
  num_fats :: u8
  bytes_per_sector :: u16
  fat_start_lba :: u32
  data_start_lba :: u32
  fat_size :: u32
  total_clusters :: u32
  root_cluster :: u32
  cwd_cluster :: u32
  alloc_hint :: u32
  mounted :: bool
  cluster_buf :: "u8 list"
  fat_sector_buf :: "u8 list"
  fat_sector_cached_lba :: u32
  disk :: ports

text \<open>The driver's calls on the file system's bus.\<close>

definition fs_read :: "u8 \<Rightarrow> u32 \<Rightarrow> u8 \<Rightarrow> fat32 \<Rightarrow> (int \<times> u8 list \<times> fat32) option" where
  "fs_read drive lba count s =
     map_option (\<lambda>(r, bs, p). (r, bs, s\<lparr>disk := p\<rparr>)) (ata_read drive lba count (disk s))"

definition fs_write :: "u8 \<Rightarrow> u32 \<Rightarrow> u8 \<Rightarrow> u8 list \<Rightarrow> fat32 \<Rightarrow> (int \<times> fat32) option" where
  "fs_write drive lba count buf s =
     map_option (\<lambda>(r, p). (r, s\<lparr>disk := p\<rparr>)) (ata_write drive lba count buf (disk s))"

section \<open>Names\<close>

definition to_upper :: "u8 \<Rightarrow> u8" where
  "to_upper c = (if c \<ge> 97 \<and> c \<le> 122 then c - 97 + 65 else c)"

fun str_eq_ci :: "cstring \<Rightarrow> cstring \<Rightarrow> bool" where
  "str_eq_ci (x # a) (y # b) =
     (if x \<noteq> 0 \<and> y \<noteq> 0 then (if to_upper x \<noteq> to_upper y then False else str_eq_ci a b)
      else x = 0 \<and> y = 0)"
| "str_eq_ci a b = (char_at a 0 = 0 \<and> char_at b 0 = 0)"

definition format_short_name :: "u8 list \<Rightarrow> cstring" where
  "format_short_name raw =
     takeWhile (\<lambda>c. c \<noteq> 32) (take 8 raw) @
     (if char_at raw 8 \<noteq> 32 then 46 # takeWhile (\<lambda>c. c \<noteq> 32) (take 3 (drop 8 raw)) else [])"

text \<open>A name field of \<open>n\<close> bytes: the upper-case letters, padded with spaces.\<close>

definition pad_upper :: "nat \<Rightarrow> cstring \<Rightarrow> u8 list" where
  "pad_upper n cs = map to_upper (take n cs) @ replicate (n - length cs) 32"

definition to_short_name :: "cstring \<Rightarrow> u8 list" where
  "to_short_name name =
     (let name = takeWhile (\<lambda>c. c \<noteq> 0) name;
          base = takeWhile (\<lambda>c. c \<noteq> 46) name;
          rest = dropWhile (\<lambda>c. c \<noteq> 46) name
      in pad_upper 8 base @ pad_upper 3 (tl rest))"

definition sname_eq :: "u8 list \<Rightarrow> u8 list \<Rightarrow> bool" where
  "sname_eq a b = (take 11 a = take 11 b)"

section \<open>Clusters and the allocation table\<close>

definition cluster_to_lba :: "fat32 \<Rightarrow> u32 \<Rightarrow> u32" where
  "cluster_to_lba s cluster = data_start_lba s + (cluster - 2) * ucast (sectors_per_cluster s)"

definition is_eoc :: "u32 \<Rightarrow> bool" where
  "is_eoc cluster = (cluster AND 0x0FFFFFFF \<ge> 0x0FFFFFF8)"

definition next_cluster :: "u32 \<Rightarrow> fat32 \<Rightarrow> (u32 \<times> fat32) option" where
  "next_cluster cluster s =
     (let fat_byte_offset = cluster * 4;
          fat_lba = fat_start_lba s + fat_byte_offset div 512;
          in_sector_off = fat_byte_offset mod 512;
          entry = (\<lambda>s. get32 (fat_sector_buf s) (unat in_sector_off) AND 0x0FFFFFFF)
      in if fat_lba \<noteq> fat_sector_cached_lba s
         then do {
           (r, bs, s) \<leftarrow> fs_read (fs_drive s) fat_lba 1 s;
           let s = s\<lparr>fat_sector_buf := overwrite 0 bs (fat_sector_buf s)\<rparr>;
           if r < 0 then Some (0x0FFFFFFF, s)
           else let s = s\<lparr>fat_sector_cached_lba := fat_lba\<rparr> in Some (entry s, s)
         }
         else Some (entry s, s))"

definition read_cluster :: "u32 \<Rightarrow> fat32 \<Rightarrow> (int \<times> fat32) option" where
  "read_cluster cluster s = do {
     (r, bs, s) \<leftarrow> fs_read (fs_drive s) (cluster_to_lba s cluster) (sectors_per_cluster s) s;
     Some (r, s\<lparr>cluster_buf := overwrite 0 bs (cluster_buf s)\<rparr>)
   }"

section \<open>Mounting\<close>

definition fat32_mount :: "u8 \<Rightarrow> fat32 \<Rightarrow> (int \<times> fat32) option" where
  "fat32_mount drive s = do {
     (r, boot, s) \<leftarrow> fs_read drive 0 1 s;
     let bpb = bpb_of boot;
     if r < 0 then Some (-1, s)
     else if bpb_bytes_per_sector bpb \<noteq> 512 then Some (-1, s)
     else if bpb_sectors_per_cluster bpb = 0 then Some (-1, s)
     else if bpb_fat_size_32 bpb = 0 then Some (-1, s)
     else if ucast (bpb_sectors_per_cluster bpb) * 512 > FAT32_CLUSTER_BUF_MAX then Some (-1, s)
     else
       let s = s\<lparr>fs_drive := drive, bytes_per_sector := bpb_bytes_per_sector bpb,
                 sectors_per_cluster := bpb_sectors_per_cluster bpb, num_fats := bpb_num_fats bpb,
                 fat_start_lba := ucast (bpb_reserved_sectors bpb), fat_size := bpb_fat_size_32 bpb\<rparr>;
           s = s\<lparr>data_start_lba := fat_start_lba s + ucast (num_fats s) * fat_size s,
                 root_cluster := bpb_root_cluster bpb\<rparr>;
           s = s\<lparr>cwd_cluster := root_cluster s, mounted := True, alloc_hint := 2, fat_sector_cached_lba := 0xFFFFFFFF\<rparr>;
           total_sec = (if bpb_total_sectors_32 bpb \<noteq> 0 then bpb_total_sectors_32 bpb
                        else ucast (bpb_total_sectors_16 bpb))
       in Some (0, s\<lparr>total_clusters := (total_sec - data_start_lba s) div ucast (sectors_per_cluster s)\<rparr>)
   }"

definition fat32_is_mounted :: "fat32 \<Rightarrow> bool" where "fat32_is_mounted s = mounted s"
definition fat32_root_cluster :: "fat32 \<Rightarrow> u32" where "fat32_root_cluster s = root_cluster s"

section \<open>Listing and finding\<close>

text \<open>
  The loop over the entries of the cluster buffer, \<open>k\<close> of them left from entry \<open>i\<close> on, and the loop
  over the chain.  The visitor may use the bus, since it may print.  The flag says that the end mark was seen.
\<close>

type_synonym 'c visitor = "fat32_dirent \<Rightarrow> 'c \<Rightarrow> ports \<Rightarrow> ('c \<times> ports) option"

fun visit_entries :: "'c visitor \<Rightarrow> nat \<Rightarrow> nat \<Rightarrow> 'c \<Rightarrow> fat32 \<Rightarrow> (bool \<times> 'c \<times> fat32) option" where
  "visit_entries visit 0 i ctx s = Some (False, ctx, s)"
| "visit_entries visit (Suc k) i ctx s =
     (let e = dirent_at (cluster_buf s) (32 * i); first = e_name e ! 0 in
      if first = 0x00 then Some (True, ctx, s)
      else if first = 0xE5 then visit_entries visit k (i + 1) ctx s
      else if e_attr e = FAT_ATTR_LFN then visit_entries visit k (i + 1) ctx s
      else if e_attr e AND FAT_ATTR_VOLUME_ID \<noteq> 0 then visit_entries visit k (i + 1) ctx s
      else do {
        (ctx, p) \<leftarrow> visit e ctx (disk s);
        visit_entries visit k (i + 1) ctx (s\<lparr>disk := p\<rparr>)
      })"

partial_function (option) list_clusters :: "'c visitor \<Rightarrow> u32 \<Rightarrow> 'c \<Rightarrow> fat32 \<Rightarrow> ('c \<times> fat32) option" where
  "list_clusters visit cluster ctx s =
     (if \<not> is_eoc cluster \<and> cluster \<ge> 2
      then do {
        (r, s) \<leftarrow> read_cluster cluster s;
        if r < 0 then Some (ctx, s)
        else do {
          let bytes = (ucast (sectors_per_cluster s) * 512 :: u32);
          (stop, ctx, s) \<leftarrow> visit_entries visit (unat (bytes div 32)) 0 ctx s;
          if stop then Some (ctx, s)
          else do {
            (cluster, s) \<leftarrow> next_cluster cluster s;
            list_clusters visit cluster ctx s
          }
        }
      }
      else Some (ctx, s))"

definition fat32_listdir :: "u32 \<Rightarrow> 'c visitor \<Rightarrow> 'c \<Rightarrow> fat32 \<Rightarrow> ('c \<times> fat32) option" where
  "fat32_listdir start_cluster visit ctx s =
     (if \<not> mounted s then Some (ctx, s) else list_clusters visit start_cluster ctx s)"

definition find_visitor :: "cstring \<Rightarrow> fat32_dirent option visitor" where
  "find_visitor target e ctx p =
     Some (if ctx \<noteq> None then ctx
           else if str_eq_ci (format_short_name (e_name e)) target then Some e else ctx, p)"

text \<open>The entry that is found is stored through the pointer; \<open>None\<close> is the return value -1.\<close>

definition fat32_find :: "cstring \<Rightarrow> fat32 \<Rightarrow> (fat32_dirent option \<times> fat32) option" where
  "fat32_find name83 s =
     (if \<not> mounted s then Some (None, s)
      else fat32_listdir (cwd_cluster s) (find_visitor name83) None s)"

definition fat32_find_in_root :: "cstring \<Rightarrow> fat32 \<Rightarrow> (fat32_dirent option \<times> fat32) option" where
  "fat32_find_in_root name83 s =
     (if \<not> mounted s then Some (None, s)
      else fat32_listdir (root_cluster s) (find_visitor name83) None s)"

section \<open>Reading a file\<close>

definition start_cluster_of :: "fat32_dirent \<Rightarrow> u32" where
  "start_cluster_of e = push_bit 16 (ucast (cluster_hi e)) OR ucast (cluster_lo e)"

text \<open>The bytes stored so far are \<open>acc\<close>; \<open>copied\<close> is their number.\<close>

partial_function (option) read_loop ::
    "u32 \<Rightarrow> u32 \<Rightarrow> u32 \<Rightarrow> u8 list \<Rightarrow> fat32 \<Rightarrow> (int \<times> u8 list \<times> fat32) option" where
  "read_loop cluster size' copied acc s =
     (if \<not> is_eoc cluster \<and> cluster \<ge> 2 \<and> copied < size'
      then do {
        (r, s) \<leftarrow> read_cluster cluster s;
        if r < 0 then Some (-1, acc, s)
        else do {
          let bytes = ucast (sectors_per_cluster s) * 512;
          let remain = size' - copied;
          let n = (if remain < bytes then remain else bytes);
          let acc = acc @ map (char_at (cluster_buf s)) [0..<unat n];
          (cluster, s) \<leftarrow> next_cluster cluster s;
          read_loop cluster size' (copied + n) acc s
        }
      }
      else Some (sint copied, acc, s))"

definition fat32_read_file :: "fat32_dirent \<Rightarrow> u32 \<Rightarrow> fat32 \<Rightarrow> (int \<times> u8 list \<times> fat32) option" where
  "fat32_read_file e lim s =
     (if \<not> mounted s then Some (-1, [], s)
      else
        let size' = (if e_size e > lim then lim else e_size e)
        in read_loop (start_cluster_of e) size' 0 [] s)"

section \<open>Changing the allocation table\<close>

text \<open>The loop over the copies of the table: copies \<open>f\<close>, \<open>f + 1\<close>, \<dots>, \<open>k\<close> of them left.\<close>

fun set_fat_copies :: "u32 \<Rightarrow> u32 \<Rightarrow> nat \<Rightarrow> u32 \<Rightarrow> fat32 \<Rightarrow> (int \<times> fat32) option" where
  "set_fat_copies cluster value 0 f s = Some (0, s)"
| "set_fat_copies cluster value (Suc k) f s =
     (let fat_byte_off = cluster * 4;
          in_sec_off = unat (fat_byte_off mod 512);
          fat_lba = fat_start_lba s + f * fat_size s + fat_byte_off div 512
      in do {
        (r, buf, s) \<leftarrow> fs_read (fs_drive s) fat_lba 1 s;
        if r < 0 then Some (-1, s)
        else do {
          let e = get32 buf in_sec_off;
          let buf = overwrite in_sec_off (bytes32 ((e AND 0xF0000000) OR (value AND 0x0FFFFFFF))) buf;
          (r, s) \<leftarrow> fs_write (fs_drive s) fat_lba 1 buf s;
          if r < 0 then Some (-1, s) else set_fat_copies cluster value k (f + 1) s
        }
      })"

definition set_fat_entry :: "u32 \<Rightarrow> u32 \<Rightarrow> fat32 \<Rightarrow> (int \<times> fat32) option" where
  "set_fat_entry cluster value s = do {
     (r, s) \<leftarrow> set_fat_copies cluster value (unat (num_fats s)) 0 s;
     if r < 0 then Some (-1, s) else Some (0, s\<lparr>fat_sector_cached_lba := 0xFFFFFFFF\<rparr>)
   }"

text \<open>The search for a free cluster: \<open>k\<close> turns left, the next one is turn \<open>i\<close>.\<close>

fun alloc_loop :: "nat \<Rightarrow> u32 \<Rightarrow> fat32 \<Rightarrow> (u32 \<times> fat32) option" where
  "alloc_loop 0 i s = Some (0, s)"
| "alloc_loop (Suc k) i s =
     (let total = total_clusters s + 2;
          c = alloc_hint s + i;
          c = (if c \<ge> total then 2 + (c - total) else c)
      in do {
        (n, s) \<leftarrow> next_cluster c s;
        if n = 0
        then do {
          (r, s) \<leftarrow> set_fat_entry c 0x0FFFFFFF s;
          if r < 0 then Some (0, s) else Some (c, s\<lparr>alloc_hint := c + 1\<rparr>)
        }
        else alloc_loop k (i + 1) s
      })"

definition alloc_cluster :: "fat32 \<Rightarrow> (u32 \<times> fat32) option" where
  "alloc_cluster s =
     (if total_clusters s = 0 then Some (0, s)
      else
        let s = (if alloc_hint s < 2 then s\<lparr>alloc_hint := 2\<rparr> else s)
        in alloc_loop (unat (total_clusters s)) 0 s)"

partial_function (option) free_chain :: "u32 \<Rightarrow> fat32 \<Rightarrow> fat32 option" where
  "free_chain c s =
     (if c \<ge> 2 \<and> \<not> is_eoc c
      then do {
        (n, s) \<leftarrow> next_cluster c s;
        (r, s) \<leftarrow> set_fat_entry c 0 s;
        free_chain n s
      }
      else Some s)"

section \<open>Directory entries on disk\<close>

record dir_lookup =
  l_entry :: fat32_dirent
  l_lba :: u32
  l_offset :: u16

text \<open>
  Three routines walk a directory sector by sector.  The walk stops with the value that \<open>f\<close> gives for
  a sector, with \<open>err\<close> when a sector cannot be read, and with \<open>none\<close> at the end of the chain.
\<close>

fun scan_sectors :: "(u32 \<Rightarrow> u8 list \<Rightarrow> 'r option) \<Rightarrow> 'r \<Rightarrow> nat \<Rightarrow> u32 \<Rightarrow> fat32 \<Rightarrow> ('r option \<times> fat32) option" where
  "scan_sectors f err 0 lba s = Some (None, s)"
| "scan_sectors f err (Suc k) lba s = do {
     (r, sec, s) \<leftarrow> fs_read (fs_drive s) lba 1 s;
     if r < 0 then Some (Some err, s)
     else case f lba sec of
            Some x \<Rightarrow> Some (Some x, s)
          | None \<Rightarrow> scan_sectors f err k (lba + 1) s
   }"

partial_function (option) scan_dir ::
    "(u32 \<Rightarrow> u8 list \<Rightarrow> 'r option) \<Rightarrow> 'r \<Rightarrow> 'r \<Rightarrow> u32 \<Rightarrow> fat32 \<Rightarrow> ('r \<times> fat32) option" where
  "scan_dir f err none cluster s =
     (if \<not> is_eoc cluster \<and> cluster \<ge> 2
      then do {
        (x, s) \<leftarrow> scan_sectors f err (unat (sectors_per_cluster s)) (cluster_to_lba s cluster) s;
        case x of
          Some x \<Rightarrow> Some (x, s)
        | None \<Rightarrow> do {
            (cluster, s) \<leftarrow> next_cluster cluster s;
            scan_dir f err none cluster s
          }
      }
      else Some (none, s))"

text \<open>The loop over the entries of a sector, from entry \<open>i\<close> on.\<close>

definition hidden :: "fat32_dirent \<Rightarrow> bool" where
  "hidden e \<longleftrightarrow> e_name e ! 0 = 0xE5 \<or> e_attr e = FAT_ATTR_LFN \<or> e_attr e AND FAT_ATTR_VOLUME_ID \<noteq> 0"

fun search_entries :: "u8 list \<Rightarrow> nat \<Rightarrow> nat \<Rightarrow> u32 \<Rightarrow> u8 list \<Rightarrow> dir_lookup option option" where
  "search_entries target 0 i lba sec = None"
| "search_entries target (Suc k) i lba sec =
     (let e = dirent_at sec (i * 32) in
      if e_name e ! 0 = 0x00 then Some None
      else if hidden e then search_entries target k (i + 1) lba sec
      else if sname_eq (e_name e) target
      then Some (Some \<lparr>l_entry = e, l_lba = lba, l_offset = of_nat (i * 32)\<rparr>)
      else search_entries target k (i + 1) lba sec)"

definition search_dir :: "u32 \<Rightarrow> u8 list \<Rightarrow> fat32 \<Rightarrow> (dir_lookup option \<times> fat32) option" where
  "search_dir start_cluster target s =
     scan_dir (search_entries target 16 0) None None start_cluster s"

fun free_entries :: "nat \<Rightarrow> nat \<Rightarrow> u32 \<Rightarrow> u8 list \<Rightarrow> (u32 \<times> u16) option option" where
  "free_entries 0 i lba sec = None"
| "free_entries (Suc k) i lba sec =
     (let first = char_at sec (i * 32) in
      if first = 0x00 \<or> first = 0xE5 then Some (Some (lba, of_nat (i * 32)))
      else free_entries k (i + 1) lba sec)"

definition find_free_dirent_in :: "u32 \<Rightarrow> fat32 \<Rightarrow> ((u32 \<times> u16) option \<times> fat32) option" where
  "find_free_dirent_in start_cluster s =
     scan_dir (free_entries 16 0) None None start_cluster s"

definition write_dirent :: "u32 \<Rightarrow> u16 \<Rightarrow> fat32_dirent \<Rightarrow> fat32 \<Rightarrow> (int \<times> fat32) option" where
  "write_dirent lba offset e s = do {
     (r, sec, s) \<leftarrow> fs_read (fs_drive s) lba 1 s;
     if r < 0 then Some (-1, s)
     else fs_write (fs_drive s) lba 1 (overwrite (unat offset) (dirent_bytes e) sec) s
   }"

text \<open>The deletion mark, which \<open>fat32_remove\<close> and \<open>fat32_rmdir\<close> write.\<close>

definition mark_deleted :: "u32 \<Rightarrow> u16 \<Rightarrow> fat32 \<Rightarrow> (int \<times> fat32) option" where
  "mark_deleted lba offset s = do {
     (r, sec, s) \<leftarrow> fs_read (fs_drive s) lba 1 s;
     if r < 0 then Some (-1, s)
     else fs_write (fs_drive s) lba 1 (overwrite (unat offset) [0xE5] sec) s
   }"

section \<open>Files\<close>

definition new_entry :: "u8 list \<Rightarrow> u8 \<Rightarrow> u32 \<Rightarrow> fat32_dirent" where
  "new_entry target attr first =
     zero_dirent\<lparr>e_name := target, e_attr := attr, cluster_lo := ucast (first AND 0xFFFF),
       cluster_hi := ucast (drop_bit 16 first AND 0xFFFF), e_size := 0\<rparr>"

definition fat32_create :: "cstring \<Rightarrow> fat32 \<Rightarrow> (int \<times> fat32) option" where
  "fat32_create name s =
     (if \<not> mounted s then Some (-1, s)
      else
        let target = to_short_name name in do {
        (found, s) \<leftarrow> search_dir (cwd_cluster s) target s;
        if found \<noteq> None then Some (-1, s)
        else do {
          (slot, s) \<leftarrow> find_free_dirent_in (cwd_cluster s) s;
          case slot of
            None \<Rightarrow> Some (-1, s)
          | Some (lba, offset) \<Rightarrow> write_dirent lba offset (new_entry target 0x20 0) s
        }
      })"

definition fat32_remove :: "cstring \<Rightarrow> fat32 \<Rightarrow> (int \<times> fat32) option" where
  "fat32_remove name s =
     (if \<not> mounted s then Some (-1, s)
      else do {
        (found, s) \<leftarrow> search_dir (cwd_cluster s) (to_short_name name) s;
        case found of
          None \<Rightarrow> Some (-1, s)
        | Some look \<Rightarrow>
            if e_attr (l_entry look) AND FAT_ATTR_DIRECTORY \<noteq> 0 then Some (-1, s)
            else do {
              let start = start_cluster_of (l_entry look);
              s \<leftarrow> (if start \<ge> 2 then free_chain start s else Some s);
              mark_deleted (l_lba look) (l_offset look) s
            }
      })"

text \<open>
  The loop of \<open>fat32_write_file\<close> over the clusters of the new contents.  It returns the first cluster,
  or \<open>None\<close> after an error, when the clusters allocated so far have been given back.
\<close>

definition cluster_image :: "u8 list \<Rightarrow> u32 \<Rightarrow> u32 \<Rightarrow> u32 \<Rightarrow> u8 list" where
  "cluster_image data written copy cluster_size =
     map (\<lambda>i. char_at data (unat written + i)) [0..<unat copy] @ replicate (unat cluster_size - unat copy) 0"

partial_function (option) write_clusters ::
    "u8 list \<Rightarrow> u32 \<Rightarrow> u32 \<Rightarrow> u32 \<Rightarrow> u32 \<Rightarrow> fat32 \<Rightarrow> (u32 option \<times> fat32) option" where
  "write_clusters data size' first prev written s =
     (if written < size'
      then do {
        (c, s) \<leftarrow> alloc_cluster s;
        if c = 0
        then do {
          s \<leftarrow> (if first \<noteq> 0 then free_chain first s else Some s);
          Some (None, s)
        }
        else do {
          let first = (if first = 0 then c else first);
          (r, s) \<leftarrow> (if prev \<noteq> 0 then set_fat_entry prev c s else Some (0, s));
          if r < 0 then do { s \<leftarrow> free_chain first s; Some (None, s) }
          else do {
            let cluster_size = ucast (sectors_per_cluster s) * 512;
            let remain = size' - written;
            let copy = (if remain < cluster_size then remain else cluster_size);
            (r, s) \<leftarrow> fs_write (fs_drive s) (cluster_to_lba s c) (sectors_per_cluster s)
                        (cluster_image data written copy cluster_size) s;
            if r < 0 then do { s \<leftarrow> free_chain first s; Some (None, s) }
            else write_clusters data size' first c (written + copy) s
          }
        }
      }
      else Some (Some first, s))"

text \<open>
  The first step of \<open>fat32_write_file\<close>: the entry to write and its place, for a new file or for an
  existing one whose clusters have been given back.
\<close>

definition write_target :: "u8 list \<Rightarrow> fat32 \<Rightarrow> (dir_lookup option \<times> fat32) option" where
  "write_target target s = do {
     (found, s) \<leftarrow> search_dir (cwd_cluster s) target s;
     case found of
       None \<Rightarrow> do {
         (slot, s) \<leftarrow> find_free_dirent_in (cwd_cluster s) s;
         case slot of
           None \<Rightarrow> Some (None, s)
         | Some (lba, offset) \<Rightarrow>
             Some (Some \<lparr>l_entry = zero_dirent\<lparr>e_name := target, e_attr := 0x20\<rparr>, l_lba = lba, l_offset = offset\<rparr>, s)
       }
     | Some look \<Rightarrow>
         if e_attr (l_entry look) AND FAT_ATTR_DIRECTORY \<noteq> 0 then Some (None, s)
         else do {
           let old_start = start_cluster_of (l_entry look);
           s \<leftarrow> (if old_start \<ge> 2 then free_chain old_start s else Some s);
           Some (Some (look\<lparr>l_entry := (l_entry look)\<lparr>cluster_lo := 0, cluster_hi := 0, e_size := 0\<rparr>\<rparr>), s)
         }
   }"

definition fat32_write_file :: "cstring \<Rightarrow> u8 list \<Rightarrow> u32 \<Rightarrow> fat32 \<Rightarrow> (int \<times> fat32) option" where
  "fat32_write_file name data size' s =
     (if \<not> mounted s then Some (-1, s)
      else do {
        (look, s) \<leftarrow> write_target (to_short_name name) s;
        case look of
          None \<Rightarrow> Some (-1, s)
        | Some look \<Rightarrow> do {
            (first, s) \<leftarrow> write_clusters data size' 0 0 0 s;
            case first of
              None \<Rightarrow> Some (-1, s)
            | Some first \<Rightarrow>
                write_dirent (l_lba look) (l_offset look)
                  ((l_entry look)\<lparr>cluster_lo := ucast (first AND 0xFFFF),
                     cluster_hi := ucast (drop_bit 16 first AND 0xFFFF), e_size := size'\<rparr>) s
          }
      })"

section \<open>Directories\<close>

definition fat32_cwd_cluster :: "fat32 \<Rightarrow> u32" where "fat32_cwd_cluster s = cwd_cluster s"

definition dot_name :: "u8 list" where "dot_name = 46 # replicate 10 32"
definition dotdot_name :: "u8 list" where "dotdot_name = 46 # 46 # replicate 9 32"

text \<open>The first cluster of a new directory.\<close>

definition dir_image :: "fat32 \<Rightarrow> u32 \<Rightarrow> u8 list" where
  "dir_image s new_cluster =
     (let cluster_size = ucast (sectors_per_cluster s) * 512 :: u32;
          parent_for_dotdot = (if cwd_cluster s = root_cluster s then 0 else cwd_cluster s)
      in overwrite 32 (dirent_bytes (new_entry dotdot_name FAT_ATTR_DIRECTORY parent_for_dotdot))
           (overwrite 0 (dirent_bytes (new_entry dot_name FAT_ATTR_DIRECTORY new_cluster))
              (replicate (unat cluster_size) 0)))"

definition fat32_mkdir :: "cstring \<Rightarrow> fat32 \<Rightarrow> (int \<times> fat32) option" where
  "fat32_mkdir name s =
     (if \<not> mounted s then Some (-1, s)
      else
        let target = to_short_name name in do {
        (found, s) \<leftarrow> search_dir (cwd_cluster s) target s;
        if found \<noteq> None then Some (-1, s)
        else do {
          (slot, s) \<leftarrow> find_free_dirent_in (cwd_cluster s) s;
          case slot of
            None \<Rightarrow> Some (-1, s)
          | Some (lba, offset) \<Rightarrow> do {
              (new_cluster, s) \<leftarrow> alloc_cluster s;
              if new_cluster = 0 then Some (-1, s)
              else do {
                (r, s) \<leftarrow> fs_write (fs_drive s) (cluster_to_lba s new_cluster) (sectors_per_cluster s) (dir_image s new_cluster) s;
                if r < 0 then do { s \<leftarrow> free_chain new_cluster s; Some (-1, s) }
                else do {
                  (r, s) \<leftarrow> write_dirent lba offset (new_entry target FAT_ATTR_DIRECTORY new_cluster) s;
                  if r < 0 then do { s \<leftarrow> free_chain new_cluster s; Some (-1, s) } else Some (0, s)
                }
              }
            }
        }
      })"

fun empty_entries :: "nat \<Rightarrow> nat \<Rightarrow> u32 \<Rightarrow> u8 list \<Rightarrow> bool option" where
  "empty_entries 0 i lba sec = None"
| "empty_entries (Suc k) i lba sec =
     (let e = dirent_at sec (i * 32) in
      if e_name e ! 0 = 0x00 then Some True
      else if hidden e then empty_entries k (i + 1) lba sec
      else if e_name e ! 0 = 46 \<and> (e_name e ! 1 = 32 \<or> e_name e ! 1 = 46) then empty_entries k (i + 1) lba sec
      else Some False)"

definition dir_is_empty :: "u32 \<Rightarrow> fat32 \<Rightarrow> (bool \<times> fat32) option" where
  "dir_is_empty start_cluster s = scan_dir (empty_entries 16 0) False True start_cluster s"

definition fat32_rmdir :: "cstring \<Rightarrow> fat32 \<Rightarrow> (int \<times> fat32) option" where
  "fat32_rmdir name s =
     (if \<not> mounted s then Some (-1, s)
      else if char_at name 0 = 46 \<and> (char_at name 1 = 0 \<or> char_at name 1 = 46 \<and> char_at name 2 = 0) then Some (-1, s)
      else do {
        (found, s) \<leftarrow> search_dir (cwd_cluster s) (to_short_name name) s;
        case found of
          None \<Rightarrow> Some (-1, s)
        | Some look \<Rightarrow>
            if e_attr (l_entry look) AND FAT_ATTR_DIRECTORY = 0 then Some (-1, s)
            else
              let target_cluster = start_cluster_of (l_entry look) in
              if target_cluster < 2 then Some (-1, s)
              else do {
                (empty, s) \<leftarrow> dir_is_empty target_cluster s;
                if \<not> empty then Some (-1, s)
                else do {
                  s \<leftarrow> free_chain target_cluster s;
                  mark_deleted (l_lba look) (l_offset look) s
                }
              }
      })"

definition fat32_chdir :: "cstring \<Rightarrow> fat32 \<Rightarrow> (int \<times> fat32) option" where
  "fat32_chdir name s =
     (if \<not> mounted s then Some (-1, s)
      else if char_at name 0 = 47 \<and> char_at name 1 = 0 then Some (0, s\<lparr>cwd_cluster := root_cluster s\<rparr>)
      else if char_at name 0 = 46 \<and> char_at name 1 = 0 then Some (0, s)
      else if char_at name 0 = 46 \<and> char_at name 1 = 46 \<and> char_at name 2 = 0
      then if cwd_cluster s = root_cluster s then Some (0, s)
           else do {
             (found, s) \<leftarrow> search_dir (cwd_cluster s) dotdot_name s;
             case found of
               None \<Rightarrow> Some (-1, s)
             | Some look \<Rightarrow>
                 let parent = start_cluster_of (l_entry look);
                     parent = (if parent = 0 then root_cluster s else parent)
                 in Some (0, s\<lparr>cwd_cluster := parent\<rparr>)
           }
      else do {
        (found, s) \<leftarrow> search_dir (cwd_cluster s) (to_short_name name) s;
        case found of
          None \<Rightarrow> Some (-1, s)
        | Some look \<Rightarrow>
            if e_attr (l_entry look) AND FAT_ATTR_DIRECTORY = 0 then Some (-1, s)
            else
              let c = start_cluster_of (l_entry look);
                  c = (if c = 0 then root_cluster s else c)
              in Some (0, s\<lparr>cwd_cluster := c\<rparr>)
      })"

text \<open>The loop of \<open>fat32_chdir_path\<close>: the rest of the path, and the token so far.\<close>

fun chdir_tokens :: "cstring \<Rightarrow> cstring \<Rightarrow> fat32 \<Rightarrow> (int \<times> fat32) option" where
  "chdir_tokens [] tok s =
     (if tok \<noteq> []
      then do { (r, s) \<leftarrow> fat32_chdir tok s; if r < 0 then Some (-1, s) else Some (0, s) }
      else Some (0, s))"
| "chdir_tokens (c # p) tok s =
     (if c = 47
      then if tok \<noteq> []
           then do { (r, s) \<leftarrow> fat32_chdir tok s; if r < 0 then Some (-1, s) else chdir_tokens p [] s }
           else chdir_tokens p [] s
      else chdir_tokens p (if length tok < 15 then tok @ [c] else tok) s)"

definition fat32_chdir_path :: "cstring \<Rightarrow> fat32 \<Rightarrow> (int \<times> fat32) option" where
  "fat32_chdir_path path s =
     (if \<not> mounted s then Some (-1, s)
      else if char_at path 0 = 47 then chdir_tokens (tl path) [] (s\<lparr>cwd_cluster := root_cluster s\<rparr>)
      else chdir_tokens path [] s)"

definition fat32_set_cwd_cluster :: "u32 \<Rightarrow> fat32 \<Rightarrow> fat32" where
  "fat32_set_cwd_cluster cluster s =
     (if \<not> mounted s then s
      else s\<lparr>cwd_cluster := (if cluster < 2 then root_cluster s else cluster)\<rparr>)"

end
