(* ===== verification/Shell.thy ===== *)
theory Shell
  imports Interrupts Fat32
begin

text \<open>
  The shell (\<^verbatim>\<open>src/shell/shell.c\<close>) on the whole kernel: the line editor, the parser, path handling and all
  commands.  The bus of the file system is the bus of the console, so a call into it takes the bus
  along.  A result is an optional outcome: \<open>None\<close> is "does not return", \<open>Halted\<close> stops the machine.
  \<open>hlt_runs\<close> is what interrupts and other tasks do to the kernel while the shell sleeps in \<^verbatim>\<open>hlt\<close>, and
  \<open>others_run\<close> is what they do from a switch to another task until the shell is current again.
  Buffers on the kernel heap are in the memory of the machine and are accessed through the page
  tables; \<open>argv\<close> is a list of strings.
\<close>

unbundle bit_operations_syntax

section \<open>State\<close>

record env =
  lab_of :: labels
  page_dir :: u32
  hlt_runs :: "kernel \<Rightarrow> kernel outcome option"
  others_run :: "kernel \<Rightarrow> kernel outcome option"
  counter_entry :: u32
  demo_entry :: u32

record shell =
  kern :: kernel
  fs :: fat32
  cwd_path :: cstring

type_synonym cmd = "env \<Rightarrow> cstring list \<Rightarrow> shell \<Rightarrow> shell outcome option"

definition LINE_MAX :: nat where "LINE_MAX = 256"
definition ARGS_MAX :: nat where "ARGS_MAX = 16"
definition CAT_BUF_SIZE :: u32 where "CAT_BUF_SIZE = 16384"
definition WRITE_BUF_SIZE :: u32 where "WRITE_BUF_SIZE = 8192"
definition CWD_PATH_MAX :: nat where "CWD_PATH_MAX = 128"

definition VGA_LIGHT_GREEN :: u8 where "VGA_LIGHT_GREEN = 10"
definition VGA_LIGHT_CYAN :: u8 where "VGA_LIGHT_CYAN = 11"
definition VGA_LIGHT_RED :: u8 where "VGA_LIGHT_RED = 12"
definition VGA_YELLOW :: u8 where "VGA_YELLOW = 14"

text \<open>Printing, a call into the file system, a change of the machine, and access to heap buffers.\<close>

definition prints :: "(screen \<Rightarrow> screen option) list \<Rightarrow> shell \<Rightarrow> shell outcome option" where
  "prints fs' s =
     (case fold (\<lambda>f m. and_print m f) fs' (Some (scr (kern s))) of
        None \<Rightarrow> None
      | Some t \<Rightarrow> Some (Done (s\<lparr>kern := (kern s)\<lparr>scr := t\<rparr>\<rparr>)))"

definition say :: "string \<Rightarrow> screen \<Rightarrow> screen option" where
  "say text = kprint (cstr text)"

definition sayln :: "string \<Rightarrow> screen \<Rightarrow> screen option" where
  "sayln text = kprint (cstr text @ [10])"

definition say_in :: "u8 \<Rightarrow> string \<Rightarrow> screen \<Rightarrow> screen option" where
  "say_in colour text = kprint_color (cstr text) colour VGA_BLACK"

definition sayln_in :: "u8 \<Rightarrow> string \<Rightarrow> screen \<Rightarrow> screen option" where
  "sayln_in colour text = kprint_color (cstr text @ [10]) colour VGA_BLACK"

definition the_bus :: "shell \<Rightarrow> ports" where
  "the_bus s = bus (com (scr (kern s)))"

definition fs_call :: "(fat32 \<Rightarrow> ('a \<times> fat32) option) \<Rightarrow> shell \<Rightarrow> ('a \<times> shell) outcome option" where
  "fs_call f s =
     (case f ((fs s)\<lparr>disk := the_bus s\<rparr>) of
        None \<Rightarrow> None
      | Some (r, t) \<Rightarrow> Some (Done (r, s\<lparr>fs := t, kern := on_bus (\<lambda>_. disk t) (kern s)\<rparr>)))"

definition set_sys :: "sched \<Rightarrow> shell \<Rightarrow> shell" where
  "set_sys t s = s\<lparr>kern := (kern s)\<lparr>sys := t\<rparr>\<rparr>"

definition the_space :: "shell \<Rightarrow> vm" where
  "the_space s = space (mach (sys (kern s)))"

definition set_space :: "vm \<Rightarrow> shell \<Rightarrow> shell" where
  "set_space v s = set_sys ((sys (kern s))\<lparr>mach := (mach (sys (kern s)))\<lparr>space := v\<rparr>\<rparr>) s"

definition sh_malloc :: "u32 \<Rightarrow> shell \<Rightarrow> (u32 \<times> shell) outcome option" where
  "sh_malloc n s = then_run (tk_malloc n (sys (kern s))) (\<lambda>(p, t). Some (Done (p, set_sys t s)))"

definition sh_free :: "u32 \<Rightarrow> shell \<Rightarrow> shell outcome option" where
  "sh_free p s = Some (and_then (tk_free p (sys (kern s))) (\<lambda>t. Done (set_sys t s)))"

fun load_bytes :: "u32 \<Rightarrow> nat \<Rightarrow> vm \<Rightarrow> u8 list outcome" where
  "load_bytes a 0 v = Done []"
| "load_bytes a (Suc n) v = and_then (read8 a v) (\<lambda>x. and_then (load_bytes (a + 1) n v) (\<lambda>xs. Done (x # xs)))"

definition put_buffer :: "u32 \<Rightarrow> u8 list \<Rightarrow> shell \<Rightarrow> shell outcome option" where
  "put_buffer a bs s = Some (and_then (store_bytes a bs (the_space s)) (\<lambda>v. Done (set_space v s)))"

definition get_buffer :: "u32 \<Rightarrow> nat \<Rightarrow> shell \<Rightarrow> (u8 list \<times> shell) outcome option" where
  "get_buffer a n s = Some (and_then (load_bytes a n (the_space s)) (\<lambda>bs. Done (bs, s)))"

section \<open>Strings\<close>

text \<open>The C string that a byte array holds.\<close>

definition until_nul :: "u8 list \<Rightarrow> cstring" where
  "until_nul bs = takeWhile (\<lambda>c. c \<noteq> 0) bs"

definition str_len :: "cstring \<Rightarrow> int" where
  "str_len s = int (length (until_nul s))"

fun str_eq :: "cstring \<Rightarrow> cstring \<Rightarrow> bool" where
  "str_eq (x # a) (y # b) =
     (if x \<noteq> 0 \<and> y \<noteq> 0 \<and> x = y then str_eq a b else x = 0 \<and> y = 0)"
| "str_eq a b = (char_at a 0 = 0 \<and> char_at b 0 = 0)"

fun hex_digits :: "u32 \<Rightarrow> cstring \<Rightarrow> u32" where
  "hex_digits v [] = v"
| "hex_digits v (c # s) =
     (if c = 0 then v
      else
        let v = push_bit 4 v in
        if c \<ge> 48 \<and> c \<le> 57 then hex_digits (v OR ucast (c - 48)) s
        else if c \<ge> 97 \<and> c \<le> 102 then hex_digits (v OR ucast (c - 97 + 10)) s
        else if c \<ge> 65 \<and> c \<le> 70 then hex_digits (v OR ucast (c - 65 + 10)) s
        else v)"

fun dec_digits :: "u32 \<Rightarrow> cstring \<Rightarrow> u32" where
  "dec_digits v [] = v"
| "dec_digits v (c # s) = (if c \<ge> 48 \<and> c \<le> 57 then dec_digits (v * 10 + ucast (c - 48)) s else v)"

definition parse_uint :: "cstring \<Rightarrow> u32" where
  "parse_uint s =
     (if char_at s 0 = 48 \<and> (char_at s 1 = 120 \<or> char_at s 1 = 88) then hex_digits 0 (drop 2 s)
      else dec_digits 0 s)"

text \<open>The arguments from \<open>argv[argc]\<close> on that the parser finds in the rest \<open>p\<close> of the line.\<close>

function parse_loop :: "nat \<Rightarrow> cstring \<Rightarrow> cstring list" where
  "parse_loop argc p =
     (if p = [] then []
      else
        let p = dropWhile (\<lambda>c. c = 32) p in
        if p = [] then []
        else if argc + 1 = ARGS_MAX then [p]
        else takeWhile (\<lambda>c. c \<noteq> 32) p # parse_loop (argc + 1) (drop 1 (dropWhile (\<lambda>c. c \<noteq> 32) p)))"
  by pat_completeness auto
termination
proof (relation "measure (\<lambda>(argc, p). length p)")
  fix argc :: nat and p x :: cstring
  assume "p \<noteq> []" "x = dropWhile (\<lambda>c. c = 32) p"
  moreover have "length (dropWhile (\<lambda>c. c \<noteq> 32) x) \<le> length x" "length x \<le> length p"
    using \<open>x = _\<close> by (simp_all add: length_dropWhile_le)
  moreover have "0 < length p" using \<open>p \<noteq> []\<close> by simp
  ultimately have "length (drop 1 (dropWhile (\<lambda>c. c \<noteq> 32) x)) < length p" unfolding length_drop by linarith
  then show "((argc + 1, drop 1 (dropWhile (\<lambda>c. c \<noteq> 32) x)), (argc, p)) \<in> measure (\<lambda>(argc, p). length p)" by simp
qed simp

declare parse_loop.simps [simp del]

definition parse :: "cstring \<Rightarrow> cstring list" where
  "parse line = parse_loop 0 line"

section \<open>Names and paths\<close>

definition short_name_to_str :: "u8 list \<Rightarrow> cstring" where
  "short_name_to_str raw =
     takeWhile (\<lambda>c. c \<noteq> 32) (take 8 raw) @
     (if char_at raw 8 \<noteq> 32 then 46 # takeWhile (\<lambda>c. c \<noteq> 32) (take 3 (drop 8 raw)) else [])"

text \<open>
  The loop of \<open>path_descend\<close>: the rest of the path, the last complete token, the token so far.  The result is the
  return value and the base name.
\<close>

fun descend_loop :: "cstring \<Rightarrow> cstring option \<Rightarrow> cstring \<Rightarrow> fat32 \<Rightarrow> ((int \<times> cstring) \<times> fat32) option" where
  "descend_loop [] prev cur s =
     (if cur \<noteq> []
      then do {
        (r, s) \<leftarrow> (case prev of None \<Rightarrow> Some (0, s) | Some p \<Rightarrow> fat32_chdir p s);
        if r < 0 then Some ((-1, []), s) else Some ((0, cur), s)
      }
      else Some ((0, case prev of None \<Rightarrow> [] | Some p \<Rightarrow> p), s))"
| "descend_loop (c # path) prev cur s =
     (if c = 47
      then if cur \<noteq> []
           then do {
             (r, s) \<leftarrow> (case prev of None \<Rightarrow> Some (0, s) | Some p \<Rightarrow> fat32_chdir p s);
             if r < 0 then Some ((-1, []), s) else descend_loop path (Some cur) [] s
           }
           else descend_loop path prev [] s
      else descend_loop path prev (if length cur < 15 then cur @ [c] else cur) s)"

definition path_descend :: "cstring \<Rightarrow> fat32 \<Rightarrow> ((int \<times> cstring) \<times> fat32) option" where
  "path_descend path s =
     (if char_at path 0 = 47
      then do { (r, s) \<leftarrow> fat32_chdir [47] s; descend_loop (tl path) None [] s }
      else descend_loop path None [] s)"

definition path_to_parent_and_base :: "cstring \<Rightarrow> fat32 \<Rightarrow> ((int \<times> u32 \<times> cstring) \<times> fat32) option" where
  "path_to_parent_and_base path s =
     (let saved = fat32_cwd_cluster s in do {
        ((r, base), s) \<leftarrow> path_descend path s;
        if r < 0 \<or> char_at base 0 = 0 then Some ((-1, saved, base), fat32_set_cwd_cluster saved s)
        else Some ((0, saved, base), s)
      })"

definition short_to_display :: "cstring \<Rightarrow> cstring" where
  "short_to_display src =
     map (\<lambda>c. if c \<ge> 97 \<and> c \<le> 122 then c - 97 + 65 else c) (take 12 (until_nul src))"

definition path_push :: "cstring \<Rightarrow> cstring \<Rightarrow> cstring" where
  "path_push name path =
     (let up = short_to_display name; len = length path; add = length up in
      if len + 1 + add + 1 \<ge> CWD_PATH_MAX then path
      else (if \<not> (len = 1 \<and> char_at path 0 = 47) then path @ [47] else path) @ up)"

fun pop_len :: "cstring \<Rightarrow> nat \<Rightarrow> nat" where
  "pop_len path 0 = 0"
| "pop_len path (Suc n) = (if Suc n > 1 \<and> char_at path n \<noteq> 47 then pop_len path n else Suc n)"

definition path_pop :: "cstring \<Rightarrow> cstring" where
  "path_pop path =
     (if length path \<le> 1 then [47]
      else
        let len = pop_len path (length path);
            len = (if len > 1 then len - 1 else len);
            path = take len path
        in if char_at path 0 = 0 then [47] else path)"

section \<open>Commands on memory and time\<close>

definition spaces :: "int \<Rightarrow> (screen \<Rightarrow> screen option) list" where
  "spaces n = replicate (nat n) (kputchar 32)"

definition cmd_texts :: "(string \<times> string) list" where
  "cmd_texts =
     [(''help'', ''show this command list''),
      (''clear'', ''clear the screen''),
      (''echo'', ''print text                echo <text>''),
      (''meminfo'', ''show memory usage''),
      (''page'', ''alloc / free a page      page alloc|free <addr>''),
      (''vmap'', ''show v->p mapping        vmap <virt>''),
      (''pf-test'', ''trigger a page fault''),
      (''ls'', ''list files               ls [path]''),
      (''cat'', ''print a file             cat <path>''),
      (''touch'', ''create empty file        touch <path>''),
      (''write'', ''overwrite file content   write <path> <text>''),
      (''rm'', ''delete a file            rm <path>''),
      (''mkdir'', ''create a directory       mkdir <path>''),
      (''rmdir'', ''remove an empty dir      rmdir <path>''),
      (''cd'', ''change directory         cd <path> | .. | /''),
      (''pwd'', ''print current path''),
      (''uptime'', ''show how long the system has been up''),
      (''sleep'', ''wait N seconds            sleep <seconds>''),
      (''heap'', ''show kernel heap stats''),
      (''kalloc'', ''kmalloc/kfree test        kalloc alloc <n> | kalloc free <addr>''),
      (''tasks'', ''list scheduled tasks''),
      (''spawn'', ''spawn N counter tasks     spawn <count>''),
      (''yield'', ''voluntarily give up CPU''),
      (''user'', ''run a ring-3 demo task''),
      (''exec'', ''load an ELF and run it      exec <path>''),
      (''version'', ''show OS version info''),
      (''halt'', ''halt the system'')]"

definition cmd_help :: cmd where
  "cmd_help v argv s =
     prints (sayln_in VGA_LIGHT_CYAN ''Commands:'' #
       concat (map (\<lambda>(name, desc).
         [say ''  '', say_in VGA_YELLOW name] @ spaces (10 - str_len (cstr name)) @ [say desc, kputchar 10]) cmd_texts)) s"

definition cmd_clear :: cmd where
  "cmd_clear v argv s = prints [\<lambda>t. Some (clear_screen t)] s"

definition cmd_echo :: cmd where
  "cmd_echo v argv s =
     prints (concat (map (\<lambda>i. (if i > 1 then [kputchar 32] else []) @ [kprint (argv ! i)]) [1..<length argv]) @ [kputchar 10]) s"

text \<open>A bar of \<open>n\<close> cells, the first \<open>used\<close> of them marked.\<close>

definition bar :: "nat \<Rightarrow> int \<Rightarrow> (screen \<Rightarrow> screen option) list" where
  "bar n used = map (\<lambda>i. if int i < used then say_in VGA_LIGHT_RED ''|'' else say_in VGA_LIGHT_GREEN ''-'') [0..<n]"

definition get_stats :: "shell \<Rightarrow> kheap_stats outcome option" where
  "get_stats s = kheap_get_stats (heap_view (mach (sys (kern s))))"

definition cmd_meminfo :: cmd where
  "cmd_meminfo v argv s =
     (let pm = frames (the_space s);
          total_kb = pmm_total_pages pm * (4096 div 1024);
          free_kb = pmm_free_pages pm * (4096 div 1024);
          used_kb = total_kb - free_kb
      in then_run (prints
           [sayln_in VGA_LIGHT_CYAN ''Physical Memory'',
            say ''  Total : '', kprint_dec (total_kb div 1024), sayln '' MB'',
            say ''  Used  : '', kprint_dec (used_kb div 1024), sayln '' MB'',
            say ''  Free  : '', kprint_dec (free_kb div 1024), sayln '' MB''] s) (\<lambda>s.
         if total_kb = 0 then Some (Done s)
         else then_run (prints
           ([say ''  ['']  @ bar 30 (sint (used_kb * 30 div total_kb)) @
            [say ''] '', kprint_dec (used_kb * 100 div total_kb), sayln ''% used'']) s) (\<lambda>s.
         then_run (get_stats s) (\<lambda>hs. prints
           [say_in VGA_LIGHT_CYAN ''Kernel Heap : '',
            kprint_dec (used_bytes hs), say '' / '',
            kprint_dec (total_bytes hs), say '' bytes used'',
            say '' ('', kprint_dec (blocks_used hs), sayln '' blocks)''] s))))"

definition cmd_page :: cmd where
  "cmd_page v argv s =
     (if length argv < 2 then prints [sayln ''usage: page alloc | page free <addr>''] s
      else if str_eq (argv ! 1) (cstr ''alloc'')
      then let (p, pm) = pmm_alloc (frames (the_space s));
               s = set_space ((the_space s)\<lparr>frames := pm\<rparr>) s
           in if p = 0 then prints [sayln_in VGA_LIGHT_RED ''Out of memory!''] s
              else prints [say ''Allocated page at: '', kprint_hex p, kprint [10]] s
      else if str_eq (argv ! 1) (cstr ''free'') \<and> length argv \<ge> 3
      then let addr = parse_uint (argv ! 2) in
           if addr mod 4096 \<noteq> 0
           then prints [sayln_in VGA_LIGHT_RED ''Address must be page-aligned (multiple of 4096)''] s
           else let s = set_space ((the_space s)\<lparr>frames := pmm_free addr (frames (the_space s))\<rparr>) s
                in prints [say ''Freed page at: '', kprint_hex addr, kprint [10]] s
      else prints [sayln ''usage: page alloc | page free <addr>''] s)"

definition cmd_vmap :: cmd where
  "cmd_vmap v argv s =
     (if length argv < 2 then prints [sayln ''usage: vmap <virt>''] s
      else
        let a = parse_uint (argv ! 1) in
        case vmm_get_phys (page_dir v) a (the_space s) of
          Halted e \<Rightarrow> Some (Halted e)
        | Done p \<Rightarrow>
            prints ([say ''virt '', kprint_hex a] @
              (if p = 0xFFFFFFFF then [sayln_in VGA_LIGHT_RED '' -> (unmapped)'']
               else [say '' -> phys '', kprint_hex p, kprint [10]])) s)"

definition cmd_pftest :: cmd where
  "cmd_pftest v argv s =
     then_run (prints [sayln_in VGA_LIGHT_RED ''Triggering page fault at 0xDEADC000 ...''] s) (\<lambda>s.
       case read32 0xDEADC000 (the_space s) of
         Halted e \<Rightarrow> Some (Halted e)
       | Done x \<Rightarrow> prints [sayln ''(unreachable)''] s)"

definition cmd_uptime :: cmd where
  "cmd_uptime v argv s =
     (let total = timer_uptime_seconds (kern s);
          hr = total div 3600;
          mn = (total div 60) mod 60;
          sc = total mod 60
      in prints
           ([say ''up '', kprint_dec hr, say ''h ''] @
            (if mn < 10 then [kputchar 48] else []) @ [kprint_dec mn, say ''m ''] @
            (if sc < 10 then [kputchar 48] else []) @ [kprint_dec sc, say ''s   ('',
             kprint_dec (timer_ticks (kern s)), say '' ticks @ '', kprint_dec TIMER_HZ, sayln '' Hz)'']) s)"

definition cmd_sleep :: cmd where
  "cmd_sleep v argv s =
     (if length argv < 2 then prints [sayln ''usage: sleep <seconds>''] s
      else
        let sec = parse_uint (argv ! 1) in
        if sec = 0 then prints [sayln ''sleep: 0 seconds, returning immediately''] s
        else
          let sec = (if sec > 3600 then 3600 else sec)
          in then_run (timer_sleep_ms (hlt_runs v) (sec * 1000) (kern s)) (\<lambda>k. Some (Done (s\<lparr>kern := k\<rparr>))))"

definition cmd_heap :: cmd where
  "cmd_heap v argv s =
     then_run (get_stats s) (\<lambda>st.
     then_run (prints
       [sayln_in VGA_LIGHT_CYAN ''Kernel Heap'',
        say ''  Arena : '', kprint_dec (total_bytes st), sayln '' bytes'',
        say ''  Used  : '', kprint_dec (used_bytes st), say '' bytes ('',
        kprint_dec (blocks_used st), sayln '' blocks)'',
        say ''  Free  : '', kprint_dec (free_bytes st), say '' bytes ('',
        kprint_dec (blocks_free st), sayln '' blocks)'',
        say ''  Largest free block: '', kprint_dec (largest_free st), sayln '' bytes''] s) (\<lambda>s.
       if total_bytes st = 0 then Some (Done s)
       else
         let denom = used_bytes st + free_bytes st;
             denom = (if denom = 0 then 1 else denom)
         in prints ([say ''  [''] @ bar 32 (sint (used_bytes st * 32 div denom)) @
              [say ''] '', kprint_dec (used_bytes st * 100 div denom), sayln ''% used'']) s))"

definition cmd_kalloc :: cmd where
  "cmd_kalloc v argv s =
     (if length argv < 2 then prints [sayln ''usage: kalloc alloc <bytes> | kalloc free <addr>''] s
      else if str_eq (argv ! 1) (cstr ''alloc'') \<and> length argv \<ge> 3
      then let n = parse_uint (argv ! 2) in
           then_run (sh_malloc n s) (\<lambda>(p, s).
             if p = 0 then prints [sayln_in VGA_LIGHT_RED ''kmalloc returned NULL (OOM)''] s
             else prints [say ''kmalloc('', kprint_dec n, say '') -> '', kprint_hex p, kprint [10]] s)
      else if str_eq (argv ! 1) (cstr ''free'') \<and> length argv \<ge> 3
      then let a = parse_uint (argv ! 2) in
           then_run (sh_free a s) (\<lambda>s. prints [say ''kfree('', kprint_hex a, sayln '') done''] s)
      else prints [sayln ''usage: kalloc alloc <bytes> | kalloc free <addr>''] s)"

section \<open>Commands on files\<close>

definition not_mounted :: "shell \<Rightarrow> shell outcome option" where
  "not_mounted s = prints [sayln_in VGA_LIGHT_RED ''FAT32 not mounted.''] s"

definition restore_cwd :: "u32 \<Rightarrow> shell \<Rightarrow> shell" where
  "restore_cwd saved s = s\<lparr>fs := fat32_set_cwd_cluster saved (fs s)\<rparr>"

text \<open>The visitor of \<open>ls\<close>; what it changes is the console, which is on the same bus as the disk.\<close>

definition ls_visitor :: "screen visitor" where
  "ls_visitor e t p =
     (let name = until_nul (short_name_to_str (e_name e)) in
      map_option (\<lambda>t. (t, bus (com t)))
        (fold (\<lambda>f m. and_print m f)
           (if e_attr e AND FAT_ATTR_DIRECTORY \<noteq> 0
            then [say_in VGA_LIGHT_CYAN ''  <DIR>  '', kprint name, kprint [10]]
            else [say ''         '', kprint name] @ spaces (14 - str_len name) @ [kprint_dec (e_size e), sayln '' bytes''])
           (Some (t\<lparr>com := (com t)\<lparr>bus := p\<rparr>\<rparr>))))"

definition list_cwd :: "shell \<Rightarrow> shell outcome option" where
  "list_cwd s =
     then_run (fs_call (\<lambda>f. fat32_listdir (fat32_cwd_cluster f) ls_visitor (scr (kern s)) f) s) (\<lambda>(t, s').
       Some (Done (s'\<lparr>kern := on_bus (\<lambda>_. the_bus s') ((kern s')\<lparr>scr := t\<rparr>)\<rparr>)))"

definition cmd_ls :: cmd where
  "cmd_ls v argv s =
     (if \<not> fat32_is_mounted (fs s) then not_mounted s
      else
        let saved = fat32_cwd_cluster (fs s) in
        then_run (if length argv \<ge> 2 then fs_call (fat32_chdir_path (argv ! 1)) s else Some (Done (0, s))) (\<lambda>(r, s).
          if r < 0
          then prints [say_in VGA_LIGHT_RED ''ls: not a directory or not found: '', kprint (argv ! 1), kprint [10]] (restore_cwd saved s)
          else then_run (list_cwd s) (\<lambda>s. Some (Done (restore_cwd saved s)))))"

text \<open>
  The commands that name a file: check the arguments and the mount, move to the parent directory, do
  the operation on the base name and move back.
\<close>

definition at_path :: "string \<Rightarrow> cstring \<Rightarrow> (cstring \<Rightarrow> fat32 \<Rightarrow> ('a \<times> fat32) option) \<Rightarrow> ('a \<Rightarrow> shell \<Rightarrow> shell outcome option) \<Rightarrow>
    shell \<Rightarrow> shell outcome option" where
  "at_path invalid path op' cont s =
     then_run (fs_call (path_to_parent_and_base path) s) (\<lambda>((r, saved, base), s).
       if r < 0 then prints [sayln_in VGA_LIGHT_RED invalid] s
       else then_run (fs_call (op' base) s) (\<lambda>(x, s). cont x (restore_cwd saved s)))"

definition cat_chars :: "u8 list \<Rightarrow> (screen \<Rightarrow> screen option) list" where
  "cat_chars bs = map kputchar (filter (\<lambda>c. c \<noteq> 13) bs)"

definition read_into :: "fat32_dirent \<Rightarrow> u32 \<Rightarrow> u32 \<Rightarrow> shell \<Rightarrow> (int \<times> shell) outcome option" where
  "read_into e buf lim s =
     then_run (fs_call (\<lambda>f. map_option (\<lambda>(n, bs, f). ((n, bs), f)) (fat32_read_file e lim f)) s) (\<lambda>((n, bs), s).
     then_run (put_buffer buf bs s) (\<lambda>s. Some (Done (n, s))))"

definition cmd_cat :: cmd where
  "cmd_cat v argv s =
     (if length argv < 2 then prints [sayln ''usage: cat <path>''] s
      else if \<not> fat32_is_mounted (fs s) then not_mounted s
      else at_path ''cat: invalid path'' (argv ! 1) fat32_find (\<lambda>found s.
        case found of
          None \<Rightarrow> prints [say_in VGA_LIGHT_RED ''not found: '', kprint (argv ! 1), kprint [10]] s
        | Some e \<Rightarrow>
            if e_attr e AND FAT_ATTR_DIRECTORY \<noteq> 0 then prints [sayln_in VGA_LIGHT_RED ''is a directory''] s
            else then_run (sh_malloc CAT_BUF_SIZE s) (\<lambda>(buf, s).
              if buf = 0 then prints [sayln_in VGA_LIGHT_RED ''cat: out of heap''] s
              else then_run (read_into e buf CAT_BUF_SIZE s) (\<lambda>(n, s).
                if n < 0
                then then_run (sh_free buf s) (prints [sayln_in VGA_LIGHT_RED ''read error''])
                else then_run (get_buffer buf (nat n) s) (\<lambda>(bs, s).
                  then_run (prints (cat_chars bs @ (if n > 0 \<and> last bs \<noteq> 10 then [kputchar 10] else [])) s)
                    (sh_free buf))))) s)"

definition cmd_touch :: cmd where
  "cmd_touch v argv s =
     (if length argv < 2 then prints [sayln ''usage: touch <path>''] s
      else if \<not> fat32_is_mounted (fs s) then not_mounted s
      else at_path ''touch: invalid path'' (argv ! 1) fat32_create (\<lambda>r s.
        if r < 0 then prints [sayln_in VGA_LIGHT_RED ''touch failed (exists or directory full)''] s
        else prints [say ''created: '', kprint (argv ! 1), kprint [10]] s) s)"

text \<open>The text that \<open>write\<close> collects in its buffer: the arguments separated by spaces, a newline, at most \<open>lim\<close> bytes.\<close>

fun join_args :: "nat \<Rightarrow> bool \<Rightarrow> cstring list \<Rightarrow> u8 list \<Rightarrow> u8 list" where
  "join_args lim first [] acc = (if length acc < lim then acc @ [10] else acc)"
| "join_args lim first (a # as) acc =
     (let acc = (if \<not> first \<and> length acc < lim then acc @ [32] else acc)
      in join_args lim False as (acc @ take (lim - length acc) (until_nul a)))"

definition cmd_write :: cmd where
  "cmd_write v argv s =
     (if length argv < 3 then prints [sayln ''usage: write <path> <text...>''] s
      else if \<not> fat32_is_mounted (fs s) then not_mounted s
      else then_run (sh_malloc WRITE_BUF_SIZE s) (\<lambda>(buf, s).
        if buf = 0 then prints [sayln_in VGA_LIGHT_RED ''write: out of heap''] s
        else
          let text = join_args (unat WRITE_BUF_SIZE) True (drop 2 argv) [];
              len = of_nat (length text) :: u32
          in then_run (put_buffer buf text s) (\<lambda>s.
             then_run (fs_call (path_to_parent_and_base (argv ! 1)) s) (\<lambda>((r, saved, base), s).
               if r < 0
               then then_run (sh_free buf s) (prints [sayln_in VGA_LIGHT_RED ''write: invalid path''])
               else then_run (get_buffer buf (unat len) s) (\<lambda>(data, s).
                 then_run (fs_call (fat32_write_file base data len) s) (\<lambda>(r, s).
                 then_run (sh_free buf (restore_cwd saved s)) (\<lambda>s.
                   if r < 0 then prints [sayln_in VGA_LIGHT_RED ''write failed (disk or directory full?)''] s
                   else prints [say ''wrote '', kprint_dec len, say '' bytes to '', kprint (argv ! 1), kprint [10]] s)))))))"

definition cmd_rm :: cmd where
  "cmd_rm v argv s =
     (if length argv < 2 then prints [sayln ''usage: rm <path>''] s
      else if \<not> fat32_is_mounted (fs s) then not_mounted s
      else at_path ''rm: invalid path'' (argv ! 1) fat32_remove (\<lambda>r s.
        if r < 0 then prints [sayln_in VGA_LIGHT_RED ''rm failed (not found, or it's a directory?)''] s
        else prints [say ''removed: '', kprint (argv ! 1), kprint [10]] s) s)"

definition cmd_mkdir :: cmd where
  "cmd_mkdir v argv s =
     (if length argv < 2 then prints [sayln ''usage: mkdir <path>''] s
      else if \<not> fat32_is_mounted (fs s) then not_mounted s
      else at_path ''mkdir: invalid path'' (argv ! 1) fat32_mkdir (\<lambda>r s.
        if r < 0 then prints [sayln_in VGA_LIGHT_RED ''mkdir failed (exists, full, or out of space)''] s
        else prints [say ''created dir: '', kprint (argv ! 1), kprint [10]] s) s)"

definition cmd_rmdir :: cmd where
  "cmd_rmdir v argv s =
     (if length argv < 2 then prints [sayln ''usage: rmdir <path>''] s
      else if \<not> fat32_is_mounted (fs s) then not_mounted s
      else at_path ''rmdir: invalid path'' (argv ! 1) fat32_rmdir (\<lambda>r s.
        if r < 0 then prints [sayln_in VGA_LIGHT_RED ''rmdir failed (not a dir, or not empty)''] s
        else prints [say ''removed dir: '', kprint (argv ! 1), kprint [10]] s) s)"

text \<open>
  One token of \<open>cd\<close>, and the loop over the path: the rest of it, the token so far.  The flag of the
  result says whether every token was entered.
\<close>

definition cd_token :: "cstring \<Rightarrow> shell \<Rightarrow> (bool \<times> shell) outcome option" where
  "cd_token tok s =
     then_run (fs_call (fat32_chdir tok) s) (\<lambda>(r, s).
       if r < 0 then Some (Done (False, s))
       else if char_at tok 0 = 46 \<and> char_at tok 1 = 0 then Some (Done (True, s))
       else if char_at tok 0 = 46 \<and> char_at tok 1 = 46 \<and> char_at tok 2 = 0
       then Some (Done (True, s\<lparr>cwd_path := path_pop (cwd_path s)\<rparr>))
       else Some (Done (True, s\<lparr>cwd_path := path_push tok (cwd_path s)\<rparr>)))"

fun cd_loop :: "cstring \<Rightarrow> cstring \<Rightarrow> shell \<Rightarrow> (bool \<times> shell) outcome option" where
  "cd_loop [] tok s = (if tok \<noteq> [] then cd_token tok s else Some (Done (True, s)))"
| "cd_loop (c # p) tok s =
     (if c = 47
      then if tok \<noteq> []
           then then_run (cd_token tok s) (\<lambda>(ok, s). if ok then cd_loop p [] s else Some (Done (False, s)))
           else cd_loop p [] s
      else cd_loop p (if length tok < 15 then tok @ [c] else tok) s)"

definition cmd_cd :: cmd where
  "cmd_cd v argv s =
     (if \<not> fat32_is_mounted (fs s) then not_mounted s
      else
        let target = (if length argv < 2 then [47] else argv ! 1);
            saved_cluster = fat32_cwd_cluster (fs s);
            saved_path = cwd_path s
        in then_run
             (if char_at target 0 = 47
              then then_run (fs_call (fat32_chdir [47]) s) (\<lambda>(r, s). cd_loop (tl target) [] (s\<lparr>cwd_path := [47]\<rparr>))
              else cd_loop target [] s) (\<lambda>(ok, s).
           if ok then Some (Done s)
           else prints [say_in VGA_LIGHT_RED ''cd failed: '', kprint target, kprint [10]]
                  ((restore_cwd saved_cluster s)\<lparr>cwd_path := saved_path\<rparr>)))"

definition cmd_pwd :: cmd where
  "cmd_pwd v argv s = prints [kprint (cwd_path s), kprint [10]] s"

section \<open>Commands on tasks\<close>

definition inactive :: "shell \<Rightarrow> shell outcome option" where
  "inactive s = prints [sayln_in VGA_LIGHT_RED ''multitasking not active''] s"

definition state_str :: "task_state_t \<Rightarrow> string" where
  "state_str st =
     (case st of TASK_RUNNING \<Rightarrow> ''RUN '' | TASK_READY \<Rightarrow> ''RDY '' | TASK_ZOMBIE \<Rightarrow> ''DEAD'')"

definition task_line :: "task_info \<Rightarrow> (screen \<Rightarrow> screen option) list" where
  "task_line i =
     [if i_current i then say_in VGA_LIGHT_GREEN ''*'' else kputchar 32, say '' '', kprint_dec (i_id i)] @
     (if i_id i < 10 then [kputchar 32] else []) @
     [say ''  '', say (state_str (i_state i)), say ''   '', kprint_dec (i_ticks i)] @ spaces (8 - 4) @
     [kprint (until_nul (i_name i)), kputchar 10]"

definition cmd_tasks :: cmd where
  "cmd_tasks v argv s =
     (if \<not> tasking_active (sys (kern s)) then prints [sayln ''multitasking not active''] s
      else
        case task_list_snapshot 16 (sys (kern s)) of
          Halted e \<Rightarrow> Some (Halted e)
        | Done (infos, t) \<Rightarrow>
            prints (sayln_in VGA_LIGHT_CYAN ''ID  STATE  TICKS    NAME'' # concat (map task_line infos)) (set_sys t s))"

definition with_task :: "u32 \<Rightarrow> shell \<Rightarrow> (task \<Rightarrow> shell outcome option) \<Rightarrow> shell outcome option" where
  "with_task p s f = (case task_at p (sys (kern s)) of Halted e \<Rightarrow> Some (Halted e) | Done t \<Rightarrow> f t)"

text \<open>The demo task that \<open>spawn\<close> creates: \<open>k\<close> turns left, the next one is turn \<open>i\<close>.\<close>

fun counter_loop :: "env \<Rightarrow> u32 \<Rightarrow> nat \<Rightarrow> u32 \<Rightarrow> shell \<Rightarrow> shell outcome option" where
  "counter_loop v me 0 i s = Some (Done s)"
| "counter_loop v me (Suc k) i s =
     with_task me s (\<lambda>t.
     then_run (prints [kprint (10 # cstr ''[T''), kprint_dec (tid t), say '':'', kprint_dec i, say ''] tick from '',
                       kprint (until_nul (tname t)), kputchar 10] s) (\<lambda>s.
     then_run (timer_sleep_ms (hlt_runs v) 1000 (kern s)) (\<lambda>k'.
       counter_loop v me k (i + 1) (s\<lparr>kern := k'\<rparr>))))"

definition counter_task :: "env \<Rightarrow> shell \<Rightarrow> shell outcome option" where
  "counter_task v s = counter_loop v (task_current (sys (kern s))) 5 0 s"

definition counter_name :: "u32 \<Rightarrow> cstring" where
  "counter_name i = cstr ''cnt-'' @ [ucast (48 + i mod 10)]"

fun spawn_loop :: "env \<Rightarrow> nat \<Rightarrow> u32 \<Rightarrow> shell \<Rightarrow> shell outcome option" where
  "spawn_loop v 0 i s = Some (Done s)"
| "spawn_loop v (Suc k) i s =
     then_run (task_create (lab_of v) (counter_name i) (counter_entry v) (sys (kern s))) (\<lambda>(p, t).
       let s = set_sys t s in
       if p = 0 then prints [sayln_in VGA_LIGHT_RED ''spawn failed (kheap?)''] s
       else with_task p s (\<lambda>x.
         then_run (prints [say ''spawned task #'', kprint_dec (tid x), kprint (cstr '' '' @ [39]),
                           kprint (until_nul (tname x)), kprint [39, 10]] s)
           (spawn_loop v k (i + 1))))"

definition cmd_spawn :: cmd where
  "cmd_spawn v argv s =
     (if length argv < 2 then prints [sayln ''usage: spawn <count>''] s
      else if \<not> tasking_active (sys (kern s)) then inactive s
      else
        let n = parse_uint (argv ! 1);
            n = (if n = 0 then 1 else n);
            n = (if n > 8 then 8 else n)
        in spawn_loop v (unat n) 0 s)"

definition cmd_yield :: cmd where
  "cmd_yield v argv s =
     (if \<not> tasking_active (sys (kern s)) then inactive s
      else then_run (task_yield (lab_of v) (page_dir v) (sys (kern s))) (\<lambda>(switched, t).
        let s = set_sys t s in
        then_run (if switched then others_run v (kern s) else Some (Done (kern s))) (\<lambda>k.
          prints [sayln ''(back from yield)''] (s\<lparr>kern := k\<rparr>))))"

definition cmd_user :: cmd where
  "cmd_user v argv s =
     (if \<not> tasking_active (sys (kern s)) then inactive s
      else then_run (task_create_user (lab_of v) (cstr ''ring3-demo'') (demo_entry v) (sys (kern s))) (\<lambda>(p, t).
        let s = set_sys t s in
        if p = 0 then prints [sayln_in VGA_LIGHT_RED ''failed to spawn user task (kheap?)''] s
        else with_task p s (\<lambda>x.
          prints [say ''spawned ring-3 task #'', kprint_dec (tid x), kprint (cstr '' '' @ [39]),
                  kprint (until_nul (tname x)), kprint [39, 10]] s)))"

text \<open>The two last steps of \<open>exec\<close>: load the file in the buffer, then make a task of the image.\<close>

definition start_image :: "env \<Rightarrow> cstring \<Rightarrow> u32 \<Rightarrow> shell \<Rightarrow> shell outcome option" where
  "start_image v name img s =
     then_run (task_create_user_image (lab_of v) name img (sys (kern s))) (\<lambda>(p, t).
       let s = set_sys t s in
       if p = 0
       then (case elf_unload (page_dir v) img (mach (sys (kern s))) of
               Halted e \<Rightarrow> Some (Halted e)
             | Done m \<Rightarrow>
                 prints [sayln_in VGA_LIGHT_RED ''exec: failed to spawn task''] (set_sys ((sys (kern s))\<lparr>mach := m\<rparr>) s))
       else with_task p s (\<lambda>x.
         case images (mach (sys (kern s))) img of
           None \<Rightarrow> Some (Halted ''no image'')
         | Some i \<Rightarrow>
             prints [say ''exec: pid='', kprint_dec (tid x), say '' entry='', kprint_hex (entry i),
                     say '' segs='', kprint_dec (of_nat (seg_count i)), kprint [10]] s))"

definition exec_buffer :: "env \<Rightarrow> cstring \<Rightarrow> u32 \<Rightarrow> u32 \<Rightarrow> shell \<Rightarrow> shell outcome option" where
  "exec_buffer v name buf size' s =
     then_run (elf_load (page_dir v) buf size' True (mach (sys (kern s)))) (\<lambda>(er, img, m).
     then_run (sh_free buf (set_sys ((sys (kern s))\<lparr>mach := m\<rparr>) s)) (\<lambda>s.
       if er < 0
       then prints [say_in VGA_LIGHT_RED ''exec: not a valid i386 ELF (rc='', kprint_dec (of_int (- er)), sayln '')''] s
       else start_image v name img s))"

definition cmd_exec :: cmd where
  "cmd_exec v argv s =
     (if length argv < 2 then prints [sayln ''usage: exec <path>''] s
      else if \<not> fat32_is_mounted (fs s) then not_mounted s
      else if \<not> tasking_active (sys (kern s)) then inactive s
      else at_path ''exec: invalid path'' (argv ! 1) fat32_find (\<lambda>found s.
        case found of
          None \<Rightarrow> prints [say_in VGA_LIGHT_RED ''exec: not found: '', kprint (argv ! 1), kprint [10]] s
        | Some e \<Rightarrow>
            if e_attr e AND FAT_ATTR_DIRECTORY \<noteq> 0 then prints [sayln_in VGA_LIGHT_RED ''exec: is a directory''] s
            else if e_size e = 0 then prints [sayln_in VGA_LIGHT_RED ''exec: empty file''] s
            else then_run (sh_malloc (e_size e) s) (\<lambda>(buf, s).
              if buf = 0 then prints [sayln_in VGA_LIGHT_RED ''exec: out of heap''] s
              else then_run (read_into e buf (e_size e) s) (\<lambda>(n, s).
                if n < 0 \<or> of_int n \<noteq> e_size e
                then then_run (sh_free buf s) (prints [sayln_in VGA_LIGHT_RED ''exec: read error''])
                else exec_buffer v (argv ! 1) buf (e_size e) s))) s)"

definition cmd_version :: cmd where
  "cmd_version v argv s =
     prints
       [sayln_in VGA_LIGHT_CYAN ''MyOS v1.0  (mini-Unix milestone)'',
        sayln ''  Arch  : x86 (i686), 32-bit protected mode + paging'',
        sayln ''  Kernel: custom bootloader + C kernel'',
        sayln ''  Phases: boot / GDT+IDT / keyboard / PMM / shell / paging'',
        sayln ''        / FAT32 / serial+PIT / kheap / multitasking'',
        sayln ''        / user mode + syscalls / ELF loader'',
        sayln ''  FS    : ls cat touch write rm mkdir rmdir cd pwd'',
        sayln ''  Time  : uptime sleep   (PIT 100 Hz, COM1 115200 8N1)'',
        sayln ''  Heap  : heap kalloc    (256 KB freelist, 8B align, coalesce)'',
        sayln ''  Tasks : tasks spawn yield user exec  (ring 0 + ring 3)'',
        sayln ''  Sys   : exit write getpid sleep_ms (4 syscalls)'',
        sayln ''  Exec  : ELF32 PT_LOAD -> 0x40000000 (vmm_map + USER pages)''] s"

definition cmd_halt :: cmd where
  "cmd_halt v argv s =
     then_run (prints [sayln_in VGA_LIGHT_RED ''System halted.''] s) (\<lambda>s. Some (Halted ''halt''))"

section \<open>The command line\<close>

text \<open>\<open>keyboard_getchar\<close> on the state of the whole kernel.\<close>

partial_function (option) wait_char :: "env \<Rightarrow> shell \<Rightarrow> (u8 \<times> shell) outcome option" where
  "wait_char v s =
     (if \<not> keyboard_haschar (kbd (kern s))
      then then_run (hlt_runs v (kern s)) (\<lambda>k. wait_char v (s\<lparr>kern := k\<rparr>))
      else
        let b = kbd (kern s)
        in Some (Done (kbuf b (ktail b), s\<lparr>kern := (kern s)\<lparr>kbd := b\<lparr>ktail := (ktail b + 1) mod BUF_SIZE\<rparr>\<rparr>\<rparr>)))"

text \<open>One character of \<open>readline\<close>: the line so far becomes the new line, or the line is complete.\<close>

definition edit_char :: "nat \<Rightarrow> int \<Rightarrow> int \<Rightarrow> u8 \<Rightarrow> u8 list \<Rightarrow> shell \<Rightarrow> (bool \<times> u8 list \<times> shell) outcome option" where
  "edit_char lim pcol prow c buf s =
     (if c = 10 then then_run (prints [kputchar 10] s) (\<lambda>s. Some (Done (True, buf, s)))
      else if c = 8
      then if length buf > 0
           then let (cc, cr) = kget_cursor (scr (kern s)) in
                if cr > prow \<or> cr = prow \<and> cc > pcol
                then then_run (prints [kputchar 8] s) (\<lambda>s. Some (Done (False, butlast buf, s)))
                else Some (Done (False, buf, s))
           else Some (Done (False, buf, s))
      else if length buf < lim - 1
      then then_run (prints [kputchar c] s) (\<lambda>s. Some (Done (False, buf @ [c], s)))
      else Some (Done (False, buf, s)))"

partial_function (option) readline_loop ::
    "env \<Rightarrow> nat \<Rightarrow> int \<Rightarrow> int \<Rightarrow> u8 list \<Rightarrow> shell \<Rightarrow> (u8 list \<times> shell) outcome option" where
  "readline_loop v lim pcol prow buf s =
     then_run (wait_char v s) (\<lambda>r.
     then_run (edit_char lim pcol prow (fst r) buf (snd r)) (\<lambda>q.
       if fst q then Some (Done (snd q)) else readline_loop v lim pcol prow (fst (snd q)) (snd (snd q))))"

definition readline :: "env \<Rightarrow> nat \<Rightarrow> shell \<Rightarrow> (u8 list \<times> shell) outcome option" where
  "readline v lim s =
     (let (pcol, prow) = kget_cursor (scr (kern s)) in readline_loop v lim pcol prow [] s)"

definition cmd_fns :: "cmd list" where
  "cmd_fns =
     [cmd_help, cmd_clear, cmd_echo, cmd_meminfo, cmd_page, cmd_vmap, cmd_pftest, cmd_ls, cmd_cat, cmd_touch,
      cmd_write, cmd_rm, cmd_mkdir, cmd_rmdir, cmd_cd, cmd_pwd, cmd_uptime, cmd_sleep, cmd_heap, cmd_kalloc,
      cmd_tasks, cmd_spawn, cmd_yield, cmd_user, cmd_exec, cmd_version, cmd_halt]"

definition cmds :: "((string \<times> string) \<times> cmd) list" where
  "cmds = zip cmd_texts cmd_fns"

fun exec_loop :: "((string \<times> string) \<times> cmd) list \<Rightarrow> env \<Rightarrow> cstring list \<Rightarrow> shell \<Rightarrow> shell outcome option" where
  "exec_loop [] v argv s =
     prints [say_in VGA_LIGHT_RED ''unknown: '', kprint (argv ! 0), kprint (cstr ''  (type '' @ [39] @ cstr ''help'' @ [39, 41, 10])] s"
| "exec_loop (((name, desc), fn) # cs) v argv s =
     (if str_eq (argv ! 0) (cstr name) then fn v argv s else exec_loop cs v argv s)"

definition exec :: "env \<Rightarrow> cstring \<Rightarrow> shell \<Rightarrow> shell outcome option" where
  "exec v line s =
     (let argv = parse line in if length argv = 0 then Some (Done s) else exec_loop cmds v argv s)"

text \<open>One turn of the shell's loop, and the loop, which has no exit.\<close>

definition shell_turn :: "env \<Rightarrow> shell \<Rightarrow> shell outcome option" where
  "shell_turn v s =
     then_run (prints [kprint_color (cwd_path s) VGA_LIGHT_GREEN VGA_BLACK, say_in VGA_LIGHT_GREEN ''> ''] s) (\<lambda>s.
     then_run (readline v LINE_MAX s) (\<lambda>(line, s). exec v (until_nul line) s))"

partial_function (option) shell_loop :: "env \<Rightarrow> shell \<Rightarrow> shell outcome option" where
  "shell_loop v s = then_run (shell_turn v s) (shell_loop v)"

definition shell_run :: "env \<Rightarrow> shell \<Rightarrow> shell outcome option" where
  "shell_run v s =
     then_run (prints [say_in VGA_YELLOW ''MyOS Shell - '', kprint (cstr ''type '' @ [39] @ cstr ''help'' @ [39] @ cstr '' for commands'' @ [10, 10])] s)
       (shell_loop v)"

end
