(* ===== verification/Kernel.thy ===== *)
theory Kernel
  imports Shell
begin

text \<open>
  The boot sequence (\<^verbatim>\<open>src/kernel/kernel.c\<close>), which composes all components.  Addresses that the
  linker chooses, the interrupt stubs and the firmware's memory map are arguments.
\<close>

unbundle bit_operations_syntax

record placement =
  gdt_addr :: u32
  tss_addr :: u32
  idt_addr :: u32
  stub_table :: "nat \<Rightarrow> u32"
  stub_128 :: u32
  page_directory_addr :: u32
  first_table_addr :: u32
  heap_addr :: u32
  firmware_map :: "e820_entry list"

record machine =
  shl :: shell
  gates :: interrupts

definition ATA_DRIVE_SLAVE :: u8 where "ATA_DRIVE_SLAVE = 1"

definition on_shell :: "(shell \<Rightarrow> shell outcome option) \<Rightarrow> machine \<Rightarrow> machine outcome option" where
  "on_shell f m = then_run (f (shl m)) (\<lambda>s. Some (Done (m\<lparr>shl := s\<rparr>)))"

definition on_kernel :: "(kernel \<Rightarrow> kernel) \<Rightarrow> machine \<Rightarrow> machine" where
  "on_kernel f m = m\<lparr>shl := (shl m)\<lparr>kern := f (kern (shl m))\<rparr>\<rparr>"

definition on_segments :: "(segments \<Rightarrow> segments) \<Rightarrow> machine \<Rightarrow> machine" where
  "on_segments f = on_kernel (\<lambda>k. k\<lparr>sys := (sys k)\<lparr>segtab := f (segtab (sys k))\<rparr>\<rparr>)"

definition on_mach :: "(loader \<Rightarrow> loader) \<Rightarrow> machine \<Rightarrow> machine" where
  "on_mach f = on_kernel (\<lambda>k. k\<lparr>sys := (sys k)\<lparr>mach := f (mach (sys k))\<rparr>\<rparr>)"

text \<open>The lines of the banner; 92 is the backslash.\<close>

definition banner :: "cstring list" where
  "banner =
     [cstr ''  __  __       ___  ____  '',
      cstr '' |  '' @ [92] @ cstr ''/  |_   _/ _ '' @ [92] @ cstr ''/ ___| '',
      cstr '' | |'' @ [92] @ cstr ''/| | | | | | | '' @ [92] @ cstr ''___ '' @ [92] @ cstr '' '',
      cstr '' | |  | | |_| | |_| |___) |'',
      cstr '' |_|  |_|'' @ [92] @ cstr ''__, |'' @ [92] @ cstr ''___/|____/ '',
      cstr ''          |___/       v2.2 '']"

definition print_banner :: "shell \<Rightarrow> shell outcome option" where
  "print_banner s =
     prints (map (\<lambda>l. kprint_color (l @ [10]) VGA_LIGHT_CYAN VGA_BLACK) banner @ [kprint [10]]) s"

definition ok :: "string \<Rightarrow> machine \<Rightarrow> machine outcome option" where
  "ok msg = on_shell (prints [say_in VGA_LIGHT_GREEN ''[ OK ] '', say msg, kprint [10]])"

definition pmm_report :: "machine \<Rightarrow> machine outcome option" where
  "pmm_report m =
     (let pm = frames (the_space (shl m)) in
      on_shell (prints
        [say_in VGA_LIGHT_GREEN ''[ OK ] '', say ''PMM ready - free: '', kprint_dec (pmm_free_pages pm * 4 div 1024),
         say '' MB / total: '', kprint_dec (pmm_total_pages pm * 4 div 1024), sayln '' MB'']) m)"

definition mount_disk :: "machine \<Rightarrow> machine outcome option" where
  "mount_disk m =
     then_run (fs_call (fat32_mount ATA_DRIVE_SLAVE) (shl m)) (\<lambda>(r, s).
       let m = m\<lparr>shl := s\<rparr> in
       if r = 0 then ok ''FAT32 mounted on primary slave'' m
       else on_shell (prints
         [say_in VGA_YELLOW ''[WARN] '',
          kprint (cstr ''FAT32 mount failed (no data disk?) - '' @ [39] @ cstr ''ls/cat'' @ [39] @ cstr '' will be unavailable'' @ [10])]) m)"

text \<open>
  The statements of \<open>kmain\<close> up to the shell, in order: console and tables, memory, devices and tasks.
\<close>

definition boot_console :: "placement \<Rightarrow> machine \<Rightarrow> machine outcome option" where
  "boot_console a m =
     (let m = on_kernel (\<lambda>k. k\<lparr>scr := clear_screen (scr k)\<rparr>) m;
          m = on_kernel (\<lambda>k. k\<lparr>scr := (scr k)\<lparr>com := serial_init (com (scr k))\<rparr>\<rparr>) m
      in then_run (on_shell print_banner m) (\<lambda>m.
         then_run (ok ''Serial COM1 ready (115200 8N1)'' m) (\<lambda>m.
         then_run (ok ''GDT loaded (kernel + user segments + TSS slot)'' (on_segments (gdt_init (gdt_addr a)) m)) (\<lambda>m.
         then_run (ok ''TSS loaded (LTR done)'' (on_segments (tss_init (tss_addr a)) m)) (\<lambda>m.
         then_run (ok ''PIC remapped'' (on_kernel (on_bus pic_init) m)) (\<lambda>m.
         then_run (ok ''IDT loaded (incl. INT 0x80 syscall, DPL=3)''
                     (m\<lparr>gates := idt_init (idt_addr a) (stub_table a) (stub_128 a) (gates m)\<rparr>)) (\<lambda>m.
           ok ''Keyboard driver ready'' (on_kernel (\<lambda>k. set_handlers (keyboard_init (handlers_of k)) k) m))))))))"

definition boot_memory :: "placement \<Rightarrow> machine \<Rightarrow> machine outcome option" where
  "boot_memory a m =
     (let m = on_mach (\<lambda>l. l\<lparr>space := (space l)\<lparr>frames := pmm_init (firmware_map a) (frames (space l))\<rparr>\<rparr>) m
      in then_run (pmm_report m) (\<lambda>m.
         case paging_init (page_directory_addr a) (first_table_addr a) (the_space (shl m)) of
           Halted e \<Rightarrow> Some (Halted e)
         | Done v \<Rightarrow>
             then_run (ok ''Paging enabled - first 4 MB identity-mapped'' (on_mach (\<lambda>l. l\<lparr>space := v\<rparr>) m)) (\<lambda>m.
               ok ''Kernel heap ready (256 KB freelist, 8B align)''
                 (on_mach (\<lambda>l. heap_back l (kheap_init (heap_addr a) (heap_view l))) m))))"

definition boot_tasks :: "machine \<Rightarrow> machine outcome option" where
  "boot_tasks m =
     then_run (ok ''ATA driver ready (primary bus, polling PIO)'' (on_kernel (on_bus ata_init) m)) (\<lambda>m.
     then_run (mount_disk m) (\<lambda>m.
     then_run (ok ''PIT 100 Hz timer running (IRQ 0)'' (on_kernel timer_init m)) (\<lambda>m.
     then_run (tasking_init (sys (kern (shl m)))) (\<lambda>t.
     then_run (ok ''Multitasking active (round-robin, 50ms slice)'' (m\<lparr>shl := set_sys t (shl m)\<rparr>)) (\<lambda>m.
     then_run (ok ''Interrupts enabled'' (on_kernel (\<lambda>k. k\<lparr>sys := sti (sys k)\<rparr>) m)) (\<lambda>m.
       on_shell (prints [kprint [10]]) m))))))"

definition boot :: "placement \<Rightarrow> machine \<Rightarrow> machine outcome option" where
  "boot a m = then_run (boot_console a m) (\<lambda>m. then_run (boot_memory a m) boot_tasks)"

definition kmain :: "placement \<Rightarrow> env \<Rightarrow> machine \<Rightarrow> machine outcome option" where
  "kmain a v m = then_run (boot a m) (on_shell (shell_run v))"

end
