(* ===== verification/Task_Mem.thy ===== *)
theory Task_Mem
  imports Loader_Spec Task
begin

text \<open>
  Memory facts that the scheduler proofs share: which bytes a kernel stack may occupy, what writing
  them changes, the effect of the pushes and pops of a switch, and freeing several heap blocks.
\<close>

unbundle bit_operations_syntax

section \<open>Definitions\<close>

text \<open>A step that changes no table, no translation, no heap block and no allocator state.\<close>

definition same_shape :: "nat \<Rightarrow> loader \<Rightarrow> loader \<Rightarrow> bool" where
  "same_shape pd m m' \<longleftrightarrow> blocks m' = blocks m \<and> images m' = images m \<and>
     (\<forall>w. mmu (space m') w = mmu (space m) w) \<and> owned pd (space m') = owned pd (space m) \<and>
     (\<forall>g. data_page pd (space m') g = data_page pd (space m) g) \<and> frames (space m') = frames (space m)"

text \<open>
  Bytes that the kernel may use as data: payload of a live heap block, or low memory outside
  the heap arena and the two boot tables.
\<close>

definition low_data :: "nat \<Rightarrow> nat \<Rightarrow> nat \<Rightarrow> nat \<Rightarrow> bool" where
  "low_data hs pd fpt y \<longleftrightarrow> y < 0x100000 \<and> \<not> slab hs y \<and> \<not> (pd \<le> y \<and> y < pd + 4096) \<and> \<not> (fpt \<le> y \<and> y < fpt + 4096)"

definition data_byte :: "nat \<Rightarrow> nat \<Rightarrow> nat \<Rightarrow> loader \<Rightarrow> nat \<Rightarrow> bool" where
  "data_byte hs pd fpt m y \<longleftrightarrow> low_data hs pd fpt y \<or> (\<exists>(p, z) \<in> blocks m. p \<le> y \<and> y < p + z)"

text \<open>The words that a sequence of pushes leaves below the address \<open>e\<close>.\<close>

definition pushed :: "memory \<Rightarrow> nat \<Rightarrow> u32 list \<Rightarrow> bool" where
  "pushed m e xs \<longleftrightarrow> (\<forall>i < length xs. wd m (e - 4 * Suc i) = xs ! i)"

definition mput :: "nat \<Rightarrow> u32 \<Rightarrow> loader \<Rightarrow> loader" where
  "mput a x m = m\<lparr>space := (space m)\<lparr>phys := put a x (phys (space m))\<rparr>\<rparr>"

section \<open>Writing data bytes\<close>

lemma same_shape_refl [simp]: "same_shape pd m m"
  by (simp add: same_shape_def)

lemma same_shape_trans: "same_shape pd m m' \<Longrightarrow> same_shape pd m' m'' \<Longrightarrow> same_shape pd m m''"
  by (simp add: same_shape_def)

lemma same_shape_data [simp]: "same_shape pd m m' \<Longrightarrow> data_byte hs pd fpt m' y = data_byte hs pd fpt m y"
  by (simp add: same_shape_def data_byte_def)

lemma data_byte_low: "mach_ok hs pd fpt m \<Longrightarrow> data_byte hs pd fpt m y \<Longrightarrow> y < 0x100000"
  using block_in_slab [of hs pd fpt m] by (fastforce simp: data_byte_def low_data_def mach_ok_def space_ok_def)

lemma low_data_page:
  assumes M: "mach_ok hs pd fpt s" and y: "low_data hs pd fpt y"
  shows "data_page pd (space s) (y - y mod 4096)" "y - y mod 4096 \<le> y" "y < y - y mod 4096 + 4096" "y - y mod 4096 < 0x100000"
proof -
  let ?g = "y - y mod 4096"
  have V: "vm_ok pd fpt (space s)" using M by (simp add: mach_ok_def space_ok_def)
  show a: "?g \<le> y" "y < ?g + 4096" using mod_less_divisor [of 4096 y] by auto
  show b: "?g < 0x100000" using a(1) y unfolding low_data_def by linarith
  have "?g \<noteq> pd" "?g \<noteq> fpt" using a y by (auto simp: low_data_def)
  moreover have "tbl pd (phys (space s)) i \<noteq> ?g" if "i < 1024" "present (wd (phys (space s)) (pd + 4 * i))" for i
    using table_place [OF mach_ok_space [OF M] that] b \<open>?g \<noteq> fpt\<close> by auto
  moreover have "of_nat ?g \<notin> pmm_frames (frames (space s))" using low_not_free [OF vm_okD(4) [OF V] b] .
  ultimately show "data_page pd (space s) ?g" using b by (simp add: data_page_def minus_mod_eq_mult_div)
qed

lemma mpoke_low:
  assumes M: "mach_ok hs pd fpt m" and y: "low_data hs pd fpt y"
  shows "mach_ok hs pd fpt (mpoke y v m)" "same_shape pd m (mpoke y v m)"
proof -
  let ?p = "(phys (space m))(of_nat y := v)"
  have V: "vm_ok pd fpt (space m)" using M by (simp add: mach_ok_def space_ok_def)
  have y32: "y < 4294967296" using y by (simp add: low_data_def)
  have o: "?p (of_nat x) = phys (space m) (of_nat x)" if "x \<noteq> y" "x < 4294967296" for x
    using of_nat_eq_iff32 [OF that(2) y32] that(1) by simp
  have L: "pd + 4096 \<le> 0x100000" "hs + 262144 \<le> 0x100000" using M by (auto simp: mach_ok_def space_ok_def boot_layout_def)
  have 1: "\<forall>x. pd \<le> x \<and> x < pd + 4096 \<longrightarrow> ?p (of_nat x) = phys (space m) (of_nat x)"
  proof (intro allI impI o)
    fix x assume "pd \<le> x \<and> x < pd + 4096"
    then show "x \<noteq> y" "x < 4294967296" using y L by (auto simp: low_data_def)
  qed
  have 2: "\<forall>i x. i < 1024 \<and> present (wd (phys (space m)) (pd + 4 * i)) \<and> tbl pd (phys (space m)) i \<le> x \<and>
      x < tbl pd (phys (space m)) i + 4096 \<longrightarrow> ?p (of_nat x) = phys (space m) (of_nat x)"
  proof (intro allI impI, elim conjE)
    fix i x assume i: "i < 1024" "present (wd (phys (space m)) (pd + 4 * i))"
      and x: "tbl pd (phys (space m)) i \<le> x" "x < tbl pd (phys (space m)) i + 4096"
    show "?p (of_nat x) = phys (space m) (of_nat x)"
      using table_place [OF mach_ok_space [OF M] i] vm_ok_table(2) [OF V i] x y by (intro o) (auto simp: low_data_def)
  qed
  note T = tables_kept [OF V, of ?p, OF 1 2]
  from M obtain bs where R: "heap_rel hs (heap_view m) bs" by (auto simp: mach_ok_def)
  have R': "heap_rel hs (heap_view (mpoke y v m)) bs"
  proof (rule heap_rel_cong [OF R])
    show "\<forall>x. slab hs x \<longrightarrow> mem (heap_view (mpoke y v m)) (of_nat x) = mem (heap_view m) (of_nat x)"
    proof (intro allI impI)
      fix x assume "slab hs x"
      then have "x \<noteq> y" "x < 4294967296" using y L(2) by (auto simp: low_data_def slab_def)
      from o [OF this] show "mem (heap_view (mpoke y v m)) (of_nat x) = mem (heap_view m) (of_nat x)" by (simp add: mpoke_def)
    qed
  qed (simp add: mpoke_def)
  show "mach_ok hs pd fpt (mpoke y v m)" using M R' T(1,3) by (auto simp: mach_ok_def space_ok_def mpoke_def)
  show "same_shape pd m (mpoke y v m)"
    using T(2-4) live_rel [OF R] live_rel [OF R'] by (simp add: same_shape_def blocks_def) (simp add: mpoke_def)
qed

lemma mpoke_data:
  assumes M: "mach_ok hs pd fpt m" and y: "data_byte hs pd fpt m y"
  shows "mach_ok hs pd fpt (mpoke y v m)" "same_shape pd m (mpoke y v m)"
proof -
  have "mach_ok hs pd fpt (mpoke y v m) \<and> same_shape pd m (mpoke y v m)"
  proof (cases "low_data hs pd fpt y")
    case True
    then show ?thesis using mpoke_low [OF M] by simp
  next
    case False
    then obtain p z where p: "(p, z) \<in> blocks m" "p \<le> y" "y < p + z" using y by (auto simp: data_byte_def)
    then have i: "y - p < z" and e: "p + (y - p) = y" by auto
    note P = mpoke_ok [OF M p(1) i, of v, unfolded e]
    show ?thesis
      using P(1) heap_step_keeps [OF M P(2)] lh.write_law [OF M p(1) i, of v] by (simp add: same_shape_def e)
  qed
  then show "mach_ok hs pd fpt (mpoke y v m)" "same_shape pd m (mpoke y v m)" by auto
qed

lemma mbyte_mpoke: "x < 4294967296 \<Longrightarrow> y < 4294967296 \<Longrightarrow> mbyte (mpoke y v m) x = (if x = y then v else mbyte m x)"
  using of_nat_eq_iff32 [of x y] by (simp add: mbyte_def mpoke_def)

section \<open>Words on a stack\<close>

lemma mput_data:
  assumes M: "mach_ok hs pd fpt m" and y: "\<forall>y. a \<le> y \<and> y < a + 4 \<longrightarrow> data_byte hs pd fpt m y"
  shows "mach_ok hs pd fpt (mput a x m)" "same_shape pd m (mput a x m)"
proof -
  let ?m1 = "mpoke a (ucast x) m"
  let ?m2 = "mpoke (a + 1) (ucast (drop_bit 8 x)) ?m1"
  let ?m3 = "mpoke (a + 2) (ucast (drop_bit 16 x)) ?m2"
  let ?m4 = "mpoke (a + 3) (ucast (drop_bit 24 x)) ?m3"
  have e: "mput a x m = ?m4" by (simp add: mput_def mpoke_def put_def st32_def add.commute)
  have 1: "mach_ok hs pd fpt ?m1" "same_shape pd m ?m1" using mpoke_data [OF M] y by auto
  have 2: "mach_ok hs pd fpt ?m2" "same_shape pd m ?m2"
    using mpoke_data [OF 1(1)] y 1(2) by (auto intro: same_shape_trans)
  have 3: "mach_ok hs pd fpt ?m3" "same_shape pd m ?m3"
    using mpoke_data [OF 2(1)] y 2(2) by (auto intro: same_shape_trans)
  show "mach_ok hs pd fpt (mput a x m)" "same_shape pd m (mput a x m)"
    unfolding e using mpoke_data [OF 3(1)] y 3(2) by (auto intro: same_shape_trans)
qed

lemma mach_window: "mach_ok hs pd fpt m \<Longrightarrow> id_window pd fpt (space m)"
  by (simp add: mach_ok_def space_ok_def vm_ok_def)

lemma store_word_data:
  assumes M: "mach_ok hs pd fpt (mach s)" and "data_byte hs pd fpt (mach s) a"
  shows "store_word (of_nat a) x s = Done (s\<lparr>mach := mput a x (mach s)\<rparr>)"
  using low_access(2) [OF mach_window [OF M], of a x] data_byte_low [OF assms] by (simp add: store_word_def mput_def)

lemma mbyte_mput: "y < 4294967296 \<Longrightarrow> a + 4 \<le> 4294967296 \<Longrightarrow> y < a \<or> a + 4 \<le> y \<Longrightarrow> mbyte (mput a x m) y = mbyte m y"
  by (simp add: mbyte_def mput_def put_elsewhere)

lemma wd_mbyte: "\<forall>y. a \<le> y \<and> y < a + 4 \<longrightarrow> mbyte m' y = mbyte m y \<Longrightarrow> wd (phys (space m')) a = wd (phys (space m)) a"
  by (rule wd_cong) (simp add: mbyte_def del: of_nat_add)

lemma push_ok:
  "\<lbrakk> mach_ok hs pd fpt (mach s); 4 * length xs \<le> e; \<forall>y. e - 4 * length xs \<le> y \<and> y < e \<longrightarrow> data_byte hs pd fpt (mach s) y \<rbrakk> \<Longrightarrow>
   \<exists>m'. push_words (of_nat e) xs s = Done (of_nat (e - 4 * length xs), s\<lparr>mach := m'\<rparr>) \<and>
     mach_ok hs pd fpt m' \<and> same_shape pd (mach s) m' \<and> pushed (phys (space m')) e xs \<and>
     (\<forall>y < 4294967296. y < e - 4 * length xs \<or> e \<le> y \<longrightarrow> mbyte m' y = mbyte (mach s) y)"
proof (induction xs arbitrary: e s)
  case Nil
  then show ?case by (intro exI [of _ "mach s"]) (simp add: pushed_def)
next
  case (Cons x xs)
  let ?a = "e - 4" and ?n = "length xs"
  let ?m = "mput ?a x (mach s)"
  have e: "4 \<le> e" "e - 4 * length (x # xs) = ?a - 4 * ?n" "4 * ?n \<le> ?a" using Cons.prems(2) by auto
  have d: "\<forall>y. ?a \<le> y \<and> y < ?a + 4 \<longrightarrow> data_byte hs pd fpt (mach s) y" using Cons.prems(3) e by auto
  have lo: "?a < 0x100000" using data_byte_low [OF Cons.prems(1), of ?a] d by simp
  note P = mput_data [OF Cons.prems(1) d, of x]
  have d': "\<forall>y. ?a - 4 * ?n \<le> y \<and> y < ?a \<longrightarrow> data_byte hs pd fpt ?m y" using Cons.prems(3) e P(2) by auto
  have st: "store_word (of_nat e - 4) x s = Done (s\<lparr>mach := ?m\<rparr>)"
    using store_word_data [OF Cons.prems(1), of ?a x] d e(1) by (simp add: of_nat_diff)
  from Cons.IH [of "s\<lparr>mach := ?m\<rparr>" ?a] P(1) e(3) d' obtain m' where
    m': "push_words (of_nat ?a) xs (s\<lparr>mach := ?m\<rparr>) = Done (of_nat (?a - 4 * ?n), s\<lparr>mach := m'\<rparr>)" "mach_ok hs pd fpt m'"
    "same_shape pd ?m m'" "pushed (phys (space m')) ?a xs"
    "\<forall>y < 4294967296. y < ?a - 4 * ?n \<or> ?a \<le> y \<longrightarrow> mbyte m' y = mbyte ?m y" by auto
  have "wd (phys (space m')) ?a = wd (phys (space ?m)) ?a" using m'(5) lo by (intro wd_mbyte) auto
  then have w: "wd (phys (space m')) ?a = x" by (simp add: mput_def)
  have "pushed (phys (space m')) e (x # xs)"
    unfolding pushed_def
  proof (intro allI impI)
    fix i assume "i < length (x # xs)"
    then show "wd (phys (space m')) (e - 4 * Suc i) = (x # xs) ! i"
      using w m'(4) by (cases i) (auto simp: pushed_def)
  qed
  moreover have "mbyte m' y = mbyte (mach s) y" if "y < 4294967296" "y < e - 4 * length (x # xs) \<or> e \<le> y" for y
  proof -
    have "y < ?a \<or> ?a + 4 \<le> y" "y < ?a - 4 * ?n \<or> ?a \<le> y" "?a + 4 \<le> 4294967296" using that e lo by auto
    then show ?thesis using m'(5) that(1) mbyte_mput by metis
  qed
  moreover have "push_words (of_nat e) (x # xs) s = Done (of_nat (e - 4 * length (x # xs)), s\<lparr>mach := m'\<rparr>)"
    using m'(1) st e(1) by (simp add: of_nat_diff e(2) del: length_Cons)
  ultimately show ?case using m'(2) same_shape_trans [OF P(2) m'(3)] by blast
qed

lemma pop_ok:
  assumes W: "id_window pd fpt (space (mach s))"
  shows "a + 4 * n \<le> 0x400000 \<Longrightarrow>
    pop_words (of_nat a) n s = Done (map (\<lambda>k. wd (phys (space (mach s))) (a + 4 * k)) [0..<n])"
proof (induction n arbitrary: a)
  case (Suc n)
  have r: "read32 (of_nat a) (space (mach s)) = Done (wd (phys (space (mach s))) a)"
    using low_access(1) [OF W, of a] Suc.prems by simp
  have "pop_words (of_nat a + 4) n s = Done (map (\<lambda>k. wd (phys (space (mach s))) (a + 4 * Suc k)) [0..<n])"
    using Suc.IH [of "a + 4"] Suc.prems by (simp add: add.commute [of 4] add.assoc)
  moreover have "map f [0..<Suc n] = f 0 # map (\<lambda>k. f (Suc k)) [0..<n]" for f :: "nat \<Rightarrow> u32"
    by (simp add: upt_conv_Cons map_Suc_upt [symmetric] o_def del: upt_Suc)
  ultimately show ?case using r by (simp del: upt_Suc)
qed simp

section \<open>Freeing several blocks\<close>

lemma heap_step_trans: "heap_step hs s s' \<Longrightarrow> heap_step hs s' s'' \<Longrightarrow> heap_step hs s s''"
  unfolding heap_step_def by (elim exE conjE) (intro exI conjI, auto)

lemma free_ok:
  assumes M: "mach_ok hs pd fpt m" and a: "a \<in> fst ` blocks m"
  shows "\<exists>m'. ld_free (of_nat a) m = Done m' \<and> mach_ok hs pd fpt m' \<and> blocks m' = {b \<in> blocks m. fst b \<noteq> a} \<and>
    heap_step hs m m' \<and> (\<forall>q y i. (q, y) \<in> blocks m \<longrightarrow> i < y \<longrightarrow> mbyte m' (q + i) = mbyte m (q + i))"
proof -
  obtain z where z: "(a, z) \<in> blocks m" using a by force
  obtain h where h: "ld_free (of_nat a) m = Done (heap_back m h)" "heap_step hs m (heap_back m h)"
    using ld_free_ok [OF M z] by blast
  have "b = (a, z)" if "b \<in> blocks m" "fst b = a" for b
    using blocks_unique [OF M z, of "snd b"] that by (cases b) simp
  then have "b \<in> blocks m - {(a, z)} \<longleftrightarrow> b \<in> blocks m \<and> fst b \<noteq> a" for b
    by (metis Diff_iff fst_conv singletonD singletonI)
  then have "blocks m - {(a, z)} = {b \<in> blocks m. fst b \<noteq> a}" by (intro set_eqI) (simp only: mem_Collect_eq)
  then show ?thesis using lh.release_law [OF M z] h by auto
qed

lemma frees_ok:
  "\<lbrakk> mach_ok hs pd fpt m; distinct as; set as \<subseteq> fst ` blocks m \<rbrakk> \<Longrightarrow>
   \<exists>m'. run_all (\<lambda>a. ld_free (of_nat a)) as m = Done m' \<and> mach_ok hs pd fpt m' \<and>
     blocks m' = {b \<in> blocks m. fst b \<notin> set as} \<and> heap_step hs m m' \<and>
     (\<forall>q y i. (q, y) \<in> blocks m \<longrightarrow> q \<notin> set as \<longrightarrow> i < y \<longrightarrow> mbyte m' (q + i) = mbyte m (q + i))"
proof (induction as arbitrary: m)
  case Nil
  have "heap_step hs m m" unfolding heap_step_def by (intro exI [of _ "phys (space m)"] exI [of _ "heap_head m"]) simp
  then show ?case using Nil by simp
next
  case (Cons a as)
  from free_ok [OF Cons.prems(1), of a] Cons.prems(3) obtain m1 where
    m1: "ld_free (of_nat a) m = Done m1" "mach_ok hs pd fpt m1" "blocks m1 = {b \<in> blocks m. fst b \<noteq> a}" "heap_step hs m m1"
    "\<forall>q y i. (q, y) \<in> blocks m \<longrightarrow> i < y \<longrightarrow> mbyte m1 (q + i) = mbyte m (q + i)" by auto
  have "set as \<subseteq> fst ` blocks m1" using Cons.prems(2,3) by (fastforce simp: m1(3))
  then obtain m2 where m2: "run_all (\<lambda>a. ld_free (of_nat a)) as m1 = Done m2" "mach_ok hs pd fpt m2"
    "blocks m2 = {b \<in> blocks m1. fst b \<notin> set as}" "heap_step hs m1 m2"
    "\<forall>q y i. (q, y) \<in> blocks m1 \<longrightarrow> q \<notin> set as \<longrightarrow> i < y \<longrightarrow> mbyte m2 (q + i) = mbyte m1 (q + i)"
    using Cons.IH [OF m1(2)] Cons.prems(2) by auto
  show ?case
  proof (intro exI [of _ m2] conjI allI impI)
    show "blocks m2 = {b \<in> blocks m. fst b \<notin> set (a # as)}" unfolding m2(3) m1(3) by auto
    show "mbyte m2 (q + i) = mbyte m (q + i)" if "(q, y) \<in> blocks m" "q \<notin> set (a # as)" "i < y" for q y i
    proof -
      have "(q, y) \<in> blocks m1" using that m1(3) by simp
      then show ?thesis using that m1(5) m2(5) by simp
    qed
  qed (use m1 m2 heap_step_trans [OF m1(4) m2(4)] in simp_all)
qed

end
