(* ===== verification/Task_Spec.thy ===== *)
theory Task_Spec
  imports Task_Mem
begin

text \<open>
  The ready list as a ring.  \<open>ring\<close> says that the \<open>next\<close> pointers of the tasks form one cycle through a
  given list of addresses, current task first; \<open>tasks_ok\<close> adds that every task owns its structure, its
  stacks and its image, that no two tasks share any of them, and that the machine invariant holds.
  On such a state removing, reaping and picking tasks are list operations.
\<close>

unbundle bit_operations_syntax

section \<open>Definitions\<close>

fun path :: "(u32 \<rightharpoonup> task) \<Rightarrow> u32 \<Rightarrow> u32 list \<Rightarrow> u32 \<Rightarrow> bool" where
  "path ts a [] b \<longleftrightarrow> a = b"
| "path ts a (x # xs) b \<longleftrightarrow> a = x \<and> (\<exists>t. ts x = Some t \<and> path ts (tnext t) xs b)"

definition ring :: "(u32 \<rightharpoonup> task) \<Rightarrow> u32 list \<Rightarrow> bool" where
  "ring ts xs \<longleftrightarrow> xs \<noteq> [] \<and> distinct xs \<and> dom ts = set xs \<and> path ts (hd xs) xs (hd xs)"

text \<open>The heap blocks of a task in the order in which \<open>reap\<close> frees them, and the pages of its image.\<close>

definition task_addrs :: "u32 \<Rightarrow> task \<Rightarrow> nat list" where
  "task_addrs p t = map unat (filter (\<lambda>a. a \<noteq> 0) [timage t, stack_base t, user_stack_base t] @ [p])"

definition task_pages :: "loader \<Rightarrow> task \<Rightarrow> u32 list" where
  "task_pages m t = (if timage t = 0 then [] else case images m (timage t) of Some im \<Rightarrow> image_pages im | None \<Rightarrow> [])"

definition owns_ok :: "nat \<Rightarrow> loader \<Rightarrow> (u32 \<rightharpoonup> task) \<Rightarrow> u32 list \<Rightarrow> bool" where
  "owns_ok pd m ts xs \<longleftrightarrow>
     distinct (concat (map (\<lambda>p. task_addrs p (the (ts p))) xs)) \<and>
     set (concat (map (\<lambda>p. task_addrs p (the (ts p))) xs)) \<subseteq> fst ` blocks m \<and>
     (\<forall>p \<in> set xs. timage (the (ts p)) \<noteq> 0 \<longrightarrow> images m (timage (the (ts p))) \<noteq> None) \<and>
     (\<exists>F. pages_mapped pd (space m) (concat (map (\<lambda>p. task_pages m (the (ts p))) xs)) F)"

definition tasks_ok :: "nat \<Rightarrow> nat \<Rightarrow> nat \<Rightarrow> sched \<Rightarrow> u32 list \<Rightarrow> bool" where
  "tasks_ok hs pd fpt s xs \<longleftrightarrow> mach_ok hs pd fpt (mach s) \<and> ring (tasks s) xs \<and> owns_ok pd (mach s) (tasks s) xs"

text \<open>The memory part of \<open>reap\<close>.\<close>

definition release_task :: "u32 \<Rightarrow> u32 \<Rightarrow> task \<Rightarrow> loader \<Rightarrow> loader outcome" where
  "release_task page_directory p t m =
     and_then (if timage t \<noteq> 0 then elf_unload page_directory (timage t) m else Done m)
       (run_all ld_free (filter (\<lambda>a. a \<noteq> 0) [stack_base t, user_stack_base t] @ [p]))"

text \<open>Changes to a task that keep what it owns.\<close>

definition same_holdings :: "task \<Rightarrow> task \<Rightarrow> bool" where
  "same_holdings t t' \<longleftrightarrow> timage t' = timage t \<and> stack_base t' = stack_base t \<and> user_stack_base t' = user_stack_base t"

definition is_zombie :: "(u32 \<rightharpoonup> task) \<Rightarrow> u32 \<Rightarrow> bool" where
  "is_zombie ts p \<longleftrightarrow> tstate (the (ts p)) = TASK_ZOMBIE"

text \<open>
  What reaping the tasks \<open>ds\<close> does to memory: exactly their heap blocks are gone, the frames of their images
  are free, their pages are unmapped, and no other block and no kernel data byte has changed.
\<close>

definition reaped :: "nat \<Rightarrow> nat \<Rightarrow> nat \<Rightarrow> (u32 \<rightharpoonup> task) \<Rightarrow> u32 list \<Rightarrow> loader \<Rightarrow> loader \<Rightarrow> bool" where
  "reaped hs pd fpt ts ds m m' \<longleftrightarrow>
     blocks m' = {b \<in> blocks m. fst b \<notin> set (concat (map (\<lambda>p. task_addrs p (the (ts p))) ds))} \<and>
     (\<forall>p \<in> set ds. \<forall>v \<in> set (task_pages m (the (ts p))). the (mmu (space m) v) \<in> pmm_frames (frames (space m'))) \<and>
     pmm_frames (frames (space m)) \<subseteq> pmm_frames (frames (space m')) \<and>
     (\<forall>w. mmu (space m') w = (if w AND 0xFFFFF000 \<in> set (concat (map (\<lambda>p. task_pages m (the (ts p))) ds)) then None
        else mmu (space m) w)) \<and>
     (\<forall>q y i. (q, y) \<in> blocks m' \<and> i < y \<longrightarrow> mbyte m' (q + i) = mbyte m (q + i)) \<and>
     (\<forall>y. low_data hs pd fpt y \<longrightarrow> mbyte m' y = mbyte m y)"

section \<open>Rings\<close>

lemma path_append: "path ts a (xs @ ys) b \<longleftrightarrow> (\<exists>c. path ts a xs c \<and> path ts c ys b)"
  by (induction xs arbitrary: a) auto

lemma path_cong:
  "\<forall>x \<in> set xs. map_option tnext (ts' x) = map_option tnext (ts x) \<Longrightarrow> path ts' a xs b = path ts a xs b"
proof (induction xs arbitrary: a)
  case (Cons x xs)
  then show ?case by (cases "ts x"; cases "ts' x") auto
qed simp

lemma ring_rotate: "ring ts (c # xs) \<Longrightarrow> ring ts (xs @ [c])"
  by (cases xs) (auto simp: ring_def path_append)

lemma ring_next:
  assumes "ring ts (c # xs)" and "ts c = Some t"
  shows "tnext t = (case xs of [] \<Rightarrow> c | x # _ \<Rightarrow> x)" "path ts (tnext t) xs c"
  using assms by (auto simp: ring_def split: list.split)

lemma ring_task: "ring ts xs \<Longrightarrow> p \<in> set xs \<Longrightarrow> ts p = Some (the (ts p))"
  by (cases "ts p") (auto simp: ring_def)

lemma ring_remove:
  assumes R: "ring ts (c # z # rest)" and c: "ts c = Some tc" and z: "ts z = Some tz"
  shows "ring (ts(c \<mapsto> tc\<lparr>tnext := tnext tz\<rparr>, z := None)) (c # rest)"
proof -
  have d: "distinct (c # z # rest)" "dom ts = set (c # z # rest)" "path ts (tnext tz) rest c"
    using R c z by (auto simp: ring_def)
  have "path (ts(c \<mapsto> tc\<lparr>tnext := tnext tz\<rparr>, z := None)) (tnext tz) rest c"
    using d by (subst path_cong [of _ _ ts]) auto
  then show ?thesis using d by (auto simp: ring_def)
qed

lemma ring_insert:
  assumes R: "ring ts (c # rest)" and c: "ts c = Some tc" and t: "t \<notin> set (c # rest)"
  shows "ring (ts(t \<mapsto> x\<lparr>tnext := tnext tc\<rparr>, c \<mapsto> tc\<lparr>tnext := t\<rparr>)) (c # t # rest)"
proof -
  have d: "distinct (c # rest)" "dom ts = set (c # rest)" "path ts (tnext tc) rest c"
    using R c by (auto simp: ring_def)
  have "path (ts(t \<mapsto> x\<lparr>tnext := tnext tc\<rparr>, c \<mapsto> tc\<lparr>tnext := t\<rparr>)) (tnext tc) rest c"
    using d t by (subst path_cong [of _ _ ts]) auto
  then show ?thesis using d t by (auto simp: ring_def)
qed

lemma ring_cong:
  assumes "ring ts xs" and "dom ts' = dom ts" and "\<forall>x \<in> set xs. map_option tnext (ts' x) = map_option tnext (ts x)"
  shows "ring ts' xs"
  using assms path_cong [of xs ts' ts] by (simp add: ring_def)

lemma find_before_ok:
  "path (tasks s) p (ys @ [w]) z \<Longrightarrow> z \<notin> set (ys @ [w]) \<Longrightarrow> find_before z p s = Some (Done w)"
proof (induction ys arbitrary: p)
  case Nil
  then show ?case by (subst find_before.simps) (auto simp: task_at_def)
next
  case (Cons y ys)
  then obtain t where t: "p = y" "tasks s y = Some t" "path (tasks s) (tnext t) (ys @ [w]) z" by auto
  have "tnext t \<noteq> z" using t(3) Cons.prems(2) by (cases ys) auto
  then show ?case using Cons.IH [OF t(3)] Cons.prems(2) t by (subst find_before.simps) (simp add: task_at_def)
qed

lemma ready_remove_ok:
  assumes R: "ring (tasks s) (c # z # rest)" and c: "tasks s c = Some tc" and z: "tasks s z = Some tz"
  shows "ready_remove z s = Some (Done (s\<lparr>tasks := (tasks s)(c \<mapsto> tc\<lparr>tnext := tnext tz\<rparr>)\<rparr>))"
proof -
  have "path (tasks s) (tnext tz) (rest @ [c]) z"
    using R c z by (auto simp: ring_def path_append)
  moreover have "z \<notin> set (rest @ [c])" using R by (auto simp: ring_def)
  ultimately show ?thesis
    using find_before_ok c z by (simp add: ready_remove_def task_at_def upd_task_def)
qed

section \<open>Reaping\<close>

lemma reap_release:
  "reap page_directory p s =
     then_run (ready_remove p s) (\<lambda>s. Some (and_then (task_at p s) (\<lambda>t.
       and_then (release_task page_directory p t (mach s)) (\<lambda>m. Done (s\<lparr>mach := m, tasks := (tasks s)(p := None)\<rparr>)))))"
  unfolding reap_def reap_image_def release_task_def tk_free_def
  by (simp add: and_then_assoc split del: if_split) (auto simp: and_then_assoc intro!: arg_cong2 [where f = then_run] ext arg_cong2 [where f = and_then])

text \<open>The image of a task is unloaded when it has one.\<close>

lemma drop_image_ok:
  assumes M: "mach_ok hs pd fpt m" and b: "timage t \<noteq> 0 \<Longrightarrow> unat (timage t) \<in> fst ` blocks m"
    and I: "timage t \<noteq> 0 \<Longrightarrow> images m (timage t) \<noteq> None" and F: "pages_mapped pd (space m) (task_pages m t) F"
  obtains m' where "(if timage t \<noteq> 0 then elf_unload (of_nat pd) (timage t) m else Done m) = Done m'" "mach_ok hs pd fpt m'"
    "blocks m' = {b \<in> blocks m. timage t \<noteq> 0 \<longrightarrow> fst b \<noteq> unat (timage t)}"
    "images m' = (if timage t \<noteq> 0 then (images m)(timage t := None) else images m)"
    "pmm_frames (frames (space m')) = (\<lambda>v. of_nat (F v)) ` set (task_pages m t) \<union> pmm_frames (frames (space m))"
    "\<And>w. mmu (space m') w = (if w AND 0xFFFFF000 \<in> set (task_pages m t) then None else mmu (space m) w)"
    "\<And>g. data_page pd (space m) g \<Longrightarrow> g \<notin> F ` set (task_pages m t) \<Longrightarrow> data_page pd (space m') g"
    "\<And>q y i. (q, y) \<in> blocks m \<Longrightarrow> i < y \<Longrightarrow> mbyte m' (q + i) = mbyte m (q + i)"
    "\<And>y. low_data hs pd fpt y \<Longrightarrow> mbyte m' y = mbyte m y"
proof (cases "timage t = 0")
  case True
  then show thesis using M by (intro that [of m]) (auto simp: task_pages_def)
next
  case False
  then obtain im where im: "images m (of_nat (unat (timage t))) = Some im" using I by auto
  then have tp: "task_pages m t = image_pages im" using False by (simp add: task_pages_def)
  obtain z where z: "(unat (timage t), z) \<in> blocks m" using b False by force
  have F': "pages_mapped pd (space m) (image_pages im) F" using F tp by simp
  obtain m' where m': "elf_unload (of_nat pd) (of_nat (unat (timage t))) m = Done m'" "mach_ok hs pd fpt m'"
    "blocks m' = blocks m - {(unat (timage t), z)}" "images m' = (images m)(of_nat (unat (timage t)) := None)"
    "pmm_frames (frames (space m')) = (\<lambda>v. of_nat (F v)) ` set (image_pages im) \<union> pmm_frames (frames (space m))"
    "\<And>w. mmu (space m') w = (if w AND 0xFFFFF000 \<in> set (image_pages im) then None else mmu (space m) w)"
    "\<And>g. data_page pd (space m) g \<Longrightarrow> g \<notin> F ` set (image_pages im) \<Longrightarrow> data_page pd (space m') g"
    "\<And>q y i. (q, y) \<in> blocks m \<Longrightarrow> i < y \<Longrightarrow> mbyte m' (q + i) = mbyte m (q + i)"
    "\<And>g y. data_page pd (space m) g \<Longrightarrow> g \<notin> F ` set (image_pages im) \<Longrightarrow> g \<le> y \<Longrightarrow> y < g + 4096 \<Longrightarrow>
       \<not> slab hs y \<Longrightarrow> mbyte m' y = mbyte m y"
    by (rule elf_unload_ok [OF M im z F']) (rule that)
  have "b \<in> blocks m' \<longleftrightarrow> b \<in> blocks m \<and> fst b \<noteq> unat (timage t)" for b
    using blocks_unique [OF M z, of "snd b"] z by (cases b) (auto simp: m'(3))
  then have bl: "blocks m' = {b \<in> blocks m. timage t \<noteq> 0 \<longrightarrow> fst b \<noteq> unat (timage t)}"
    using False by (intro set_eqI) simp
  have low: "mbyte m' y = mbyte m y" if y: "low_data hs pd fpt y" for y
  proof -
    note g = low_data_page [OF M y]
    have "0x100000 \<le> F v" if "v \<in> set (image_pages im)" for v
      using F' that by (simp add: pages_mapped_def user_page_def)
    then have "y - y mod 4096 \<notin> F ` set (image_pages im)" using g(4) by fastforce
    moreover have "\<not> slab hs y" using y by (simp add: low_data_def)
    ultimately show ?thesis using m'(9) g(1-3) by blast
  qed
  show thesis
    using m'(1,2,4-8) bl low False by (intro that [of m']) (simp_all add: tp)
qed

lemma run_all_frees: "run_all ld_free ws = run_all (\<lambda>a. ld_free (of_nat a)) (map unat ws)"
  by (induction ws) (rule ext; simp)+

lemma release_task_ok:
  assumes M: "mach_ok hs pd fpt m" and D: "distinct (task_addrs p t)" and B: "set (task_addrs p t) \<subseteq> fst ` blocks m"
    and I: "timage t \<noteq> 0 \<Longrightarrow> images m (timage t) \<noteq> None" and F: "pages_mapped pd (space m) (task_pages m t) F"
  obtains m' where "release_task (of_nat pd) p t m = Done m'" "mach_ok hs pd fpt m'"
    "blocks m' = {b \<in> blocks m. fst b \<notin> set (task_addrs p t)}"
    "images m' = (if timage t \<noteq> 0 then (images m)(timage t := None) else images m)"
    "pmm_frames (frames (space m')) = (\<lambda>v. of_nat (F v)) ` set (task_pages m t) \<union> pmm_frames (frames (space m))"
    "\<And>w. mmu (space m') w = (if w AND 0xFFFFF000 \<in> set (task_pages m t) then None else mmu (space m) w)"
    "\<And>g. data_page pd (space m) g \<Longrightarrow> g \<notin> F ` set (task_pages m t) \<Longrightarrow> data_page pd (space m') g"
    "\<And>q y i. (q, y) \<in> blocks m \<Longrightarrow> q \<notin> set (task_addrs p t) \<Longrightarrow> i < y \<Longrightarrow> mbyte m' (q + i) = mbyte m (q + i)"
    "\<And>y. low_data hs pd fpt y \<Longrightarrow> mbyte m' y = mbyte m y"
proof -
  define ws where "ws = filter (\<lambda>a. a \<noteq> 0) [stack_base t, user_stack_base t] @ [p]"
  have ta: "task_addrs p t = (if timage t \<noteq> 0 then unat (timage t) # map unat ws else map unat ws)"
    by (simp add: task_addrs_def ws_def)
  have b: "timage t \<noteq> 0 \<Longrightarrow> unat (timage t) \<in> fst ` blocks m" using B ta by auto
  obtain m1 where m1: "(if timage t \<noteq> 0 then elf_unload (of_nat pd) (timage t) m else Done m) = Done m1" "mach_ok hs pd fpt m1"
    "blocks m1 = {b \<in> blocks m. timage t \<noteq> 0 \<longrightarrow> fst b \<noteq> unat (timage t)}"
    "images m1 = (if timage t \<noteq> 0 then (images m)(timage t := None) else images m)"
    "pmm_frames (frames (space m1)) = (\<lambda>v. of_nat (F v)) ` set (task_pages m t) \<union> pmm_frames (frames (space m))"
    "\<And>w. mmu (space m1) w = (if w AND 0xFFFFF000 \<in> set (task_pages m t) then None else mmu (space m) w)"
    "\<And>g. data_page pd (space m) g \<Longrightarrow> g \<notin> F ` set (task_pages m t) \<Longrightarrow> data_page pd (space m1) g"
    "\<And>q y i. (q, y) \<in> blocks m \<Longrightarrow> i < y \<Longrightarrow> mbyte m1 (q + i) = mbyte m (q + i)"
    "\<And>y. low_data hs pd fpt y \<Longrightarrow> mbyte m1 y = mbyte m y"
    by (rule drop_image_ok [OF M b I F]) (assumption | rule that)+
  have D2: "distinct (map unat ws)" "timage t \<noteq> 0 \<Longrightarrow> unat (timage t) \<notin> set (map unat ws)" using D ta by (simp_all split: if_splits)
  have B2: "set (map unat ws) \<subseteq> fst ` blocks m1"
  proof
    fix a assume a: "a \<in> set (map unat ws)"
    then obtain z where "(a, z) \<in> blocks m" using B ta by (fastforce split: if_splits)
    moreover have "timage t \<noteq> 0 \<longrightarrow> a \<noteq> unat (timage t)" using D2(2) a by blast
    ultimately have "(a, z) \<in> blocks m1" unfolding m1(3) by simp
    then show "a \<in> fst ` blocks m1" by force
  qed
  from frees_ok [OF m1(2) D2(1) B2] obtain m' where m': "run_all (\<lambda>a. ld_free (of_nat a)) (map unat ws) m1 = Done m'"
    "mach_ok hs pd fpt m'" "blocks m' = {b \<in> blocks m1. fst b \<notin> set (map unat ws)}" "heap_step hs m1 m'"
    "\<forall>q y i. (q, y) \<in> blocks m1 \<longrightarrow> q \<notin> set (map unat ws) \<longrightarrow> i < y \<longrightarrow> mbyte m' (q + i) = mbyte m1 (q + i)" by blast
  note K = heap_step_keeps [OF m1(2) m'(4)]
  show thesis
  proof (rule that [of m'])
    show "release_task (of_nat pd) p t m = Done m'"
      using m1(1) m'(1) unfolding release_task_def run_all_frees ws_def by simp
    show "blocks m' = {b \<in> blocks m. fst b \<notin> set (task_addrs p t)}" unfolding m'(3) m1(3) ta by auto
    show "mbyte m' (q + i) = mbyte m (q + i)" if q: "(q, y) \<in> blocks m" "q \<notin> set (task_addrs p t)" "i < y" for q y i
    proof -
      have "(q, y) \<in> blocks m1" "q \<notin> set (map unat ws)" using q(1,2) ta by (auto simp: m1(3) split: if_splits)
      then show ?thesis using m'(5) m1(8) q(1,3) by simp
    qed
    show "mbyte m' y = mbyte m y" if "low_data hs pd fpt y" for y
      using heap_step_outside [OF m'(4), of y] m1(9) [OF that] that by (simp add: low_data_def)
  qed (use m'(2) m1(4-7) K in simp_all)
qed

lemma same_holdings_simps [simp]:
  "same_holdings t t" "same_holdings t (t\<lparr>tnext := x\<rparr>)" "same_holdings t (t\<lparr>tstate := st\<rparr>)"
  "same_holdings t (t\<lparr>saved_esp := e\<rparr>)" "same_holdings t (t\<lparr>slice_left := n\<rparr>)" "same_holdings t (t\<lparr>ticks_run := n\<rparr>)"
  by (simp_all add: same_holdings_def)

lemma owns_kept:
  assumes O: "owns_ok pd m ts xs" and t: "\<forall>p \<in> set xs. same_holdings (the (ts p)) (the (ts' p))"
    and b: "set (concat (map (\<lambda>p. task_addrs p (the (ts p))) xs)) \<subseteq> fst ` blocks m'"
    and i: "\<forall>p \<in> set xs. timage (the (ts p)) \<noteq> 0 \<longrightarrow> images m' (timage (the (ts p))) = images m (timage (the (ts p)))"
    and u: "\<exists>F. pages_mapped pd (space m') (concat (map (\<lambda>p. task_pages m (the (ts p))) xs)) F"
  shows "owns_ok pd m' ts' xs"
proof -
  have a: "map (\<lambda>p. task_addrs p (the (ts' p))) xs = map (\<lambda>p. task_addrs p (the (ts p))) xs"
    using t by (intro map_cong) (auto simp: task_addrs_def same_holdings_def)
  have g: "map (\<lambda>p. task_pages m' (the (ts' p))) xs = map (\<lambda>p. task_pages m (the (ts p))) xs"
    using t i by (intro map_cong) (auto simp: task_pages_def same_holdings_def)
  show ?thesis
    unfolding owns_ok_def a g using O b i t u by (auto simp: owns_ok_def same_holdings_def)
qed

lemma vm_ok_of: "mach_ok hs pd fpt m \<Longrightarrow> vm_ok pd fpt (space m)"
  by (simp add: mach_ok_def space_ok_def)

lemma addrs_left: "S \<subseteq> fst ` B \<Longrightarrow> S \<inter> T = {} \<Longrightarrow> S \<subseteq> fst ` {b \<in> B. fst b \<notin> T}"
  by force

lemma pages_split:
  assumes F: "pages_mapped pd s (as @ bs @ cs) F"
  shows "pages_mapped pd s bs F" "pages_mapped pd s (as @ cs) F" "set (as @ cs) \<inter> set bs = {}"
    "F ` set (as @ cs) \<inter> F ` set bs = {}"
proof -
  have I: "inj_on F (set (as @ bs @ cs))" using F by (simp add: pages_mapped_def)
  show d: "set (as @ cs) \<inter> set bs = {}" using F by (auto simp: pages_mapped_def)
  show "pages_mapped pd s bs F" "pages_mapped pd s (as @ cs) F"
    using F by (auto simp: pages_mapped_def intro: inj_on_subset [OF I])
  have "F ` set (as @ cs) \<inter> F ` set bs = F ` (set (as @ cs) \<inter> set bs)"
    by (rule inj_on_image_Int [OF I, symmetric]) auto
  then show "F ` set (as @ cs) \<inter> F ` set bs = {}" using d by simp
qed

lemma pages_left:
  assumes F: "pages_mapped pd s vs F" and a: "set vs \<inter> set us = {}" "F ` set vs \<inter> F ` set us = {}"
    and m: "\<And>w. mmu s' w = (if w AND 0xFFFFF000 \<in> set us then None else mmu s w)"
    and d: "\<And>g. data_page pd s g \<Longrightarrow> g \<notin> F ` set us \<Longrightarrow> data_page pd s' g"
  shows "pages_mapped pd s' vs F"
proof -
  have "user_page pd s' v (F v)" if v: "v \<in> set vs" for v
  proof -
    have "user_page pd s v (F v)" "v AND 0xFFF = 0" "v \<notin> set us" "F v \<notin> F ` set us"
      using F a v by (auto simp: pages_mapped_def)
    then show ?thesis using m d page_plus(2) [of v] by (simp add: user_page_def)
  qed
  then show ?thesis using F by (simp add: pages_mapped_def)
qed

lemma reap_ok:
  assumes T: "tasks_ok hs pd fpt s (c # z # rest)" and c: "tasks s c = Some tc" and z: "tasks s z = Some tz"
  obtains m' where
    "reap (of_nat pd) z s = Some (Done (s\<lparr>mach := m', tasks := (tasks s)(c \<mapsto> tc\<lparr>tnext := tnext tz\<rparr>, z := None)\<rparr>))"
    "tasks_ok hs pd fpt (s\<lparr>mach := m', tasks := (tasks s)(c \<mapsto> tc\<lparr>tnext := tnext tz\<rparr>, z := None)\<rparr>) (c # rest)"
    "reaped hs pd fpt (tasks s) [z] (mach s) m'"
    "\<And>p. p \<in> set (c # rest) \<Longrightarrow> task_pages m' (the (tasks s p)) = task_pages (mach s) (the (tasks s p)) \<and>
       (\<forall>v \<in> set (task_pages (mach s) (the (tasks s p))). mmu (space m') v = mmu (space (mach s)) v)"
proof -
  let ?m = "mach s" and ?ts = "(tasks s)(c \<mapsto> tc\<lparr>tnext := tnext tz\<rparr>, z := None)"
  let ?A = "\<lambda>xs. concat (map (\<lambda>p. task_addrs p (the (tasks s p))) xs)"
  let ?P = "\<lambda>xs. concat (map (\<lambda>p. task_pages ?m (the (tasks s p))) xs)"
  have M: "mach_ok hs pd fpt ?m" and R: "ring (tasks s) (c # z # rest)" and O: "owns_ok pd ?m (tasks s) (c # z # rest)"
    using T by (auto simp: tasks_ok_def)
  have cz: "c \<noteq> z" "z \<notin> set rest" "c \<notin> set rest" using R by (auto simp: ring_def)
  from O obtain F where F: "pages_mapped pd (space ?m) (?P (c # z # rest)) F" by (auto simp: owns_ok_def)
  have D: "distinct (task_addrs z tz)" "set (task_addrs z tz) \<subseteq> fst ` blocks ?m" "timage tz \<noteq> 0 \<Longrightarrow> images ?m (timage tz) \<noteq> None"
    "set (?A (c # rest)) \<inter> set (task_addrs z tz) = {}" "set (?A (c # rest)) \<subseteq> fst ` blocks ?m"
    using O z by (auto simp: owns_ok_def)
  have "?P (c # z # rest) = task_pages ?m (the (tasks s c)) @ task_pages ?m tz @ ?P rest" using z by simp
  note S = pages_split [OF F [unfolded this]]
  have Fz: "pages_mapped pd (space ?m) (task_pages ?m tz) F" by (rule S(1))
  have Fr: "pages_mapped pd (space ?m) (?P (c # rest)) F" "set (?P (c # rest)) \<inter> set (task_pages ?m tz) = {}"
    "F ` set (?P (c # rest)) \<inter> F ` set (task_pages ?m tz) = {}"
    using S(2-4) by (simp_all only: list.map concat.simps)
  obtain m' where m': "release_task (of_nat pd) z tz ?m = Done m'" "mach_ok hs pd fpt m'"
    "blocks m' = {b \<in> blocks ?m. fst b \<notin> set (task_addrs z tz)}"
    "images m' = (if timage tz \<noteq> 0 then (images ?m)(timage tz := None) else images ?m)"
    "pmm_frames (frames (space m')) = (\<lambda>v. of_nat (F v)) ` set (task_pages ?m tz) \<union> pmm_frames (frames (space ?m))"
    "\<And>w. mmu (space m') w = (if w AND 0xFFFFF000 \<in> set (task_pages ?m tz) then None else mmu (space ?m) w)"
    "\<And>g. data_page pd (space ?m) g \<Longrightarrow> g \<notin> F ` set (task_pages ?m tz) \<Longrightarrow> data_page pd (space m') g"
    "\<And>q y i. (q, y) \<in> blocks ?m \<Longrightarrow> q \<notin> set (task_addrs z tz) \<Longrightarrow> i < y \<Longrightarrow> mbyte m' (q + i) = mbyte ?m (q + i)"
    "\<And>y. low_data hs pd fpt y \<Longrightarrow> mbyte m' y = mbyte ?m y"
    by (rule release_task_ok [OF M D(1,2,3) Fz]) (assumption | rule that)+
  have F': "pages_mapped pd (space m') (?P (c # rest)) F"
    by (rule pages_left [OF Fr m'(6,7)])
  have im: "images m' (timage (the (tasks s p))) = images ?m (timage (the (tasks s p)))"
    if p: "p \<in> set (c # rest)" "timage (the (tasks s p)) \<noteq> 0" for p
  proof -
    have "unat (timage (the (tasks s p))) \<in> set (?A (c # rest))" using p by (auto simp: task_addrs_def)
    then have "timage tz \<noteq> 0 \<Longrightarrow> timage (the (tasks s p)) \<noteq> timage tz" using D(4) by (auto simp: task_addrs_def)
    then show ?thesis by (auto simp: m'(4))
  qed
  have O1: "owns_ok pd m' ?ts (c # rest)"
  proof (rule owns_kept)
    show "owns_ok pd ?m (tasks s) (c # rest)" using O Fr(1) by (auto simp: owns_ok_def)
    show "\<forall>p \<in> set (c # rest). same_holdings (the (tasks s p)) (the (?ts p))" using c cz by auto
    show "set (?A (c # rest)) \<subseteq> fst ` blocks m'" unfolding m'(3) by (rule addrs_left [OF D(5,4)])
    show "\<forall>p \<in> set (c # rest). timage (the (tasks s p)) \<noteq> 0 \<longrightarrow>
        images m' (timage (the (tasks s p))) = images ?m (timage (the (tasks s p)))" using im by simp
    show "\<exists>F. pages_mapped pd (space m') (?P (c # rest)) F" using F' by blast
  qed
  have fr: "the (mmu (space ?m) v) \<in> pmm_frames (frames (space m'))" if "v \<in> set (task_pages ?m tz)" for v
    using user_page_facts(1) [OF vm_ok_of [OF M], of v "F v"] Fz that by (simp add: pages_mapped_def m'(5))
  have kept: "mmu (space m') v = mmu (space ?m) v" if "p \<in> set (c # rest)" "v \<in> set (task_pages ?m (the (tasks s p)))" for p v
  proof -
    have v: "v \<in> set (?P (c # rest))" using that by auto
    then have "v AND 0xFFF = 0" using Fr(1) by (simp add: pages_mapped_def)
    then have "v AND 0xFFFFF000 = v" using page_plus(2) [of v 0] by simp
    then show ?thesis using v Fr(2) m'(6) [of v] by auto
  qed
  show thesis
  proof (rule that [of m'])
    show "reap (of_nat pd) z s = Some (Done (s\<lparr>mach := m', tasks := ?ts\<rparr>))"
      using ready_remove_ok [OF R c z] m'(1) z cz(1) by (simp add: reap_release task_at_def)
    show "tasks_ok hs pd fpt (s\<lparr>mach := m', tasks := ?ts\<rparr>) (c # rest)"
      using m'(2) ring_remove [OF R c z] O1 by (simp add: tasks_ok_def)
    show "reaped hs pd fpt (tasks s) [z] ?m m'"
      unfolding reaped_def using m'(3,5,6,8,9) fr z by auto
    show "task_pages m' (the (tasks s p)) = task_pages ?m (the (tasks s p)) \<and>
       (\<forall>v \<in> set (task_pages ?m (the (tasks s p))). mmu (space m') v = mmu (space ?m) v)" if "p \<in> set (c # rest)" for p
      using im [OF that] kept [OF that] by (simp add: task_pages_def)
  qed
qed

end
