(* ===== verification/Sched_Spec.thy ===== *)
theory Sched_Spec
  imports Task_Spec Exec_Spec
begin

text \<open>
  The scheduler on a ring of tasks: picking the next task, switching to it, and what is true after any
  number of switches.
\<close>

unbundle bit_operations_syntax

section \<open>Definitions\<close>

text \<open>
  The kernel stack of a task: its heap block, or the boot stack \<open>bs\<close> to \<open>be\<close> for the task that has
  none of its own.
\<close>

definition stack_lo :: "nat \<Rightarrow> task \<Rightarrow> nat" where
  "stack_lo bs t = (if stack_base t = 0 then bs else unat (stack_base t))"

definition stack_hi :: "nat \<Rightarrow> task \<Rightarrow> nat" where
  "stack_hi be t = (if stack_base t = 0 then be else unat (stack_base t) + 16384)"

definition stacks_placed :: "nat \<Rightarrow> nat \<Rightarrow> nat \<Rightarrow> nat \<Rightarrow> nat \<Rightarrow> loader \<Rightarrow> (u32 \<rightharpoonup> task) \<Rightarrow> u32 list \<Rightarrow> bool" where
  "stacks_placed hs pd fpt bs be m ts xs \<longleftrightarrow>
     (\<forall>y. bs \<le> y \<and> y < be \<longrightarrow> low_data hs pd fpt y) \<and>
     (\<forall>p \<in> set xs. stack_base (the (ts p)) \<noteq> 0 \<longrightarrow> (\<exists>z \<ge> 16384. (unat (stack_base (the (ts p))), z) \<in> blocks m)) \<and>
     (\<forall>p \<in> set xs. \<forall>q \<in> set xs. stack_base (the (ts p)) = 0 \<and> stack_base (the (ts q)) = 0 \<longrightarrow> p = q)"

text \<open>The words that a suspended task has at its saved stack pointer, and the space they need.\<close>

definition frame_word :: "loader \<Rightarrow> task \<Rightarrow> nat \<Rightarrow> u32" where
  "frame_word m t k = wd (phys (space m)) (unat (saved_esp t) + 4 * k)"

definition frame_room :: "labels \<Rightarrow> u32 \<Rightarrow> nat" where
  "frame_room lab eip = (if eip = a_start lab then 24 else if eip = a_user lab then 40 else 28)"

definition frame_ok :: "labels \<Rightarrow> nat \<Rightarrow> nat \<Rightarrow> loader \<Rightarrow> task \<Rightarrow> bool" where
  "frame_ok lab bs be m t \<longleftrightarrow> stack_lo bs t \<le> unat (saved_esp t) \<and>
     unat (saved_esp t) + frame_room lab (frame_word m t 4) \<le> stack_hi be t"

text \<open>
  A scheduler state: the ring starts with the current task, all stacks are in place, every other
  task has a frame to resume from, and only the current task can be \<open>TASK_RUNNING\<close>.
\<close>

definition sched_ok :: "nat \<Rightarrow> nat \<Rightarrow> nat \<Rightarrow> nat \<Rightarrow> nat \<Rightarrow> labels \<Rightarrow> sched \<Rightarrow> u32 list \<Rightarrow> bool" where
  "sched_ok hs pd fpt bs be lab s xs \<longleftrightarrow>
     tasks_ok hs pd fpt s xs \<and> g_active s \<and> g_current s = hd xs \<and> distinct [a_resume lab, a_start lab, a_user lab] \<and>
     stacks_placed hs pd fpt bs be (mach s) (tasks s) xs \<and>
     (\<forall>p \<in> set (tl xs). frame_ok lab bs be (mach s) (the (tasks s p)) \<and> tstate (the (tasks s p)) \<noteq> TASK_RUNNING)"

text \<open>The stack pointer of the running code is in the current task's stack, with room for a switch.\<close>

definition stack_room :: "nat \<Rightarrow> nat \<Rightarrow> sched \<Rightarrow> bool" where
  "stack_room bs be s \<longleftrightarrow> stack_lo bs (the (tasks s (g_current s))) + 28 \<le> unat (c_esp (core s)) \<and>
     unat (c_esp (core s)) \<le> stack_hi be (the (tasks s (g_current s)))"

text \<open>The processor after a suspended task has been resumed from its frame.\<close>

definition resume_core :: "labels \<Rightarrow> cpu \<Rightarrow> loader \<Rightarrow> task \<Rightarrow> cpu" where
  "resume_core lab c m t =
     (let w = frame_word m t;
          c = c\<lparr>c_edi := w 0, c_esi := w 1, c_ebx := w 2, c_ebp := w 3\<rparr>
      in if w 4 = a_start lab
         then c\<lparr>c_eip := w 5, c_eax := w 5, c_esp := saved_esp t + 20, c_if := True\<rparr>
         else if w 4 = a_user lab
         then c\<lparr>c_eip := w 5, c_cs := w 6, c_if := bit (w 7) 9, c_esp := w 8, c_ss := w 9, c_ds := 0x23\<rparr>
         else c\<lparr>c_eip := w 4, c_esp := saved_esp t + 28, c_if := True\<rparr>)"

text \<open>
  A switch from \<open>c\<close> to \<open>n\<close> that reaps \<open>ds\<close> on the way and leaves the tasks \<open>ys\<close> alone.
\<close>

definition switched :: "labels \<Rightarrow> nat \<Rightarrow> nat \<Rightarrow> u32 \<Rightarrow> u32 list \<Rightarrow> u32 \<Rightarrow> u32 list \<Rightarrow> sched \<Rightarrow> sched \<Rightarrow> bool" where
  "switched lab bs be c ds n ys s s' \<longleftrightarrow>
     core s' = resume_core lab (core s) (mach s) (the (tasks s n)) \<and>
     (\<exists>x. tasks s' c = Some ((the (tasks s c))\<lparr>tnext := x,
        tstate := if tstate (the (tasks s c)) = TASK_RUNNING then TASK_READY else tstate (the (tasks s c)),
        slice_left := TASK_TIME_SLICE, saved_esp := c_esp (core s) - 28\<rparr>)) \<and>
     (\<forall>k < 5. frame_word (mach s') (the (tasks s' c)) k =
        [c_edi (core s), c_esi (core s), c_ebx (core s), c_ebp (core s), a_resume lab] ! k) \<and>
     (\<forall>y. unat (c_esp (core s)) \<le> y \<and> y < stack_hi be (the (tasks s c)) \<longrightarrow> mbyte (mach s') y = mbyte (mach s) y) \<and>
     tasks s' n = Some ((the (tasks s n))\<lparr>tstate := TASK_RUNNING, slice_left := TASK_TIME_SLICE\<rparr>) \<and>
     (\<forall>p \<in> set ys. tasks s' p = tasks s p \<and>
        (\<forall>y. stack_lo bs (the (tasks s p)) \<le> y \<and> y < stack_hi be (the (tasks s p)) \<longrightarrow> mbyte (mach s') y = mbyte (mach s) y)) \<and>
     segtab s' = (if kernel_stack_top (the (tasks s n)) \<noteq> 0 then tss_set_esp0 (kernel_stack_top (the (tasks s n))) (segtab s)
        else segtab s) \<and>
     blocks (mach s') = {b \<in> blocks (mach s). fst b \<notin> set (concat (map (\<lambda>p. task_addrs p (the (tasks s p))) ds))} \<and>
     g_need_resched s' = g_need_resched s \<and> g_next_id s' = g_next_id s"

section \<open>Picking the next task\<close>

lemma reaped_refl: "reaped hs pd fpt ts [] m m"
  by (simp add: reaped_def)

lemma reaped_trans:
  assumes 1: "reaped hs pd fpt ts [z] m m1" and 2: "reaped hs pd fpt ts' ds m1 m2"
    and t: "\<forall>p \<in> set ds. same_holdings (the (ts p)) (the (ts' p))"
    and k: "\<forall>p \<in> set ds. task_pages m1 (the (ts p)) = task_pages m (the (ts p)) \<and>
      (\<forall>v \<in> set (task_pages m (the (ts p))). mmu (space m1) v = mmu (space m) v)"
  shows "reaped hs pd fpt ts (z # ds) m m2"
proof -
  have a: "map (\<lambda>p. task_addrs p (the (ts' p))) ds = map (\<lambda>p. task_addrs p (the (ts p))) ds"
    using t by (intro map_cong) (auto simp: task_addrs_def same_holdings_def)
  have g: "map (\<lambda>p. task_pages m1 (the (ts' p))) ds = map (\<lambda>p. task_pages m (the (ts p))) ds"
    using t k by (intro map_cong) (auto simp: task_pages_def same_holdings_def)
  have g': "task_pages m1 (the (ts' p)) = task_pages m (the (ts p))" if "p \<in> set ds" for p
    using t k that by (auto simp: task_pages_def same_holdings_def)
  note D1 = 1 [unfolded reaped_def] and D2 = 2 [unfolded reaped_def a g]
  have "blocks m2 = {b \<in> blocks m. fst b \<notin> set (concat (map (\<lambda>p. task_addrs p (the (ts p))) (z # ds)))}"
    using D1 D2 by auto
  moreover have "\<forall>p \<in> set (z # ds). \<forall>v \<in> set (task_pages m (the (ts p))). the (mmu (space m) v) \<in> pmm_frames (frames (space m2))"
    using D1 D2 k g' by auto
  moreover have "pmm_frames (frames (space m)) \<subseteq> pmm_frames (frames (space m2))" using D1 D2 by blast
  moreover have "\<forall>w. mmu (space m2) w = (if w AND 0xFFFFF000 \<in> set (concat (map (\<lambda>p. task_pages m (the (ts p))) (z # ds)))
      then None else mmu (space m) w)" using D1 D2 by simp
  moreover have "\<forall>q y i. (q, y) \<in> blocks m2 \<and> i < y \<longrightarrow> mbyte m2 (q + i) = mbyte m (q + i)" using D1 D2 by auto
  moreover have "\<forall>y. low_data hs pd fpt y \<longrightarrow> mbyte m2 y = mbyte m y" using D1 D2 by auto
  ultimately show ?thesis unfolding reaped_def by blast
qed

lemma pick_loop_ok:
  "tasks_ok hs pd fpt s (c # rest) \<Longrightarrow>
   \<exists>s' x. pick_loop (of_nat pd) c (case rest of [] \<Rightarrow> c | p # _ \<Rightarrow> p) s =
       Some (Done (case dropWhile (is_zombie (tasks s)) rest of [] \<Rightarrow> c | n # _ \<Rightarrow> n, s')) \<and>
     tasks_ok hs pd fpt s' (c # dropWhile (is_zombie (tasks s)) rest) \<and>
     s' = s\<lparr>mach := mach s', tasks := tasks s'\<rparr> \<and>
     tasks s' c = Some ((the (tasks s c))\<lparr>tnext := x\<rparr>) \<and>
     (\<forall>p \<in> set (dropWhile (is_zombie (tasks s)) rest). tasks s' p = tasks s p) \<and>
     reaped hs pd fpt (tasks s) (takeWhile (is_zombie (tasks s)) rest) (mach s) (mach s')"
proof (induction rest arbitrary: s)
  case Nil
  have "tasks s c = Some (the (tasks s c))" using Nil ring_task [of "tasks s" "[c]" c] by (auto simp: tasks_ok_def)
  then show ?case using Nil
    by (intro exI [of _ s] exI [of _ "tnext (the (tasks s c))"]) (simp add: pick_loop.simps reaped_refl)
next
  case (Cons z rest)
  let ?Z = "is_zombie (tasks s)"
  have R: "ring (tasks s) (c # z # rest)" using Cons.prems by (simp add: tasks_ok_def)
  obtain tc tz where t: "tasks s c = Some tc" "tasks s z = Some tz"
    using ring_task [OF R, of c] ring_task [OF R, of z] by auto
  have d: "z \<noteq> c" "c \<notin> set rest" "z \<notin> set rest" using R by (auto simp: ring_def)
  show ?case
  proof (cases "?Z z")
    case False
    then have st: "tstate tz = TASK_READY \<or> tstate tz = TASK_RUNNING" "tstate tz \<noteq> TASK_ZOMBIE"
      using t by (cases "tstate tz"; simp add: is_zombie_def)+
    have "pick_loop (of_nat pd) c z s = Some (Done (z, s))"
      using d st t by (subst pick_loop.simps) (simp add: task_at_def)
    then show ?thesis using Cons.prems False t
      by (intro exI [of _ s] exI [of _ "tnext tc"]) (simp add: reaped_refl)
  next
    case True
    obtain m' where m': "reap (of_nat pd) z s = Some (Done (s\<lparr>mach := m', tasks := (tasks s)(c \<mapsto> tc\<lparr>tnext := tnext tz\<rparr>, z := None)\<rparr>))"
      "tasks_ok hs pd fpt (s\<lparr>mach := m', tasks := (tasks s)(c \<mapsto> tc\<lparr>tnext := tnext tz\<rparr>, z := None)\<rparr>) (c # rest)"
      "reaped hs pd fpt (tasks s) [z] (mach s) m'"
      "\<And>p. p \<in> set (c # rest) \<Longrightarrow> task_pages m' (the (tasks s p)) = task_pages (mach s) (the (tasks s p)) \<and>
         (\<forall>v \<in> set (task_pages (mach s) (the (tasks s p))). mmu (space m') v = mmu (space (mach s)) v)"
      by (rule reap_ok [OF Cons.prems t]) (rule that)
    let ?s1 = "s\<lparr>mach := m', tasks := (tasks s)(c \<mapsto> tc\<lparr>tnext := tnext tz\<rparr>, z := None)\<rparr>"
    have nz: "tnext tz = (case rest of [] \<Rightarrow> c | p # _ \<Rightarrow> p)" using R t by (cases rest) (auto simp: ring_def)
    have e: "dropWhile (is_zombie (tasks ?s1)) rest = dropWhile ?Z rest" "takeWhile (is_zombie (tasks ?s1)) rest = takeWhile ?Z rest"
    proof -
      have "is_zombie (tasks ?s1) x = ?Z x" if "x \<in> set rest" for x
      proof -
        have "x \<noteq> c" "x \<noteq> z" using d that by auto
        then show ?thesis by (simp add: is_zombie_def)
      qed
      then show "dropWhile (is_zombie (tasks ?s1)) rest = dropWhile ?Z rest" "takeWhile (is_zombie (tasks ?s1)) rest = takeWhile ?Z rest"
        by (auto intro!: dropWhile_cong takeWhile_cong)
    qed
    from Cons.IH [OF m'(2), unfolded e] obtain s' x where s': "pick_loop (of_nat pd) c (case rest of [] \<Rightarrow> c | p # _ \<Rightarrow> p) ?s1 =
        Some (Done (case dropWhile ?Z rest of [] \<Rightarrow> c | n # _ \<Rightarrow> n, s'))" "tasks_ok hs pd fpt s' (c # dropWhile ?Z rest)"
      "s' = ?s1\<lparr>mach := mach s', tasks := tasks s'\<rparr>" "tasks s' c = Some ((the (tasks ?s1 c))\<lparr>tnext := x\<rparr>)"
      "\<forall>p \<in> set (dropWhile ?Z rest). tasks s' p = tasks ?s1 p" "reaped hs pd fpt (tasks ?s1) (takeWhile ?Z rest) (mach ?s1) (mach s')"
      by (elim exE conjE) (rule that)
    have tk: "p \<in> set rest" if "p \<in> set (takeWhile ?Z rest)" for p using that by (rule set_takeWhileD [THEN conjunct1])
    have dk: "p \<in> set rest" if "p \<in> set (dropWhile ?Z rest)" for p using that by (rule set_dropWhileD)
    have pl: "pick_loop (of_nat pd) c z s = pick_loop (of_nat pd) c (tnext tz) ?s1"
      using d(1) t(2) True m'(1) by (subst pick_loop.simps) (simp add: task_at_def is_zombie_def)
    have rp: "reaped hs pd fpt (tasks s) (z # takeWhile ?Z rest) (mach s) (mach s')"
    proof (rule reaped_trans [OF m'(3)])
      show "reaped hs pd fpt (tasks ?s1) (takeWhile ?Z rest) m' (mach s')" using s'(6) by simp
    qed (use tk d m'(4) in auto)
    show ?thesis
    proof (intro exI conjI)
      show "s' = s\<lparr>mach := mach s', tasks := tasks s'\<rparr>" by (subst s'(3)) simp
      show "tasks s' c = Some ((the (tasks s c))\<lparr>tnext := x\<rparr>)" using s'(4) t d by simp
    qed (use pl nz s'(1,2,5) True rp d dk in \<open>auto\<close>)
  qed
qed

lemma pick_next_ok:
  assumes "tasks_ok hs pd fpt s (c # rest)"
  obtains s' x where "pick_next (of_nat pd) c s = Some (Done (case dropWhile (is_zombie (tasks s)) rest of [] \<Rightarrow> c | n # _ \<Rightarrow> n, s'))"
    "tasks_ok hs pd fpt s' (c # dropWhile (is_zombie (tasks s)) rest)" "s' = s\<lparr>mach := mach s', tasks := tasks s'\<rparr>"
    "tasks s' c = Some ((the (tasks s c))\<lparr>tnext := x\<rparr>)" "\<forall>p \<in> set (dropWhile (is_zombie (tasks s)) rest). tasks s' p = tasks s p"
    "reaped hs pd fpt (tasks s) (takeWhile (is_zombie (tasks s)) rest) (mach s) (mach s')"
proof -
  have R: "ring (tasks s) (c # rest)" using assms by (simp add: tasks_ok_def)
  obtain tc where c: "tasks s c = Some tc" using ring_task [OF R, of c] by auto
  have "pick_next (of_nat pd) c s = pick_loop (of_nat pd) c (case rest of [] \<Rightarrow> c | p # _ \<Rightarrow> p) s"
    using ring_next(1) [OF R c] c by (simp add: pick_next_def task_at_def)
  then show thesis using pick_loop_ok [OF assms] by (elim exE conjE) (rule that, simp)
qed

section \<open>Stacks\<close>

lemma distinct_concat_apart:
  assumes "distinct (concat (map f xs))" and "p \<in> set xs" "q \<in> set xs" "p \<noteq> q"
  shows "set (f p) \<inter> set (f q) = {}"
  using assms by (induction xs) (auto simp: disjoint_iff)

lemma stack_data:
  assumes "stacks_placed hs pd fpt bs be m ts xs" and "p \<in> set xs" and "stack_lo bs (the (ts p)) \<le> y" "y < stack_hi be (the (ts p))"
  shows "data_byte hs pd fpt m y"
proof (cases "stack_base (the (ts p)) = 0")
  case True
  then show ?thesis using assms by (auto simp: stacks_placed_def stack_lo_def stack_hi_def data_byte_def)
next
  case False
  then obtain z where "16384 \<le> z" "(unat (stack_base (the (ts p))), z) \<in> blocks m"
    using assms(1,2) by (auto simp: stacks_placed_def)
  then show ?thesis using False assms(3,4) by (force simp: stack_lo_def stack_hi_def data_byte_def)
qed

lemma stacks_apart:
  assumes M: "mach_ok hs pd fpt m" and O: "owns_ok pd m ts xs" and P: "stacks_placed hs pd fpt bs be m ts xs"
    and p: "p \<in> set xs" "q \<in> set xs" "p \<noteq> q"
    and y: "stack_lo bs (the (ts p)) \<le> y" "y < stack_hi be (the (ts p))"
  shows "\<not> (stack_lo bs (the (ts q)) \<le> y \<and> y < stack_hi be (the (ts q)))"
proof
  assume y': "stack_lo bs (the (ts q)) \<le> y \<and> y < stack_hi be (the (ts q))"
  have heap: "\<exists>z \<ge> 16384. (unat (stack_base (the (ts r))), z) \<in> blocks m" if "r \<in> set xs" "stack_base (the (ts r)) \<noteq> 0" for r
    using P that by (auto simp: stacks_placed_def)
  have in_slab: "slab hs y" if r: "r \<in> set xs" "stack_base (the (ts r)) \<noteq> 0" "stack_lo bs (the (ts r)) \<le> y" "y < stack_hi be (the (ts r))" for r
  proof -
    obtain z where z: "16384 \<le> z" "(unat (stack_base (the (ts r))), z) \<in> blocks m" using heap r(1,2) by blast
    from block_in_slab [OF M z(2)] z(1) r(2-4) show ?thesis by (auto simp: slab_def stack_lo_def stack_hi_def)
  qed
  have low: "\<not> slab hs y" if "stack_base (the (ts r)) = 0" "stack_lo bs (the (ts r)) \<le> y" "y < stack_hi be (the (ts r))" for r
    using P that by (auto simp: stacks_placed_def stack_lo_def stack_hi_def low_data_def)
  consider "stack_base (the (ts p)) = 0" "stack_base (the (ts q)) = 0" | "stack_base (the (ts p)) = 0" "stack_base (the (ts q)) \<noteq> 0"
    | "stack_base (the (ts p)) \<noteq> 0" "stack_base (the (ts q)) = 0" | "stack_base (the (ts p)) \<noteq> 0" "stack_base (the (ts q)) \<noteq> 0" by blast
  then show False
  proof cases
    case 1
    then show ?thesis using P p by (auto simp: stacks_placed_def)
  next
    case 2
    then show ?thesis using low [of p] in_slab [of q] p y y' by blast
  next
    case 3
    then show ?thesis using low [of q] in_slab [of p] p y y' by blast
  next
    case 4
    obtain zp zq where z: "16384 \<le> zp" "(unat (stack_base (the (ts p))), zp) \<in> blocks m"
      "16384 \<le> zq" "(unat (stack_base (the (ts q))), zq) \<in> blocks m" using heap p 4 by blast
    have "set (task_addrs p (the (ts p))) \<inter> set (task_addrs q (the (ts q))) = {}"
      by (rule distinct_concat_apart [of "\<lambda>p. task_addrs p (the (ts p))"]) (use O p in \<open>auto simp: owns_ok_def\<close>)
    then have "unat (stack_base (the (ts p))) \<noteq> unat (stack_base (the (ts q)))" using 4 by (auto simp: task_addrs_def)
    then show ?thesis using lh.live_apart [OF M z(2,4)] z y y' 4 by (auto simp: stack_lo_def stack_hi_def)
  qed
qed

section \<open>Switching\<close>

lemma context_switch_ok:
  fixes s lab prev new t
  defines "e \<equiv> unat (c_esp (core s))" and "P \<equiv> phys (space (mach s))"
  assumes M: "mach_ok hs pd fpt (mach s)" and e: "28 \<le> e" and d: "\<forall>y. e - 28 \<le> y \<and> y < e \<longrightarrow> data_byte hs pd fpt (mach s) y"
    and t: "tasks s prev = Some t" and n: "unat new + 20 \<le> 0x400000" and a: "unat new + 20 \<le> e - 28 \<or> e \<le> unat new"
  obtains m' where
    "context_switch lab prev new s = Done (s\<lparr>mach := m', tasks := (tasks s)(prev \<mapsto> t\<lparr>saved_esp := of_nat (e - 28)\<rparr>),
       core := (core s)\<lparr>c_edi := wd P (unat new), c_esi := wd P (unat new + 4), c_ebx := wd P (unat new + 8),
         c_ebp := wd P (unat new + 12), c_eip := wd P (unat new + 16), c_esp := new + 20\<rparr>\<rparr>)"
    "mach_ok hs pd fpt m'" "same_shape pd (mach s) m'"
    "\<forall>y < 4294967296. y < e - 28 \<or> e \<le> y \<longrightarrow> mbyte m' y = mbyte (mach s) y"
    "\<forall>k < 5. wd (phys (space m')) (e - 28 + 4 * k) = [c_edi (core s), c_esi (core s), c_ebx (core s), c_ebp (core s), a_resume lab] ! k"
proof -
  let ?c = "core s"
  let ?xs = "[new, prev + 24, a_resume lab, c_ebp ?c, c_ebx ?c, c_esi ?c, c_edi ?c]"
  have el: "e - 1 < 0x100000" using data_byte_low [OF M, of "e - 1"] d e by auto
  from push_ok [OF M, of ?xs e] d e obtain m' where
    m': "push_words (of_nat e) ?xs s = Done (of_nat (e - 28), s\<lparr>mach := m'\<rparr>)" "mach_ok hs pd fpt m'" "same_shape pd (mach s) m'"
    "pushed (phys (space m')) e ?xs" "\<forall>y < 4294967296. y < e - 28 \<or> e \<le> y \<longrightarrow> mbyte m' y = mbyte (mach s) y" by auto
  have w: "wd (phys (space m')) (unat new + 4 * k) = wd P (unat new + 4 * k)" if "k < 5" for k
    unfolding P_def using m'(5) a n that by (intro wd_mbyte) auto
  let ?s1 = "s\<lparr>mach := m', tasks := (tasks s)(prev \<mapsto> t\<lparr>saved_esp := of_nat (e - 28)\<rparr>)\<rparr>"
  have ws: "map (\<lambda>k. wd (phys (space m')) (unat new + 4 * k)) [0..<5] =
      [wd P (unat new), wd P (unat new + 4), wd P (unat new + 8), wd P (unat new + 12), wd P (unat new + 16)]"
    using w [of 0] w [of 1] w [of 2] w [of 3] w [of 4] by (simp add: upt_rec)
  have pop: "pop_words new 5 ?s1 = Done [wd P (unat new), wd P (unat new + 4), wd P (unat new + 8), wd P (unat new + 12), wd P (unat new + 16)]"
    using pop_ok [of pd fpt ?s1 "unat new" 5] mach_window [OF m'(2)] n ws by simp
  have esp: "of_nat e = c_esp ?c" by (simp add: e_def)
  have call: "context_switch lab prev new s = Done (s\<lparr>mach := m', tasks := (tasks s)(prev \<mapsto> t\<lparr>saved_esp := of_nat (e - 28)\<rparr>),
       core := (core s)\<lparr>c_edi := wd P (unat new), c_esi := wd P (unat new + 4), c_ebx := wd P (unat new + 8),
         c_ebp := wd P (unat new + 12), c_eip := wd P (unat new + 16), c_esp := new + 20\<rparr>\<rparr>)"
    unfolding context_switch_def Let_def esp [symmetric] using m'(1) t pop
    by (simp add: upd_task_def task_at_def)
  have "wd (phys (space m')) (e - 28 + 4 * k) = [c_edi ?c, c_esi ?c, c_ebx ?c, c_ebp ?c, a_resume lab] ! k" if "k < 5" for k
  proof -
    have "wd (phys (space m')) (e - 4 * Suc (6 - k)) = ?xs ! (6 - k)" using m'(4) that by (simp add: pushed_def)
    moreover have "e - 4 * Suc (6 - k) = e - 28 + 4 * k" using that e by auto
    moreover have "?xs ! (6 - k) = [c_edi ?c, c_esi ?c, c_ebx ?c, c_ebp ?c, a_resume lab] ! k"
    proof -
      have "k = 0 \<or> k = 1 \<or> k = 2 \<or> k = 3 \<or> k = 4" using that by auto
      then show ?thesis by (elim disjE) simp_all
    qed
    ultimately show ?thesis by simp
  qed
  then show thesis using that call m'(2,3,5) by blast
qed

lemma words10:
  assumes W: "id_window pd fpt (space (mach s))" and "unat a + 4 * n \<le> 0x400000"
  shows "pop_words a n s = Done (map (\<lambda>k. wd (phys (space (mach s))) (unat a + 4 * k)) [0..<n])"
  using pop_ok [OF W assms(2)] by simp

lemma resume_ok:
  fixes t :: task
  defines "e \<equiv> unat (saved_esp t)"
  assumes M: "mach_ok hs pd fpt (mach s)" and lo: "e + frame_room lab (frame_word (mach s) t 4) \<le> 0x100000"
    and c: "core s = c\<lparr>c_edi := frame_word (mach s) t 0, c_esi := frame_word (mach s) t 1, c_ebx := frame_word (mach s) t 2,
      c_ebp := frame_word (mach s) t 3, c_eip := frame_word (mach s) t 4, c_esp := saved_esp t + 20\<rparr>"
    and d: "\<forall>y. e + 20 \<le> y \<and> y < e + 24 \<longrightarrow> data_byte hs pd fpt (mach s) y"
  shows "\<exists>m'. resume lab s = Done (s\<lparr>mach := m', core := resume_core lab c (mach s) t\<rparr>) \<and> mach_ok hs pd fpt m' \<and>
    same_shape pd (mach s) m' \<and>
    (\<forall>y < 4294967296. \<not> (frame_word (mach s) t 4 = a_start lab \<and> e + 20 \<le> y \<and> y < e + 24) \<longrightarrow> mbyte m' y = mbyte (mach s) y)"
proof -
  let ?w = "frame_word (mach s) t"
  have lo24: "e + 24 \<le> 0x100000" using lo by (auto simp: frame_room_def split: if_splits)
  have u20: "unat (saved_esp t + 20) = e + 20" using lo24 by (simp add: e_def unat_plus32)
  consider (start) "?w 4 = a_start lab" | (user) "?w 4 \<noteq> a_start lab" "?w 4 = a_user lab" | (again) "?w 4 \<noteq> a_start lab" "?w 4 \<noteq> a_user lab"
    by blast
  then show ?thesis
  proof cases
    case start
    let ?s = "sti s"
    have pop: "pop_words (saved_esp t + 20) 1 ?s = Done [?w 5]"
      using words10 [of pd fpt ?s "saved_esp t + 20" 1] mach_window [OF M] u20 lo24 by (simp add: sti_def frame_word_def e_def)
    have p: "e + 24 - 4 * length [a_after_entry lab] = e + 20" by simp
    from push_ok [of hs pd fpt ?s "[a_after_entry lab]" "e + 24", unfolded p] M d obtain m' where
      m': "push_words (of_nat (e + 24)) [a_after_entry lab] ?s = Done (of_nat (e + 20), ?s\<lparr>mach := m'\<rparr>)" "mach_ok hs pd fpt m'"
      "same_shape pd (mach s) m'" "\<forall>y < 4294967296. y < e + 20 \<or> e + 24 \<le> y \<longrightarrow> mbyte m' y = mbyte (mach s) y"
      by (auto simp: sti_def simp del: of_nat_add push_words.simps)
    have a: "of_nat (e + 24) = saved_esp t + 20 + 4" "of_nat (e + 20) = saved_esp t + 20" by (simp_all add: e_def)
    have "resume lab s = Done (s\<lparr>mach := m', core := resume_core lab c (mach s) t\<rparr>)"
      using start pop m'(1) unfolding a resume_def task_start_trampoline_def Let_def
      by (simp add: c sti_def resume_core_def Let_def)
    then show ?thesis using m' start by auto
  next
    case user
    have "e + 40 \<le> 0x100000" using lo user by (simp add: frame_room_def)
    then have pop: "pop_words (saved_esp t + 20) 5 s = Done [?w 5, ?w 6, ?w 7, ?w 8, ?w 9]"
      using words10 [of pd fpt s "saved_esp t + 20" 5] mach_window [OF M] u20 by (simp add: frame_word_def e_def upt_rec add.commute)
    have "resume lab s = Done (s\<lparr>core := resume_core lab c (mach s) t\<rparr>)"
      using user pop by (simp add: resume_def user_iret_trampoline_def c resume_core_def Let_def)
    then show ?thesis using M by (intro exI [of _ "mach s"]) simp
  next
    case again
    then have "resume lab s = Done (s\<lparr>core := resume_core lab c (mach s) t\<rparr>)"
      by (simp add: resume_def c resume_core_def sti_def Let_def)
    then show ?thesis using M by (intro exI [of _ "mach s"]) simp
  qed
qed

lemma reaped_stacks:
  assumes O: "owns_ok pd m ts xs" and P: "stacks_placed hs pd fpt bs be m ts xs" and rp: "reaped hs pd fpt ts ds m m'"
    and sub: "set ds \<subseteq> set xs" "set ys \<subseteq> set xs" "set ds \<inter> set ys = {}"
    and h: "\<forall>p \<in> set ys. same_holdings (the (ts p)) (the (ts' p))"
  shows "stacks_placed hs pd fpt bs be m' ts' ys"
    "p \<in> set ys \<Longrightarrow> stack_lo bs (the (ts p)) \<le> y \<Longrightarrow> y < stack_hi be (the (ts p)) \<Longrightarrow> mbyte m' y = mbyte m y"
proof -
  have blk: "\<exists>z \<ge> 16384. (unat (stack_base (the (ts p))), z) \<in> blocks m'" if p: "p \<in> set ys" "stack_base (the (ts p)) \<noteq> 0" for p
  proof -
    obtain z where z: "16384 \<le> z" "(unat (stack_base (the (ts p))), z) \<in> blocks m"
      using P p sub(2) by (auto simp: stacks_placed_def)
    have "unat (stack_base (the (ts p))) \<notin> set (task_addrs q (the (ts q)))" if q: "q \<in> set ds" for q
    proof -
      have "set (task_addrs p (the (ts p))) \<inter> set (task_addrs q (the (ts q))) = {}"
        by (rule distinct_concat_apart [of "\<lambda>p. task_addrs p (the (ts p))" xs]) (use O p(1) q sub in \<open>auto simp: owns_ok_def\<close>)
      moreover have "unat (stack_base (the (ts p))) \<in> set (task_addrs p (the (ts p)))" using p(2) by (simp add: task_addrs_def)
      ultimately show ?thesis by blast
    qed
    then have "(unat (stack_base (the (ts p))), z) \<in> blocks m'" using rp z(2) by (simp add: reaped_def)
    then show ?thesis using z(1) by blast
  qed
  show "stacks_placed hs pd fpt bs be m' ts' ys"
    unfolding stacks_placed_def
  proof (intro conjI ballI impI)
    show "\<forall>y. bs \<le> y \<and> y < be \<longrightarrow> low_data hs pd fpt y" using P by (simp add: stacks_placed_def)
    show "\<exists>z \<ge> 16384. (unat (stack_base (the (ts' p))), z) \<in> blocks m'" if "p \<in> set ys" "stack_base (the (ts' p)) \<noteq> 0" for p
      using blk [of p] h that by (simp add: same_holdings_def)
    show "p = q" if "p \<in> set ys" "q \<in> set ys" "stack_base (the (ts' p)) = 0 \<and> stack_base (the (ts' q)) = 0" for p q
    proof -
      have "stack_base (the (ts p)) = 0" "stack_base (the (ts q)) = 0" "p \<in> set xs" "q \<in> set xs"
        using that h sub(2) by (auto simp: same_holdings_def)
      then show ?thesis using P by (simp add: stacks_placed_def)
    qed
  qed
  show "mbyte m' y = mbyte m y" if p: "p \<in> set ys" "stack_lo bs (the (ts p)) \<le> y" "y < stack_hi be (the (ts p))"
  proof (cases "stack_base (the (ts p)) = 0")
    case True
    then have "low_data hs pd fpt y" using P p by (simp add: stacks_placed_def stack_lo_def stack_hi_def)
    then show ?thesis using rp by (simp add: reaped_def)
  next
    case False
    obtain z where z: "16384 \<le> z" "(unat (stack_base (the (ts p))), z) \<in> blocks m'" using blk [OF p(1) False] by blast
    let ?a = "unat (stack_base (the (ts p)))"
    have "?a \<le> y" "y - ?a < z" using False p(2,3) z(1) by (auto simp: stack_lo_def stack_hi_def)
    moreover have "\<forall>q y i. (q, y) \<in> blocks m' \<and> i < y \<longrightarrow> mbyte m' (q + i) = mbyte m (q + i)" using rp unfolding reaped_def by blast
    ultimately show ?thesis using z(2) by (metis le_add_diff_inverse)
  qed
qed

lemma frame_word_kept:
  assumes "\<forall>y. unat (saved_esp t) + 4 * k \<le> y \<and> y < unat (saved_esp t) + 4 * k + 4 \<longrightarrow> mbyte m' y = mbyte m y"
  shows "frame_word m' t k = frame_word m t k"
  unfolding frame_word_def by (rule wd_mbyte) (use assms in auto)

lemma frame_room_ge: "24 \<le> frame_room lab e" "frame_room lab e \<le> 40"
  by (auto simp: frame_room_def)

lemma frame_ok_kept:
  assumes F: "frame_ok lab bs be m t" and b: "\<forall>y. stack_lo bs t \<le> y \<and> y < stack_hi be t \<longrightarrow> mbyte m' y = mbyte m y"
  shows "frame_ok lab bs be m' t" "4 * k + 4 \<le> frame_room lab (frame_word m t 4) \<Longrightarrow> frame_word m' t k = frame_word m t k"
proof -
  have f: "stack_lo bs t \<le> unat (saved_esp t)" "unat (saved_esp t) + frame_room lab (frame_word m t 4) \<le> stack_hi be t"
    using F by (auto simp: frame_ok_def)
  show w: "frame_word m' t k = frame_word m t k" if "4 * k + 4 \<le> frame_room lab (frame_word m t 4)" for k
    using b f that by (intro frame_word_kept) auto
  have "frame_word m' t 4 = frame_word m t 4" using frame_room_ge(1) [of lab "frame_word m t 4"] by (intro w) simp
  then show "frame_ok lab bs be m' t" using f by (simp add: frame_ok_def)
qed

lemma resume_core_kept:
  assumes "\<And>k. 4 * k + 4 \<le> frame_room lab (frame_word m t 4) \<Longrightarrow> frame_word m' t k = frame_word m t k"
  shows "resume_core lab c m' t = resume_core lab c m t"
proof -
  have "frame_word m' t k = frame_word m t k" if "k < 5" for k
    using frame_room_ge(1) [of lab "frame_word m t 4"] that by (intro assms) simp
  then have w: "frame_word m' t 0 = frame_word m t 0" "frame_word m' t 1 = frame_word m t 1" "frame_word m' t 2 = frame_word m t 2"
    "frame_word m' t 3 = frame_word m t 3" "frame_word m' t 4 = frame_word m t 4" by simp_all
  have 5: "frame_word m t 4 = a_start lab \<Longrightarrow> frame_word m' t 5 = frame_word m t 5" by (rule assms) (simp add: frame_room_def)
  have u: "frame_word m' t k = frame_word m t k" if "frame_word m t 4 \<noteq> a_start lab" "frame_word m t 4 = a_user lab" "k < 10" for k
    using that by (intro assms) (simp add: frame_room_def)
  show ?thesis unfolding resume_core_def Let_def w using 5 u [of 5] u [of 6] u [of 7] u [of 8] u [of 9] by simp
qed

lemma switch_tasks:
  assumes "tasks s c = Some tc" "tasks s n = Some tn" "c \<noteq> n"
  shows "switch_to lab c n s =
    (let tc' = tc\<lparr>tstate := if tstate tc = TASK_RUNNING then TASK_READY else tstate tc, slice_left := TASK_TIME_SLICE\<rparr>;
         tn' = tn\<lparr>tstate := TASK_RUNNING, slice_left := TASK_TIME_SLICE\<rparr>;
         s' = s\<lparr>tasks := (tasks s)(c \<mapsto> tc', n \<mapsto> tn'), g_current := n,
                segtab := if kernel_stack_top tn \<noteq> 0 then tss_set_esp0 (kernel_stack_top tn) (segtab s) else segtab s\<rparr>
     in and_then (context_switch lab c (saved_esp tn) s') (resume lab))"
proof -
  have e: "(if tstate tc = TASK_RUNNING then tc\<lparr>tstate := TASK_READY\<rparr> else tc) =
      tc\<lparr>tstate := if tstate tc = TASK_RUNNING then TASK_READY else tstate tc\<rparr>" by (cases tc) simp
  have f: "(tasks s)(c \<mapsto> a, n \<mapsto> b, c \<mapsto> a', n \<mapsto> b') = (tasks s)(c \<mapsto> a', n \<mapsto> b')" for a b a' b'
    using assms(3) by (auto simp: fun_eq_iff)
  show ?thesis
    using assms unfolding switch_to_def e [symmetric]
    by (simp add: upd_task_def task_at_def Let_def f)
qed

lemma switch_to_ok:
  fixes s :: sched and tn :: task
  defines "e \<equiv> unat (c_esp (core s))" and "a \<equiv> unat (saved_esp tn)"
  assumes M: "mach_ok hs pd fpt (mach s)" and t: "tasks s c = Some tc" "tasks s n = Some tn" "c \<noteq> n"
    and e: "28 \<le> e" and d: "\<forall>y. e - 28 \<le> y \<and> y < e \<longrightarrow> data_byte hs pd fpt (mach s) y"
    and f: "\<forall>y. a \<le> y \<and> y < a + frame_room lab (frame_word (mach s) tn 4) \<longrightarrow> data_byte hs pd fpt (mach s) y"
    and apart: "\<forall>y. a \<le> y \<and> y < a + frame_room lab (frame_word (mach s) tn 4) \<longrightarrow> \<not> (e - 28 \<le> y \<and> y < e)"
  obtains m' where "switch_to lab c n s = Done (s\<lparr>mach := m',
      tasks := (tasks s)(c \<mapsto> tc\<lparr>tstate := if tstate tc = TASK_RUNNING then TASK_READY else tstate tc,
          slice_left := TASK_TIME_SLICE, saved_esp := of_nat (e - 28)\<rparr>, n \<mapsto> tn\<lparr>tstate := TASK_RUNNING, slice_left := TASK_TIME_SLICE\<rparr>),
      g_current := n, segtab := if kernel_stack_top tn \<noteq> 0 then tss_set_esp0 (kernel_stack_top tn) (segtab s) else segtab s,
      core := resume_core lab (core s) (mach s) tn\<rparr>)"
    "mach_ok hs pd fpt m'" "same_shape pd (mach s) m'"
    "\<forall>y < 4294967296. \<not> (e - 28 \<le> y \<and> y < e) \<and> \<not> (a + 20 \<le> y \<and> y < a + 24) \<longrightarrow> mbyte m' y = mbyte (mach s) y"
    "\<forall>k < 5. wd (phys (space m')) (e - 28 + 4 * k) = [c_edi (core s), c_esi (core s), c_ebx (core s), c_ebp (core s), a_resume lab] ! k"
proof -
  let ?r = "frame_room lab (frame_word (mach s) tn 4)"
  define tc' where "tc' = tc\<lparr>tstate := if tstate tc = TASK_RUNNING then TASK_READY else tstate tc, slice_left := TASK_TIME_SLICE\<rparr>"
  define tn' where "tn' = tn\<lparr>tstate := TASK_RUNNING, slice_left := TASK_TIME_SLICE\<rparr>"
  define s1 where "s1 = s\<lparr>tasks := (tasks s)(c \<mapsto> tc', n \<mapsto> tn'), g_current := n,
      segtab := if kernel_stack_top tn \<noteq> 0 then tss_set_esp0 (kernel_stack_top tn) (segtab s) else segtab s\<rparr>"
  note r = frame_room_ge [of lab "frame_word (mach s) tn 4"]
  have "data_byte hs pd fpt (mach s) (a + ?r - 1)" using f r by auto
  from data_byte_low [OF M this] have lo: "a + ?r \<le> 0x100000" using r by linarith
  have s1: "core s1 = core s" "mach s1 = mach s" "tasks s1 c = Some tc'" using t(3) by (simp_all add: s1_def)
  have sep: "a + ?r \<le> e - 28 \<or> e \<le> a"
  proof (rule ccontr)
    assume "\<not> ?thesis"
    then have "max a (e - 28) < a + ?r" "max a (e - 28) < e" using e r by auto
    then show False using apart by (metis max.cobounded1 max.cobounded2)
  qed
  obtain m1 where m1: "context_switch lab c (saved_esp tn) s1 = Done (s1\<lparr>mach := m1,
      tasks := (tasks s1)(c \<mapsto> tc'\<lparr>saved_esp := of_nat (e - 28)\<rparr>),
      core := (core s)\<lparr>c_edi := frame_word (mach s) tn 0, c_esi := frame_word (mach s) tn 1, c_ebx := frame_word (mach s) tn 2,
        c_ebp := frame_word (mach s) tn 3, c_eip := frame_word (mach s) tn 4, c_esp := saved_esp tn + 20\<rparr>\<rparr>)"
    "mach_ok hs pd fpt m1" "same_shape pd (mach s) m1"
    "\<forall>y < 4294967296. y < e - 28 \<or> e \<le> y \<longrightarrow> mbyte m1 y = mbyte (mach s) y"
    "\<forall>k < 5. wd (phys (space m1)) (e - 28 + 4 * k) = [c_edi (core s), c_esi (core s), c_ebx (core s), c_ebp (core s), a_resume lab] ! k"
    by (rule context_switch_ok [of hs pd fpt s1 c tc' "saved_esp tn" lab, unfolded s1])
      (use M e d sep lo r in \<open>auto simp: e_def [symmetric] a_def [symmetric] frame_word_def intro: that\<close>)
  have w: "frame_word m1 tn k = frame_word (mach s) tn k" if "4 * k + 4 \<le> ?r" for k
    using m1(4) sep lo that by (intro frame_word_kept) (auto simp: a_def [symmetric])
  have w': "frame_word m1 tn 0 = frame_word (mach s) tn 0" "frame_word m1 tn 1 = frame_word (mach s) tn 1"
    "frame_word m1 tn 2 = frame_word (mach s) tn 2" "frame_word m1 tn 3 = frame_word (mach s) tn 3"
    "frame_word m1 tn 4 = frame_word (mach s) tn 4" using r(1) by (intro w; simp)+
  let ?s2 = "s1\<lparr>mach := m1, tasks := (tasks s1)(c \<mapsto> tc'\<lparr>saved_esp := of_nat (e - 28)\<rparr>),
      core := (core s)\<lparr>c_edi := frame_word m1 tn 0, c_esi := frame_word m1 tn 1, c_ebx := frame_word m1 tn 2,
        c_ebp := frame_word m1 tn 3, c_eip := frame_word m1 tn 4, c_esp := saved_esp tn + 20\<rparr>\<rparr>"
  have d2: "\<forall>y. a + 20 \<le> y \<and> y < a + 24 \<longrightarrow> data_byte hs pd fpt m1 y" using f r m1(3) by auto
  from resume_ok [of hs pd fpt ?s2 tn lab "core s"] m1(2) lo d2 w'(5) obtain m2 where
    m2: "resume lab ?s2 = Done (?s2\<lparr>mach := m2, core := resume_core lab (core s) m1 tn\<rparr>)" "mach_ok hs pd fpt m2" "same_shape pd m1 m2"
    "\<forall>y < 4294967296. \<not> (frame_word m1 tn 4 = a_start lab \<and> a + 20 \<le> y \<and> y < a + 24) \<longrightarrow> mbyte m2 y = mbyte m1 y"
    by (auto simp: a_def [symmetric])
  have rc: "resume_core lab (core s) m1 tn = resume_core lab (core s) (mach s) tn" by (rule resume_core_kept) (rule w)
  have S: "switch_to lab c n s = Done (?s2\<lparr>mach := m2, core := resume_core lab (core s) m1 tn\<rparr>)"
    using m1(1) m2(1) unfolding switch_tasks [OF t] Let_def tc'_def [symmetric] tn'_def [symmetric] s1_def [symmetric] w'
    by simp
  have E: "?s2\<lparr>mach := m2, core := resume_core lab (core s) m1 tn\<rparr> = s\<lparr>mach := m2,
      tasks := (tasks s)(c \<mapsto> tc\<lparr>tstate := if tstate tc = TASK_RUNNING then TASK_READY else tstate tc,
          slice_left := TASK_TIME_SLICE, saved_esp := of_nat (e - 28)\<rparr>, n \<mapsto> tn\<lparr>tstate := TASK_RUNNING, slice_left := TASK_TIME_SLICE\<rparr>),
      g_current := n, segtab := if kernel_stack_top tn \<noteq> 0 then tss_set_esp0 (kernel_stack_top tn) (segtab s) else segtab s,
      core := resume_core lab (core s) (mach s) tn\<rparr>"
    using t(3) by (simp add: s1_def rc tc'_def tn'_def fun_upd_twist)
  show thesis
  proof (rule that [OF S [unfolded E]])
    show "\<forall>k < 5. wd (phys (space m2)) (e - 28 + 4 * k) = [c_edi (core s), c_esi (core s), c_ebx (core s), c_ebp (core s), a_resume lab] ! k"
    proof (intro allI impI)
      fix k :: nat assume k: "k < 5"
      have "wd (phys (space m2)) (e - 28 + 4 * k) = wd (phys (space m1)) (e - 28 + 4 * k)"
      proof (rule wd_mbyte, intro allI impI)
        fix y assume y: "e - 28 + 4 * k \<le> y \<and> y < e - 28 + 4 * k + 4"
        have "data_byte hs pd fpt (mach s) (e - 1)" using d e by auto
        then have "e - 1 < 0x100000" by (rule data_byte_low [OF M])
        then have "y < 4294967296" "\<not> (a + 20 \<le> y \<and> y < a + 24)" using y sep r k e by linarith+
        then show "mbyte m2 y = mbyte m1 y" using m2(4) by blast
      qed
      then show "wd (phys (space m2)) (e - 28 + 4 * k) = [c_edi (core s), c_esi (core s), c_ebx (core s), c_ebp (core s), a_resume lab] ! k"
        using m1(5) k by simp
    qed
  qed (use m1(3,4) m2 in \<open>auto intro: same_shape_trans\<close>)
qed

section \<open>Yielding\<close>

lemma owns_shape:
  assumes "owns_ok pd m ts xs" and "same_shape pd m m'" and "\<forall>p \<in> set xs. same_holdings (the (ts p)) (the (ts' p))"
  shows "owns_ok pd m' ts' xs"
proof (rule owns_kept [OF assms(1,3)])
  have "pages_mapped pd (space m') vs F = pages_mapped pd (space m) vs F" for vs F
    using assms(2) by (simp add: same_shape_def pages_mapped_def user_page_def)
  then show "\<exists>F. pages_mapped pd (space m') (concat (map (\<lambda>p. task_pages m (the (ts p))) xs)) F"
    using assms(1) by (auto simp: owns_ok_def)
qed (use assms in \<open>auto simp: same_shape_def owns_ok_def\<close>)

lemma owns_rotate: "owns_ok pd m ts (c # xs) \<Longrightarrow> owns_ok pd m ts (xs @ [c])"
  by (auto simp: owns_ok_def pages_mapped_def Un_commute)

lemma stacks_placed_shape:
  assumes "stacks_placed hs pd fpt bs be m ts xs" and "blocks m' = blocks m" and "\<forall>p \<in> set xs. same_holdings (the (ts p)) (the (ts' p))"
    and "set ys = set xs"
  shows "stacks_placed hs pd fpt bs be m' ts' ys"
  using assms by (auto simp: stacks_placed_def same_holdings_def)

lemma frame_ok_task: "stack_base t' = stack_base t \<Longrightarrow> saved_esp t' = saved_esp t \<Longrightarrow> frame_ok lab bs be m t' = frame_ok lab bs be m t"
  by (simp add: frame_ok_def stack_lo_def stack_hi_def frame_word_def)

lemma resume_core_if [simp]: "resume_core lab (c\<lparr>c_if := b\<rparr>) m t = resume_core lab c m t"
  by (simp add: resume_core_def Let_def)

lemma pick_stage:
  assumes S: "sched_ok hs pd fpt bs be lab s (c # rest)" and n: "dropWhile (is_zombie (tasks s)) rest = n # ys"
  obtains s1 x where "pick_next (of_nat pd) c (cli s) = Some (Done (n, s1))" "tasks_ok hs pd fpt s1 (c # n # ys)"
    "s1 = (cli s)\<lparr>mach := mach s1, tasks := tasks s1\<rparr>" "tasks s1 c = Some ((the (tasks s c))\<lparr>tnext := x\<rparr>)"
    "\<forall>p \<in> set (n # ys). tasks s1 p = tasks s p" "stacks_placed hs pd fpt bs be (mach s1) (tasks s1) (c # n # ys)"
    "\<forall>p \<in> set (c # n # ys). \<forall>y. stack_lo bs (the (tasks s p)) \<le> y \<and> y < stack_hi be (the (tasks s p)) \<longrightarrow>
       mbyte (mach s1) y = mbyte (mach s) y"
    "blocks (mach s1) = {b \<in> blocks (mach s). fst b \<notin>
       set (concat (map (\<lambda>p. task_addrs p (the (tasks s p))) (takeWhile (is_zombie (tasks s)) rest)))}"
    "distinct (c # n # ys)" "set (n # ys) \<subseteq> set rest"
proof -
  let ?Z = "is_zombie (tasks s)" and ?s0 = "cli s"
  let ?ds = "takeWhile ?Z rest"
  have T: "tasks_ok hs pd fpt s (c # rest)" "tasks_ok hs pd fpt ?s0 (c # rest)"
    "stacks_placed hs pd fpt bs be (mach s) (tasks s) (c # rest)"
    using S by (auto simp: sched_ok_def tasks_ok_def cli_def)
  have O: "owns_ok pd (mach s) (tasks s) (c # rest)" and dist: "distinct (c # rest)"
    using T(1) by (auto simp: tasks_ok_def ring_def)
  have cl: "tasks ?s0 = tasks s" "mach ?s0 = mach s" by (simp_all add: cli_def)
  obtain s1 x where s1: "pick_next (of_nat pd) c ?s0 = Some (Done (n, s1))" "tasks_ok hs pd fpt s1 (c # n # ys)"
    "s1 = ?s0\<lparr>mach := mach s1, tasks := tasks s1\<rparr>" "tasks s1 c = Some ((the (tasks s c))\<lparr>tnext := x\<rparr>)"
    "\<forall>p \<in> set (n # ys). tasks s1 p = tasks s p" "reaped hs pd fpt (tasks s) ?ds (mach s) (mach s1)"
    by (rule pick_next_ok [OF T(2), unfolded cl n list.case]) (rule that)
  have rest: "rest = ?ds @ n # ys" using takeWhile_dropWhile_id [of ?Z rest] n by simp
  have mem: "set ?ds \<subseteq> set (c # rest)" "set (c # n # ys) \<subseteq> set (c # rest)" "set ?ds \<inter> set (c # n # ys) = {}"
    "distinct (c # n # ys)" "set (n # ys) \<subseteq> set rest"
  proof -
    have "distinct (c # ?ds @ n # ys)" "set rest = set ?ds \<union> set (n # ys)" using dist rest by (metis, metis set_append)
    then show "set ?ds \<subseteq> set (c # rest)" "set (c # n # ys) \<subseteq> set (c # rest)" "set ?ds \<inter> set (c # n # ys) = {}"
      "distinct (c # n # ys)" "set (n # ys) \<subseteq> set rest" by auto
  qed
  have hold: "\<forall>p \<in> set (c # n # ys). same_holdings (the (tasks s p)) (the (tasks s1 p))"
    using s1(4,5) by auto
  note ST = reaped_stacks [OF O T(3) s1(6) mem(1-3) hold]
  have "blocks (mach s1) = {b \<in> blocks (mach s). fst b \<notin> set (concat (map (\<lambda>p. task_addrs p (the (tasks s p))) ?ds))}"
    using s1(6) unfolding reaped_def by blast
  then show thesis using that [OF s1(1-5) ST(1)] ST(2) mem(4,5) by blast
qed

lemma switch_stage:
  assumes T: "tasks_ok hs pd fpt s (c # n # ys)" and P: "stacks_placed hs pd fpt bs be (mach s) (tasks s) (c # n # ys)"
    and L: "distinct [a_resume lab, a_start lab, a_user lab]" "g_active s"
    and rm: "stack_lo bs (the (tasks s c)) + 28 \<le> unat (c_esp (core s))" "unat (c_esp (core s)) \<le> stack_hi be (the (tasks s c))"
    and F: "\<forall>p \<in> set (n # ys). frame_ok lab bs be (mach s) (the (tasks s p)) \<and> tstate (the (tasks s p)) \<noteq> TASK_RUNNING"
  obtains s' where "switch_to lab c n s = Done s'" "sched_ok hs pd fpt bs be lab s' (n # ys @ [c])" "switched lab bs be c [] n ys s s'"
proof -
  define tc where "tc = the (tasks s c)"
  define tn where "tn = the (tasks s n)"
  define e where "e = unat (c_esp (core s))"
  define a where "a = unat (saved_esp tn)"
  have M: "mach_ok hs pd fpt (mach s)" and O: "owns_ok pd (mach s) (tasks s) (c # n # ys)" and R: "ring (tasks s) (c # n # ys)"
    using T by (auto simp: tasks_ok_def)
  have D: "c \<noteq> n" "c \<notin> set ys" "n \<notin> set ys" using R by (auto simp: ring_def)
  have t: "tasks s c = Some tc" "tasks s n = Some tn" "c \<noteq> n"
    using D ring_task [OF R, of n] ring_task [OF R, of c] by (auto simp: tc_def tn_def)
  let ?r = "frame_room lab (frame_word (mach s) tn 4)"
  have an: "stack_lo bs tn \<le> a" "a + ?r \<le> stack_hi be tn" using F by (simp_all add: frame_ok_def a_def tn_def)
  have rm': "stack_lo bs tc + 28 \<le> e" "e \<le> stack_hi be tc" using rm by (simp_all add: tc_def e_def)
  have data: "data_byte hs pd fpt (mach s) y" if "p \<in> set (c # n # ys)" "stack_lo bs (the (tasks s p)) \<le> y" "y < stack_hi be (the (tasks s p))" for p y
    by (rule stack_data [OF P that])
  have apart: "\<not> (stack_lo bs (the (tasks s q)) \<le> y \<and> y < stack_hi be (the (tasks s q)))"
    if "p \<in> set (c # n # ys)" "q \<in> set (c # n # ys)" "p \<noteq> q" "stack_lo bs (the (tasks s p)) \<le> y" "y < stack_hi be (the (tasks s p))" for p q y
    by (rule stacks_apart [OF M O P that])
  let ?tc = "tc\<lparr>tstate := if tstate tc = TASK_RUNNING then TASK_READY else tstate tc, slice_left := TASK_TIME_SLICE, saved_esp := of_nat (e - 28)\<rparr>"
  let ?tn = "tn\<lparr>tstate := TASK_RUNNING, slice_left := TASK_TIME_SLICE\<rparr>"
  obtain m' where m': "switch_to lab c n s = Done (s\<lparr>mach := m', tasks := (tasks s)(c \<mapsto> ?tc, n \<mapsto> ?tn),
      g_current := n, segtab := if kernel_stack_top tn \<noteq> 0 then tss_set_esp0 (kernel_stack_top tn) (segtab s) else segtab s,
      core := resume_core lab (core s) (mach s) tn\<rparr>)"
    "mach_ok hs pd fpt m'" "same_shape pd (mach s) m'"
    "\<forall>y < 4294967296. \<not> (e - 28 \<le> y \<and> y < e) \<and> \<not> (a + 20 \<le> y \<and> y < a + 24) \<longrightarrow> mbyte m' y = mbyte (mach s) y"
    "\<forall>k < 5. wd (phys (space m')) (e - 28 + 4 * k) = [c_edi (core s), c_esi (core s), c_ebx (core s), c_ebp (core s), a_resume lab] ! k"
  proof (rule switch_to_ok [OF M t, of lab, unfolded e_def [symmetric] a_def [symmetric]])
    show "28 \<le> e" using rm' by simp
    show "\<forall>y. e - 28 \<le> y \<and> y < e \<longrightarrow> data_byte hs pd fpt (mach s) y" using data [of c] t(1) rm' by auto
    show "\<forall>y. a \<le> y \<and> y < a + ?r \<longrightarrow> data_byte hs pd fpt (mach s) y" using data [of n] t(2) an by auto
    show "\<forall>y. a \<le> y \<and> y < a + ?r \<longrightarrow> \<not> (e - 28 \<le> y \<and> y < e)"
    proof (intro allI impI)
      fix y assume y: "a \<le> y \<and> y < a + ?r"
      then have "\<not> (stack_lo bs tc \<le> y \<and> y < stack_hi be tc)" using apart [of n c y] t an by auto
      then show "\<not> (e - 28 \<le> y \<and> y < e)" using rm' by auto
    qed
  qed (rule that, assumption+)
  let ?s = "s\<lparr>mach := m', tasks := (tasks s)(c \<mapsto> ?tc, n \<mapsto> ?tn),
      g_current := n, segtab := if kernel_stack_top tn \<noteq> 0 then tss_set_esp0 (kernel_stack_top tn) (segtab s) else segtab s,
      core := resume_core lab (core s) (mach s) tn\<rparr>"
  have lt: "y < 4294967296" if "p \<in> set (c # n # ys)" "stack_lo bs (the (tasks s p)) \<le> y" "y < stack_hi be (the (tasks s p))" for p y
    using data_byte_low [OF M data [OF that]] by simp
  have inn: "stack_lo bs tn \<le> y \<and> y < stack_hi be tn" if "a + 20 \<le> y \<and> y < a + 24" for y
    using that an frame_room_ge(1) [of lab "frame_word (mach s) tn 4"] by auto
  have ky: "mbyte m' y = mbyte (mach s) y" if p: "p \<in> set ys" "stack_lo bs (the (tasks s p)) \<le> y" "y < stack_hi be (the (tasks s p))" for p y
  proof -
    have "p \<noteq> c" "p \<noteq> n" using p(1) D by auto
    then have "\<not> (stack_lo bs tc \<le> y \<and> y < stack_hi be tc)" "\<not> (stack_lo bs tn \<le> y \<and> y < stack_hi be tn)"
      using apart [of p c y] apart [of p n y] p by (simp_all add: tc_def tn_def)
    then show ?thesis using m'(4) lt [of p y] p rm' inn [of y] by auto
  qed
  have kc: "mbyte m' y = mbyte (mach s) y" if y: "e \<le> y" "y < stack_hi be tc" for y
  proof -
    have "\<not> (stack_lo bs tn \<le> y \<and> y < stack_hi be tn)" using apart [of c n y] D y rm' by (auto simp: tc_def tn_def)
    then show ?thesis using m'(4) lt [of c y] y rm' inn [of y] by (auto simp: tc_def)
  qed
  define ts where "ts = (tasks s)(c \<mapsto> ?tc, n \<mapsto> ?tn)"
  have hold: "\<forall>p \<in> set (c # n # ys). same_holdings (the (tasks s p)) (the (ts p))"
    using t by (simp add: ts_def same_holdings_def)
  have tsv: "ts c = Some ?tc" "ts n = Some ?tn" "\<forall>p \<in> set ys. ts p = tasks s p" using D by (auto simp: ts_def)
  have ring': "ring ts (n # ys @ [c])"
  proof -
    have "ring ts (c # n # ys)" by (rule ring_cong [OF R]) (use t in \<open>auto simp: ts_def\<close>)
    from ring_rotate [OF this] show ?thesis by simp
  qed
  have own': "owns_ok pd m' ts (n # ys @ [c])" using owns_rotate [OF owns_shape [OF O m'(3) hold]] by simp
  have placed': "stacks_placed hs pd fpt bs be m' ts (n # ys @ [c])"
    by (rule stacks_placed_shape [OF P _ hold]) (use m'(3) in \<open>auto simp: same_shape_def\<close>)
  have e32: "unat (of_nat (e - 28) :: u32) = e - 28"
    unfolding e_def by (rule unat_of_nat32) (rule less_imp_diff_less [OF unat_lt32])
  have fw: "frame_word m' ?tc k = [c_edi (core s), c_esi (core s), c_ebx (core s), c_ebp (core s), a_resume lab] ! k" if "k < 5" for k
    using m'(5) that by (simp add: frame_word_def e32 del: of_nat_diff)
  have fc: "frame_ok lab bs be m' ?tc"
    using fw [of 4] rm' L(1) by (auto simp: frame_ok_def frame_room_def e32 stack_lo_def stack_hi_def simp del: of_nat_diff split: if_splits)
  have fy: "frame_ok lab bs be m' (the (ts p))" if p: "p \<in> set ys" for p
    using frame_ok_kept(1) [of lab bs be "mach s" "the (tasks s p)" m'] F p tsv(3) ky [OF p] by simp
  have st: "tstate ?tc \<noteq> TASK_RUNNING" by simp
  have sch: "sched_ok hs pd fpt bs be lab ?s (n # ys @ [c])"
    using m'(2) L ring' own' placed' fc fy tsv F st unfolding sched_ok_def tasks_ok_def ts_def [symmetric] by auto
  have "switched lab bs be c [] n ys s ?s"
    unfolding switched_def
  proof (intro conjI)
    show "\<exists>x. tasks ?s c = Some ((the (tasks s c))\<lparr>tnext := x,
        tstate := if tstate (the (tasks s c)) = TASK_RUNNING then TASK_READY else tstate (the (tasks s c)),
        slice_left := TASK_TIME_SLICE, saved_esp := c_esp (core s) - 28\<rparr>)"
      using D rm' by (intro exI [of _ "tnext tc"]) (simp add: t of_nat_diff e_def)
    show "\<forall>k < 5. frame_word (mach ?s) (the (tasks ?s c)) k =
        [c_edi (core s), c_esi (core s), c_ebx (core s), c_ebp (core s), a_resume lab] ! k" using fw D(1) by simp
    show "\<forall>p \<in> set ys. tasks ?s p = tasks s p \<and>
        (\<forall>y. stack_lo bs (the (tasks s p)) \<le> y \<and> y < stack_hi be (the (tasks s p)) \<longrightarrow> mbyte (mach ?s) y = mbyte (mach s) y)"
      using tsv(3) ky by (simp add: ts_def)
    show "blocks (mach ?s) = {b \<in> blocks (mach s). fst b \<notin> set (concat (map (\<lambda>p. task_addrs p (the (tasks s p))) []))}"
      using m'(3) by (simp add: same_shape_def)
  qed (use t kc in \<open>auto simp: e_def\<close>)
  then show thesis using that [OF m'(1) sch] by blast
qed

text \<open>A frame is read the same before and after other tasks have been reaped.\<close>

lemma resume_core_stack:
  assumes "frame_ok lab bs be m t" and "\<forall>y. stack_lo bs t \<le> y \<and> y < stack_hi be t \<longrightarrow> mbyte m' y = mbyte m y"
  shows "resume_core lab c m' t = resume_core lab c m t"
  by (rule resume_core_kept) (rule frame_ok_kept(2) [OF assms])

lemma yield_ok:
  assumes S: "sched_ok hs pd fpt bs be lab s (c # rest)" and R: "stack_room bs be s"
    and n: "dropWhile (is_zombie (tasks s)) rest = n # ys"
  obtains s' where "task_yield lab (of_nat pd) s = Some (Done (True, s'))" "sched_ok hs pd fpt bs be lab s' (n # ys @ [c])"
    "switched lab bs be c (takeWhile (is_zombie (tasks s)) rest) n ys s s'"
proof -
  have T: "g_active s" "g_current s = c" "distinct [a_resume lab, a_start lab, a_user lab]"
    "\<forall>p \<in> set rest. frame_ok lab bs be (mach s) (the (tasks s p)) \<and> tstate (the (tasks s p)) \<noteq> TASK_RUNNING"
    using S by (auto simp: sched_ok_def)
  obtain s1 x where s1: "pick_next (of_nat pd) c (cli s) = Some (Done (n, s1))" "tasks_ok hs pd fpt s1 (c # n # ys)"
    "s1 = (cli s)\<lparr>mach := mach s1, tasks := tasks s1\<rparr>" "tasks s1 c = Some ((the (tasks s c))\<lparr>tnext := x\<rparr>)"
    "\<forall>p \<in> set (n # ys). tasks s1 p = tasks s p" "stacks_placed hs pd fpt bs be (mach s1) (tasks s1) (c # n # ys)"
    "\<forall>p \<in> set (c # n # ys). \<forall>y. stack_lo bs (the (tasks s p)) \<le> y \<and> y < stack_hi be (the (tasks s p)) \<longrightarrow>
       mbyte (mach s1) y = mbyte (mach s) y"
    "blocks (mach s1) = {b \<in> blocks (mach s). fst b \<notin>
       set (concat (map (\<lambda>p. task_addrs p (the (tasks s p))) (takeWhile (is_zombie (tasks s)) rest)))}"
    "distinct (c # n # ys)" "set (n # ys) \<subseteq> set rest" by (rule pick_stage [OF S n]) (rule that)
  have o1: "core s1 = (core s)\<lparr>c_if := False\<rparr>" "segtab s1 = segtab s" "g_need_resched s1 = g_need_resched s" "g_next_id s1 = g_next_id s"
    "g_active s1 = g_active s" by (subst s1(3), simp add: cli_def)+
  have lc: "stack_lo bs (the (tasks s1 c)) = stack_lo bs (the (tasks s c))" "stack_hi be (the (tasks s1 c)) = stack_hi be (the (tasks s c))"
    using s1(4) by (simp_all add: stack_lo_def stack_hi_def)
  have rm: "stack_lo bs (the (tasks s c)) + 28 \<le> unat (c_esp (core s))" "unat (c_esp (core s)) \<le> stack_hi be (the (tasks s c))"
    using R T(2) by (simp_all add: stack_room_def)
  have kept: "\<forall>y. stack_lo bs (the (tasks s p)) \<le> y \<and> y < stack_hi be (the (tasks s p)) \<longrightarrow> mbyte (mach s1) y = mbyte (mach s) y"
    if "p \<in> set (c # n # ys)" for p using s1(7) that by blast
  have F: "\<forall>p \<in> set (n # ys). frame_ok lab bs be (mach s1) (the (tasks s1 p)) \<and> tstate (the (tasks s1 p)) \<noteq> TASK_RUNNING"
  proof
    fix p assume p: "p \<in> set (n # ys)"
    then have f: "frame_ok lab bs be (mach s) (the (tasks s p))" "tstate (the (tasks s p)) \<noteq> TASK_RUNNING" "tasks s1 p = tasks s p"
      using T(4) s1(5,10) by auto
    from frame_ok_kept(1) [OF f(1) kept] p f(2,3)
    show "frame_ok lab bs be (mach s1) (the (tasks s1 p)) \<and> tstate (the (tasks s1 p)) \<noteq> TASK_RUNNING" by simp
  qed
  obtain s' where s': "switch_to lab c n s1 = Done s'" "sched_ok hs pd fpt bs be lab s' (n # ys @ [c])" "switched lab bs be c [] n ys s1 s'"
    by (rule switch_stage [OF s1(2,6) T(3) _ _ _ F]) (use T(1) rm lc o1 in \<open>auto intro: that\<close>)
  have tn: "the (tasks s1 n) = the (tasks s n)" using s1(5) by simp
  have rc: "resume_core lab (core s) (mach s1) (the (tasks s n)) = resume_core lab (core s) (mach s) (the (tasks s n))"
    using resume_core_stack [OF _ kept [of n], of lab "core s"] T(4) s1(10) by simp
  note W = s'(3) [unfolded switched_def tn o1 lc resume_core_if rc]
  have "switched lab bs be c (takeWhile (is_zombie (tasks s)) rest) n ys s s'"
    unfolding switched_def
  proof (intro conjI)
    show "\<exists>x. tasks s' c = Some ((the (tasks s c))\<lparr>tnext := x,
        tstate := if tstate (the (tasks s c)) = TASK_RUNNING then TASK_READY else tstate (the (tasks s c)),
        slice_left := TASK_TIME_SLICE, saved_esp := c_esp (core s) - 28\<rparr>)" using W s1(4) by auto
    show "\<forall>y. unat (c_esp (core s)) \<le> y \<and> y < stack_hi be (the (tasks s c)) \<longrightarrow> mbyte (mach s') y = mbyte (mach s) y"
      using W kept [of c] rm by auto
    show "\<forall>p \<in> set ys. tasks s' p = tasks s p \<and>
        (\<forall>y. stack_lo bs (the (tasks s p)) \<le> y \<and> y < stack_hi be (the (tasks s p)) \<longrightarrow> mbyte (mach s') y = mbyte (mach s) y)"
      using W kept s1(5) by auto
    show "blocks (mach s') = {b \<in> blocks (mach s). fst b \<notin>
       set (concat (map (\<lambda>p. task_addrs p (the (tasks s p))) (takeWhile (is_zombie (tasks s)) rest)))}" using W s1(8) by simp
  qed (use W in \<open>auto\<close>)
  moreover have "task_yield lab (of_nat pd) s = Some (Done (True, s'))"
    using T(1,2) s1(1,9) s'(1) by (auto simp: task_yield_def Let_def cli_def)
  ultimately show thesis using that s'(2) by blast
qed

end
