(* ===== verification/Sched_Create.thy ===== *)
theory Sched_Create
  imports Sched_Spec
begin

text \<open>
  Starting the scheduler and creating tasks: \<^verbatim>\<open>tasking_init\<close>, \<^verbatim>\<open>task_create\<close> and
  \<^verbatim>\<open>task_create_user\<close> establish and keep \<open>sched_ok\<close>, and a new task has a frame from which a switch
  enters it.
\<close>

unbundle bit_operations_syntax

section \<open>Heap calls in a scheduler state\<close>

lemma owns_grow:
  assumes O: "owns_ok pd m ts xs" and "blocks m \<subseteq> blocks m'" and "images m' = images m"
    and "\<And>w. mmu (space m') w = mmu (space m) w" and "\<And>g. data_page pd (space m') g = data_page pd (space m) g"
  shows "owns_ok pd m' ts xs"
proof (rule owns_kept [OF O])
  have "pages_mapped pd (space m') vs F = pages_mapped pd (space m) vs F" for vs F
    using assms(4,5) by (simp add: pages_mapped_def user_page_def)
  then show "\<exists>F. pages_mapped pd (space m') (concat (map (\<lambda>p. task_pages m (the (ts p))) xs)) F"
    using O by (auto simp: owns_ok_def)
  show "set (concat (map (\<lambda>p. task_addrs p (the (ts p))) xs)) \<subseteq> fst ` blocks m'"
    using O unfolding owns_ok_def by (elim conjE) (erule subset_trans, rule image_mono [OF assms(2)])
qed (use assms(3) in auto)

lemma malloc_ok:
  assumes M: "mach_ok hs pd fpt m" and a: "ld_malloc n m = Some (Done (p, m'))" and p: "p \<noteq> 0" and n: "n \<le> 0xFFFFFFF8"
  obtains z where "mach_ok hs pd fpt m'" "unat p \<notin> fst ` blocks m" "blocks m' = insert (unat p, z) (blocks m)" "unat n \<le> z"
    "images m' = images m" "\<And>w. mmu (space m') w = mmu (space m) w" "\<And>g. data_page pd (space m') g = data_page pd (space m) g"
    "\<And>y. data_byte hs pd fpt m y \<Longrightarrow> mbyte m' y = mbyte m y" "frames (space m') = frames (space m)"
    "\<And>y. data_byte hs pd fpt m y \<Longrightarrow> \<not> (unat p \<le> y \<and> y < unat p + z)" "owned pd (space m') = owned pd (space m)"
proof -
  note A = lh.alloc_result [OF M a]
  obtain z where z: "unat p \<notin> fst ` blocks m" "blocks m' = insert (unat p, z) (blocks m)" "unat n \<le> z" using A(3) [OF p] n by auto
  obtain h where h: "m' = heap_back m h" "heap_step hs m m'" using ld_malloc_ok [OF M, of n] a by auto
  note K = heap_step_keeps [OF M h(2)]
  have b: "mbyte m' y = mbyte m y" if y: "data_byte hs pd fpt m y" for y
  proof (cases "low_data hs pd fpt y")
    case True
    then show ?thesis using heap_step_outside [OF h(2), of y] by (simp add: low_data_def)
  next
    case False
    then obtain q w where q: "(q, w) \<in> blocks m" "q \<le> y" "y < q + w" using y by (auto simp: data_byte_def)
    from A(4) [OF q(1), of "y - q"] q show ?thesis by simp
  qed
  have apart: "\<not> (unat p \<le> y \<and> y < unat p + z)" if y: "data_byte hs pd fpt m y" for y
  proof (cases "low_data hs pd fpt y")
    case True
    then show ?thesis using block_in_slab [OF A(1), of "unat p" z] z(2) by (auto simp: low_data_def slab_def)
  next
    case False
    then obtain q w where q: "(q, w) \<in> blocks m" "q \<le> y" "y < q + w" using y by (auto simp: data_byte_def)
    moreover have "q \<noteq> unat p" using q(1) z(1) by force
    moreover have "(q, w) \<in> blocks m'" "(unat p, z) \<in> blocks m'" using q(1) z(2) by auto
    ultimately show ?thesis using lh.live_apart [OF A(1), of "unat p" z q w] by auto
  qed
  show thesis using that [OF A(1) z K(5,2,4) b K(6) apart K(3)] by blast
qed

lemma sched_grow:
  assumes S: "sched_ok hs pd fpt bs be lab s xs" and a: "tk_malloc n s = Some (Done (p, s'))" and p: "p \<noteq> 0" and n: "n \<le> 0xFFFFFFF8"
  obtains z m' where "s' = s\<lparr>mach := m'\<rparr>" "sched_ok hs pd fpt bs be lab s' xs" "unat p \<notin> fst ` blocks (mach s)"
    "blocks m' = insert (unat p, z) (blocks (mach s))" "unat n \<le> z"
    "\<And>y. data_byte hs pd fpt (mach s) y \<Longrightarrow> mbyte m' y = mbyte (mach s) y"
    "\<And>y. data_byte hs pd fpt (mach s) y \<Longrightarrow> \<not> (unat p \<le> y \<and> y < unat p + z)"
    "owned pd (space m') = owned pd (space (mach s))" "images m' = images (mach s)"
proof -
  obtain m' where m': "ld_malloc n (mach s) = Some (Done (p, m'))" "s' = s\<lparr>mach := m'\<rparr>"
    using a by (auto simp: tk_malloc_def then_run_def split: bind_splits outcome.splits)
  have T: "mach_ok hs pd fpt (mach s)" "ring (tasks s) xs" "owns_ok pd (mach s) (tasks s) xs"
    "stacks_placed hs pd fpt bs be (mach s) (tasks s) xs" "g_active s" "g_current s = hd xs" "distinct [a_resume lab, a_start lab, a_user lab]"
    "\<forall>p \<in> set (tl xs). frame_ok lab bs be (mach s) (the (tasks s p)) \<and> tstate (the (tasks s p)) \<noteq> TASK_RUNNING"
    using S by (auto simp: sched_ok_def tasks_ok_def)
  obtain z where z: "mach_ok hs pd fpt m'" "unat p \<notin> fst ` blocks (mach s)" "blocks m' = insert (unat p, z) (blocks (mach s))" "unat n \<le> z"
    "images m' = images (mach s)" "\<And>w. mmu (space m') w = mmu (space (mach s)) w" "\<And>g. data_page pd (space m') g = data_page pd (space (mach s)) g"
    "\<And>y. data_byte hs pd fpt (mach s) y \<Longrightarrow> mbyte m' y = mbyte (mach s) y"
    "\<And>y. data_byte hs pd fpt (mach s) y \<Longrightarrow> \<not> (unat p \<le> y \<and> y < unat p + z)" "owned pd (space m') = owned pd (space (mach s))"
    by (rule malloc_ok [OF T(1) m'(1) p n]) (rule that)
  have O: "owns_ok pd m' (tasks s) xs" by (rule owns_grow [OF T(3) _ z(5-7)]) (use z(3) in auto)
  have P: "stacks_placed hs pd fpt bs be m' (tasks s) xs"
    using T(4) unfolding stacks_placed_def z(3) by blast
  have F: "frame_ok lab bs be m' (the (tasks s q))" if q: "q \<in> set (tl xs)" for q
  proof (rule frame_ok_kept(1))
    show "frame_ok lab bs be (mach s) (the (tasks s q))" using T(8) q by blast
    have "q \<in> set xs" using q by (cases xs) auto
    then show "\<forall>y. stack_lo bs (the (tasks s q)) \<le> y \<and> y < stack_hi be (the (tasks s q)) \<longrightarrow> mbyte m' y = mbyte (mach s) y"
      using stack_data [OF T(4)] z(8) by blast
  qed
  have "sched_ok hs pd fpt bs be lab s' xs"
    using T z(1) O P F by (simp add: sched_ok_def tasks_ok_def m'(2))
  then show thesis using that [OF m'(2)] z by blast
qed

lemma sched_same:
  assumes S: "sched_ok hs pd fpt bs be lab s xs" and M: "mach_ok hs pd fpt m'" and sh: "same_shape pd (mach s) m'"
    and b: "\<And>p y. p \<in> set xs \<Longrightarrow> stack_lo bs (the (tasks s p)) \<le> y \<Longrightarrow> y < stack_hi be (the (tasks s p)) \<Longrightarrow> mbyte m' y = mbyte (mach s) y"
  shows "sched_ok hs pd fpt bs be lab (s\<lparr>mach := m'\<rparr>) xs"
proof -
  have T: "owns_ok pd (mach s) (tasks s) xs" "stacks_placed hs pd fpt bs be (mach s) (tasks s) xs"
    "\<forall>p \<in> set (tl xs). frame_ok lab bs be (mach s) (the (tasks s p)) \<and> tstate (the (tasks s p)) \<noteq> TASK_RUNNING"
    using S by (auto simp: sched_ok_def tasks_ok_def)
  have "owns_ok pd m' (tasks s) xs" by (rule owns_shape [OF T(1) sh]) simp
  moreover have "stacks_placed hs pd fpt bs be m' (tasks s) xs"
    by (rule stacks_placed_shape [OF T(2)]) (use sh in \<open>auto simp: same_shape_def\<close>)
  moreover have "frame_ok lab bs be m' (the (tasks s q))" if q: "q \<in> set (tl xs)" for q
  proof (rule frame_ok_kept(1))
    show "frame_ok lab bs be (mach s) (the (tasks s q))" using T(3) q by blast
    have "q \<in> set xs" using q by (cases xs) auto
    then show "\<forall>y. stack_lo bs (the (tasks s q)) \<le> y \<and> y < stack_hi be (the (tasks s q)) \<longrightarrow> mbyte m' y = mbyte (mach s) y"
      using b by blast
  qed
  ultimately show ?thesis using S M by (simp add: sched_ok_def tasks_ok_def)
qed

lemma push_sched:
  assumes S: "sched_ok hs pd fpt bs be lab s xs" and e: "4 * length ws \<le> e"
    and d: "\<forall>y. e - 4 * length ws \<le> y \<and> y < e \<longrightarrow> data_byte hs pd fpt (mach s) y \<and>
      (\<forall>p \<in> set xs. \<not> (stack_lo bs (the (tasks s p)) \<le> y \<and> y < stack_hi be (the (tasks s p))))"
  obtains m' where "push_words (of_nat e) ws s = Done (of_nat (e - 4 * length ws), s\<lparr>mach := m'\<rparr>)"
    "sched_ok hs pd fpt bs be lab (s\<lparr>mach := m'\<rparr>) xs" "same_shape pd (mach s) m'" "pushed (phys (space m')) e ws"
    "\<forall>y < 4294967296. y < e - 4 * length ws \<or> e \<le> y \<longrightarrow> mbyte m' y = mbyte (mach s) y"
proof -
  have M: "mach_ok hs pd fpt (mach s)" and P: "stacks_placed hs pd fpt bs be (mach s) (tasks s) xs"
    using S by (auto simp: sched_ok_def tasks_ok_def)
  from push_ok [OF M e] d obtain m' where
    m': "push_words (of_nat e) ws s = Done (of_nat (e - 4 * length ws), s\<lparr>mach := m'\<rparr>)" "mach_ok hs pd fpt m'" "same_shape pd (mach s) m'"
    "pushed (phys (space m')) e ws" "\<forall>y < 4294967296. y < e - 4 * length ws \<or> e \<le> y \<longrightarrow> mbyte m' y = mbyte (mach s) y" by blast
  have "sched_ok hs pd fpt bs be lab (s\<lparr>mach := m'\<rparr>) xs"
  proof (rule sched_same [OF S m'(2,3)])
    fix p y assume p: "p \<in> set xs" "stack_lo bs (the (tasks s p)) \<le> y" "y < stack_hi be (the (tasks s p))"
    have "y < 4294967296" using data_byte_low [OF M stack_data [OF P p]] by simp
    moreover have "y < e - 4 * length ws \<or> e \<le> y" using d p by (meson not_less)
    ultimately show "mbyte m' y = mbyte (mach s) y" using m'(5) by blast
  qed
  then show thesis using that m' by blast
qed

lemma enqueue_ok:
  assumes S: "sched_ok hs pd fpt bs be lab s (c # rest)" and t: "t \<notin> set (c # rest)"
    and x: "tstate x = TASK_READY" "timage x = 0" "frame_ok lab bs be (mach s) x" "stack_base x \<noteq> 0"
      "\<exists>z \<ge> 16384. (unat (stack_base x), z) \<in> blocks (mach s)"
    and A: "distinct (task_addrs t x)" "set (task_addrs t x) \<subseteq> fst ` blocks (mach s)"
      "set (task_addrs t x) \<inter> set (concat (map (\<lambda>p. task_addrs p (the (tasks s p))) (c # rest))) = {}"
  obtains s' tc where "enqueue t (s\<lparr>tasks := (tasks s)(t \<mapsto> x)\<rparr>) = Done s'" "sched_ok hs pd fpt bs be lab s' (c # t # rest)"
    "tasks s c = Some tc" "s' = (sti s)\<lparr>tasks := (tasks s)(t \<mapsto> x\<lparr>tnext := tnext tc\<rparr>, c \<mapsto> tc\<lparr>tnext := t\<rparr>)\<rparr>"
proof -
  have T: "mach_ok hs pd fpt (mach s)" "ring (tasks s) (c # rest)" "owns_ok pd (mach s) (tasks s) (c # rest)"
    "stacks_placed hs pd fpt bs be (mach s) (tasks s) (c # rest)" "g_active s" "g_current s = c" "distinct [a_resume lab, a_start lab, a_user lab]"
    "\<forall>p \<in> set rest. frame_ok lab bs be (mach s) (the (tasks s p)) \<and> tstate (the (tasks s p)) \<noteq> TASK_RUNNING"
    using S by (auto simp: sched_ok_def tasks_ok_def)
  obtain tc where tc: "tasks s c = Some tc" using ring_task [OF T(2), of c] by auto
  define ts where "ts = (tasks s)(t \<mapsto> x\<lparr>tnext := tnext tc\<rparr>, c \<mapsto> tc\<lparr>tnext := t\<rparr>)"
  let ?s' = "(sti s)\<lparr>tasks := ts\<rparr>"
  have ct: "c \<noteq> t" "c \<notin> set rest" "t \<notin> set rest" using t T(2) by (auto simp: ring_def)
  have call: "enqueue t (s\<lparr>tasks := (tasks s)(t \<mapsto> x)\<rparr>) = Done ?s'"
    using T(5,6) tc ct(1) by (simp add: enqueue_def Let_def cli_def sti_def ready_insert_after_current_def upd_task_def task_at_def ts_def)
  have tsv: "ts t = Some (x\<lparr>tnext := tnext tc\<rparr>)" "\<forall>p \<in> set (c # rest). same_holdings (the (tasks s p)) (the (ts p))"
    "\<forall>p \<in> set rest. ts p = tasks s p" using ct tc by (auto simp: ts_def)
  have R: "ring ts (c # t # rest)" unfolding ts_def by (rule ring_insert [OF T(2) tc t])
  have O: "owns_ok pd (mach s) ts (c # rest)" by (rule owns_shape [OF T(3) _ tsv(2)]) simp
  have ax: "task_addrs t (the (ts t)) = task_addrs t x" "task_pages (mach s) (the (ts t)) = []"
    using tsv(1) x(2) by (simp_all add: task_addrs_def task_pages_def)
  have ac: "map (\<lambda>p. task_addrs p (the (ts p))) (c # rest) = map (\<lambda>p. task_addrs p (the (tasks s p))) (c # rest)"
    using tsv(2) by (intro map_cong) (auto simp: task_addrs_def same_holdings_def)
  have O2: "owns_ok pd (mach s) ts (c # t # rest)"
    using O A ax tsv(1) x(2) unfolding owns_ok_def ac [symmetric] by auto
  have P: "stacks_placed hs pd fpt bs be (mach s) ts (c # rest)" by (rule stacks_placed_shape [OF T(4) _ tsv(2)]) simp_all
  have P2: "stacks_placed hs pd fpt bs be (mach s) ts (c # t # rest)"
    using P x(4,5) tsv(1) by (auto simp: stacks_placed_def)
  have F: "frame_ok lab bs be (mach s) (the (ts t))" using x(3) tsv(1) by (simp add: frame_ok_task [of "x\<lparr>tnext := tnext tc\<rparr>" x])
  have "sched_ok hs pd fpt bs be lab ?s' (c # t # rest)"
    using T R O2 P2 F tsv x(1) by (auto simp: sched_ok_def tasks_ok_def sti_def)
  then show thesis using that [OF call _ tc] by (simp add: ts_def)
qed

section \<open>Creating a task\<close>

text \<open>The part that both constructors share: push the first frame, store the structure, enter the ring.\<close>

lemma create_finish:
  fixes st :: u32 and ws :: "u32 list"
  assumes e_def: "e = unat st + 16384" and n_def: "n = length ws"
    and S: "sched_ok hs pd fpt bs be lab s (c # rest)" and t: "t \<notin> set (c # rest)"
    and st: "st \<noteq> 0" "16384 \<le> z" "(unat st, z) \<in> blocks (mach s)"
      "\<forall>p \<in> set (c # rest). \<forall>y. unat st \<le> y \<and> y < unat st + z \<longrightarrow>
        \<not> (stack_lo bs (the (tasks s p)) \<le> y \<and> y < stack_hi be (the (tasks s p)))"
    and x: "tstate x = TASK_READY" "timage x = 0" "stack_base x = st" "saved_esp x = of_nat (e - 4 * n)"
    and w: "5 \<le> n" "n \<le> 10" "frame_room lab (ws ! (n - 5)) = 4 * n"
    and A: "distinct (task_addrs t x)" "set (task_addrs t x) \<subseteq> fst ` blocks (mach s)"
      "set (task_addrs t x) \<inter> set (concat (map (\<lambda>p. task_addrs p (the (tasks s p))) (c # rest))) = {}"
  obtains m' tc s' where "push_words (of_nat e) ws s = Done (of_nat (e - 4 * n), s\<lparr>mach := m'\<rparr>)"
    "enqueue t (s\<lparr>mach := m', tasks := (tasks s)(t \<mapsto> x)\<rparr>) = Done s'" "sched_ok hs pd fpt bs be lab s' (c # t # rest)"
    "tasks s c = Some tc" "s' = (sti s)\<lparr>mach := m', tasks := (tasks s)(t \<mapsto> x\<lparr>tnext := tnext tc\<rparr>, c \<mapsto> tc\<lparr>tnext := t\<rparr>)\<rparr>"
    "\<forall>k < n. frame_word m' x k = ws ! (n - 1 - k)" "same_shape pd (mach s) m'"
    "\<forall>y < 4294967296. y < e - 4 * n \<or> e \<le> y \<longrightarrow> mbyte m' y = mbyte (mach s) y"
proof -
  have M: "mach_ok hs pd fpt (mach s)" using S by (simp add: sched_ok_def tasks_ok_def)
  have en: "4 * n \<le> e" "e - 4 * n \<ge> unat st" using w(2) by (auto simp: e_def)
  have d: "\<forall>y. e - 4 * length ws \<le> y \<and> y < e \<longrightarrow> data_byte hs pd fpt (mach s) y \<and>
      (\<forall>p \<in> set (c # rest). \<not> (stack_lo bs (the (tasks s p)) \<le> y \<and> y < stack_hi be (the (tasks s p))))"
  proof (intro allI impI)
    fix y assume "e - 4 * length ws \<le> y \<and> y < e"
    then have y: "unat st \<le> y" "y < unat st + z" using en st(2) by (auto simp: e_def n_def)
    then have "data_byte hs pd fpt (mach s) y" using st(3) by (auto simp: data_byte_def)
    then show "data_byte hs pd fpt (mach s) y \<and>
      (\<forall>p \<in> set (c # rest). \<not> (stack_lo bs (the (tasks s p)) \<le> y \<and> y < stack_hi be (the (tasks s p))))"
      using st(4) y by blast
  qed
  obtain m' where m': "push_words (of_nat e) ws s = Done (of_nat (e - 4 * n), s\<lparr>mach := m'\<rparr>)"
    "sched_ok hs pd fpt bs be lab (s\<lparr>mach := m'\<rparr>) (c # rest)" "same_shape pd (mach s) m'" "pushed (phys (space m')) e ws"
    "\<forall>y < 4294967296. y < e - 4 * n \<or> e \<le> y \<longrightarrow> mbyte m' y = mbyte (mach s) y"
    using push_sched [OF S, of ws e] en(1) d unfolding n_def by blast
  have b: "blocks m' = blocks (mach s)" using m'(3) by (simp add: same_shape_def)
  have "e \<le> 0x100000" using block_in_slab [OF M st(3)] st(2) M by (auto simp: e_def mach_ok_def space_ok_def)
  then have sp: "unat (saved_esp x) = e - 4 * n" unfolding x(4) by (intro unat_of_nat32) simp
  have fw: "frame_word m' x k = ws ! (n - 1 - k)" if k: "k < n" for k
  proof -
    have "wd (phys (space m')) (e - 4 * Suc (n - 1 - k)) = ws ! (n - 1 - k)" using m'(4) k by (simp add: pushed_def n_def)
    moreover have "e - 4 * Suc (n - 1 - k) = e - 4 * n + 4 * k" using k en(1) by auto
    ultimately show ?thesis by (simp add: frame_word_def sp)
  qed
  have "n - 1 - 4 = n - 5" by simp
  then have fx: "frame_ok lab bs be m' x"
    using fw [of 4] w st(1) en by (simp add: frame_ok_def sp x(3) stack_lo_def stack_hi_def) (simp add: e_def)
  have st': "\<exists>z \<ge> 16384. (unat (stack_base x), z) \<in> blocks m'" using st(2,3) x(3) b by auto
  obtain s' tc where s': "enqueue t ((s\<lparr>mach := m'\<rparr>)\<lparr>tasks := (tasks (s\<lparr>mach := m'\<rparr>))(t \<mapsto> x)\<rparr>) = Done s'"
    "sched_ok hs pd fpt bs be lab s' (c # t # rest)" "tasks (s\<lparr>mach := m'\<rparr>) c = Some tc"
    "s' = (sti (s\<lparr>mach := m'\<rparr>))\<lparr>tasks := (tasks (s\<lparr>mach := m'\<rparr>))(t \<mapsto> x\<lparr>tnext := tnext tc\<rparr>, c \<mapsto> tc\<lparr>tnext := t\<rparr>)\<rparr>"
    by (rule enqueue_ok [OF m'(2) t x(1,2)]) (use fx st' A st(1) x(3) b in \<open>auto intro: that\<close>)
  have "sti (s\<lparr>mach := m'\<rparr>) = (sti s)\<lparr>mach := m'\<rparr>" by (cases s) (simp add: sti_def)
  note s4 = s'(4) [unfolded this]
  show thesis
    by (rule that [OF m'(1) _ s'(2)]) (use s'(1,3) s4 fw m'(3,5) in simp_all)
qed

lemma fresh_task:
  assumes S: "sched_ok hs pd fpt bs be lab s xs" and a: "unat t \<notin> fst ` blocks (mach s)"
  shows "t \<notin> set xs"
proof
  assume "t \<in> set xs"
  then have "unat t \<in> set (concat (map (\<lambda>p. task_addrs p (the (tasks s p))) xs))" by (auto simp: task_addrs_def)
  then show False using S a by (auto simp: sched_ok_def tasks_ok_def owns_ok_def)
qed

lemma addrs_in_blocks:
  "sched_ok hs pd fpt bs be lab s xs \<Longrightarrow> set (concat (map (\<lambda>p. task_addrs p (the (tasks s p))) xs)) \<subseteq> fst ` blocks (mach s)"
  by (simp add: sched_ok_def tasks_ok_def owns_ok_def)

lemma sched_id: "sched_ok hs pd fpt bs be lab (s\<lparr>g_next_id := i\<rparr>) xs = sched_ok hs pd fpt bs be lab s xs"
  by (simp add: sched_ok_def tasks_ok_def)

lemma task_create_ok:
  assumes S: "sched_ok hs pd fpt bs be lab s (c # rest)"
    and a1: "tk_malloc SIZEOF_TASK s = Some (Done (t, s1))" "t \<noteq> 0"
    and a2: "tk_malloc TASK_STACK_SIZE s1 = Some (Done (st, s2))" "st \<noteq> 0"
  obtains s' x tc z1 z2 where "task_create lab name fn s = Some (Done (t, s'))" "sched_ok hs pd fpt bs be lab s' (c # t # rest)"
    "tasks s' t = Some x" "tid x = g_next_id s" "stack_base x = st" "kernel_stack_top x = st + 0x4000" "\<not> is_user x" "tstate x = TASK_READY"
    "slice_left x = TASK_TIME_SLICE" "saved_esp x = st + 0x4000 - 24"
    "\<forall>k < 6. frame_word (mach s') x k = [0, 0, 0, 0, a_start lab, fn] ! k"
    "tasks s c = Some tc" "tasks s' c = Some (tc\<lparr>tnext := t\<rparr>)" "\<forall>p \<in> set rest. tasks s' p = tasks s p"
    "blocks (mach s') = insert (unat st, z2) (insert (unat t, z1) (blocks (mach s)))" "g_next_id s' = g_next_id s + 1"
    "core s' = (core s)\<lparr>c_if := True\<rparr>" "\<forall>y. data_byte hs pd fpt (mach s) y \<longrightarrow> mbyte (mach s') y = mbyte (mach s) y"
proof -
  have sz: "SIZEOF_TASK \<le> 0xFFFFFFF8" "TASK_STACK_SIZE \<le> 0xFFFFFFF8" "unat TASK_STACK_SIZE = 16384"
    by (simp_all add: SIZEOF_TASK_def TASK_STACK_SIZE_def)
  obtain z1 m1 where m1: "s1 = s\<lparr>mach := m1\<rparr>" "sched_ok hs pd fpt bs be lab s1 (c # rest)" "unat t \<notin> fst ` blocks (mach s)"
    "blocks m1 = insert (unat t, z1) (blocks (mach s))" "\<And>y. data_byte hs pd fpt (mach s) y \<Longrightarrow> mbyte m1 y = mbyte (mach s) y"
    by (rule sched_grow [OF S a1 sz(1)]) (rule that)
  obtain z2 m2 where m2: "s2 = s1\<lparr>mach := m2\<rparr>" "sched_ok hs pd fpt bs be lab s2 (c # rest)" "unat st \<notin> fst ` blocks (mach s1)"
    "blocks m2 = insert (unat st, z2) (blocks (mach s1))" "unat TASK_STACK_SIZE \<le> z2"
    "\<And>y. data_byte hs pd fpt (mach s1) y \<Longrightarrow> mbyte m2 y = mbyte (mach s1) y"
    "\<And>y. data_byte hs pd fpt (mach s1) y \<Longrightarrow> \<not> (unat st \<le> y \<and> y < unat st + z2)"
    by (rule sched_grow [OF m1(2) a2 sz(2)]) (rule that)
  define e where "e = unat st + 16384"
  define s0 where "s0 = s2\<lparr>g_next_id := g_next_id s + 1\<rparr>"
  have S0: "sched_ok hs pd fpt bs be lab s0 (c # rest)" using m2(2) by (simp add: s0_def sched_id)
  have f0: "tasks s0 = tasks s" "mach s0 = m2" "core s0 = core s" "g_next_id s2 = g_next_id s" "mach s1 = m1" by (simp_all add: s0_def m2(1) m1(1))
  define x where "x = \<lparr>tid = g_next_id s, tname = str_copy_n (raw_name t s0) name TASK_NAME_LEN,
      tstate = TASK_READY, saved_esp = of_nat (e - 24), stack_base = st, stack_size = TASK_STACK_SIZE,
      kernel_stack_top = st + TASK_STACK_SIZE, is_user = False, user_stack_base = 0,
      timage = 0, ticks_run = 0, slice_left = TASK_TIME_SLICE, tnext = raw_next t s0\<rparr>"
  let ?ws = "[fn, a_start lab, 0, 0, 0, 0]"
  have A: "set (concat (map (\<lambda>p. task_addrs p (the (tasks s0 p))) (c # rest))) \<subseteq> fst ` blocks (mach s)"
    using addrs_in_blocks [OF S] by (simp add: f0)
  have ax: "task_addrs t x = [unat st, unat t]" using a2(2) by (simp add: task_addrs_def x_def)
  have st_new: "unat st \<noteq> unat t" "unat st \<notin> fst ` blocks (mach s)" using m2(3) m1(4) f0(5) by auto
  have free: "\<forall>p \<in> set (c # rest). \<forall>y. unat st \<le> y \<and> y < unat st + z2 \<longrightarrow>
        \<not> (stack_lo bs (the (tasks s0 p)) \<le> y \<and> y < stack_hi be (the (tasks s0 p)))"
  proof (intro ballI allI impI notI)
    fix p y assume p: "p \<in> set (c # rest)" and y: "unat st \<le> y \<and> y < unat st + z2"
      and "stack_lo bs (the (tasks s0 p)) \<le> y \<and> y < stack_hi be (the (tasks s0 p))"
    then have "data_byte hs pd fpt (mach s1) y"
      using stack_data [of hs pd fpt bs be "mach s1" "tasks s1" "c # rest" p y] m1(2) by (simp add: sched_ok_def f0 m1(1))
    then show False using m2(7) y by blast
  qed
  have blk: "16384 \<le> z2" "(unat st, z2) \<in> blocks (mach s0)" using m2(4,5) sz(3) by (simp_all add: f0)
  have A2: "distinct (task_addrs t x)" "set (task_addrs t x) \<subseteq> fst ` blocks (mach s0)"
    "set (task_addrs t x) \<inter> set (concat (map (\<lambda>p. task_addrs p (the (tasks s0 p))) (c # rest))) = {}"
    using A ax st_new m1(3,4) m2(4) f0(2,5) by auto
  have x1: "tstate x = TASK_READY" "timage x = 0" "stack_base x = st" "saved_esp x = of_nat (e - 4 * 6)" by (simp_all add: x_def)
  have w: "6 = length ?ws" "5 \<le> (6 :: nat)" "6 \<le> (10 :: nat)" "frame_room lab (?ws ! (6 - 5)) = 4 * 6" "(4 :: nat) * 6 = 24" by (simp_all add: frame_room_def)
  obtain m' tc s' where r: "push_words (of_nat e) ?ws s0 = Done (of_nat (e - 24), s0\<lparr>mach := m'\<rparr>)"
    "enqueue t (s0\<lparr>mach := m', tasks := (tasks s0)(t \<mapsto> x)\<rparr>) = Done s'" "sched_ok hs pd fpt bs be lab s' (c # t # rest)"
    "tasks s0 c = Some tc" "s' = (sti s0)\<lparr>mach := m', tasks := (tasks s0)(t \<mapsto> x\<lparr>tnext := tnext tc\<rparr>, c \<mapsto> tc\<lparr>tnext := t\<rparr>)\<rparr>"
    "\<forall>k < 6. frame_word m' x k = ?ws ! (6 - 1 - k)" "same_shape pd m2 m'"
    "\<forall>y < 4294967296. y < e - 24 \<or> e \<le> y \<longrightarrow> mbyte m' y = mbyte m2 y"
    by (rule create_finish [OF e_def w(1) S0 fresh_task [OF S m1(3)] a2(2) blk free x1 w(2-4) A2, unfolded f0(2) w(5)]) (rule that)
  have e: "of_nat e = st + TASK_STACK_SIZE" by (simp add: e_def TASK_STACK_SIZE_def)
  have call: "task_create lab name fn s = Some (Done (t, s'))"
    using a1 a2 r(1,2) unfolding task_create_def
    by (simp add: Let_def f0(4) s0_def [symmetric] e [symmetric] x_def del: push_words.simps)
  let ?x = "x\<lparr>tnext := tnext tc\<rparr>"
  have ct: "c \<noteq> t" "t \<notin> set rest" "c \<notin> set rest" using fresh_task [OF S m1(3)] S by (auto simp: sched_ok_def tasks_ok_def ring_def)
  have tv: "tasks s' t = Some ?x" "tasks s' c = Some (tc\<lparr>tnext := t\<rparr>)" "\<forall>p \<in> set rest. tasks s' p = tasks s p"
    using ct unfolding r(5) by (auto simp: f0)
  have fw: "\<forall>k < 6. frame_word (mach s') ?x k = [0, 0, 0, 0, a_start lab, fn] ! k"
  proof (intro allI impI)
    fix k :: nat assume k: "k < 6"
    then have "k = 0 \<or> k = 1 \<or> k = 2 \<or> k = 3 \<or> k = 4 \<or> k = 5" by auto
    moreover have "frame_word (mach s') ?x k = ?ws ! (6 - 1 - k)" using r(6) k by (simp add: r(5) frame_word_def)
    ultimately show "frame_word (mach s') ?x k = [0, 0, 0, 0, a_start lab, fn] ! k" by (elim disjE) simp_all
  qed
  have kept: "\<forall>y. data_byte hs pd fpt (mach s) y \<longrightarrow> mbyte (mach s') y = mbyte (mach s) y"
  proof (intro allI impI)
    fix y assume y: "data_byte hs pd fpt (mach s) y"
    then have y1: "data_byte hs pd fpt (mach s1) y" using m1(4) by (auto simp: data_byte_def f0)
    have "y < 4294967296" using data_byte_low [OF _ y] S by (force simp: sched_ok_def tasks_ok_def)
    moreover have "y < e - 24 \<or> e \<le> y" using m2(7) [OF y1] blk(1) by (auto simp: e_def)
    ultimately have "mbyte m' y = mbyte m2 y" using r(8) by blast
    then show "mbyte (mach s') y = mbyte (mach s) y"
      using m2(6) [OF y1] m1(5) [OF y] by (simp add: r(5) f0)
  qed
  have bl: "blocks (mach s') = insert (unat st, z2) (insert (unat t, z1) (blocks (mach s)))"
    using r(7) m2(4) m1(4) f0(5) by (simp add: same_shape_def r(5))
  show thesis
    by (rule that [OF call r(3) tv(1) _ _ _ _ _ _ _ fw r(4) [unfolded f0] tv(2,3) bl _ _ kept])
      (simp_all add: x_def r(5) s0_def sti_def f0 [unfolded s0_def] e_def TASK_STACK_SIZE_def)
qed

lemma task_create_user_ok:
  assumes S: "sched_ok hs pd fpt bs be lab s (c # rest)"
    and a1: "tk_malloc SIZEOF_TASK s = Some (Done (t, s1))" "t \<noteq> 0"
    and a2: "tk_malloc TASK_STACK_SIZE s1 = Some (Done (st, s2))" "st \<noteq> 0"
    and a3: "tk_malloc TASK_STACK_SIZE s2 = Some (Done (ust, s3))" "ust \<noteq> 0"
  obtains s' x tc where "task_create_user lab name fn s = Some (Done (t, s'))" "sched_ok hs pd fpt bs be lab s' (c # t # rest)"
    "tasks s' t = Some x" "tid x = g_next_id s" "stack_base x = st" "kernel_stack_top x = st + 0x4000" "is_user x" "tstate x = TASK_READY"
    "saved_esp x = st + 0x4000 - 40" "user_stack_base x = ust" "timage x = 0"
    "\<forall>k < 10. frame_word (mach s') x k =
       [0, 0, 0, 0, a_user lab, fn, GDT_UCODE_SEL, 0x202, (ust + 0x4000) AND NOT 0xF, GDT_UDATA_SEL] ! k"
    "tasks s c = Some tc" "tasks s' c = Some (tc\<lparr>tnext := t\<rparr>)" "\<forall>p \<in> set rest. tasks s' p = tasks s p"
    "core s' = (core s)\<lparr>c_if := True\<rparr>" "segtab s' = segtab s" "images (mach s') = images (mach s)" "st + 0x4000 \<noteq> 0"
proof -
  have sz: "SIZEOF_TASK \<le> 0xFFFFFFF8" "TASK_STACK_SIZE \<le> 0xFFFFFFF8" "unat TASK_STACK_SIZE = 16384"
    by (simp_all add: SIZEOF_TASK_def TASK_STACK_SIZE_def)
  obtain z1 m1 where m1: "s1 = s\<lparr>mach := m1\<rparr>" "sched_ok hs pd fpt bs be lab s1 (c # rest)" "unat t \<notin> fst ` blocks (mach s)"
    "blocks m1 = insert (unat t, z1) (blocks (mach s))" "images m1 = images (mach s)"
    by (rule sched_grow [OF S a1 sz(1)]) (rule that)
  obtain z2 m2 where m2: "s2 = s1\<lparr>mach := m2\<rparr>" "sched_ok hs pd fpt bs be lab s2 (c # rest)" "unat st \<notin> fst ` blocks (mach s1)"
    "blocks m2 = insert (unat st, z2) (blocks (mach s1))" "unat TASK_STACK_SIZE \<le> z2"
    "\<And>y. data_byte hs pd fpt (mach s1) y \<Longrightarrow> \<not> (unat st \<le> y \<and> y < unat st + z2)" "images m2 = images (mach s1)"
    by (rule sched_grow [OF m1(2) a2 sz(2)]) (rule that)
  obtain z3 m3 where m3: "s3 = s2\<lparr>mach := m3\<rparr>" "sched_ok hs pd fpt bs be lab s3 (c # rest)" "unat ust \<notin> fst ` blocks (mach s2)"
    "blocks m3 = insert (unat ust, z3) (blocks (mach s2))" "images m3 = images (mach s2)"
    by (rule sched_grow [OF m2(2) a3 sz(2)]) (rule that)
  define e where "e = unat st + 16384"
  define s0 where "s0 = s3\<lparr>g_next_id := g_next_id s + 1\<rparr>"
  have S0: "sched_ok hs pd fpt bs be lab s0 (c # rest)" using m3(2) by (simp add: s0_def sched_id)
  have f0: "tasks s0 = tasks s" "mach s0 = m3" "core s0 = core s" "g_next_id s3 = g_next_id s" "mach s1 = m1" "mach s2 = m2" "segtab s0 = segtab s"
    by (simp_all add: s0_def m3(1) m2(1) m1(1))
  define x where "x = \<lparr>tid = g_next_id s, tname = str_copy_n (raw_name t s0) name TASK_NAME_LEN,
      tstate = TASK_READY, saved_esp = of_nat (e - 40), stack_base = st, stack_size = TASK_STACK_SIZE,
      kernel_stack_top = st + TASK_STACK_SIZE, is_user = True, user_stack_base = ust,
      timage = 0, ticks_run = 0, slice_left = TASK_TIME_SLICE, tnext = raw_next t s0\<rparr>"
  define ws where "ws = [GDT_UDATA_SEL, (ust + TASK_STACK_SIZE) AND NOT 0xF, 0x202, GDT_UCODE_SEL, fn, a_user lab, 0, 0, 0, 0]"
  have A: "set (concat (map (\<lambda>p. task_addrs p (the (tasks s0 p))) (c # rest))) \<subseteq> fst ` blocks (mach s)"
    using addrs_in_blocks [OF S] by (simp add: f0)
  have ax: "task_addrs t x = [unat st, unat ust, unat t]" using a2(2) a3(2) by (simp add: task_addrs_def x_def)
  have new: "unat st \<noteq> unat t" "unat ust \<noteq> unat t" "unat ust \<noteq> unat st" "unat st \<notin> fst ` blocks (mach s)" "unat ust \<notin> fst ` blocks (mach s)"
    using m3(3) m2(3,4) m1(4) f0(5,6) by auto
  have free: "\<forall>p \<in> set (c # rest). \<forall>y. unat st \<le> y \<and> y < unat st + z2 \<longrightarrow>
        \<not> (stack_lo bs (the (tasks s0 p)) \<le> y \<and> y < stack_hi be (the (tasks s0 p)))"
  proof (intro ballI allI impI notI)
    fix p y assume p: "p \<in> set (c # rest)" and y: "unat st \<le> y \<and> y < unat st + z2"
      and "stack_lo bs (the (tasks s0 p)) \<le> y \<and> y < stack_hi be (the (tasks s0 p))"
    then have "data_byte hs pd fpt (mach s1) y"
      using stack_data [of hs pd fpt bs be "mach s1" "tasks s1" "c # rest" p y] m1(2) by (simp add: sched_ok_def f0 m1(1))
    then show False using m2(6) y by blast
  qed
  have blk: "16384 \<le> z2" "(unat st, z2) \<in> blocks (mach s0)" using m3(4) m2(4,5) sz(3) by (simp_all add: f0)
  have A2: "distinct (task_addrs t x)" "set (task_addrs t x) \<subseteq> fst ` blocks (mach s0)"
    "set (task_addrs t x) \<inter> set (concat (map (\<lambda>p. task_addrs p (the (tasks s0 p))) (c # rest))) = {}"
    using A ax new m1(3,4) m2(4) m3(4) f0(2,5,6) by auto
  have x1: "tstate x = TASK_READY" "timage x = 0" "stack_base x = st" "saved_esp x = of_nat (e - 4 * 10)" by (simp_all add: x_def)
  have L: "distinct [a_resume lab, a_start lab, a_user lab]" using S by (simp add: sched_ok_def)
  have w: "10 = length ws" "5 \<le> (10 :: nat)" "10 \<le> (10 :: nat)" "frame_room lab (ws ! (10 - 5)) = 4 * 10" "(4 :: nat) * 10 = 40"
    using L by (auto simp: frame_room_def ws_def)
  obtain m' tc s' where r: "push_words (of_nat e) ws s0 = Done (of_nat (e - 40), s0\<lparr>mach := m'\<rparr>)"
    "enqueue t (s0\<lparr>mach := m', tasks := (tasks s0)(t \<mapsto> x)\<rparr>) = Done s'" "sched_ok hs pd fpt bs be lab s' (c # t # rest)"
    "tasks s0 c = Some tc" "s' = (sti s0)\<lparr>mach := m', tasks := (tasks s0)(t \<mapsto> x\<lparr>tnext := tnext tc\<rparr>, c \<mapsto> tc\<lparr>tnext := t\<rparr>)\<rparr>"
    "\<forall>k < 10. frame_word m' x k = ws ! (10 - 1 - k)" "same_shape pd m3 m'"
    by (rule create_finish [OF e_def w(1) S0 fresh_task [OF S m1(3)] a2(2) blk free x1 w(2-4) A2, unfolded f0(2) w(5)]) (rule that)
  have e: "of_nat e = st + TASK_STACK_SIZE" by (simp add: e_def TASK_STACK_SIZE_def)
  have call: "task_create_user lab name fn s = Some (Done (t, s'))"
    using a1 a2 a3 r(1,2) unfolding task_create_user_def ws_def
    by (simp add: Let_def f0(4) s0_def [symmetric] e [symmetric] x_def del: push_words.simps)
  let ?x = "x\<lparr>tnext := tnext tc\<rparr>"
  have ct: "c \<noteq> t" "t \<notin> set rest" "c \<notin> set rest" using fresh_task [OF S m1(3)] S by (auto simp: sched_ok_def tasks_ok_def ring_def)
  have tv: "tasks s' t = Some ?x" "tasks s' c = Some (tc\<lparr>tnext := t\<rparr>)" "\<forall>p \<in> set rest. tasks s' p = tasks s p"
    using ct unfolding r(5) by (auto simp: f0)
  have fw: "\<forall>k < 10. frame_word (mach s') ?x k =
       [0, 0, 0, 0, a_user lab, fn, GDT_UCODE_SEL, 0x202, (ust + 0x4000) AND NOT 0xF, GDT_UDATA_SEL] ! k"
  proof (intro allI impI)
    fix k :: nat assume k: "k < 10"
    then have "k = 0 \<or> k = 1 \<or> k = 2 \<or> k = 3 \<or> k = 4 \<or> k = 5 \<or> k = 6 \<or> k = 7 \<or> k = 8 \<or> k = 9" by auto
    moreover have "frame_word (mach s') ?x k = ws ! (10 - 1 - k)" using r(6) k by (simp add: r(5) frame_word_def)
    ultimately show "frame_word (mach s') ?x k =
       [0, 0, 0, 0, a_user lab, fn, GDT_UCODE_SEL, 0x202, (ust + 0x4000) AND NOT 0xF, GDT_UDATA_SEL] ! k"
      by (elim disjE) (simp_all add: ws_def TASK_STACK_SIZE_def)
  qed
  have im: "images (mach s') = images (mach s)" using r(7) m3(5) m2(7) m1(5) by (simp add: same_shape_def r(5) f0)
  have M0: "mach_ok hs pd fpt (mach s0)" using S0 by (simp add: sched_ok_def tasks_ok_def)
  then have "hs + 262144 \<le> 0x100000" by (simp add: mach_ok_def space_ok_def)
  then have "unat st + 16384 \<le> 0x100000" using block_in_slab(2) [OF M0 blk(2)] blk(1) by linarith
  then have "unat (st + 0x4000) = unat st + 16384" by (simp add: unat_plus32)
  then have nz: "st + 0x4000 \<noteq> 0" by (metis add_is_0 unat_0 zero_neq_numeral)
  show thesis
    by (rule that [OF call r(3) tv(1) _ _ _ _ _ _ _ _ fw r(4) [unfolded f0] tv(2,3) _ _ im nz])
      (simp_all add: x_def r(5) s0_def sti_def f0 [unfolded s0_def] m1(1) m2(1) m3(1) e_def TASK_STACK_SIZE_def)
qed

end
