(* ===== verification/Sched_Claims.thy ===== *)
theory Sched_Claims
  imports Sched_Create
begin

text \<open>
  Properties of multitasking.  \<open>task_runs\<close> allows the current task to do anything that keeps its own
  stack pointer in range and leaves the other tasks alone; \<open>waits p\<close> is a run of any number of turns in
  which task \<open>p\<close> is never the current one.
\<close>

unbundle bit_operations_syntax

section \<open>Definitions\<close>

definition task_runs :: "nat \<Rightarrow> nat \<Rightarrow> nat \<Rightarrow> nat \<Rightarrow> nat \<Rightarrow> labels \<Rightarrow> u32 \<Rightarrow> u32 list \<Rightarrow> sched \<Rightarrow> sched \<Rightarrow> bool" where
  "task_runs hs pd fpt bs be lab c rest s s' \<longleftrightarrow> sched_ok hs pd fpt bs be lab s' (c # rest) \<and> stack_room bs be s' \<and>
     (\<forall>q \<in> set rest. tasks s' q = tasks s q \<and>
        (\<forall>y. stack_lo bs (the (tasks s q)) \<le> y \<and> y < stack_hi be (the (tasks s q)) \<longrightarrow> mbyte (mach s') y = mbyte (mach s) y))"

inductive waits :: "nat \<Rightarrow> nat \<Rightarrow> nat \<Rightarrow> nat \<Rightarrow> nat \<Rightarrow> labels \<Rightarrow> u32 \<Rightarrow> nat \<Rightarrow> sched \<Rightarrow> u32 list \<Rightarrow> sched \<Rightarrow> u32 list \<Rightarrow> bool"
  for hs pd fpt bs be lab p where
  none: "sched_ok hs pd fpt bs be lab s (c # rest) \<Longrightarrow> p \<in> set rest \<Longrightarrow> \<not> is_zombie (tasks s) p \<Longrightarrow>
    waits hs pd fpt bs be lab p 0 s (c # rest) s (c # rest)"
| turn: "waits hs pd fpt bs be lab p k s xs s1 (c # rest) \<Longrightarrow> task_runs hs pd fpt bs be lab c rest s1 s2 \<Longrightarrow>
    dropWhile (is_zombie (tasks s2)) rest = n # ys \<Longrightarrow> n \<noteq> p \<Longrightarrow>
    task_yield lab (of_nat pd) s2 = Some (Done (True, s3)) \<Longrightarrow>
    waits hs pd fpt bs be lab p (Suc k) s xs s3 (n # ys @ [c])"

definition place :: "u32 \<Rightarrow> u32 list \<Rightarrow> nat" where
  "place p xs = length (takeWhile (\<lambda>q. q \<noteq> p) xs)"

text \<open>Timer ticks one after the other.\<close>

fun ticks :: "nat \<Rightarrow> sched \<Rightarrow> sched outcome" where
  "ticks 0 s = Done s"
| "ticks (Suc n) s = and_then (ticks n s) task_tick"

definition demo_labels :: labels where
  "demo_labels = \<lparr>a_resume = 1, a_start = 2, a_after_entry = 3, a_user = 4\<rparr>"

definition demo_core :: cpu where
  "demo_core = \<lparr>c_esp = 0x8FF00, c_ebp = 0, c_ebx = 7, c_esi = 0, c_edi = 0, c_eip = 0, c_eax = 0, c_cs = 8, c_ss = 16, c_ds = 16, c_if = True\<rparr>"

section \<open>Starting\<close>

lemma tasking_init_ok:
  assumes M: "mach_ok hs pd fpt (mach s)" and t: "tasks s = Map.empty" and b: "\<forall>y. bs \<le> y \<and> y < be \<longrightarrow> low_data hs pd fpt y"
    and L: "distinct [a_resume lab, a_start lab, a_user lab]" and a: "tk_malloc SIZEOF_TASK s = Some (Done (p, s1))" "p \<noteq> 0"
  obtains s' where "tasking_init s = Some (Done s')" "sched_ok hs pd fpt bs be lab s' [p]" "core s' = core s" "mach s' = mach s1"
    "stack_base (the (tasks s' p)) = 0"
proof -
  obtain m1 where m1: "ld_malloc SIZEOF_TASK (mach s) = Some (Done (p, m1))" "s1 = s\<lparr>mach := m1\<rparr>"
    using a(1) by (auto simp: tk_malloc_def then_run_def split: bind_splits outcome.splits)
  have sz: "SIZEOF_TASK \<le> 0xFFFFFFF8" by (simp add: SIZEOF_TASK_def)
  obtain z where z: "mach_ok hs pd fpt m1" "blocks m1 = insert (unat p, z) (blocks (mach s))"
    by (rule malloc_ok [OF M m1(1) a(2) sz]) (rule that)
  define x where "x = \<lparr>tid = g_next_id s1, tname = str_copy_n (raw_name p s1) (cstr ''boot'') TASK_NAME_LEN,
            tstate = TASK_RUNNING, saved_esp = 0, stack_base = 0, stack_size = 0, kernel_stack_top = 0,
            is_user = False, user_stack_base = 0, timage = 0, ticks_run = 0,
            slice_left = TASK_TIME_SLICE, tnext = p\<rparr>"
  let ?s' = "s1\<lparr>tasks := (tasks s1)(p \<mapsto> x), g_next_id := g_next_id s1 + 1, g_current := p, g_active := True\<rparr>"
  have call: "tasking_init s = Some (Done ?s')" using a by (simp add: tasking_init_def x_def)
  have pm: "pages_mapped pd (space m1) [] F" for F by (simp add: pages_mapped_def)
  have "sched_ok hs pd fpt bs be lab ?s' [p]"
    using z b L t pm by (auto simp: sched_ok_def tasks_ok_def ring_def owns_ok_def stacks_placed_def m1(2) x_def task_addrs_def task_pages_def)
  then show thesis using that [OF call] by (simp add: m1(2) x_def)
qed

section \<open>Waiting\<close>

lemma zombie_cong: "\<forall>q \<in> set xs. ts' q = ts q \<Longrightarrow> dropWhile (is_zombie ts') xs = dropWhile (is_zombie ts) xs"
  by (rule dropWhile_cong) (auto simp: is_zombie_def)

lemma place_drop: "p \<in> set xs \<Longrightarrow> \<not> Z p \<Longrightarrow> p \<in> set (dropWhile Z xs) \<and> place p (dropWhile Z xs) \<le> place p xs"
  by (induction xs) (auto simp: place_def)

lemma turn_ok:
  assumes T: "task_runs hs pd fpt bs be lab c rest s1 s2" and n: "dropWhile (is_zombie (tasks s2)) rest = n # ys"
    and y: "task_yield lab (of_nat pd) s2 = Some (Done (b, s3))"
  shows "b" "sched_ok hs pd fpt bs be lab s3 (n # ys @ [c])" "switched lab bs be c (takeWhile (is_zombie (tasks s2)) rest) n ys s2 s3"
proof -
  have S: "sched_ok hs pd fpt bs be lab s2 (c # rest)" "stack_room bs be s2" using T by (auto simp: task_runs_def)
  obtain s' where s': "task_yield lab (of_nat pd) s2 = Some (Done (True, s'))" "sched_ok hs pd fpt bs be lab s' (n # ys @ [c])"
    "switched lab bs be c (takeWhile (is_zombie (tasks s2)) rest) n ys s2 s'" by (rule yield_ok [OF S n]) (rule that)
  then show "b" "sched_ok hs pd fpt bs be lab s3 (n # ys @ [c])" "switched lab bs be c (takeWhile (is_zombie (tasks s2)) rest) n ys s2 s3"
    using y by auto
qed

lemma waits_inv:
  assumes "waits hs pd fpt bs be lab p k s xs s' xs'"
  shows "\<exists>c rest. xs' = c # rest \<and> p \<in> set rest \<and> c \<noteq> p \<and> sched_ok hs pd fpt bs be lab s' xs' \<and> \<not> is_zombie (tasks s) p \<and>
    tasks s' p = tasks s p \<and> k + place p xs' \<le> place p xs \<and>
    (\<forall>y. stack_lo bs (the (tasks s p)) \<le> y \<and> y < stack_hi be (the (tasks s p)) \<longrightarrow> mbyte (mach s') y = mbyte (mach s) y)"
  using assms
proof induction
  case (none s c rest)
  then have "c \<noteq> p" by (auto simp: sched_ok_def tasks_ok_def ring_def)
  then show ?case using none by auto
next
  case (turn k s xs s1 c rest s2 n ys s3)
  then have I: "p \<in> set rest" "c \<noteq> p" "\<not> is_zombie (tasks s) p" "tasks s1 p = tasks s p" "k + place p (c # rest) \<le> place p xs"
    "\<forall>y. stack_lo bs (the (tasks s p)) \<le> y \<and> y < stack_hi be (the (tasks s p)) \<longrightarrow> mbyte (mach s1) y = mbyte (mach s) y" by auto
  note Y = turn_ok [OF turn.hyps(2,3,5)]
  have t2: "tasks s2 p = tasks s p" "\<forall>y. stack_lo bs (the (tasks s p)) \<le> y \<and> y < stack_hi be (the (tasks s p)) \<longrightarrow> mbyte (mach s2) y = mbyte (mach s) y"
    using turn.hyps(2) I by (auto simp: task_runs_def)
  have nz: "\<not> is_zombie (tasks s2) p" using I(3) t2(1) by (simp add: is_zombie_def)
  have p: "p \<in> set ys" using place_drop [of p rest "is_zombie (tasks s2)"] nz I(1) turn.hyps(3,4) by auto
  have pl: "place p (n # ys) \<le> place p rest" using place_drop [of p rest "is_zombie (tasks s2)"] nz I(1) turn.hyps(3) by auto
  have "place p (n # ys @ [c]) = place p (n # ys)" using p turn.hyps(4) by (simp add: place_def takeWhile_append1)
  then have "Suc k + place p (n # ys @ [c]) \<le> place p xs" using pl I(2,5) by (simp add: place_def)
  moreover have "tasks s3 p = tasks s2 p" "\<forall>y. stack_lo bs (the (tasks s2 p)) \<le> y \<and> y < stack_hi be (the (tasks s2 p)) \<longrightarrow> mbyte (mach s3) y = mbyte (mach s2) y"
    using Y(3) p unfolding switched_def by blast+
  ultimately show ?case using Y(2) p turn.hyps(4) I(3) t2 by auto
qed

lemma room_kept:
  assumes "stack_room bs be s" and "g_current s' = g_current s" and "c_esp (core s') = c_esp (core s)"
    and "stack_base (the (tasks s' (g_current s))) = stack_base (the (tasks s (g_current s)))"
  shows "stack_room bs be s'"
  using assms unfolding stack_room_def stack_lo_def stack_hi_def by (simp split: if_splits)

section \<open>A booted scheduler\<close>

lemma tk_alloc:
  assumes "heap_rel hs (heap_view (mach s)) bl" and "n \<le> 4294967288" and "heap_alloc n hs bl = (q, bl')"
  obtains s' where "tk_malloc (of_nat n) s = Some (Done (of_nat q, s'))" "heap_rel hs (heap_view (mach s')) bl'"
proof -
  obtain h where "kmalloc (of_nat n) (heap_view (mach s)) = Some (Done (of_nat q, h))" "heap_rel hs h bl'"
    using kmalloc_rel(1) [OF assms(1) _ assms(2,3)] assms(2) by auto
  then show thesis by (intro that [of "s\<lparr>mach := heap_back (mach s) h\<rparr>"]) (simp_all add: tk_malloc_def ld_malloc_def)
qed

lemma demo_sched:
  obtains s s1 s2 s3 where "sched_ok 0x10000 0x50000 0x51000 0x8F000 0x90000 demo_labels s [65556]" "stack_room 0x8F000 0x90000 s" "core s = demo_core"
    "tk_malloc SIZEOF_TASK s = Some (Done (65640, s1))" "tk_malloc TASK_STACK_SIZE s1 = Some (Done (65724, s2))"
    "tk_malloc TASK_STACK_SIZE s2 = Some (Done (82128, s3))" "tstate (the (tasks s 65556)) = TASK_RUNNING"
proof -
  obtain m where m: "mach_ok 0x10000 0x50000 0x51000 m" "heap_rel 0x10000 (heap_view m) [(262124, False)]" by (rule demo_machine)
  obtain sg :: segments where True by blast
  define s0 where "s0 = \<lparr>mach = m, core = demo_core, segtab = sg, tasks = Map.empty, g_current = 0, g_active = False, g_need_resched = False, g_next_id = 0\<rparr>"
  have sz: "of_nat 64 = SIZEOF_TASK" "of_nat 16384 = TASK_STACK_SIZE" by (simp_all add: SIZEOF_TASK_def TASK_STACK_SIZE_def)
  note H = heap_alloc_def round8_def carve_def
  have r0: "heap_rel 0x10000 (heap_view (mach s0)) [(262124, False)]" using m(2) by (simp add: s0_def)
  obtain sa where sa: "tk_malloc (of_nat 64) s0 = Some (Done (of_nat 65556, sa))" "heap_rel 0x10000 (heap_view (mach sa)) [(64, True), (262040, False)]"
    by (rule tk_alloc [OF r0, of 64 65556 "[(64, True), (262040, False)]"]) (simp_all add: H that)
  have b: "\<forall>y. 0x8F000 \<le> y \<and> y < 0x90000 \<longrightarrow> low_data 0x10000 0x50000 0x51000 y" by (simp add: low_data_def slab_def)
  have M0: "mach_ok 0x10000 0x50000 0x51000 (mach s0)" "tasks s0 = Map.empty" using m(1) by (simp_all add: s0_def)
  obtain s where s: "tasking_init s0 = Some (Done s)" "sched_ok 0x10000 0x50000 0x51000 0x8F000 0x90000 demo_labels s [65556]" "core s = core s0" "mach s = mach sa"
    "stack_base (the (tasks s 65556)) = 0"
    by (rule tasking_init_ok [OF M0 b, of demo_labels 65556 sa]) (use sa sz in \<open>auto simp: demo_labels_def intro: that\<close>)
  have rs: "heap_rel 0x10000 (heap_view (mach s)) [(64, True), (262040, False)]" using sa(2) s(4) by simp
  obtain s1 where s1: "tk_malloc (of_nat 64) s = Some (Done (of_nat 65640, s1))" "heap_rel 0x10000 (heap_view (mach s1)) [(64, True), (64, True), (261956, False)]"
    by (rule tk_alloc [OF rs, of 64 65640 "[(64, True), (64, True), (261956, False)]"]) (simp_all add: H that)
  obtain s2 where s2: "tk_malloc (of_nat 16384) s1 = Some (Done (of_nat 65724, s2))"
    "heap_rel 0x10000 (heap_view (mach s2)) [(64, True), (64, True), (16384, True), (245552, False)]"
    by (rule tk_alloc [OF s1(2), of 16384 65724 "[(64, True), (64, True), (16384, True), (245552, False)]"]) (simp_all add: H that)
  obtain s3 where s3: "tk_malloc (of_nat 16384) s2 = Some (Done (of_nat 82128, s3))"
    by (rule tk_alloc [OF s2(2), of 16384 82128 "[(64, True), (64, True), (16384, True), (16384, True), (229148, False)]"]) (simp_all add: H that)
  have cu: "g_current s = 65556" using s(2) by (simp add: sched_ok_def)
  have "stack_room 0x8F000 0x90000 s"
    using s(3,5) by (simp add: stack_room_def cu stack_lo_def stack_hi_def s0_def demo_core_def)
  moreover have "tstate (the (tasks s 65556)) = TASK_RUNNING"
    using s(1) sa(1) sz by (auto simp: tasking_init_def)
  ultimately show thesis using that s(2,3) s1(1) s2(1) s3 sz by (simp add: s0_def)
qed

section \<open>Claims\<close>

text \<open>
  C6: A switch.  When some task other than the current one is not a zombie, \<open>task_yield\<close> returns in
  the first such task after the current one in ring order.  The zombies before it are reaped:
  exactly their heap blocks are freed.  The current task moves to the end of the ring with its four
  saved registers and its return point in a frame on its own stack, the chosen task runs with the
  registers of its frame and a full time slice, the TSS has its kernel stack, all other tasks and their
  stacks are unchanged, and the scheduler invariant holds again.
\<close>
theorem task_yield_switches:
  assumes "sched_ok hs pd fpt bs be lab s (c # rest)" and "stack_room bs be s"
    and "dropWhile (is_zombie (tasks s)) rest = n # ys"
  shows "\<exists>s'. task_yield lab (of_nat pd) s = Some (Done (True, s')) \<and> sched_ok hs pd fpt bs be lab s' (n # ys @ [c]) \<and>
    switched lab bs be c (takeWhile (is_zombie (tasks s)) rest) n ys s s'"
  by (rule yield_ok [OF assms]) blast

text \<open>The state right after a task has been created: its creator can switch to it.\<close>

lemma after_create:
  assumes S: "sched_ok hs pd fpt bs be lab s (c # rest)" and R: "stack_room bs be s" and S': "sched_ok hs pd fpt bs be lab s' (c # t # rest)"
    and x: "tasks s' t = Some x" "tstate x = TASK_READY" and c: "tasks s c = Some tc" "tasks s' c = Some (tc\<lparr>tnext := t\<rparr>)"
    and k: "core s' = (core s)\<lparr>c_if := True\<rparr>"
  obtains s'' where "task_yield lab (of_nat pd) s' = Some (Done (True, s''))" "sched_ok hs pd fpt bs be lab s'' (t # rest @ [c])"
    "switched lab bs be c [] t rest s' s''"
proof -
  have "g_current s = c" "g_current s' = c" using S S' by (auto simp: sched_ok_def)
  then have R': "stack_room bs be s'" using R c k by (intro room_kept [OF R]) simp_all
  have z: "\<not> is_zombie (tasks s') t" using x by (simp add: is_zombie_def)
  then have d: "dropWhile (is_zombie (tasks s')) (t # rest) = t # rest" "takeWhile (is_zombie (tasks s')) (t # rest) = []" by simp_all
  show thesis by (rule yield_ok [OF S' R' d(1)]) (use that d(2) in simp)
qed

lemma demo_two:
  obtains s where "sched_ok 0x10000 0x50000 0x51000 0x8F000 0x90000 demo_labels s [65556, 65640]" "stack_room 0x8F000 0x90000 s"
    "\<not> is_zombie (tasks s) 65640" "\<not> is_zombie (tasks s) 65556" "c_ebx (core s) = 7"
    "stack_base (the (tasks s 65640)) = 65724"
proof -
  obtain s s1 s2 where d: "sched_ok 0x10000 0x50000 0x51000 0x8F000 0x90000 demo_labels s [65556]" "stack_room 0x8F000 0x90000 s" "core s = demo_core"
    "tk_malloc SIZEOF_TASK s = Some (Done (65640, s1))" "tk_malloc TASK_STACK_SIZE s1 = Some (Done (65724, s2))"
    "tstate (the (tasks s 65556)) = TASK_RUNNING" by (rule demo_sched)
  obtain s' x tc where s': "sched_ok 0x10000 0x50000 0x51000 0x8F000 0x90000 demo_labels s' [65556, 65640]" "tasks s' 65640 = Some x"
    "tstate x = TASK_READY" "tasks s 65556 = Some tc" "tasks s' 65556 = Some (tc\<lparr>tnext := 65640\<rparr>)" "core s' = (core s)\<lparr>c_if := True\<rparr>"
    "stack_base x = 65724"
    by (rule task_create_ok [OF d(1,4) _ d(5), of "cstr ''a''" 0]) (auto intro: that)
  have "g_current s = 65556" "g_current s' = 65556" using d(1) s'(1) by (auto simp: sched_ok_def)
  then have R: "stack_room 0x8F000 0x90000 s'" using s' by (intro room_kept [OF d(2)]) simp_all
  show thesis
    by (rule that [OF s'(1) R]) (use s' d(3,6) in \<open>simp_all add: is_zombie_def demo_core_def\<close>)
qed

theorem task_yield_switches_witness:
  "\<exists>s s'. sched_ok 0x10000 0x50000 0x51000 0x8F000 0x90000 demo_labels s [65556, 65640] \<and>
     task_yield demo_labels (of_nat 0x50000) s = Some (Done (True, s')) \<and> g_current s' = 65640"
proof -
  obtain s where s: "sched_ok 0x10000 0x50000 0x51000 0x8F000 0x90000 demo_labels s [65556, 65640]" "stack_room 0x8F000 0x90000 s"
    "\<not> is_zombie (tasks s) 65640" by (rule demo_two)
  have z: "dropWhile (is_zombie (tasks s)) [65640] = 65640 # []" using s(3) by simp
  from task_yield_switches [OF s(1,2) z] obtain s'' where s'': "task_yield demo_labels (of_nat 0x50000) s = Some (Done (True, s''))"
    "sched_ok 0x10000 0x50000 0x51000 0x8F000 0x90000 demo_labels s'' [65640, 65556]" by auto
  then have "g_current s'' = 65640" by (simp add: sched_ok_def)
  then show ?thesis using s(1) s''(1) by blast
qed

text \<open>
  C22: A new kernel task runs.  When its two allocations succeed, \<open>task_create\<close> puts the task right
  after the current one, and the next \<open>task_yield\<close> of the current task enters the given function with
  interrupts enabled, on a stack whose top word is the return address of the trampoline.
\<close>
theorem task_create_enters:
  assumes "sched_ok hs pd fpt bs be lab s (c # rest)" and "stack_room bs be s"
    and "tk_malloc SIZEOF_TASK s = Some (Done (t, s1))" "t \<noteq> 0" and "tk_malloc TASK_STACK_SIZE s1 = Some (Done (st, s2))" "st \<noteq> 0"
  shows "\<exists>s' s''. task_create lab name fn s = Some (Done (t, s')) \<and> sched_ok hs pd fpt bs be lab s' (c # t # rest) \<and>
    task_yield lab (of_nat pd) s' = Some (Done (True, s'')) \<and> sched_ok hs pd fpt bs be lab s'' (t # rest @ [c]) \<and>
    c_eip (core s'') = fn \<and> c_if (core s'') \<and> c_esp (core s'') = st + 0x3FFC"
proof -
  obtain s' x tc where s': "task_create lab name fn s = Some (Done (t, s'))" "sched_ok hs pd fpt bs be lab s' (c # t # rest)"
    "tasks s' t = Some x" "tstate x = TASK_READY" "saved_esp x = st + 0x4000 - 24"
    "\<forall>k < 6. frame_word (mach s') x k = [0, 0, 0, 0, a_start lab, fn] ! k"
    "tasks s c = Some tc" "tasks s' c = Some (tc\<lparr>tnext := t\<rparr>)" "core s' = (core s)\<lparr>c_if := True\<rparr>"
    by (rule task_create_ok [OF assms(1,3-6)]) (rule that)
  obtain s'' where s'': "task_yield lab (of_nat pd) s' = Some (Done (True, s''))" "sched_ok hs pd fpt bs be lab s'' (t # rest @ [c])"
    "switched lab bs be c [] t rest s' s''" by (rule after_create [OF assms(1,2) s'(2-4,7-9)]) (rule that)
  have "core s'' = resume_core lab (core s') (mach s') x" using s''(3) s'(3) by (simp add: switched_def)
  moreover have "frame_word (mach s') x 4 = a_start lab" "frame_word (mach s') x 5 = fn" using s'(6) by simp_all
  ultimately have "c_eip (core s'') = fn" "c_if (core s'')" "c_esp (core s'') = st + 0x3FFC"
    using s'(5) by (simp_all add: resume_core_def Let_def)
  then show ?thesis using s'(1,2) s''(1,2) by blast
qed

theorem task_create_enters_witness:
  "\<exists>s s' s''. task_create demo_labels (cstr ''a'') 0x1234 s = Some (Done (65640, s')) \<and>
     task_yield demo_labels (of_nat 0x50000) s' = Some (Done (True, s'')) \<and> c_eip (core s'') = 0x1234"
proof -
  obtain s s1 s2 where d: "sched_ok 0x10000 0x50000 0x51000 0x8F000 0x90000 demo_labels s [65556]" "stack_room 0x8F000 0x90000 s"
    "tk_malloc SIZEOF_TASK s = Some (Done (65640, s1))" "tk_malloc TASK_STACK_SIZE s1 = Some (Done (65724, s2))" by (rule demo_sched)
  show ?thesis using task_create_enters [OF d(1-3) _ d(4), of "cstr ''a''" "0x1234"] by auto
qed

text \<open>
  C23: A new user task enters ring 3.  When its three allocations succeed, \<open>task_create_user\<close> puts the
  task right after the current one, and the next \<open>task_yield\<close> leaves the processor in the user code and
  stack segments at the given entry point, at the 16-byte aligned top of the user stack, with
  interrupts enabled and with the TSS naming the top of the task's kernel stack.
\<close>
theorem task_create_user_enters_ring3:
  assumes "sched_ok hs pd fpt bs be lab s (c # rest)" and "stack_room bs be s"
    and "tk_malloc SIZEOF_TASK s = Some (Done (t, s1))" "t \<noteq> 0" and "tk_malloc TASK_STACK_SIZE s1 = Some (Done (st, s2))" "st \<noteq> 0"
    and "tk_malloc TASK_STACK_SIZE s2 = Some (Done (ust, s3))" "ust \<noteq> 0"
  shows "\<exists>s' s''. task_create_user lab name fn s = Some (Done (t, s')) \<and> sched_ok hs pd fpt bs be lab s' (c # t # rest) \<and>
    task_yield lab (of_nat pd) s' = Some (Done (True, s'')) \<and> sched_ok hs pd fpt bs be lab s'' (t # rest @ [c]) \<and>
    c_eip (core s'') = fn \<and> c_cs (core s'') = 0x1B \<and> c_ss (core s'') = 0x23 \<and> c_ds (core s'') = 0x23 \<and> c_if (core s'') \<and>
    c_esp (core s'') = (ust + 0x4000) AND NOT 0xF \<and>
    t_esp0 (kernel_tss (segtab s'')) = st + 0x4000"
proof -
  obtain s' x tc where s': "task_create_user lab name fn s = Some (Done (t, s'))" "sched_ok hs pd fpt bs be lab s' (c # t # rest)"
    "tasks s' t = Some x" "tstate x = TASK_READY" "kernel_stack_top x = st + 0x4000"
    "\<forall>k < 10. frame_word (mach s') x k =
       [0, 0, 0, 0, a_user lab, fn, GDT_UCODE_SEL, 0x202, (ust + 0x4000) AND NOT 0xF, GDT_UDATA_SEL] ! k"
    "tasks s c = Some tc" "tasks s' c = Some (tc\<lparr>tnext := t\<rparr>)" "core s' = (core s)\<lparr>c_if := True\<rparr>" "st + 0x4000 \<noteq> 0"
    by (rule task_create_user_ok [OF assms(1,3-8)]) (rule that)
  obtain s'' where s'': "task_yield lab (of_nat pd) s' = Some (Done (True, s''))" "sched_ok hs pd fpt bs be lab s'' (t # rest @ [c])"
    "switched lab bs be c [] t rest s' s''" by (rule after_create [OF assms(1,2) s'(2-4,7-9)]) (rule that)
  have L: "a_user lab \<noteq> a_start lab" using assms(1) by (auto simp: sched_ok_def)
  have c: "core s'' = resume_core lab (core s') (mach s') x" using s''(3) s'(3) by (simp add: switched_def)
  have w: "frame_word (mach s') x 4 = a_user lab" "frame_word (mach s') x 5 = fn" "frame_word (mach s') x 6 = GDT_UCODE_SEL"
    "frame_word (mach s') x 7 = 0x202" "frame_word (mach s') x 8 = (ust + 0x4000) AND NOT 0xF" "frame_word (mach s') x 9 = GDT_UDATA_SEL"
    using s'(6) by simp_all
  have f: "bit (0x202 :: u32) 9" by (simp add: bit_iff_odd drop_bit_eq_div [symmetric])
  have "c_eip (core s'') = fn \<and> c_cs (core s'') = GDT_UCODE_SEL \<and> c_ss (core s'') = GDT_UDATA_SEL \<and> c_ds (core s'') = 0x23 \<and>
      c_if (core s'') \<and> c_esp (core s'') = (ust + 0x4000) AND NOT 0xF"
    unfolding c resume_core_def Let_def w using L f by simp
  moreover have "GDT_UCODE_SEL = 0x1B" "GDT_UDATA_SEL = 0x23" by (simp_all add: GDT_UCODE_SEL_def GDT_UDATA_SEL_def)
  moreover have "t_esp0 (kernel_tss (segtab s'')) = st + 0x4000"
    using s''(3) s'(3,5,10) by (simp add: switched_def tss_set_esp0_def)
  ultimately show ?thesis using s'(1,2) s''(1,2) by (intro exI [of _ s'] exI [of _ s'']) simp
qed

theorem task_create_user_enters_ring3_witness:
  "\<exists>s s' s''. task_create_user demo_labels (cstr ''u'') 0x400000 s = Some (Done (65640, s')) \<and>
     task_yield demo_labels (of_nat 0x50000) s' = Some (Done (True, s'')) \<and> c_cs (core s'') = 0x1B \<and> c_eip (core s'') = 0x400000"
proof -
  obtain s s1 s2 s3 where d: "sched_ok 0x10000 0x50000 0x51000 0x8F000 0x90000 demo_labels s [65556]" "stack_room 0x8F000 0x90000 s"
    "tk_malloc SIZEOF_TASK s = Some (Done (65640, s1))" "tk_malloc TASK_STACK_SIZE s1 = Some (Done (65724, s2))"
    "tk_malloc TASK_STACK_SIZE s2 = Some (Done (82128, s3))" by (rule demo_sched)
  show ?thesis using task_create_user_enters_ring3 [OF d(1-3) _ d(4) _ d(5), of "cstr ''u''" "0x400000"] by auto
qed


lemma demo_runs:
  "sched_ok hs pd fpt bs be lab s (c # rest) \<Longrightarrow> stack_room bs be s \<Longrightarrow> task_runs hs pd fpt bs be lab c rest s s"
  by (simp add: task_runs_def)



lemma sched_core: "sched_ok hs pd fpt bs be lab (s\<lparr>core := c\<rparr>) xs = sched_ok hs pd fpt bs be lab s xs"
  by (simp add: sched_ok_def tasks_ok_def)


text \<open>The current task may change its own state and accounting; nothing else of the scheduler depends on them.\<close>

lemma sched_current:
  assumes S: "sched_ok hs pd fpt bs be lab s (c # rest)" and t: "tasks s c = Some t"
    and h: "same_holdings t t'" "tnext t' = tnext t"
  shows "sched_ok hs pd fpt bs be lab (s\<lparr>tasks := (tasks s)(c \<mapsto> t')\<rparr>) (c # rest)"
proof -
  have T: "owns_ok pd (mach s) (tasks s) (c # rest)" "stacks_placed hs pd fpt bs be (mach s) (tasks s) (c # rest)" "ring (tasks s) (c # rest)"
    "\<forall>p \<in> set rest. frame_ok lab bs be (mach s) (the (tasks s p)) \<and> tstate (the (tasks s p)) \<noteq> TASK_RUNNING"
    using S by (auto simp: sched_ok_def tasks_ok_def)
  have hold: "\<forall>p \<in> set (c # rest). same_holdings (the (tasks s p)) (the (((tasks s)(c \<mapsto> t')) p))" using t h by simp
  have "owns_ok pd (mach s) ((tasks s)(c \<mapsto> t')) (c # rest)" by (rule owns_shape [OF T(1) _ hold]) simp
  moreover have "stacks_placed hs pd fpt bs be (mach s) ((tasks s)(c \<mapsto> t')) (c # rest)"
    by (rule stacks_placed_shape [OF T(2) _ hold]) simp_all
  moreover have "ring ((tasks s)(c \<mapsto> t')) (c # rest)" by (rule ring_cong [OF T(3)]) (use t h in auto)
  moreover have "c \<notin> set rest" using T(3) by (simp add: ring_def)
  ultimately show ?thesis using S T(4) by (auto simp: sched_ok_def tasks_ok_def)
qed

lemma dropWhile_other: "c \<notin> set xs \<Longrightarrow> dropWhile (is_zombie (ts(c \<mapsto> t'))) xs = dropWhile (is_zombie ts) xs"
  by (rule dropWhile_cong) (auto simp: is_zombie_def)

text \<open>The last task to exit finds nobody to run.\<close>

lemma yield_alone:
  assumes S: "sched_ok hs pd fpt bs be lab s (c # rest)" and z: "dropWhile (is_zombie (tasks s)) rest = []"
    and t: "tstate (the (tasks s c)) = TASK_ZOMBIE"
  shows "task_yield lab (of_nat pd) s = Some (Halted ''[scheduler] no runnable tasks. halting.'')"
proof -
  have T: "tasks_ok hs pd fpt (cli s) (c # rest)" "g_active s" "g_current s = c" using S by (auto simp: sched_ok_def tasks_ok_def cli_def)
  have cl: "tasks (cli s) = tasks s" by (simp add: cli_def)
  obtain s1 x where "pick_next (of_nat pd) c (cli s) = Some (Done (c, s1))" "tasks s1 c = Some ((the (tasks s c))\<lparr>tnext := x\<rparr>)"
    by (rule pick_next_ok [OF T(1), unfolded cl z list.case]) (rule that)
  then show ?thesis using T(2,3) t by (simp add: task_yield_def Let_def cli_def task_at_def)
qed

text \<open>
  C24: A task that exits never runs again.  \<open>task_exit\<close> makes the current task a zombie and hands the
  processor to the first other task that is not one; the exiting task keeps its stack and its record (another task
  will release them).  When there is no other task the machine halts with a message.  In no case does
  control come back to the exiting task.
\<close>
theorem task_exit_leaves:
  assumes "sched_ok hs pd fpt bs be lab s (c # rest)" and "stack_room bs be s"
  shows "case dropWhile (is_zombie (tasks s)) rest of
     [] \<Rightarrow> task_exit lab (of_nat pd) s = Some (Halted ''[scheduler] no runnable tasks. halting.'')
   | n # ys \<Rightarrow> \<exists>s'. task_exit lab (of_nat pd) s = Some (Done s') \<and> sched_ok hs pd fpt bs be lab s' (n # ys @ [c]) \<and>
       is_zombie (tasks s') c \<and> core s' = resume_core lab (core s) (mach s) (the (tasks s n)) \<and>
       stack_base (the (tasks s' c)) = stack_base (the (tasks s c))"
proof -
  have R: "ring (tasks s) (c # rest)" and cur: "g_current s = c" using assms(1) by (auto simp: sched_ok_def tasks_ok_def)
  obtain t where t: "tasks s c = Some t" using ring_task [OF R, of c] by auto
  have d: "c \<notin> set rest" using R by (simp add: ring_def)
  let ?t = "t\<lparr>tstate := TASK_ZOMBIE\<rparr>"
  define s1 where "s1 = s\<lparr>tasks := (tasks s)(c \<mapsto> ?t), core := (core s)\<lparr>c_if := True\<rparr>\<rparr>"
  have S: "sched_ok hs pd fpt bs be lab s1 (c # rest)" unfolding s1_def sched_core
    by (rule sched_current [OF assms(1) t]) (simp_all add: same_holdings_def)
  have Rm: "stack_room bs be s1" by (rule room_kept [OF assms(2)]) (simp_all add: s1_def cur t)
  have dz: "dropWhile (is_zombie (tasks s1)) rest = dropWhile (is_zombie (tasks s)) rest" by (simp add: s1_def dropWhile_other [OF d])
  have zc: "tstate (the (tasks s1 c)) = TASK_ZOMBIE" "stack_base (the (tasks s1 c)) = stack_base t" by (simp_all add: s1_def)
  have ex: "task_exit lab (of_nat pd) s = then_run (task_yield lab (of_nat pd) s1) (\<lambda>(switched, s).
      if switched then Some (Done s) else Some (Halted ''task_exit: returned from yield (ZOMBIE rescheduled)''))"
    using t by (simp add: task_exit_def upd_task_def task_at_def cli_def sti_def s1_def cur)
  show ?thesis
  proof (cases "dropWhile (is_zombie (tasks s)) rest")
    case Nil
    then have "task_exit lab (of_nat pd) s = Some (Halted ''[scheduler] no runnable tasks. halting.'')"
      using yield_alone [OF S _ zc(1)] dz ex by simp
    then show ?thesis by (simp only: Nil list.case)
  next
    case (Cons n ys)
    then have n: "dropWhile (is_zombie (tasks s1)) rest = n # ys" using dz by simp
    have "n \<in> set rest" using Cons by (metis list.set_intros(1) set_dropWhileD)
    then have nc: "tasks s1 n = tasks s n" using d by (auto simp: s1_def)
    obtain s' where s': "task_yield lab (of_nat pd) s1 = Some (Done (True, s'))" "sched_ok hs pd fpt bs be lab s' (n # ys @ [c])"
      "switched lab bs be c (takeWhile (is_zombie (tasks s1)) rest) n ys s1 s'" by (rule yield_ok [OF S Rm n]) (rule that)
    have "is_zombie (tasks s') c" "stack_base (the (tasks s' c)) = stack_base t" "core s' = resume_core lab (core s1) (mach s1) (the (tasks s n))"
      using s'(3) zc nc by (auto simp: switched_def is_zombie_def)
    then show ?thesis using ex s'(1,2) t by (simp add: Cons s1_def)
  qed
qed

theorem task_exit_leaves_witness:
  "\<exists>s s'. sched_ok 0x10000 0x50000 0x51000 0x8F000 0x90000 demo_labels s [65556, 65640] \<and>
     task_exit demo_labels (of_nat 0x50000) s = Some (Done s') \<and> g_current s' = 65640 \<and> is_zombie (tasks s') 65556"
proof -
  obtain s where s: "sched_ok 0x10000 0x50000 0x51000 0x8F000 0x90000 demo_labels s [65556, 65640]" "stack_room 0x8F000 0x90000 s"
    "\<not> is_zombie (tasks s) 65640" by (rule demo_two)
  from task_exit_leaves [OF s(1,2)] s(3) obtain s' where "task_exit demo_labels (of_nat 0x50000) s = Some (Done s')"
    "sched_ok 0x10000 0x50000 0x51000 0x8F000 0x90000 demo_labels s' [65640, 65556]" "is_zombie (tasks s') 65556" by auto
  moreover from this have "g_current s' = 65640" by (simp add: sched_ok_def)
  ultimately show ?thesis using s(1) by blast
qed

section \<open>Time slices\<close>

lemma ticks_ok:
  assumes "g_active s" "tasks s (g_current s) = Some t"
  shows "\<exists>s'. ticks n s = Done s' \<and> g_active s' \<and> g_current s' = g_current s \<and>
    tasks s' = (tasks s)(g_current s \<mapsto> t\<lparr>ticks_run := ticks_run t + of_nat n, slice_left := of_nat (unat (slice_left t) - n)\<rparr>) \<and>
    (g_need_resched s' \<longleftrightarrow> g_need_resched s \<or> 0 < n \<and> unat (slice_left t) \<le> n)"
proof (induction n)
  case 0
  show ?case using assms by (auto intro: fun_upd_triv [symmetric])
next
  case (Suc n)
  then obtain s' where s': "ticks n s = Done s'" "g_active s'" "g_current s' = g_current s"
    "tasks s' = (tasks s)(g_current s \<mapsto> t\<lparr>ticks_run := ticks_run t + of_nat n, slice_left := of_nat (unat (slice_left t) - n)\<rparr>)"
    "g_need_resched s' \<longleftrightarrow> g_need_resched s \<or> 0 < n \<and> unat (slice_left t) \<le> n" by blast
  let ?l = "of_nat (unat (slice_left t) - n) :: u32"
  have u: "unat ?l = unat (slice_left t) - n" by (rule unat_of_nat32) (rule less_imp_diff_less [OF unat_lt32])
  have z: "?l = 0 \<longleftrightarrow> unat (slice_left t) \<le> n" using u by (simp add: unat_eq_zero [symmetric] del: of_nat_diff)
  have m: "?l - 1 = of_nat (unat (slice_left t) - Suc n)" if "\<not> unat (slice_left t) \<le> n"
  proof -
    have "unat (slice_left t) - n = Suc (unat (slice_left t) - Suc n)" using that by simp
    then show ?thesis by (simp del: of_nat_diff)
  qed
  have m0: "(of_nat (unat (slice_left t) - Suc n) :: u32) = 0 \<longleftrightarrow> unat (slice_left t) \<le> Suc n"
    using unat_of_nat32 [OF less_imp_diff_less [OF unat_lt32], of "slice_left t" "Suc n"]
    by (simp add: unat_eq_zero [symmetric] del: of_nat_diff)
  show ?case
    using s' z m m0 by (auto simp: task_tick_def upd_task_def task_at_def word_gt_0 algebra_simps simp del: of_nat_diff)
qed

text \<open>
  Time slices.  For a task that has just been given its slice, \<open>n\<close> timer ticks count \<open>n\<close> more ticks of
  run time and ask for a new scheduling decision exactly when the slice of five ticks is used up, not
  before; \<open>task_should_resched\<close> then reports it once and takes the request back.
\<close>
lemma slice_expires:
  assumes "g_active s" and "tasks s (g_current s) = Some t" and "slice_left t = TASK_TIME_SLICE" and "\<not> g_need_resched s"
  shows "\<exists>s' s''. ticks n s = Done s' \<and> ticks_run (the (tasks s' (g_current s))) = ticks_run t + of_nat n \<and>
    task_should_resched s' = (5 \<le> n, s'') \<and> \<not> g_need_resched s'' \<and> task_should_resched s'' = (False, s'')"
proof -
  obtain s' where s': "ticks n s = Done s'"
    "tasks s' = (tasks s)(g_current s \<mapsto> t\<lparr>ticks_run := ticks_run t + of_nat n, slice_left := of_nat (unat (slice_left t) - n)\<rparr>)"
    "g_need_resched s' \<longleftrightarrow> g_need_resched s \<or> 0 < n \<and> unat (slice_left t) \<le> n" using ticks_ok [OF assms(1,2), of n] by blast
  have r: "g_need_resched s' \<longleftrightarrow> 5 \<le> n" using s'(3) assms(3,4) by (auto simp: TASK_TIME_SLICE_def)
  show ?thesis using s'(1,2) r by (cases "g_need_resched s'") (auto simp: task_should_resched_def)
qed

end
