(* ===== verification/Irq_Claims.thy ===== *)
theory Irq_Claims
  imports Interrupts Sched_Claims
begin

text \<open>
  The interrupt path on the state of the whole kernel: preemption by the timer, the write system call, and
  sleeping.
\<close>

unbundle bit_operations_syntax

text \<open>An interrupt frame with the given vector and arguments.\<close>

definition demo_regs :: "u32 \<Rightarrow> u32 \<Rightarrow> u32 \<Rightarrow> u32 \<Rightarrow> u32 \<Rightarrow> registers" where
  "demo_regs n a b c d =
     \<lparr>r_gs = 0, r_fs = 0, r_es = 0, r_ds = 0, r_edi = 0, r_esi = 0, r_ebp = 0, r_esp = 0, r_ebx = b, r_edx = d, r_ecx = c,
      r_eax = a, r_int_no = n, r_err_code = 0, r_eip = 0, r_cs = 0, r_eflags = 0, r_useresp = 0, r_ss = 0\<rparr>"

section \<open>The timer interrupt\<close>

lemma sched_need: "sched_ok hs pd fpt bs be lab (s\<lparr>g_need_resched := x\<rparr>) xs = sched_ok hs pd fpt bs be lab s xs"
  by (simp add: sched_ok_def tasks_ok_def)

lemma tick_ok:
  assumes "sched_ok hs pd fpt bs be lab s (c # rest)" and "stack_room bs be s" and "tasks s c = Some t" and "slice_left t \<noteq> 0"
    and "\<not> g_need_resched s"
  obtains s' where "task_tick s = Done s'" "sched_ok hs pd fpt bs be lab s' (c # rest)" "stack_room bs be s'" "core s' = core s" "mach s' = mach s"
    "tasks s' = (tasks s)(c \<mapsto> t\<lparr>ticks_run := ticks_run t + 1, slice_left := slice_left t - 1\<rparr>)" "g_need_resched s' \<longleftrightarrow> slice_left t = 1"
proof -
  have g: "g_active s" "g_current s = c" using assms(1) by (simp_all add: sched_ok_def)
  let ?t = "t\<lparr>ticks_run := ticks_run t + 1, slice_left := slice_left t - 1\<rparr>"
  let ?s = "s\<lparr>tasks := (tasks s)(c \<mapsto> ?t)\<rparr>"
  have S: "sched_ok hs pd fpt bs be lab ?s (c # rest)"
    by (rule sched_current [OF assms(1,3)]) (simp_all add: same_holdings_def)
  have R: "stack_room bs be ?s" by (rule room_kept [OF assms(2)]) (simp_all add: g assms(3))
  have z: "slice_left t - 1 = 0 \<longleftrightarrow> slice_left t = 1" by (simp add: right_minus_eq)
  have "task_tick s = Done (?s\<lparr>g_need_resched := (slice_left t = 1)\<rparr>)"
    using assms(3-5) g by (auto simp: task_tick_def upd_task_def task_at_def word_gt_0 z)
  moreover have "stack_room bs be (?s\<lparr>g_need_resched := x\<rparr>)" for x using R by (simp add: stack_room_def)
  ultimately show thesis using S by (intro that [of "?s\<lparr>g_need_resched := (slice_left t = 1)\<rparr>"]) (simp_all add: sched_need)
qed

section \<open>Printing for a user program\<close>

lemma write_loop_ok:
  assumes "\<forall>i < length bs. read8 (a + of_nat i) (space (mach (sys k))) = Done (bs ! i)"
  shows "write_loop (length bs) a k = map_option (\<lambda>t. Done (k\<lparr>scr := t\<rparr>)) (kprint bs (scr k))"
  using assms
proof (induction bs arbitrary: a k)
  case (Cons x bs)
  have x: "read8 a (space (mach (sys k))) = Done x" using Cons.prems by force
  have r: "\<forall>i < length bs. read8 (a + 1 + of_nat i) (space (mach (sys k))) = Done (bs ! i)"
  proof (intro allI impI)
    fix i assume "i < length bs"
    then show "read8 (a + 1 + of_nat i) (space (mach (sys k))) = Done (bs ! i)" using Cons.prems [rule_format, of "Suc i"] by (simp add: add.assoc)
  qed
  show ?case
  proof (cases "kputchar x (scr k)")
    case (Some t)
    then show ?thesis using x Cons.IH [of "a + 1" "k\<lparr>scr := t\<rparr>"] r by simp
  qed (simp add: x)
qed simp

section \<open>Sleeping\<close>

lemma sleep_loop_ok:
  assumes "\<forall>k. \<exists>k'. hlt k = Some (Done k') \<and> (g_ticks k' = g_ticks k + 1 \<or> g_ticks k' = g_ticks k \<and> wakes k' < (wakes k :: nat))"
    and "g_ticks k \<le> target"
  shows "\<exists>k'. sleep_loop hlt target k = Some (Done k') \<and> g_ticks k' = target"
  using assms(2)
proof (induction k rule: wf_induct_rule [OF wf_measures [of "[\<lambda>k. unat target - unat (g_ticks k), wakes]"]])
  case (1 k)
  show ?case
  proof (cases "g_ticks k < target")
    case True
    obtain k1 where k1: "hlt k = Some (Done k1)" "g_ticks k1 = g_ticks k + 1 \<or> g_ticks k1 = g_ticks k \<and> wakes k1 < wakes k" using assms(1) by blast
    have "unat (g_ticks k) + unat (1 :: u32) < 2 ^ 32" using True unat_lt32 [of target] unfolding word_less_nat_alt by (simp del: unat_lt32)
    then have u: "unat (g_ticks k + 1) = unat (g_ticks k) + 1" by (subst unat_plus32) simp_all
    have le: "g_ticks k1 \<le> target" using k1(2) True u by (auto simp: word_le_nat_alt word_less_nat_alt)
    have "(k1, k) \<in> measures [\<lambda>k. unat target - unat (g_ticks k), wakes]"
      using k1(2) True u by (auto simp: word_less_nat_alt)
    from 1(1) [OF this le] show ?thesis using True k1(1) by (subst sleep_loop.simps) simp
  next
    case False
    then show ?thesis using 1(2) by (subst sleep_loop.simps) auto
  qed
qed


section \<open>A running kernel\<close>

lemma handlers_space:
  "owned pd (v\<lparr>handlers := h\<rparr>) = owned pd v" "user_page pd (v\<lparr>handlers := h\<rparr>) = user_page pd v"
  "pages_mapped pd (v\<lparr>handlers := h\<rparr>) = pages_mapped pd v" "vm_ok pd fpt (v\<lparr>handlers := h\<rparr>) = vm_ok pd fpt v"
proof -
  show o': "owned pd (v\<lparr>handlers := h\<rparr>) = owned pd v" by (simp add: owned_def)
  show u: "user_page pd (v\<lparr>handlers := h\<rparr>) = user_page pd v" by (simp add: user_page_def data_page_def mmu_def o' fun_eq_iff)
  show "pages_mapped pd (v\<lparr>handlers := h\<rparr>) = pages_mapped pd v" by (simp add: pages_mapped_def fun_eq_iff u)
  show "vm_ok pd fpt (v\<lparr>handlers := h\<rparr>) = vm_ok pd fpt v" by (simp add: vm_ok_def id_window_def)
qed

lemma handlers_mach:
  fixes m :: loader and h
  defines "m' \<equiv> m\<lparr>space := (space m)\<lparr>handlers := h\<rparr>\<rparr>"
  shows "mach_ok hs pd fpt m' = mach_ok hs pd fpt m" "blocks m' = blocks m" "owns_ok pd m' = owns_ok pd m"
    "stacks_placed hs pd fpt bs be m' = stacks_placed hs pd fpt bs be m" "frame_ok lab bs be m' = frame_ok lab bs be m"
proof -
  have v: "heap_view m' = heap_view m" by (simp add: m'_def heap_view_def)
  show b: "blocks m' = blocks m" by (simp add: blocks_def v)
  have i: "images m' = images m" by (simp add: m'_def)
  have t: "task_pages m' = task_pages m" unfolding task_pages_def i ..
  have p: "pages_mapped pd (space m') = pages_mapped pd (space m)" by (simp add: m'_def handlers_space)
  show "owns_ok pd m' = owns_ok pd m" unfolding owns_ok_def b i t p by simp
  show "mach_ok hs pd fpt m' = mach_ok hs pd fpt m" unfolding mach_ok_def v space_ok_def by (simp add: m'_def handlers_space)
  show "stacks_placed hs pd fpt bs be m' = stacks_placed hs pd fpt bs be m" unfolding stacks_placed_def b by simp
  have "frame_word m' = frame_word m" by (simp add: m'_def frame_word_def fun_eq_iff)
  then show "frame_ok lab bs be m' = frame_ok lab bs be m" unfolding frame_ok_def by simp
qed

lemma sched_handlers:
  "sched_ok hs pd fpt bs be lab (s\<lparr>mach := (mach s)\<lparr>space := (space (mach s))\<lparr>handlers := h\<rparr>\<rparr>\<rparr>) xs = sched_ok hs pd fpt bs be lab s xs"
  by (simp add: sched_ok_def tasks_ok_def handlers_mach)


lemma demo_kernel:
  obtains k t where "sched_ok 0x10000 0x50000 0x51000 0x8F000 0x90000 demo_labels (sys k) [65556, 65640]" "stack_room 0x8F000 0x90000 (sys k)"
    "dropWhile (is_zombie (tasks (sys k))) [65640] = [65640]" "tasks (sys k) 65556 = Some t" "slice_left t = 1" "\<not> g_need_resched (sys k)"
    "handlers_of k 32 = Timer_irq" "scr k = demo_screen" "g_ticks k = 41"
proof -
  obtain s where s: "sched_ok 0x10000 0x50000 0x51000 0x8F000 0x90000 demo_labels s [65556, 65640]" "stack_room 0x8F000 0x90000 s"
    "\<not> is_zombie (tasks s) 65640" by (rule demo_two)
  have "ring (tasks s) [65556, 65640]" using s(1) by (simp add: sched_ok_def tasks_ok_def)
  then obtain x where x: "tasks s 65556 = Some x" using ring_task [of "tasks s" "[65556, 65640]" 65556] by auto
  have cu: "g_current s = 65556" using s(1) by (simp add: sched_ok_def)
  define s1 where "s1 = s\<lparr>tasks := (tasks s)(65556 \<mapsto> x\<lparr>slice_left := 1\<rparr>)\<rparr>"
  have S1: "sched_ok 0x10000 0x50000 0x51000 0x8F000 0x90000 demo_labels s1 [65556, 65640]"
    unfolding s1_def by (rule sched_current [OF s(1) x]) (simp_all add: same_holdings_def)
  have R1: "stack_room 0x8F000 0x90000 s1" by (rule room_kept [OF s(2)]) (simp_all add: s1_def cu x)
  define s2 where "s2 = s1\<lparr>mach := (mach s1)\<lparr>space := (space (mach s1))\<lparr>handlers := (\<lambda>_. No_handler)(32 := Timer_irq)\<rparr>\<rparr>\<rparr>"
  have S2: "sched_ok 0x10000 0x50000 0x51000 0x8F000 0x90000 demo_labels s2 [65556, 65640]" unfolding s2_def sched_handlers by (rule S1)
  define k where "k = \<lparr>sys = s2\<lparr>g_need_resched := False\<rparr>, scr = demo_screen, kbd = demo_kb, g_ticks = 41\<rparr>"
  have z: "\<not> is_zombie (tasks s1) 65640" using s(3) by (simp add: s1_def is_zombie_def)
  show thesis
  proof (rule that [of k "x\<lparr>slice_left := 1\<rparr>"])
    show "sched_ok 0x10000 0x50000 0x51000 0x8F000 0x90000 demo_labels (sys k) [65556, 65640]" using S2 by (simp add: k_def sched_need)
    show "stack_room 0x8F000 0x90000 (sys k)" using R1 by (simp add: k_def s2_def stack_room_def)
    show "dropWhile (is_zombie (tasks (sys k))) [65640] = [65640]" using z by (simp add: k_def s2_def)
  qed (simp_all add: k_def s2_def s1_def handlers_of_def)
qed

section \<open>Properties\<close>

text \<open>
  C9: The timer preempts.  When the timer interrupt arrives while task \<open>c\<close> runs, the tick is counted, the
  interrupt controller gets exactly one end-of-interrupt command, and unless the slice of \<open>c\<close> is used up \<open>c\<close> goes on
  with one tick less of its slice.  When the slice is used up, the interrupt returns in the next
  runnable task of the ring, with a full slice, and \<open>c\<close> is last in the ring, ready to be resumed.
\<close>

theorem timer_preempts:
  assumes "sched_ok hs pd fpt bs be lab (sys k) (c # rest)" and "stack_room bs be (sys k)" and "handlers_of k 32 = Timer_irq"
    and "tasks (sys k) c = Some t" and "slice_left t \<noteq> 0" and "\<not> g_need_resched (sys k)"
    and "dropWhile (is_zombie (tasks (sys k))) rest = n # ys" and "r_int_no regs = 32"
  shows "\<exists>k'. isr_handler lab (of_nat pd) hlt cr2 regs k = Some (Done (regs, k')) \<and> g_ticks k' = g_ticks k + 1 \<and>
    io_log (bus (com (scr k'))) = io_log (bus (com (scr k))) @ [Out8 PIC1_CMD PIC_EOI] \<and>
    (if slice_left t = 1
     then sched_ok hs pd fpt bs be lab (sys k') (n # ys @ [c]) \<and> slice_left (the (tasks (sys k') n)) = TASK_TIME_SLICE \<and>
       core (sys k') = resume_core lab (core (sys k)) (mach (sys k)) (the (tasks (sys k) n))
     else sched_ok hs pd fpt bs be lab (sys k') (c # rest) \<and> slice_left (the (tasks (sys k') c)) = slice_left t - 1 \<and>
       core (sys k') = core (sys k))"
proof -
  obtain s where s: "task_tick (sys k) = Done s" "sched_ok hs pd fpt bs be lab s (c # rest)" "stack_room bs be s" "core s = core (sys k)" "mach s = mach (sys k)"
    "tasks s = (tasks (sys k))(c \<mapsto> t\<lparr>ticks_run := ticks_run t + 1, slice_left := slice_left t - 1\<rparr>)" "g_need_resched s \<longleftrightarrow> slice_left t = 1"
    by (rule tick_ok [OF assms(1,2,4,5,6)])
  define k1 where "k1 = on_bus (pic_send_eoi 0) (k\<lparr>g_ticks := g_ticks k + 1, sys := s\<rparr>)"
  have K: "g_ticks k1 = g_ticks k + 1" "sys k1 = s" "io_log (bus (com (scr k1))) = io_log (bus (com (scr k))) @ [Out8 PIC1_CMD PIC_EOI]"
    by (simp_all add: k1_def on_bus_def pic_send_eoi_def outb_def Let_def)
  have run: "isr_handler lab (of_nat pd) hlt cr2 regs k =
      (if slice_left t = 1
       then then_run (task_yield lab (of_nat pd) (s\<lparr>g_need_resched := False\<rparr>)) (\<lambda>(switched, u). Some (Done (regs, k1\<lparr>sys := u\<rparr>)))
       else Some (Done (regs, k1)))"
    using assms(3,8) s(1,7) K(2) by (simp add: isr_handler_def call_handler_def timer_irq_def task_should_resched_def Let_def flip: k1_def)
  show ?thesis
  proof (cases "slice_left t = 1")
    case False
    then show ?thesis using run K s(2,4,6) by (intro exI [of _ k1]) simp
  next
    case True
    let ?s = "s\<lparr>g_need_resched := False\<rparr>"
    have S: "sched_ok hs pd fpt bs be lab ?s (c # rest)" "stack_room bs be ?s" using s(2,3) by (simp_all add: sched_need stack_room_def)
    have d: "c \<notin> set rest" using assms(1) by (auto simp: sched_ok_def tasks_ok_def ring_def)
    have n: "dropWhile (is_zombie (tasks ?s)) rest = n # ys" using assms(7) by (simp add: s(6) dropWhile_other [OF d])
    have "n \<in> set rest" using assms(7) by (metis list.set_intros(1) set_dropWhileD)
    then have nc: "tasks ?s n = tasks (sys k) n" using d by (auto simp: s(6))
    obtain u where u: "task_yield lab (of_nat pd) ?s = Some (Done (True, u))" "sched_ok hs pd fpt bs be lab u (n # ys @ [c])"
      "switched lab bs be c (takeWhile (is_zombie (tasks ?s)) rest) n ys ?s u" by (rule yield_ok [OF S n]) (rule that)
    have "slice_left (the (tasks u n)) = TASK_TIME_SLICE" "core u = resume_core lab (core (sys k)) (mach (sys k)) (the (tasks (sys k) n))"
      using u(3) nc s(4,5) by (auto simp: switched_def)
    then show ?thesis using run True u(1,2) K by (intro exI [of _ "k1\<lparr>sys := u\<rparr>"]) simp
  qed
qed

theorem timer_preempts_witness:
  "\<exists>k k' regs. g_current (sys k) = 65556 \<and> isr_handler demo_labels (of_nat 0x50000) (\<lambda>_. None) 0 regs k = Some (Done (regs, k')) \<and>
     g_ticks k' = 42 \<and> g_current (sys k') = 65640"
proof -
  obtain k t where k: "sched_ok 0x10000 0x50000 0x51000 0x8F000 0x90000 demo_labels (sys k) [65556, 65640]" "stack_room 0x8F000 0x90000 (sys k)"
    "dropWhile (is_zombie (tasks (sys k))) [65640] = [65640]" "tasks (sys k) 65556 = Some t" "slice_left t = 1" "\<not> g_need_resched (sys k)"
    "handlers_of k 32 = Timer_irq" "g_ticks k = 41" by (rule demo_kernel)
  have nz: "slice_left t \<noteq> 0" using k(5) by simp
  have r: "r_int_no (demo_regs 32 0 0 0 0) = 32" by (simp add: demo_regs_def)
  from timer_preempts [OF k(1,2,7,4) nz k(6,3) r, of "\<lambda>_. None" 0] obtain k' where
    k': "isr_handler demo_labels (of_nat 0x50000) (\<lambda>_. None) 0 (demo_regs 32 0 0 0 0) k = Some (Done (demo_regs 32 0 0 0 0, k'))" "g_ticks k' = 42"
      "sched_ok 0x10000 0x50000 0x51000 0x8F000 0x90000 demo_labels (sys k') [65640, 65556]" using k(5,8) by auto
  have "g_current (sys k) = 65556" "g_current (sys k') = 65640" using k(1) k'(3) by (simp_all add: sched_ok_def)
  then show ?thesis using k'(1,2) by blast
qed


text \<open>
  C30: The write system call prints.  On interrupt 128 with number 1, descriptor 1 or 2 and a buffer whose \<open>n\<close> bytes are
  mapped, the kernel types exactly these bytes on the screen and sends them on the serial line, returns \<open>n\<close> in
  \<open>eax\<close>, and changes nothing else of the kernel's state; for any other descriptor and for the null
  buffer it returns -1 and changes nothing.
\<close>

theorem write_syscall_prints:
  assumes "r_int_no regs = 128" and "r_eax regs = 1" and "length bs = unat (r_edx regs)"
    and "\<forall>i < length bs. read8 (r_ecx regs + of_nat i) (space (mach (sys k))) = Done (bs ! i)"
    and "screen_ok (scr k)" and "console_live (scr k)"
  shows "if (sint (r_ebx regs) = 1 \<or> sint (r_ebx regs) = 2) \<and> r_ecx regs \<noteq> 0
    then \<exists>t. isr_handler lab page_dir hlt cr2 regs k = Some (Done (regs\<lparr>r_eax := r_edx regs\<rparr>, k\<lparr>scr := t\<rparr>)) \<and> screen_ok t \<and>
      screen_abs t = fold (\<lambda>c. type_char c (vga_color VGA_LIGHT_GREY VGA_BLACK)) bs (screen_abs (scr k)) \<and>
      sent (bus (com t)) = sent (bus (com (scr k))) @ mirrored (scr k) bs
    else isr_handler lab page_dir hlt cr2 regs k = Some (Done (regs\<lparr>r_eax := -1\<rparr>, k))"
proof -
  obtain t where t: "kprint bs (scr k) = Some t" "screen_ok t" "sent (bus (com t)) = sent (bus (com (scr k))) @ mirrored (scr k) bs"
    "screen_abs t = fold (\<lambda>c. type_char c (vga_color VGA_LIGHT_GREY VGA_BLACK)) bs (screen_abs (scr k))"
    using kprint_color_returns [OF assms(5,6), of bs VGA_LIGHT_GREY VGA_BLACK] unfolding kprint_is_color by blast
  have w: "write_loop (unat (r_edx regs)) (r_ecx regs) k = Some (Done (k\<lparr>scr := t\<rparr>))"
    using write_loop_ok [OF assms(4)] t(1) assms(3) by simp
  have i: "(of_int (sint (r_edx regs)) :: u32) = r_edx regs" by simp
  have run: "isr_handler lab page_dir hlt cr2 regs k = syscall_dispatch lab page_dir hlt regs k"
    using assms(1) by (simp add: isr_handler_def)
  show ?thesis
  proof (cases "(sint (r_ebx regs) = 1 \<or> sint (r_ebx regs) = 2) \<and> r_ecx regs \<noteq> 0")
    case True
    then have "syscall_dispatch lab page_dir hlt regs k = Some (Done (regs\<lparr>r_eax := r_edx regs\<rparr>, k\<lparr>scr := t\<rparr>))"
      using assms(2) w i by (auto simp: syscall_dispatch_def sys_write_impl_def SYS_EXIT_def SYS_WRITE_def)
    then show ?thesis using True run t by auto
  next
    case False
    then have "syscall_dispatch lab page_dir hlt regs k = Some (Done (regs\<lparr>r_eax := -1\<rparr>, k))"
      using assms(2) by (auto simp: syscall_dispatch_def sys_write_impl_def SYS_EXIT_def SYS_WRITE_def)
    then show ?thesis using False run by (simp only: if_False)
  qed
qed

theorem write_syscall_prints_witness:
  "\<exists>k t. isr_handler demo_labels 0x50000 (\<lambda>_. None) 0 (demo_regs 128 1 1 0x9000 2) k = Some (Done (demo_regs 128 2 1 0x9000 2, k\<lparr>scr := t\<rparr>)) \<and>
     sent (bus (com t)) = sent (bus (com (scr k))) @ mirrored (scr k) [65, 65]"
proof -
  obtain k0 :: kernel where k0: "scr k0 = demo_screen" by (rule demo_kernel) (rule that)
  define k where "k = k0\<lparr>sys := (sys k0)\<lparr>mach := (mach (sys k0))\<lparr>space := (space (mach (sys k0)))\<lparr>cr0 := 0, phys := \<lambda>_. 65\<rparr>\<rparr>\<rparr>\<rparr>"
  have r: "\<forall>i < length [65, 65 :: u8]. read8 (0x9000 + of_nat i) (space (mach (sys k))) = Done ([65, 65] ! i)"
    by (simp add: k_def read8_def mmu_def nth_Cons split: nat.split)
  have s: "screen_ok (scr k)" "console_live (scr k)" using demo_screen_ok k0 by (simp_all add: k_def)
  show ?thesis
    using write_syscall_prints [of "demo_regs 128 1 1 0x9000 2" "[65, 65]" k, OF _ _ _ _ s, of demo_labels "0x50000" "\<lambda>_. None" 0] r
    by (auto simp: demo_regs_def)
qed



end
