(* ===== verification/Fat_Spec.thy ===== *)
theory Fat_Spec
  imports Fat32
begin

text \<open>
  The file system on drives that serve.  A volume is seen as its allocation table (a function from cluster
  numbers to the 28-bit entries) and the sectors of its data area; the lemmas say what every routine
  does to these two.
\<close>

unbundle bit_operations_syntax

section \<open>The volume\<close>

text \<open>The sectors of the mounted drive, the entries of the table, the sectors of a cluster.\<close>

definition disk_of :: "ata_bus \<Rightarrow> fat32 \<Rightarrow> nat \<Rightarrow> u8 list" where
  "disk_of b s = media (now b (disk s)) (bit (fs_drive s) 0)"

definition fat_entry :: "ata_bus \<Rightarrow> fat32 \<Rightarrow> nat \<Rightarrow> u32" where
  "fat_entry b s c = get32 (disk_of b s (unat (fat_start_lba s) + c div 128)) (4 * (c mod 128)) AND 0x0FFFFFFF"

definition lba_of :: "fat32 \<Rightarrow> nat \<Rightarrow> nat" where
  "lba_of s c = unat (data_start_lba s) + (c - 2) * unat (sectors_per_cluster s)"

definition clusters_end :: "fat32 \<Rightarrow> nat" where
  "clusters_end s = unat (total_clusters s) + 2"

definition cluster_bytes :: "fat32 \<Rightarrow> nat" where
  "cluster_bytes s = 512 * unat (sectors_per_cluster s)"

text \<open>
  A well-formed volume: the copies of the table and the data area follow each other and fit the 28-bit
  address range, the table has an entry for every cluster, and the copies agree.
\<close>

definition layout_ok :: "fat32 \<Rightarrow> bool" where
  "layout_ok s \<longleftrightarrow>
     mounted s \<and> 0 < unat (sectors_per_cluster s) \<and> 0 < unat (num_fats s) \<and>
     unat (data_start_lba s) = unat (fat_start_lba s) + unat (num_fats s) * unat (fat_size s) \<and>
     clusters_end s \<le> 128 * unat (fat_size s) \<and>
     unat (data_start_lba s) + unat (total_clusters s) * unat (sectors_per_cluster s) \<le> 0x10000000 \<and>
     2 \<le> unat (alloc_hint s) \<and> unat (alloc_hint s) \<le> clusters_end s \<and>
     length (fat_sector_buf s) = 512 \<and> cluster_bytes s \<le> length (cluster_buf s)"

definition cache_ok :: "ata_bus \<Rightarrow> fat32 \<Rightarrow> bool" where
  "cache_ok b s \<longleftrightarrow> fat_sector_cached_lba s \<noteq> 0xFFFFFFFF \<longrightarrow>
     unat (fat_start_lba s) \<le> unat (fat_sector_cached_lba s) \<and>
     unat (fat_sector_cached_lba s) < unat (fat_start_lba s) + unat (fat_size s) \<and>
     fat_sector_buf s = disk_of b s (unat (fat_sector_cached_lba s))"

definition copies_agree :: "ata_bus \<Rightarrow> fat32 \<Rightarrow> bool" where
  "copies_agree b s \<longleftrightarrow> (\<forall>f < unat (num_fats s). \<forall>i < unat (fat_size s).
     disk_of b s (unat (fat_start_lba s) + f * unat (fat_size s) + i) = disk_of b s (unat (fat_start_lba s) + i))"

definition vol_ok :: "ata_bus \<Rightarrow> fat32 \<Rightarrow> bool" where
  "vol_ok b s \<longleftrightarrow> layout_ok s \<and> drive_serves b (disk s) \<and> cache_ok b s \<and> copies_agree b s"

text \<open>
  An operation on a mounted volume changes nothing but the buffers, the bus and the search hint, and on the bus it leaves the console alone; and a step after
  which the table is \<open>F\<close> and the data area is \<open>D\<close>.
\<close>

definition same_fs :: "fat32 \<Rightarrow> fat32 \<Rightarrow> bool" where
  "same_fs s t \<longleftrightarrow> t = s\<lparr>disk := disk t, fat_sector_buf := fat_sector_buf t, fat_sector_cached_lba := fat_sector_cached_lba t,
     cluster_buf := cluster_buf t, alloc_hint := alloc_hint t\<rparr> \<and> undisturbed (disk s) (disk t)"

definition gives :: "ata_bus \<Rightarrow> fat32 \<Rightarrow> fat32 \<Rightarrow> (nat \<Rightarrow> u32) \<Rightarrow> (nat \<Rightarrow> u8 list) \<Rightarrow> bool" where
  "gives b s t F D \<longleftrightarrow> vol_ok b t \<and> same_fs s t \<and> (\<forall>c < clusters_end s. fat_entry b t c = F c) \<and>
     (\<forall>i \<ge> unat (data_start_lba s). disk_of b t i = D i)"

definition quiet :: "ata_bus \<Rightarrow> fat32 \<Rightarrow> fat32 \<Rightarrow> bool" where
  "quiet b s t \<longleftrightarrow> vol_ok b t \<and> same_fs s t \<and> disk_of b t = disk_of b s \<and> alloc_hint t = alloc_hint s"

text \<open>The clusters of a chain, from \<open>c\<close> to the end mark.\<close>

fun chain :: "(nat \<Rightarrow> u32) \<Rightarrow> nat \<Rightarrow> u32 \<Rightarrow> u32 list \<Rightarrow> bool" where
  "chain F n c [] \<longleftrightarrow> is_eoc c \<or> c < 2"
| "chain F n c (d # ds) \<longleftrightarrow> c = d \<and> \<not> is_eoc d \<and> 2 \<le> unat d \<and> unat d < n \<and> chain F n (F (unat d)) ds"

text \<open>A sector of the table with one entry replaced.\<close>

definition entry_put :: "nat \<Rightarrow> u32 \<Rightarrow> u8 list \<Rightarrow> u8 list" where
  "entry_put c v sec = overwrite (4 * (c mod 128)) (bytes32 ((get32 sec (4 * (c mod 128)) AND 0xF0000000) OR (v AND 0x0FFFFFFF))) sec"

text \<open>Sector \<open>q\<close> of copy \<open>f\<close> of the table.\<close>

definition copy_lba :: "fat32 \<Rightarrow> nat \<Rightarrow> nat \<Rightarrow> nat" where
  "copy_lba s f q = unat (fat_start_lba s) + f * unat (fat_size s) + q"

section \<open>Numbers\<close>

lemma layout_bounds:
  assumes "layout_ok s"
  shows "clusters_end s < 0x0FFFFFF0" "unat (fat_start_lba s) + unat (fat_size s) \<le> unat (data_start_lba s)"
    "unat (data_start_lba s) \<le> 0x10000000"
proof -
  let ?t = "unat (total_clusters s)" and ?p = "unat (sectors_per_cluster s)"
  have "?t * 1 \<le> ?t * ?p" using assms by (intro mult_le_mono2) (simp add: layout_ok_def)
  moreover have z: "1 * unat (fat_size s) \<le> unat (num_fats s) * unat (fat_size s)"
    using assms by (intro mult_le_mono1) (simp add: layout_ok_def)
  ultimately show "clusters_end s < 0x0FFFFFF0" "unat (fat_start_lba s) + unat (fat_size s) \<le> unat (data_start_lba s)"
    "unat (data_start_lba s) \<le> 0x10000000" using assms unfolding layout_ok_def clusters_end_def by linarith+
qed

lemma lba_of_bound:
  assumes "layout_ok s" and "2 \<le> c" "c < clusters_end s"
  shows "unat (data_start_lba s) \<le> lba_of s c" "lba_of s c + unat (sectors_per_cluster s) \<le> 0x10000000"
proof -
  have "(c - 2 + 1) * unat (sectors_per_cluster s) \<le> unat (total_clusters s) * unat (sectors_per_cluster s)"
    using assms(2,3) by (intro mult_le_mono1) (simp add: clusters_end_def)
  then show "lba_of s c + unat (sectors_per_cluster s) \<le> 0x10000000"
    using assms(1) unfolding lba_of_def layout_ok_def by (simp only: add_mult_distrib) linarith
qed (simp add: lba_of_def)

lemma unat_ucast8 [simp]: "unat (ucast (x :: u8) :: u32) = unat x"
  by (simp add: unsigned_ucast_eq unsigned_take_bit_eq take_bit_nat_eq_self_iff order_less_trans [OF unsigned_less])

lemma cluster_to_lba_nat:
  assumes "layout_ok s" and "2 \<le> unat c" "unat c < clusters_end s"
  shows "unat (cluster_to_lba s c) = lba_of s (unat c)"
proof -
  have c2: "unat (c - 2) = unat c - 2" using assms(2) by (simp add: unat_minus32 word_le_nat_alt)
  note B = lba_of_bound(2) [OF assms]
  have m: "unat ((c - 2) * ucast (sectors_per_cluster s)) = (unat c - 2) * unat (sectors_per_cluster s)"
    using B unfolding lba_of_def by (subst unat_word_ariths) (simp add: c2)
  show ?thesis using B unfolding cluster_to_lba_def lba_of_def by (subst unat_plus32) (simp_all add: m)
qed

lemma fat_position:
  assumes "layout_ok s" and "unat c < clusters_end s"
  shows "unat (fat_start_lba s + c * 4 div 512) = unat (fat_start_lba s) + unat c div 128"
    "unat (c * 4 mod 512) = 4 * (unat c mod 128)" "unat c div 128 < unat (fat_size s)"
proof -
  note L = layout_bounds [OF assms(1)]
  have c4: "unat (c * 4) = 4 * unat c" using L(1) assms(2) by (subst unat_word_ariths) simp
  have q: "unat (c * 4 div 512) = unat c div 128" by (simp add: unat_div c4)
  show "unat (c * 4 mod 512) = 4 * (unat c mod 128)" by (simp add: unat_mod c4 mult_mod_right)
  show s: "unat c div 128 < unat (fat_size s)" using assms by (simp add: layout_ok_def less_mult_imp_div_less mult.commute)
  show "unat (fat_start_lba s + c * 4 div 512) = unat (fat_start_lba s) + unat c div 128"
    using L(2,3) s by (subst unat_plus32) (simp_all add: q)
qed

section \<open>Bytes\<close>

lemma overwrite_0: "length bs = length buf \<Longrightarrow> overwrite 0 bs buf = bs"
  by (simp add: overwrite_def)

lemma overwrite_length [simp]: "i + length new \<le> length buf \<Longrightarrow> length (overwrite i new buf) = length buf"
  by (simp add: overwrite_def)

lemma overwrite_char:
  "i + length new \<le> length buf \<Longrightarrow>
     char_at (overwrite i new buf) k = (if i \<le> k \<and> k < i + length new then new ! (k - i) else char_at buf k)"
  by (auto simp: overwrite_def char_at_def nth_append)

lemma bytes32_length [simp]: "length (bytes32 v) = 4" "length (bytes16 w) = 2"
  by (simp_all add: bytes32_def bytes16_def)

lemma get32_new:
  assumes "i + 4 \<le> length buf"
  shows "get32 (overwrite i (bytes32 v) buf) i = v"
proof -
  have "char_at (overwrite i (bytes32 v) buf) i = ucast v" "char_at (overwrite i (bytes32 v) buf) (i + 1) = ucast (drop_bit 8 v)"
    "char_at (overwrite i (bytes32 v) buf) (i + 2) = ucast (drop_bit 16 v)" "char_at (overwrite i (bytes32 v) buf) (i + 3) = ucast (drop_bit 24 v)"
    using assms by (simp_all add: overwrite_char bytes32_def)
  then show ?thesis using bytes_of_word [of v] by (simp add: get32_def)
qed

lemma get32_old:
  assumes "i + length new \<le> length buf" and "j + 4 \<le> i \<or> i + length new \<le> j"
  shows "get32 (overwrite i new buf) j = get32 buf j"
  using assms by (auto simp: get32_def overwrite_char)

lemma mask28: "(0x0FFFFFFF :: u32) = mask 28" "(0xF0000000 :: u32) = NOT (mask 28)"
  by (simp_all add: mask_eq_exp_minus_1)

lemma entry_value: "((e AND 0xF0000000) OR (v AND 0x0FFFFFFF)) AND 0x0FFFFFFF = v AND (0x0FFFFFFF :: u32)"
  unfolding mask28 by (rule bit_word_eqI) (auto simp: bit_simps)

section \<open>Reading\<close>

lemma same_fs_refl [simp]: "same_fs s s" by (simp add: same_fs_def)

lemma same_fs_trans: "same_fs s t \<Longrightarrow> same_fs t u \<Longrightarrow> same_fs s u"
  unfolding same_fs_def by (cases s; cases t; cases u) (auto intro: undisturbed_trans)

lemma same_fs_fields:
  assumes "same_fs s t"
  shows "fs_drive t = fs_drive s" "sectors_per_cluster t = sectors_per_cluster s" "num_fats t = num_fats s"
    "fat_start_lba t = fat_start_lba s" "data_start_lba t = data_start_lba s" "fat_size t = fat_size s"
    "total_clusters t = total_clusters s" "root_cluster t = root_cluster s" "cwd_cluster t = cwd_cluster s" "mounted t = mounted s"
    "bytes_per_sector t = bytes_per_sector s"
  by (subst assms [unfolded same_fs_def, THEN conjunct1], simp)+

lemma same_fs_disk:
  assumes "t = s\<lparr>disk := disk t\<rparr>" and "undisturbed (disk s) (disk t)"
  shows "same_fs s t" "same_fs s (t\<lparr>fat_sector_buf := x, fat_sector_cached_lba := y\<rparr>)" "same_fs s (t\<lparr>cluster_buf := z\<rparr>)"
    "same_fs s (t\<lparr>fat_sector_cached_lba := y\<rparr>)"
  using assms unfolding same_fs_def by (cases s; cases t; simp)+

lemma same_fs_bus: "same_fs s t \<Longrightarrow> undisturbed (disk s) (disk t)" by (simp add: same_fs_def)

lemma same_fs_nat:
  assumes "same_fs s t"
  shows "clusters_end t = clusters_end s" "lba_of t = lba_of s" "cluster_bytes t = cluster_bytes s"
  using same_fs_fields [OF assms] by (simp_all add: clusters_end_def lba_of_def cluster_bytes_def fun_eq_iff)

text \<open>A state that differs in the bus only, and whose drives have the same contents.\<close>

lemma vol_bus:
  assumes "vol_ok b s" and "drive_serves b p" and "media (now b p) = media (now b (disk s))" and "undisturbed (disk s) p"
  shows "quiet b s (s\<lparr>disk := p\<rparr>)"
proof -
  have "disk_of b (s\<lparr>disk := p\<rparr>) = disk_of b s" using assms(3) by (simp add: disk_of_def)
  then show ?thesis using assms(1,2,4)
    by (auto simp: quiet_def vol_ok_def layout_ok_def cache_ok_def copies_agree_def same_fs_def clusters_end_def cluster_bytes_def)
qed

lemma quiet_refl: "vol_ok b s \<Longrightarrow> quiet b s s" by (simp add: quiet_def)

lemma quiet_trans: "quiet b s t \<Longrightarrow> quiet b t u \<Longrightarrow> quiet b s u"
  by (auto simp: quiet_def intro: same_fs_trans)

lemma quiet_view:
  assumes "quiet b s t"
  shows "vol_ok b t" "same_fs s t" "disk_of b t = disk_of b s" "fat_entry b t = fat_entry b s"
  using assms same_fs_fields [of s t] by (auto simp: quiet_def fat_entry_def fun_eq_iff)

lemma fs_read_ok:
  assumes "vol_ok b s" and "lba < 0x10000000" and "n \<noteq> 0"
  obtains t where "fs_read (fs_drive s) lba n s = Some (0, sectors (disk_of b s) (unat lba) (unat n), t)" "quiet b s t"
    "t = s\<lparr>disk := disk t\<rparr>"
proof -
  have d: "drive_serves b (disk s)" using assms(1) by (simp add: vol_ok_def)
  obtain p where p: "ata_read (fs_drive s) lba n (disk s) =
      Some (0, sectors (media (now b (disk s)) (bit (fs_drive s) 0)) (unat lba) (unat n), p)"
    "drive_serves b p" "media (now b p) = media (now b (disk s))" by (rule ata_read_ok [OF assms(3,2) d])
  show thesis by (rule that [of "s\<lparr>disk := p\<rparr>"])
    (use p vol_bus [OF assms(1) p(2,3) undisturbed_read [OF p(1)]] in \<open>simp_all add: fs_read_def disk_of_def\<close>)
qed

lemma sectors_1: "sectors m lba (Suc 0) = m lba" by (simp add: sectors_def)

lemma fs_read_sector:
  assumes "vol_ok b s" and "lba < 0x10000000"
  obtains t where "fs_read (fs_drive s) lba 1 s = Some (0, disk_of b s (unat lba), t)" "quiet b s t" "t = s\<lparr>disk := disk t\<rparr>"
proof -
  obtain t where t: "fs_read (fs_drive s) lba 1 s = Some (0, sectors (disk_of b s) (unat lba) (unat (1 :: u8)), t)" "quiet b s t"
    "t = s\<lparr>disk := disk t\<rparr>" by (rule fs_read_ok [OF assms, of 1]) simp
  then show thesis by (intro that [of t]) (simp_all add: sectors_1)
qed

lemma disk_length: "vol_ok b s \<Longrightarrow> length (disk_of b s i) = 512"
  by (simp add: vol_ok_def drive_serves_def disk_of_def)

lemma next_cluster_ok:
  assumes "vol_ok b s" and "unat c < clusters_end s"
  obtains t where "next_cluster c s = Some (fat_entry b s (unat c), t)" "quiet b s t"
proof -
  have L: "layout_ok s" "cache_ok b s" using assms(1) by (auto simp: vol_ok_def)
  note P = fat_position [OF L(1) assms(2)] and B = layout_bounds [OF L(1)]
  let ?lba = "fat_start_lba s + c * 4 div 512"
  have lb: "?lba < 0x10000000" "?lba \<noteq> 0xFFFFFFFF" using P(1,3) B(2,3) by (auto simp: word_less_nat_alt word_unat_eq_iff)
  show thesis
  proof (cases "?lba = fat_sector_cached_lba s")
    case True
    then have "fat_sector_buf s = disk_of b s (unat ?lba)" using L(2) lb(2) by (simp add: cache_ok_def)
    then show thesis using True P by (intro that [of s] quiet_refl [OF assms(1)]) (simp add: next_cluster_def fat_entry_def)
  next
    case False
    obtain t where t: "fs_read (fs_drive s) ?lba 1 s = Some (0, disk_of b s (unat ?lba), t)" "quiet b s t" "t = s\<lparr>disk := disk t\<rparr>"
      by (rule fs_read_sector [OF assms(1) lb(1)])
    let ?u = "t\<lparr>fat_sector_buf := disk_of b s (unat ?lba), fat_sector_cached_lba := ?lba\<rparr>"
    have len: "length (fat_sector_buf t) = 512" "length (disk_of b s (unat ?lba)) = 512"
      using quiet_view(1) [OF t(2)] disk_length [OF assms(1)] by (simp_all add: vol_ok_def layout_ok_def)
    have d: "disk_of b ?u = disk_of b s" using quiet_view(3) [OF t(2)] by (simp add: disk_of_def)
    have f: "fat_start_lba t = fat_start_lba s" "fat_size t = fat_size s" using quiet_view(2) [OF t(2)] by (simp_all add: same_fs_fields)
    have "vol_ok b ?u" using quiet_view(1) [OF t(2)] len d f P(1,3) quiet_view(3) [OF t(2)]
      by (auto simp: vol_ok_def layout_ok_def cache_ok_def copies_agree_def clusters_end_def cluster_bytes_def)
    moreover have "same_fs s ?u" by (rule same_fs_disk(2) [OF t(3) same_fs_bus [OF quiet_view(2) [OF t(2)]]])
    moreover have "alloc_hint t = alloc_hint s" using t(2) by (simp add: quiet_def)
    ultimately have "quiet b s ?u" using d by (simp add: quiet_def)
    moreover have "next_cluster c s = Some (fat_entry b s (unat c), ?u)"
      using False t(1) P(1,2) len by (simp add: next_cluster_def Let_def overwrite_0 fat_entry_def)
    ultimately show thesis by (intro that)
  qed
qed

lemma read_cluster_ok:
  assumes "vol_ok b s" and "2 \<le> unat c" "unat c < clusters_end s"
  obtains t where "read_cluster c s = Some (0, t)" "quiet b s t"
    "\<forall>i < cluster_bytes s. char_at (cluster_buf t) i = char_at (sectors (disk_of b s) (lba_of s (unat c)) (unat (sectors_per_cluster s))) i"
proof -
  have L: "layout_ok s" using assms(1) by (simp add: vol_ok_def)
  let ?n = "sectors_per_cluster s" and ?lba = "cluster_to_lba s c"
  note C = cluster_to_lba_nat [OF L assms(2,3)] and B = lba_of_bound [OF L assms(2,3)]
  have n: "?n \<noteq> 0" "?lba < 0x10000000" using L C B(2) by (auto simp: layout_ok_def word_less_nat_alt)
  let ?bs = "sectors (disk_of b s) (unat ?lba) (unat ?n)"
  obtain t where t: "fs_read (fs_drive s) ?lba ?n s = Some (0, ?bs, t)" "quiet b s t" "t = s\<lparr>disk := disk t\<rparr>"
    by (rule fs_read_ok [OF assms(1) n(2,1)])
  let ?u = "t\<lparr>cluster_buf := overwrite 0 ?bs (cluster_buf t)\<rparr>"
  have bl: "length ?bs = cluster_bytes s" using sectors_length [of "disk_of b s"] disk_length [OF assms(1)] by (simp add: cluster_bytes_def)
  have cl: "cluster_buf t = cluster_buf s" by (subst t(3)) simp
  have cb: "cluster_bytes s \<le> length (cluster_buf t)" using L cl by (simp add: layout_ok_def)
  have "vol_ok b ?u" using quiet_view(1) [OF t(2)] bl cb same_fs_nat(3) [OF quiet_view(2) [OF t(2)]]
    by (auto simp: vol_ok_def layout_ok_def cache_ok_def copies_agree_def clusters_end_def cluster_bytes_def disk_of_def)
  moreover have "same_fs s ?u" by (rule same_fs_disk(3) [OF t(3) same_fs_bus [OF quiet_view(2) [OF t(2)]]])
  ultimately have "quiet b s ?u" using quiet_view(3) [OF t(2)] t(2) by (simp add: quiet_def disk_of_def)
  moreover have "read_cluster c s = Some (0, ?u)" using t(1) by (simp add: read_cluster_def)
  moreover have "char_at (cluster_buf ?u) i = char_at (sectors (disk_of b s) (lba_of s (unat c)) (unat ?n)) i" if "i < cluster_bytes s" for i
    using that bl cb C by (simp add: overwrite_char) (simp add: char_at_def)
  ultimately show thesis by (intro that [of ?u]) auto
qed

section \<open>Changing the table\<close>

lemma fs_read_raw:
  assumes "drive_serves b (disk s)" and "lba < 0x10000000"
  obtains t where "fs_read (fs_drive s) lba 1 s = Some (0, disk_of b s (unat lba), t)" "t = s\<lparr>disk := disk t\<rparr>"
    "drive_serves b (disk t)" "disk_of b t = disk_of b s"
proof -
  obtain p where p: "ata_read (fs_drive s) lba 1 (disk s) =
      Some (0, sectors (media (now b (disk s)) (bit (fs_drive s) 0)) (unat lba) (unat (1 :: u8)), p)"
    "drive_serves b p" "media (now b p) = media (now b (disk s))" by (rule ata_read_ok [OF _ assms(2,1), of 1]) simp
  show thesis by (rule that [of "s\<lparr>disk := p\<rparr>"]) (use p in \<open>simp_all add: fs_read_def disk_of_def sectors_1\<close>)
qed

lemma fs_write_raw:
  assumes "drive_serves b (disk s)" and "lba < 0x10000000" and "n \<noteq> 0" and "512 * unat n \<le> length buf"
  obtains t where "fs_write (fs_drive s) lba n buf s = Some (0, t)" "t = s\<lparr>disk := disk t\<rparr>"
    "drive_serves b (disk t)" "disk_of b t = put_sectors (unat lba) (unat n) buf (disk_of b s)"
proof -
  obtain p where p: "ata_write (fs_drive s) lba n buf (disk s) = Some (0, p)" "drive_serves b p"
    "media (now b p) = (media (now b (disk s)))(bit (fs_drive s) 0 :=
       put_sectors (unat lba) (unat n) buf (media (now b (disk s)) (bit (fs_drive s) 0)))" by (rule ata_write_ok [OF assms(3,2,1,4)])
  show thesis by (rule that [of "s\<lparr>disk := p\<rparr>"]) (use p in \<open>simp_all add: fs_write_def disk_of_def\<close>)
qed

lemma put_sectors_1: "length buf = 512 \<Longrightarrow> put_sectors lba (Suc 0) buf m = m(lba := buf)"
  by (auto simp: put_sectors_def fun_eq_iff)

lemma entry_put_length [simp]: "length sec = 512 \<Longrightarrow> length (entry_put c v sec) = 512"
  unfolding entry_put_def by (subst overwrite_length) auto

lemma entry_put_get:
  assumes "length sec = 512"
  shows "get32 (entry_put c v sec) (4 * (d mod 128)) AND 0x0FFFFFFF =
    (if d mod 128 = c mod 128 then v AND 0x0FFFFFFF else get32 sec (4 * (d mod 128)) AND 0x0FFFFFFF)"
proof (cases "d mod 128 = c mod 128")
  case True
  have "4 * (c mod 128) + 4 \<le> length sec" using assms by simp
  then show ?thesis using True by (simp add: entry_put_def get32_new entry_value)
next
  case False
  have "4 * (c mod 128) + 4 \<le> length sec" using assms by simp
  moreover have "4 * (d mod 128) + 4 \<le> 4 * (c mod 128) \<or> 4 * (c mod 128) + 4 \<le> 4 * (d mod 128)" using False by linarith
  ultimately show ?thesis using False unfolding entry_put_def by (subst get32_old) auto
qed

lemma copy_position:
  assumes "layout_ok s" and "unat c < clusters_end s" and "f < unat (num_fats s)"
  shows "unat (fat_start_lba s + of_nat f * fat_size s + c * 4 div 512) = unat (fat_start_lba s) + f * unat (fat_size s) + unat c div 128"
    "unat (fat_start_lba s) + f * unat (fat_size s) + unat c div 128 < unat (data_start_lba s)"
proof -
  note L = layout_bounds [OF assms(1)] and P = fat_position [OF assms(1,2)]
  have "(f + 1) * unat (fat_size s) \<le> unat (num_fats s) * unat (fat_size s)" using assms(3) by (intro mult_le_mono1) simp
  then have le: "unat (fat_start_lba s) + f * unat (fat_size s) + unat (fat_size s) \<le> unat (data_start_lba s)"
    using assms(1) unfolding layout_ok_def by (simp add: add_mult_distrib)
  then show "unat (fat_start_lba s) + f * unat (fat_size s) + unat c div 128 < unat (data_start_lba s)" using P(3) by linarith
  have f: "unat (of_nat f :: u32) = f" using assms(3) unat_lt8 [of "num_fats s"] by (intro unat_of_nat32) simp
  have m: "unat (of_nat f * fat_size s) = f * unat (fat_size s)" using le L(3) by (subst unat_word_ariths) (simp add: f)
  have a: "unat (fat_start_lba s + of_nat f * fat_size s) = unat (fat_start_lba s) + f * unat (fat_size s)"
    using le L(3) m by (subst unat_plus32) simp_all
  have q: "unat (c * 4 div 512) = unat c div 128"
  proof -
    have "unat (c * 4) = 4 * unat c" using L(1) assms(2) by (subst unat_word_ariths) simp
    then show ?thesis by (simp add: unat_div)
  qed
  show "unat (fat_start_lba s + of_nat f * fat_size s + c * 4 div 512) = unat (fat_start_lba s) + f * unat (fat_size s) + unat c div 128"
    using le L(3) P(3) by (subst unat_plus32) (simp_all add: a q)
qed

lemma bus_upd:
  "layout_ok (s\<lparr>disk := p\<rparr>) = layout_ok s" "clusters_end (s\<lparr>disk := p\<rparr>) = clusters_end s"
  "num_fats (s\<lparr>disk := p\<rparr>) = num_fats s" "copy_lba (s\<lparr>disk := p\<rparr>) = copy_lba s"
  by (simp_all add: layout_ok_def clusters_end_def cluster_bytes_def copy_lba_def fun_eq_iff)

lemma copy_lba_eq:
  assumes "q < unat (fat_size s)" "r < unat (fat_size s)"
  shows "copy_lba s f q = copy_lba s g r \<longleftrightarrow> f = g \<and> q = r"
proof
  assume "copy_lba s f q = copy_lba s g r"
  then have e: "f * unat (fat_size s) + q = g * unat (fat_size s) + r" by (simp add: copy_lba_def)
  then have "(f * unat (fat_size s) + q) div unat (fat_size s) = (g * unat (fat_size s) + r) div unat (fat_size s)" by simp
  then have "f = g" using assms by simp
  then show "f = g \<and> q = r" using e by simp
qed simp

lemma set_fat_copies_ok:
  assumes "layout_ok s" and "drive_serves b (disk s)" and "unat c < clusters_end s" and "f + k \<le> unat (num_fats s)"
  shows "\<exists>t. set_fat_copies c v k (of_nat f) s = Some (0, t) \<and> t = s\<lparr>disk := disk t\<rparr> \<and> drive_serves b (disk t) \<and>
    (\<forall>i. disk_of b t i = (if \<exists>g. f \<le> g \<and> g < f + k \<and> i = copy_lba s g (unat c div 128) then entry_put (unat c) v (disk_of b s i)
       else disk_of b s i))"
  using assms
proof (induction k arbitrary: f s)
  case 0
  then show ?case by auto
next
  case (Suc k)
  let ?q = "unat c div 128" and ?lba = "fat_start_lba s + of_nat f * fat_size s + c * 4 div 512"
  have f: "f < unat (num_fats s)" using Suc.prems(4) by simp
  note P = copy_position [OF Suc.prems(1,3) f] and O = fat_position [OF Suc.prems(1,3)] and B = layout_bounds [OF Suc.prems(1)]
  have lb: "?lba < 0x10000000" using P B(3) by (simp add: word_less_nat_alt)
  obtain t where t: "fs_read (fs_drive s) ?lba 1 s = Some (0, disk_of b s (unat ?lba), t)" "t = s\<lparr>disk := disk t\<rparr>"
    "drive_serves b (disk t)" "disk_of b t = disk_of b s" by (rule fs_read_raw [OF Suc.prems(2) lb])
  let ?sec = "disk_of b s (unat ?lba)"
  have l: "length ?sec = 512" using Suc.prems(2) by (simp add: drive_serves_def disk_of_def)
  have n1: "512 * unat (1 :: u8) \<le> length (entry_put (unat c) v ?sec)" using l by simp
  have n0: "(1 :: u8) \<noteq> 0" by simp
  obtain u where u: "fs_write (fs_drive t) ?lba 1 (entry_put (unat c) v ?sec) t = Some (0, u)" "u = t\<lparr>disk := disk u\<rparr>"
    "drive_serves b (disk u)" "disk_of b u = put_sectors (unat ?lba) (unat (1 :: u8)) (entry_put (unat c) v ?sec) (disk_of b t)"
    by (rule fs_write_raw [OF t(3) lb n0 n1])
  have us: "u = s\<lparr>disk := disk u\<rparr>" by (subst u(2), subst t(2)) simp
  have du: "disk_of b u = (disk_of b s)(copy_lba s f ?q := entry_put (unat c) v (disk_of b s (copy_lba s f ?q)))"
    using u(4) t(4) l P(1) by (simp add: put_sectors_1 copy_lba_def)
  have su: "layout_ok u" "unat c < clusters_end u" "Suc f + k \<le> unat (num_fats u)" "copy_lba u = copy_lba s"
    using Suc.prems bus_upd [where s = s and p = "disk u"] by (simp_all flip: us)
  obtain w where w: "set_fat_copies c v k (of_nat (Suc f)) u = Some (0, w)" "w = u\<lparr>disk := disk w\<rparr>" "drive_serves b (disk w)"
    "\<forall>i. disk_of b w i = (if \<exists>g. Suc f \<le> g \<and> g < Suc f + k \<and> i = copy_lba s g ?q then entry_put (unat c) v (disk_of b u i) else disk_of b u i)"
    using Suc.IH [OF su(1) u(3) su(2,3)] unfolding su(4) by blast
  have ne: "copy_lba s g ?q = copy_lba s f ?q \<longleftrightarrow> g = f" for g using copy_lba_eq [OF O(3) O(3)] by simp
  have d: "disk_of b w i = (if \<exists>g. f \<le> g \<and> g < f + Suc k \<and> i = copy_lba s g ?q then entry_put (unat c) v (disk_of b s i) else disk_of b s i)" for i
  proof (cases "i = copy_lba s f ?q")
    case True
    then show ?thesis using w(4) du ne by (auto simp: eq_commute [of "copy_lba s f ?q"])
  next
    case False
    then have iff: "(\<exists>g. f \<le> g \<and> g < f + Suc k \<and> i = copy_lba s g ?q) \<longleftrightarrow> (\<exists>g. Suc f \<le> g \<and> g < Suc f + k \<and> i = copy_lba s g ?q)"
      by (metis Suc_leI add_Suc_shift le_neq_implies_less order_less_imp_le Suc_le_lessD)
    have "disk_of b u i = disk_of b s i" using du False by simp
    then show ?thesis unfolding iff using w(4) by metis
  qed
  have "set_fat_copies c v (Suc k) (of_nat f) s = Some (0, w)"
    using t(1) u(1) w(1) O(2) by (simp add: Let_def entry_put_def add.commute)
  moreover have "w = s\<lparr>disk := disk w\<rparr>" by (subst w(2), subst us) simp
  ultimately show ?case using w(3) d by blast
qed

lemma undisturbed_fs_read: "fs_read d lba n s = Some (r, bs, t) \<Longrightarrow> undisturbed (disk s) (disk t)"
  by (auto simp: fs_read_def dest: undisturbed_read)

lemma undisturbed_fs_write: "fs_write d lba n buf s = Some (r, t) \<Longrightarrow> undisturbed (disk s) (disk t)"
  by (auto simp: fs_write_def dest: undisturbed_write)

lemma undisturbed_copies: "set_fat_copies c v k f s = Some (r, t) \<Longrightarrow> undisturbed (disk s) (disk t)"
proof (induction k arbitrary: f s r)
  case (Suc k)
  then show ?case
    by (auto simp: Let_def split: if_splits Option.bind_splits dest!: undisturbed_fs_read undisturbed_fs_write Suc.IH) (metis undisturbed_trans)+
qed simp

lemma set_fat_entry_ok:
  assumes "vol_ok b s" and "unat c < clusters_end s"
  obtains t where "set_fat_entry c v s = Some (0, t)" "gives b s t ((fat_entry b s)(unat c := v AND 0x0FFFFFFF)) (disk_of b s)"
    "alloc_hint t = alloc_hint s"
proof -
  have L: "layout_ok s" "drive_serves b (disk s)" "copies_agree b s" using assms(1) by (auto simp: vol_ok_def)
  let ?q = "unat c div 128"
  note O = fat_position [OF L(1) assms(2)]
  obtain t where t: "set_fat_copies c v (unat (num_fats s)) 0 s = Some (0, t)" "t = s\<lparr>disk := disk t\<rparr>" "drive_serves b (disk t)"
    "\<forall>i. disk_of b t i = (if \<exists>g. g < unat (num_fats s) \<and> i = copy_lba s g ?q then entry_put (unat c) v (disk_of b s i) else disk_of b s i)"
    using set_fat_copies_ok [OF L(1,2) assms(2), of 0 "unat (num_fats s)" v] by auto
  let ?u = "t\<lparr>fat_sector_cached_lba := 0xFFFFFFFF\<rparr>"
  have du: "disk_of b ?u = disk_of b t" by (simp add: disk_of_def)
  have us: "same_fs s ?u" by (rule same_fs_disk(4) [OF t(2) undisturbed_copies [OF t(1)]])
  have fld: "fat_start_lba ?u = fat_start_lba s" "fat_size ?u = fat_size s" "num_fats ?u = num_fats s" by (subst t(2), simp)+
  have lay: "layout_ok ?u" by (subst t(2), use L(1) in \<open>simp add: layout_ok_def clusters_end_def cluster_bytes_def\<close>)
  have at: "disk_of b t (copy_lba s f i) = (if i = ?q then entry_put (unat c) v (disk_of b s (copy_lba s f i)) else disk_of b s (copy_lba s f i))"
    if "f < unat (num_fats s)" "i < unat (fat_size s)" for f i
    using t(4) that copy_lba_eq [OF that(2) O(3)] by auto
  have nf: "0 < unat (num_fats s)" using L(1) by (simp add: layout_ok_def)
  have "copies_agree b ?u"
    unfolding copies_agree_def du fld
  proof (intro allI impI)
    fix f i assume fi: "f < unat (num_fats s)" "i < unat (fat_size s)"
    have "disk_of b s (copy_lba s f i) = disk_of b s (copy_lba s 0 i)"
      using L(3) fi by (simp add: copies_agree_def copy_lba_def)
    then have "disk_of b t (copy_lba s f i) = disk_of b t (copy_lba s 0 i)" unfolding at [OF fi] at [OF nf fi(2)] by (simp only:)
    then show "disk_of b t (unat (fat_start_lba s) + f * unat (fat_size s) + i) = disk_of b t (unat (fat_start_lba s) + i)"
      by (simp add: copy_lba_def)
  qed
  then have V: "vol_ok b ?u" using lay t(3) by (simp add: vol_ok_def cache_ok_def)
  have F: "fat_entry b ?u d = ((fat_entry b s)(unat c := v AND 0x0FFFFFFF)) d" if d: "d < clusters_end s" for d
  proof -
    have dq: "d div 128 < unat (fat_size s)" using d L(1) by (simp add: layout_ok_def less_mult_imp_div_less mult.commute)
    have cd: "copy_lba s 0 (d div 128) = unat (fat_start_lba s) + d div 128" by (simp add: copy_lba_def)
    have e: "d div 128 = ?q \<Longrightarrow> d mod 128 = unat c mod 128 \<longleftrightarrow> d = unat c" by (metis div_mult_mod_eq)
    show ?thesis using at [OF nf dq] entry_put_get [OF disk_length [OF assms(1)], of "unat c" v _ d] e
      unfolding fat_entry_def du fld cd by auto
  qed
  have D: "disk_of b ?u i = disk_of b s i" if "unat (data_start_lba s) \<le> i" for i
  proof -
    have "\<not> (\<exists>g. g < unat (num_fats s) \<and> i = copy_lba s g ?q)"
      using copy_position(2) [OF L(1) assms(2)] that by (auto simp: copy_lba_def not_le [symmetric])
    then show ?thesis unfolding du using t(4) by metis
  qed
  have "set_fat_entry c v s = Some (0, ?u)" using t(1) by (simp add: set_fat_entry_def)
  moreover have "gives b s ?u ((fat_entry b s)(unat c := v AND 0x0FFFFFFF)) (disk_of b s)"
    using V us F D unfolding gives_def by blast
  moreover have "alloc_hint ?u = alloc_hint s" by (subst t(2)) simp
  ultimately show thesis by (rule that)
qed

end
