(* ===== verification/Fat_Alloc.thy ===== *)
theory Fat_Alloc
  imports Fat_Spec
begin

text \<open>
  Clusters: the search for a free one, giving back a chain, and writing and reading the contents of a
  chain.
\<close>

unbundle bit_operations_syntax

section \<open>Definitions\<close>

text \<open>The cluster that turn \<open>i\<close> of the search looks at, and the turn in which a cluster is looked at.\<close>

definition pos :: "fat32 \<Rightarrow> nat \<Rightarrow> nat" where
  "pos s i = (let c = unat (alloc_hint s) + i in if clusters_end s \<le> c then 2 + (c - clusters_end s) else c)"

definition turn_of :: "fat32 \<Rightarrow> nat \<Rightarrow> nat" where
  "turn_of s c = (if unat (alloc_hint s) \<le> c then c - unat (alloc_hint s) else c + unat (total_clusters s) - unat (alloc_hint s))"

definition free_clusters :: "(nat \<Rightarrow> u32) \<Rightarrow> nat \<Rightarrow> nat set" where
  "free_clusters F n = {c. 2 \<le> c \<and> c < n \<and> F c = 0}"

definition freed :: "(nat \<Rightarrow> u32) \<Rightarrow> u32 list \<Rightarrow> nat \<Rightarrow> u32" where
  "freed F ds = (\<lambda>c. if c \<in> unat ` set ds then 0 else F c)"

text \<open>The sectors and the bytes of a cluster, and the bytes of a list of clusters.\<close>

definition in_cluster :: "fat32 \<Rightarrow> nat \<Rightarrow> nat \<Rightarrow> bool" where
  "in_cluster s c i \<longleftrightarrow> lba_of s c \<le> i \<and> i < lba_of s c + unat (sectors_per_cluster s)"

definition cluster_data :: "(nat \<Rightarrow> u8 list) \<Rightarrow> fat32 \<Rightarrow> nat \<Rightarrow> u8 list" where
  "cluster_data D s c = sectors D (lba_of s c) (unat (sectors_per_cluster s))"

definition file_bytes :: "(nat \<Rightarrow> u8 list) \<Rightarrow> fat32 \<Rightarrow> u32 list \<Rightarrow> u8 list" where
  "file_bytes D s ds = concat (map (\<lambda>d. cluster_data D s (unat d)) ds)"

text \<open>The number of clusters that \<open>n\<close> bytes take.\<close>

definition clusters_for :: "fat32 \<Rightarrow> nat \<Rightarrow> nat" where
  "clusters_for s n = (n + cluster_bytes s - 1) div cluster_bytes s"

text \<open>The table in which the clusters of a list are a chain, and the first and the last of them.\<close>

fun link :: "(nat \<Rightarrow> u32) \<Rightarrow> u32 list \<Rightarrow> nat \<Rightarrow> u32" where
  "link F [] = F"
| "link F [d] = F(unat d := 0x0FFFFFFF)"
| "link F (d # e # ds) = (link F (e # ds))(unat d := e)"

definition first_of :: "u32 list \<Rightarrow> u32" where "first_of ds = (if ds = [] then 0 else hd ds)"
definition final_of :: "u32 list \<Rightarrow> u32" where "final_of ds = (if ds = [] then 0 else last ds)"

text \<open>A volume whose table is \<open>F\<close> but for a chain of clusters that are free in \<open>F\<close>.\<close>

definition built :: "ata_bus \<Rightarrow> fat32 \<Rightarrow> (nat \<Rightarrow> u32) \<Rightarrow> u32 list \<Rightarrow> bool" where
  "built b s F ds \<longleftrightarrow> vol_ok b s \<and> (\<forall>c < clusters_end s. fat_entry b s c = link F ds c) \<and> distinct ds \<and>
     (\<forall>d \<in> set ds. unat d \<in> free_clusters F (clusters_end s))"

text \<open>The disk outside the clusters \<open>C\<close> is unchanged.\<close>

definition spares :: "ata_bus \<Rightarrow> fat32 \<Rightarrow> fat32 \<Rightarrow> nat set \<Rightarrow> bool" where
  "spares b s t C \<longleftrightarrow> (\<forall>i \<ge> unat (data_start_lba s). (\<forall>c \<in> C. \<not> in_cluster s c i) \<longrightarrow> disk_of b t i = disk_of b s i)"

section \<open>Steps\<close>

lemma gives_refl: "vol_ok b s \<Longrightarrow> gives b s s (fat_entry b s) (disk_of b s)"
  by (simp add: gives_def)

lemma quiet_gives: "quiet b s t \<Longrightarrow> gives b s t (fat_entry b s) (disk_of b s)"
  using quiet_view [of b s t] by (simp add: gives_def)

lemma gives_view:
  assumes "gives b s t F D"
  shows "vol_ok b t" "same_fs s t" "c < clusters_end s \<Longrightarrow> fat_entry b t c = F c"
    "unat (data_start_lba s) \<le> i \<Longrightarrow> disk_of b t i = D i"
  using assms by (auto simp: gives_def)

lemma gives_trans:
  assumes "gives b s t F D" and "gives b t u F' D'"
  shows "gives b s u F' D'"
  using assms same_fs_fields [of s t] same_fs_nat [of s t] by (auto simp: gives_def intro: same_fs_trans)

lemma gives_cong:
  assumes "gives b s t F D" and "\<And>c. c < clusters_end s \<Longrightarrow> F c = F' c"
    and "\<And>i. unat (data_start_lba s) \<le> i \<Longrightarrow> D i = D' i"
  shows "gives b s t F' D'"
  using assms by (auto simp: gives_def)

lemma gives_hint:
  assumes "gives b s t F D" and "2 \<le> unat h" "unat h \<le> clusters_end s"
  shows "gives b s (t\<lparr>alloc_hint := h\<rparr>) F D"
proof -
  let ?t = "t\<lparr>alloc_hint := h\<rparr>"
  have d: "disk_of b ?t = disk_of b t" "fat_entry b ?t = fat_entry b t" by (simp_all add: disk_of_def fat_entry_def fun_eq_iff)
  have "vol_ok b ?t" using assms(2,3) gives_view(1) [OF assms(1)] same_fs_nat [OF gives_view(2) [OF assms(1)]] d
    by (simp add: vol_ok_def layout_ok_def cache_ok_def copies_agree_def clusters_end_def cluster_bytes_def)
  moreover have "same_fs s ?t" using gives_view(2) [OF assms(1)] unfolding same_fs_def by (cases s; cases t) simp
  ultimately show ?thesis using assms(1) d by (simp add: gives_def)
qed

lemma clusters_lt32: "vol_ok b s \<Longrightarrow> c < clusters_end s \<Longrightarrow> unat (of_nat c :: u32) = c"
  using layout_bounds(1) [of s] by (intro unat_of_nat32) (simp add: vol_ok_def)

section \<open>Allocation\<close>

lemma word_of_nat_unat: "of_nat (unat (x :: u32)) = x" by simp

lemma pos_range:
  assumes "vol_ok b s" and "i < unat (total_clusters s)"
  shows "2 \<le> pos s i" "pos s i < clusters_end s"
  using assms by (auto simp: pos_def vol_ok_def layout_ok_def clusters_end_def Let_def)

lemma pos_turn:
  assumes "vol_ok b s" and "2 \<le> c" "c < clusters_end s"
  shows "turn_of s c < unat (total_clusters s)" "pos s (turn_of s c) = c"
  using assms by (auto simp: pos_def turn_of_def vol_ok_def layout_ok_def clusters_end_def Let_def)

lemma turn_pos:
  assumes "vol_ok b s" and "i < unat (total_clusters s)"
  shows "turn_of s (pos s i) = i"
  using assms by (auto simp: pos_def turn_of_def vol_ok_def layout_ok_def clusters_end_def Let_def)

lemma pos_word:
  assumes "vol_ok b s" and "i < unat (total_clusters s)"
  shows "(let c = alloc_hint s + of_nat i in if c \<ge> total_clusters s + 2 then 2 + (c - (total_clusters s + 2)) else c) = of_nat (pos s i)"
proof -
  have L: "layout_ok s" using assms(1) by (simp add: vol_ok_def)
  note B = layout_bounds(1) [OF L]
  have h: "unat (alloc_hint s) \<le> clusters_end s" using L by (simp add: layout_ok_def)
  have i: "unat (of_nat i :: u32) = i" using assms(2) B by (intro unat_of_nat32) (simp add: clusters_end_def)
  have c: "unat (alloc_hint s + of_nat i) = unat (alloc_hint s) + i"
    using h B assms(2) by (subst unat_plus32) (simp_all add: i clusters_end_def)
  have e: "unat (total_clusters s + 2) = clusters_end s" using B by (subst unat_plus32) (simp_all add: clusters_end_def)
  show ?thesis
  proof (cases "clusters_end s \<le> unat (alloc_hint s) + i")
    case True
    then have "total_clusters s + 2 \<le> alloc_hint s + of_nat i" by (simp add: word_le_nat_alt c e)
    moreover from this have "unat (alloc_hint s + of_nat i - (total_clusters s + 2)) = unat (alloc_hint s) + i - clusters_end s"
      by (simp only: unat_minus32 c e)
    ultimately show ?thesis using True unfolding Let_def pos_def
      by (simp only: if_True of_nat_add of_nat_numeral) (metis word_of_nat_unat)
  next
    case False
    then have "\<not> total_clusters s + 2 \<le> alloc_hint s + of_nat i" by (simp add: word_le_nat_alt c e)
    then show ?thesis using False by (simp add: Let_def pos_def)
  qed
qed

lemma pos_quiet: "quiet b s t \<Longrightarrow> pos t = pos s"
  using same_fs_nat(1) [of s t] by (intro ext) (simp add: pos_def quiet_def Let_def)

lemma eoc_mark: "(0x0FFFFFFF :: u32) AND 0x0FFFFFFF = 0x0FFFFFFF" by simp

lemma alloc_loop_ok:
  assumes "vol_ok b s" and "i + k = unat (total_clusters s)"
  shows "(\<exists>t. alloc_loop k (of_nat i) s = Some (0, t) \<and> quiet b s t \<and> (\<forall>j. i \<le> j \<and> j < unat (total_clusters s) \<longrightarrow> fat_entry b s (pos s j) \<noteq> 0)) \<or>
    (\<exists>t j. alloc_loop k (of_nat i) s = Some (of_nat (pos s j), t) \<and> i \<le> j \<and> j < unat (total_clusters s) \<and> fat_entry b s (pos s j) = 0 \<and>
       (\<forall>j'. i \<le> j' \<and> j' < j \<longrightarrow> fat_entry b s (pos s j') \<noteq> 0) \<and>
       gives b s t ((fat_entry b s)(pos s j := 0x0FFFFFFF)) (disk_of b s) \<and> unat (alloc_hint t) = pos s j + 1)"
  using assms
proof (induction k arbitrary: i s)
  case 0
  then show ?case by (auto intro!: quiet_refl)
next
  case (Suc k)
  let ?c = "pos s i"
  have i: "i < unat (total_clusters s)" using Suc.prems(2) by simp
  note R = pos_range [OF Suc.prems(1) i] and P = pos_word [OF Suc.prems(1) i, unfolded Let_def]
  have u: "unat (of_nat ?c :: u32) = ?c" by (rule clusters_lt32 [OF Suc.prems(1) R(2)])
  then have uc: "unat (of_nat ?c :: u32) < clusters_end s" using R by simp
  obtain t where t: "next_cluster (of_nat ?c) s = Some (fat_entry b s ?c, t)" "quiet b s t"
    using next_cluster_ok [OF Suc.prems(1) uc] unfolding u by blast
  note Q = quiet_view [OF t(2)] and N = same_fs_nat [OF quiet_view(2) [OF t(2)]] same_fs_fields(7) [OF quiet_view(2) [OF t(2)]]
  show ?case
  proof (cases "fat_entry b s ?c = 0")
    case True
    have ut: "unat (of_nat ?c :: u32) < clusters_end t" using uc N by simp
    obtain w where w: "set_fat_entry (of_nat ?c) 0x0FFFFFFF t = Some (0, w)"
      "gives b t w ((fat_entry b t)(unat (of_nat ?c :: u32) := 0x0FFFFFFF AND 0x0FFFFFFF)) (disk_of b t)"
      by (rule set_fat_entry_ok [OF Q(1) ut])
    have g: "gives b s w ((fat_entry b s)(?c := 0x0FFFFFFF)) (disk_of b s)"
      using gives_trans [OF quiet_gives [OF t(2)] w(2)] unfolding u eoc_mark Q(3,4) .
    have h: "unat (of_nat ?c + 1 :: u32) = ?c + 1"
      using layout_bounds(1) [of s] Suc.prems(1) R(2) by (subst unat_plus32) (simp_all add: u vol_ok_def)
    have g': "gives b s (w\<lparr>alloc_hint := of_nat ?c + 1\<rparr>) ((fat_entry b s)(?c := 0x0FFFFFFF)) (disk_of b s)"
      by (rule gives_hint [OF g]) (use R in \<open>simp_all add: h\<close>)
    have a: "alloc_loop (Suc k) (of_nat i) s = Some (of_nat ?c, w\<lparr>alloc_hint := of_nat ?c + 1\<rparr>)"
      using P t(1) w(1) True by (simp add: Let_def)
    show ?thesis by (rule disjI2, rule exI [of _ "w\<lparr>alloc_hint := of_nat ?c + 1\<rparr>"], rule exI [of _ i], intro conjI a g') (use True i h in auto)
  next
    case False
    have a: "alloc_loop (Suc k) (of_nat i) s = alloc_loop k (of_nat (Suc i)) t"
      using P t(1) False by (simp add: Let_def add.commute)
    have p: "pos t = pos s" by (rule pos_quiet [OF t(2)])
    have k: "Suc i + k = unat (total_clusters t)" using Suc.prems(2) N by simp
    have step: "i \<le> j \<longleftrightarrow> j = i \<or> Suc i \<le> j" for j by auto
    from Suc.IH [OF Q(1) k] show ?thesis
    proof (elim disjE exE conjE)
      fix w assume w: "alloc_loop k (of_nat (Suc i)) t = Some (0, w)" "quiet b t w"
        "\<forall>j. Suc i \<le> j \<and> j < unat (total_clusters t) \<longrightarrow> fat_entry b t (pos t j) \<noteq> 0"
      have n: "\<forall>j. i \<le> j \<and> j < unat (total_clusters s) \<longrightarrow> fat_entry b s (pos s j) \<noteq> 0"
        using w(3) False unfolding step p Q(4) N by blast
      show ?thesis using a w(1) quiet_trans [OF t(2) w(2)] n by (intro disjI1 exI [of _ w]) simp
    next
      fix w j assume w: "alloc_loop k (of_nat (Suc i)) t = Some (of_nat (pos t j), w)" "Suc i \<le> j" "j < unat (total_clusters t)"
        "fat_entry b t (pos t j) = 0" "\<forall>j'. Suc i \<le> j' \<and> j' < j \<longrightarrow> fat_entry b t (pos t j') \<noteq> 0"
        "gives b t w ((fat_entry b t)(pos t j := 0x0FFFFFFF)) (disk_of b t)" "unat (alloc_hint w) = pos t j + 1"
      have n: "\<forall>j'. i \<le> j' \<and> j' < j \<longrightarrow> fat_entry b s (pos s j') \<noteq> 0"
        using w(5) False unfolding step p Q(4) by blast
      have g: "gives b s w ((fat_entry b s)(pos s j := 0x0FFFFFFF)) (disk_of b s)"
        using gives_trans [OF quiet_gives [OF t(2)] w(6)] unfolding p Q(3,4) .
      show ?thesis by (rule disjI2, rule exI [of _ w], rule exI [of _ j], intro conjI n g) (use a w in \<open>simp_all add: p Q(4) N\<close>)
    qed
  qed
qed


lemma alloc_cluster_ok:
  assumes "vol_ok b s"
  shows "(\<exists>t. alloc_cluster s = Some (0, t) \<and> quiet b s t \<and> free_clusters (fat_entry b s) (clusters_end s) = {}) \<or>
    (\<exists>t c. alloc_cluster s = Some (c, t) \<and> c \<noteq> 0 \<and> unat c \<in> free_clusters (fat_entry b s) (clusters_end s) \<and>
       (\<forall>d \<in> free_clusters (fat_entry b s) (clusters_end s). turn_of s (unat c) \<le> turn_of s d) \<and>
       gives b s t ((fat_entry b s)(unat c := 0x0FFFFFFF)) (disk_of b s) \<and> unat (alloc_hint t) = unat c + 1)"
proof -
  let ?n = "unat (total_clusters s)" and ?Z = "free_clusters (fat_entry b s) (clusters_end s)"
  have h: "\<not> alloc_hint s < 2" using assms by (simp add: vol_ok_def layout_ok_def word_less_nat_alt)
  have a: "alloc_cluster s = alloc_loop ?n (of_nat 0) s"
    using h by (cases "total_clusters s = 0") (simp_all add: alloc_cluster_def)
  have tn: "d \<in> ?Z \<Longrightarrow> turn_of s d < ?n \<and> fat_entry b s (pos s (turn_of s d)) = 0" for d
    using pos_turn [OF assms, of d] by (simp add: free_clusters_def)
  have z: "0 + ?n = ?n" by simp
  from alloc_loop_ok [OF assms z] show ?thesis
  proof (elim disjE exE conjE)
    fix t assume t: "alloc_loop ?n (of_nat 0) s = Some (0, t)" "quiet b s t" "\<forall>j. 0 \<le> j \<and> j < ?n \<longrightarrow> fat_entry b s (pos s j) \<noteq> 0"
    have "?Z = {}" using tn t(3) by blast
    then show ?thesis using a t by simp
  next
    fix t j assume t: "alloc_loop ?n (of_nat 0) s = Some (of_nat (pos s j), t)" "j < ?n" "fat_entry b s (pos s j) = 0"
      "\<forall>j'. 0 \<le> j' \<and> j' < j \<longrightarrow> fat_entry b s (pos s j') \<noteq> 0"
      "gives b s t ((fat_entry b s)(pos s j := 0x0FFFFFFF)) (disk_of b s)" "unat (alloc_hint t) = pos s j + 1"
    note R = pos_range [OF assms t(2)] and T = turn_pos [OF assms t(2)]
    have u: "unat (of_nat (pos s j) :: u32) = pos s j" by (rule clusters_lt32 [OF assms R(2)])
    then have nz: "(of_nat (pos s j) :: u32) \<noteq> 0" using R(1) by (metis unsigned_0 not_numeral_le_zero)
    have z: "pos s j \<in> ?Z" using R t(3) by (simp add: free_clusters_def)
    have m: "\<forall>d \<in> ?Z. turn_of s (pos s j) \<le> turn_of s d" using tn t(4) T by (metis le0 not_le)
    show ?thesis by (rule disjI2, rule exI [of _ t], rule exI [of _ "of_nat (pos s j)"], unfold u, intro conjI nz z m t(5,6))
      (use a t(1) in simp)
  qed
qed

section \<open>Giving back a chain\<close>

lemma chain_det: "chain F n c ds \<Longrightarrow> chain F n c es \<Longrightarrow> ds = es"
  by (induction F n c ds arbitrary: es rule: chain.induct) (case_tac es; auto simp: word_less_nat_alt)+

lemma chain_suffix: "chain F n c (xs @ d # ys) \<Longrightarrow> chain F n d (d # ys)"
  by (induction xs arbitrary: c) auto

lemma chain_distinct: "chain F n c ds \<Longrightarrow> distinct ds"
proof (rule ccontr)
  assume c: "chain F n c ds" and "\<not> distinct ds"
  then obtain xs ys zs y where "ds = xs @ [y] @ ys @ [y] @ zs" using not_distinct_decomp by blast
  then have e: "ds = xs @ y # (ys @ y # zs)" "ds = (xs @ y # ys) @ y # zs" by simp_all
  from chain_suffix [OF c [unfolded e(1)]] chain_suffix [OF c [unfolded e(2)]]
  have "y # (ys @ y # zs) = y # zs" by (rule chain_det)
  then show False by (metis length_Cons length_append less_add_Suc2 list.inject nat_less_le)
qed

lemma chain_cong: "(\<And>d. d \<in> set ds \<Longrightarrow> G (unat d) = F (unat d)) \<Longrightarrow> chain G n c ds = chain F n c ds"
  by (induction ds arbitrary: c) auto

lemma chain_range: "chain F n c ds \<Longrightarrow> d \<in> set ds \<Longrightarrow> 2 \<le> unat d \<and> unat d < n \<and> \<not> is_eoc d"
  by (induction ds arbitrary: c) auto

lemma freed_step: "freed (F(unat d := 0)) ds = freed F (d # ds)" by (auto simp: freed_def)

lemma free_chain_ok:
  assumes "vol_ok b s" and "chain (fat_entry b s) (clusters_end s) c ds"
  obtains t where "free_chain c s = Some t" "gives b s t (freed (fat_entry b s) ds) (disk_of b s)" "alloc_hint t = alloc_hint s"
proof -
  have "\<exists>t. free_chain c s = Some t \<and> gives b s t (freed (fat_entry b s) ds) (disk_of b s) \<and> alloc_hint t = alloc_hint s"
    using assms
  proof (induction ds arbitrary: c s)
    case Nil
    then show ?case by (subst free_chain.simps) (auto simp: freed_def dest: leD intro: gives_refl)
  next
    case (Cons d ds)
    have c: "c = d" "\<not> is_eoc d" "2 \<le> unat d" "unat d < clusters_end s"
      "chain (fat_entry b s) (clusters_end s) (fat_entry b s (unat d)) ds" using Cons.prems(2) by auto
    have nd: "d \<notin> set ds" using chain_distinct [OF Cons.prems(2)] by simp
    obtain t where t: "next_cluster d s = Some (fat_entry b s (unat d), t)" "quiet b s t"
      by (rule next_cluster_ok [OF Cons.prems(1) c(4)])
    note Q = quiet_view [OF t(2)] and N = same_fs_nat(1) [OF quiet_view(2) [OF t(2)]]
    obtain u where u: "set_fat_entry d 0 t = Some (0, u)" "gives b t u ((fat_entry b t)(unat d := 0 AND 0x0FFFFFFF)) (disk_of b t)"
      "alloc_hint u = alloc_hint t" by (rule set_fat_entry_ok [OF Q(1), of d 0]) (use c(4) N in simp)
    have g: "gives b s u ((fat_entry b s)(unat d := 0)) (disk_of b s)"
      using gives_trans [OF quiet_gives [OF t(2)] u(2)] Q(3,4) by simp
    note G = gives_view [OF g] and M = same_fs_nat(1) [OF gives_view(2) [OF g]]
    have "chain (fat_entry b u) (clusters_end u) (fat_entry b s (unat d)) ds"
      using c(5) chain_range [OF c(5)] nd unfolding M by (subst chain_cong [where F = "fat_entry b s"]) (auto simp: G(3) word_unat_eq_iff [symmetric])
    from Cons.IH [OF G(1) this] obtain w where w: "free_chain (fat_entry b s (unat d)) u = Some w"
      "gives b u w (freed (fat_entry b u) ds) (disk_of b u)" "alloc_hint w = alloc_hint u" by blast
    have "gives b s w (freed (fat_entry b s) (d # ds)) (disk_of b s)"
      by (rule gives_cong [OF gives_trans [OF g w(2)]]) (simp_all add: G(3,4) freed_def)
    moreover have "free_chain c s = Some w" using c t(1) u(1) w(1)
      by (subst free_chain.simps) (simp add: word_le_nat_alt)
    moreover have "alloc_hint w = alloc_hint s" using w(3) u(3) t(2) by (simp add: quiet_def)
    ultimately show ?case by blast
  qed
  then show thesis using that by blast
qed


section \<open>Contents of clusters\<close>

lemma in_cluster_unique:
  assumes "2 \<le> c" "2 \<le> d" and "in_cluster s c i" "in_cluster s d i"
  shows "c = d"
proof -
  let ?p = "unat (sectors_per_cluster s)" and ?j = "i - unat (data_start_lba s)"
  have e: "?j div ?p = x - 2" if "in_cluster s x i" for x
  proof -
    have "?j = (x - 2) * ?p + (i - lba_of s x)" "i - lba_of s x < ?p" using that by (auto simp: in_cluster_def lba_of_def)
    then show ?thesis by simp
  qed
  from e [OF assms(3)] e [OF assms(4)] show ?thesis using assms(1,2) by simp
qed

lemma cluster_size_word: "unat (ucast (sectors_per_cluster s) * 512 :: u32) = cluster_bytes s"
  using unat_lt8 [of "sectors_per_cluster s"] by (subst unat_word_ariths) (simp add: cluster_bytes_def)

lemma cluster_bytes_pos: "vol_ok b s \<Longrightarrow> 0 < cluster_bytes s \<and> cluster_bytes s < 0x20000"
  using unat_lt8 [of "sectors_per_cluster s"] by (simp add: vol_ok_def layout_ok_def cluster_bytes_def)

lemma cluster_data_length: "vol_ok b s \<Longrightarrow> length (cluster_data (disk_of b s) s c) = cluster_bytes s"
  using sectors_length [of "disk_of b s"] disk_length [of b s] by (simp add: cluster_data_def cluster_bytes_def)

lemma cluster_data_cong: "(\<And>i. in_cluster s c i \<Longrightarrow> D i = E i) \<Longrightarrow> cluster_data D s c = cluster_data E s c"
  by (auto simp: cluster_data_def sectors_def in_cluster_def intro!: arg_cong [where f = concat])

lemma cluster_data_same: "same_fs s t \<Longrightarrow> cluster_data D t = cluster_data D s \<and> in_cluster t = in_cluster s \<and> clusters_for t = clusters_for s"
  using same_fs_nat [of s t] same_fs_fields [of s t] by (simp add: cluster_data_def in_cluster_def clusters_for_def fun_eq_iff)

lemma cluster_data_gives:
  assumes "gives b s t F D" and "2 \<le> c"
  shows "cluster_data (disk_of b t) s c = cluster_data D s c"
  by (rule cluster_data_cong) (use gives_view(4) [OF assms(1)] in \<open>simp add: in_cluster_def lba_of_def\<close>)

lemma sectors_put: "length buf = 512 * n \<Longrightarrow> sectors (put_sectors lba n buf D) lba n = buf"
proof (induction n arbitrary: lba buf D)
  case (Suc n)
  let ?E = "put_sectors lba (Suc n) buf D"
  have "sectors ?E (lba + 1) n = drop 512 buf"
    using Suc.IH [of "drop 512 buf" "lba + 1" "D(lba := take 512 buf)"] Suc.prems by (simp only: put_sectors_Suc) simp
  moreover have "sectors ?E lba (Suc n) = ?E lba @ sectors ?E (lba + 1) n"
    unfolding sectors_def by (subst upt_conv_Cons) simp_all
  ultimately show ?case by (simp add: put_sectors_def)
qed (simp add: sectors_def)

lemma cluster_data_put:
  assumes "length buf = 512 * unat (sectors_per_cluster s)"
  shows "cluster_data (put_sectors (lba_of s c) (unat (sectors_per_cluster s)) buf D) s c = buf"
  using sectors_put [of buf "unat (sectors_per_cluster s)" "lba_of s c" D] assms by (simp add: cluster_data_def)

lemma file_bytes_length: "vol_ok b s \<Longrightarrow> length (file_bytes (disk_of b s) s ds) = cluster_bytes s * length ds"
  by (induction ds) (simp_all add: file_bytes_def cluster_data_length)

lemma file_bytes_Cons: "file_bytes D s (d # ds) = cluster_data D s (unat d) @ file_bytes D s ds"
  by (simp add: file_bytes_def)


lemma read_loop_ok:
  assumes "vol_ok b s" and "chain (fat_entry b s) (clusters_end s) c ds" and "copied \<le> size'"
    and "unat size' - unat copied \<le> cluster_bytes s * length ds"
  shows "\<exists>t. read_loop c size' copied acc s = Some (sint size', acc @ take (unat size' - unat copied) (file_bytes (disk_of b s) s ds), t) \<and> quiet b s t"
  using assms
proof (induction ds arbitrary: c copied acc s)
  case Nil
  then have "copied = size'" by (simp add: word_le_nat_alt word_unat_eq_iff)
  then show ?case using quiet_refl [OF Nil.prems(1)] by (subst read_loop.simps) simp
next
  case (Cons d ds)
  have c: "c = d" "\<not> is_eoc d" "2 \<le> unat d" "unat d < clusters_end s"
    "chain (fat_entry b s) (clusters_end s) (fat_entry b s (unat d)) ds" using Cons.prems(2) by auto
  show ?case
  proof (cases "copied < size'")
    case False
    then have "copied = size'" using Cons.prems(3) by simp
    then show ?thesis using quiet_refl [OF Cons.prems(1)] by (subst read_loop.simps) simp
  next
    case True
    let ?X = "cluster_data (disk_of b s) s (unat d)" and ?w = "ucast (sectors_per_cluster s) * 512 :: u32"
    define n where "n = (if size' - copied < ?w then size' - copied else ?w)"
    have sc: "unat (size' - copied) = unat size' - unat copied" using Cons.prems(3) by (rule unat_minus32)
    have n: "unat n = min (unat size' - unat copied) (cluster_bytes s)"
      unfolding n_def by (auto simp: word_less_nat_alt sc cluster_size_word)
    have "unat copied + unat n \<le> unat size'" using n Cons.prems(3) by (simp add: word_le_nat_alt)
    then have cn: "unat (copied + n) = unat copied + unat n" by (intro unat_plus32 le_less_trans [OF _ unat_lt32 [of size']])
    obtain t where t: "read_cluster d s = Some (0, t)" "quiet b s t" "\<forall>i < cluster_bytes s. char_at (cluster_buf t) i = char_at ?X i"
      unfolding cluster_data_def by (rule read_cluster_ok [OF Cons.prems(1) c(3,4)])
    note Q = quiet_view [OF t(2)] and N = same_fs_nat(1) [OF quiet_view(2) [OF t(2)]]
    obtain u where u: "next_cluster d t = Some (fat_entry b s (unat d), u)" "quiet b t u"
      using next_cluster_ok [OF Q(1), of d] c(4) unfolding N Q(4) by blast
    have q: "quiet b s u" by (rule quiet_trans [OF t(2) u(2)])
    note R = quiet_view [OF q] and M = same_fs_nat [OF quiet_view(2) [OF q]] cluster_data_same [OF quiet_view(2) [OF q]]
    have X: "length ?X = cluster_bytes s" by (rule cluster_data_length [OF Cons.prems(1)])
    have m: "map (char_at (cluster_buf t)) [0..<unat n] = take (unat n) ?X"
      using t(3) n X by (intro nth_equalityI) (auto simp: char_at_def)
    have fb: "file_bytes (disk_of b u) u ds = file_bytes (disk_of b s) s ds" using R(3) M(4) by (simp add: file_bytes_def)
    have le: "copied + n \<le> size'" "unat size' - unat (copied + n) \<le> cluster_bytes u * length ds"
      using n cn Cons.prems(3,4) unfolding M by (auto simp: word_le_nat_alt)
    have ch: "chain (fat_entry b u) (clusters_end u) (fat_entry b s (unat d)) ds" using c(5) R(4) M(1) by simp
    obtain w where w: "read_loop (fat_entry b s (unat d)) size' (copied + n) (acc @ take (unat n) ?X) u =
        Some (sint size', (acc @ take (unat n) ?X) @ take (unat size' - unat (copied + n)) (file_bytes (disk_of b s) s ds), w)" "quiet b u w"
      using Cons.IH [OF R(1) ch le] unfolding fb by blast
    have "sectors_per_cluster t = sectors_per_cluster s" by (rule same_fs_fields(2) [OF Q(2)])
    then have "read_loop c size' copied acc s = read_loop (fat_entry b s (unat d)) size' (copied + n) (acc @ take (unat n) ?X) u"
      using c t(1) u(1) True m 
      by (cases "size' - copied < ?w") (subst read_loop.simps, simp add: Let_def word_le_nat_alt n_def)+
    moreover have "take (unat size' - unat copied) (file_bytes (disk_of b s) s (d # ds)) =
        take (unat n) ?X @ take (unat size' - unat (copied + n)) (file_bytes (disk_of b s) s ds)"
      using n cn X by (auto simp: file_bytes_Cons min_def)
    ultimately show ?thesis using w quiet_trans [OF q w(2)] by simp
  qed
qed

section \<open>Chains that are built\<close>

lemma gives_area: "gives b s t F D \<Longrightarrow> gives b s t F (disk_of b t)"
  by (simp add: gives_def)

lemma data_write_ok:
  assumes "vol_ok b s" and "unat (data_start_lba s) \<le> unat lba" "lba < 0x10000000" and "n \<noteq> 0" and "length buf = 512 * unat n"
  obtains t where "fs_write (fs_drive s) lba n buf s = Some (0, t)"
    "gives b s t (fat_entry b s) (put_sectors (unat lba) (unat n) buf (disk_of b s))" "alloc_hint t = alloc_hint s"
proof -
  have L: "layout_ok s" "drive_serves b (disk s)" "cache_ok b s" "copies_agree b s" using assms(1) by (auto simp: vol_ok_def)
  have l: "512 * unat n \<le> length buf" using assms(5) by simp
  obtain t where t: "fs_write (fs_drive s) lba n buf s = Some (0, t)" "t = s\<lparr>disk := disk t\<rparr>" "drive_serves b (disk t)"
    "disk_of b t = put_sectors (unat lba) (unat n) buf (disk_of b s)" by (rule fs_write_raw [OF L(2) assms(3,4) l])
  have low: "disk_of b t i = disk_of b s i" if "i < unat (data_start_lba s)" for i
    using t(4) that assms(2) by (simp add: put_sectors_def)
  have fs: "same_fs s t" by (rule same_fs_disk(1) [OF t(2) undisturbed_fs_write [OF t(1)]])
  note F = same_fs_fields [OF fs]
  note T = layout_bounds(2) [OF L(1)]
  have fe: "fat_entry b t d = fat_entry b s d" if "d < clusters_end s" for d
  proof -
    have "d div 128 < unat (fat_size s)" using that L(1) by (simp add: layout_ok_def less_mult_imp_div_less mult.commute)
    then have "unat (fat_start_lba s) + d div 128 < unat (data_start_lba s)" using T by simp
    then show ?thesis unfolding fat_entry_def F(4) by (simp only: low)
  qed
  have cl: "unat (fat_start_lba s) + f * unat (fat_size s) + i < unat (data_start_lba s)" if "f < unat (num_fats s)" "i < unat (fat_size s)" for f i
  proof -
    have "Suc f * unat (fat_size s) \<le> unat (num_fats s) * unat (fat_size s)" using that(1) by (intro mult_le_mono1) simp
    then show ?thesis using that(2) L(1) by (simp add: layout_ok_def)
  qed
  have "copies_agree b t" unfolding copies_agree_def F
  proof (intro allI impI)
    fix f i assume fi: "f < unat (num_fats s)" "i < unat (fat_size s)"
    have "disk_of b s (unat (fat_start_lba s) + f * unat (fat_size s) + i) = disk_of b s (unat (fat_start_lba s) + i)"
      using L(4) fi by (simp add: copies_agree_def)
    moreover have "unat (fat_start_lba s) + i < unat (data_start_lba s)" using fi(2) T by simp
    ultimately show "disk_of b t (unat (fat_start_lba s) + f * unat (fat_size s) + i) = disk_of b t (unat (fat_start_lba s) + i)"
      using cl [OF fi] by (simp only: low)
  qed
  moreover have "cache_ok b t"
  proof -
    have e: "fat_sector_cached_lba t = fat_sector_cached_lba s" "fat_sector_buf t = fat_sector_buf s" by (subst t(2), simp)+
    show ?thesis using L(3) T unfolding cache_ok_def e F by (metis low order_less_le_trans)
  qed
  moreover have "layout_ok t" by (subst t(2)) (use L(1) bus_upd(1) in simp)
  ultimately have "vol_ok b t" using t(3) by (simp add: vol_ok_def)
  moreover have "alloc_hint t = alloc_hint s" by (subst t(2)) simp
  ultimately show thesis using t(1,4) fs fe by (intro that [of t]) (simp_all add: gives_def)
qed

lemma write_cluster_ok:
  assumes "vol_ok b s" and "2 \<le> unat c" "unat c < clusters_end s" and "length buf = cluster_bytes s"
  obtains t where "fs_write (fs_drive s) (cluster_to_lba s c) (sectors_per_cluster s) buf s = Some (0, t)"
    "gives b s t (fat_entry b s) (put_sectors (lba_of s (unat c)) (unat (sectors_per_cluster s)) buf (disk_of b s))"
    "alloc_hint t = alloc_hint s"
proof -
  have L: "layout_ok s" using assms(1) by (simp add: vol_ok_def)
  note C = cluster_to_lba_nat [OF L assms(2,3)] and B = lba_of_bound [OF L assms(2,3)]
  have n: "sectors_per_cluster s \<noteq> 0" "cluster_to_lba s c < 0x10000000" "unat (data_start_lba s) \<le> unat (cluster_to_lba s c)"
    using L C B by (auto simp: layout_ok_def word_less_nat_alt)
  show thesis using data_write_ok [OF assms(1) n(3,2,1), of buf] assms(4) that unfolding C cluster_bytes_def by blast
qed


lemma not_eoc:
  assumes "unat d < 0x0FFFFFF0"
  shows "\<not> is_eoc d" "d AND 0x0FFFFFFF = d"
proof -
  have "take_bit 28 (unat d) = unat d" using assms by (intro take_bit_nat_eq_self) simp
  then show m: "d AND 0x0FFFFFFF = d" unfolding mask28(1) take_bit_eq_mask [symmetric] by (simp only: word_unat_eq_iff unsigned_take_bit_eq)
  show "\<not> is_eoc d" using assms unfolding is_eoc_def m by (simp add: word_le_nat_alt)
qed

lemma link_other: "x \<notin> unat ` set ds \<Longrightarrow> link F ds x = F x"
  by (induction F ds rule: link.induct) auto

lemma link_used: "x \<in> unat ` set ds \<Longrightarrow> \<forall>d \<in> set ds. 2 \<le> unat d \<Longrightarrow> link F ds x \<noteq> 0"
  by (induction F ds rule: link.induct) auto

lemma link_snoc:
  "distinct (ds @ [c]) \<Longrightarrow> link F (ds @ [c]) = (if ds = [] then F(unat c := 0x0FFFFFFF)
     else (link F ds)(unat c := 0x0FFFFFFF, unat (last ds) := c))"
proof (induction F ds rule: link.induct)
  case (3 F d e ds)
  then have n: "unat d \<noteq> unat c" "unat d \<noteq> unat (last (e # ds))" using last_in_set [of "e # ds"] by (auto simp: word_unat_eq_iff [symmetric] simp del: last_in_set)
  have "link F ((e # ds) @ [c]) = (link F (e # ds))(unat c := 0x0FFFFFFF, unat (last (e # ds)) := c)"
    using 3(1) 3(2) by (metis append_Cons distinct.simps(2) list.distinct(1))
  then show ?case using n by (simp add: fun_eq_iff split: if_splits)
qed (auto simp: fun_eq_iff)

lemma chain_link:
  "distinct ds \<Longrightarrow> \<forall>d \<in> set ds. 2 \<le> unat d \<and> unat d < n \<Longrightarrow> n \<le> 0x0FFFFFF0 \<Longrightarrow> chain (link F ds) n (first_of ds) ds"
proof (induction F ds rule: link.induct)
  case (3 F d e ds)
  have "chain (link F (d # e # ds)) n e (e # ds) = chain (link F (e # ds)) n e (e # ds)"
    using 3(2) by (intro chain_cong) (auto simp: word_unat_eq_iff [symmetric])
  moreover have "chain (link F (e # ds)) n e (e # ds)" using 3 by (simp add: first_of_def)
  moreover have "link F (d # e # ds) (unat d) = e" by simp
  moreover have "\<not> is_eoc d" "2 \<le> unat d" "unat d < n" using 3(3,4) not_eoc(1) [of d] by auto
  ultimately show ?case by (simp only: chain.simps first_of_def list.sel list.distinct if_False simp_thms)
next
  case (2 F d)
  have "is_eoc 0x0FFFFFFF" by (simp add: is_eoc_def)
  then show ?case using 2 not_eoc(1) [of d] by (simp add: first_of_def)
qed (simp add: first_of_def)

lemma freed_link: "\<forall>d \<in> set ds. F (unat d) = 0 \<Longrightarrow> freed (link F ds) ds = F"
  by (auto simp: freed_def fun_eq_iff link_other)

lemma clusters_for_step:
  assumes "0 < k" and "0 < cluster_bytes s"
  shows "clusters_for s k = Suc (clusters_for s (k - min k (cluster_bytes s)))" "0 < clusters_for s k"
proof -
  let ?c = "cluster_bytes s"
  have "clusters_for s k = Suc ((k - 1) div ?c)"
    using assms div_add_self2 [of ?c "k - 1"] unfolding clusters_for_def by (simp add: Suc_leI)
  moreover have "clusters_for s (k - min k ?c) = (k - 1) div ?c"
    using assms by (cases "k \<le> ?c") (auto simp: clusters_for_def min_def)
  ultimately show "clusters_for s k = Suc (clusters_for s (k - min k ?c))" "0 < clusters_for s k" by simp_all
qed


lemma built_chain:
  assumes "built b s F ds"
  shows "vol_ok b s" "chain (fat_entry b s) (clusters_end s) (first_of ds) ds" "freed (fat_entry b s) ds c = F c \<or> clusters_end s \<le> c"
    "free_clusters (fat_entry b s) (clusters_end s) = free_clusters F (clusters_end s) - unat ` set ds"
proof -
  have B: "vol_ok b s" "\<forall>c < clusters_end s. fat_entry b s c = link F ds c" "distinct ds"
    "\<forall>d \<in> set ds. 2 \<le> unat d \<and> unat d < clusters_end s" "\<forall>d \<in> set ds. F (unat d) = 0"
    using assms by (auto simp: built_def free_clusters_def)
  show "vol_ok b s" by fact
  have n: "clusters_end s \<le> 0x0FFFFFF0" using layout_bounds(1) [of s] B(1) by (simp add: vol_ok_def)
  show "chain (fat_entry b s) (clusters_end s) (first_of ds) ds"
    using chain_link [OF B(3,4) n, of F] B(2,4) chain_cong [of ds "fat_entry b s" "link F ds"] by simp
  show "freed (fat_entry b s) ds c = F c \<or> clusters_end s \<le> c"
    using B(2) freed_link [OF B(5)] unfolding freed_def by (metis not_le)
  show "free_clusters (fat_entry b s) (clusters_end s) = free_clusters F (clusters_end s) - unat ` set ds"
  proof -
    have "link F ds x = 0 \<longleftrightarrow> F x = 0 \<and> x \<notin> unat ` set ds" for x
      using B(4) link_used [of x ds F] link_other [of x ds F] by metis
    then show ?thesis using B(2) by (auto simp: free_clusters_def)
  qed
qed

lemma built_gives:
  assumes "built b s F ds" and "gives b s t (link F es) D" and "distinct es" "\<forall>d \<in> set es. unat d \<in> free_clusters F (clusters_end s)"
  shows "built b t F es"
  using assms(3,4) gives_view [OF assms(2)] same_fs_nat(1) [OF gives_view(2) [OF assms(2)]] by (simp add: built_def)

text \<open>One more cluster: the allocation and the link from the last one.\<close>

lemma extend_ok:
  assumes "built b s F ds" and "unat c \<in> free_clusters (fat_entry b s) (clusters_end s)"
    and "gives b s t ((fat_entry b s)(unat c := 0x0FFFFFFF)) (disk_of b s)"
  obtains u where "(if final_of ds \<noteq> 0 then set_fat_entry (final_of ds) c t else Some (0, t)) = Some (0, u)"
    "gives b s u (link F (ds @ [c])) (disk_of b s)" "distinct (ds @ [c])"
proof -
  note B = built_chain [OF assms(1)]
  have D: "distinct (ds @ [c])" using assms(1,2) B(4) by (auto simp: built_def)
  have e: "c < n \<Longrightarrow> n = clusters_end s \<Longrightarrow> fat_entry b s c = link F ds c" for c n using assms(1) by (simp add: built_def)
  show thesis
  proof (cases "ds = []")
    case True
    then have "gives b s t (link F (ds @ [c])) (disk_of b s)"
      using e by (intro gives_cong [OF assms(3)]) auto
    then show thesis using True D by (intro that [of t]) (simp_all add: final_of_def)
  next
    case False
    let ?l = "last ds"
    have r: "2 \<le> unat ?l" "unat ?l < clusters_end s" using chain_range [OF B(2) last_in_set [OF False]] by auto
    note G = gives_view [OF assms(3)] and N = same_fs_nat(1) [OF gives_view(2) [OF assms(3)]]
    have rt: "unat ?l < clusters_end t" using r N by simp
    obtain u where u: "set_fat_entry ?l c t = Some (0, u)" "gives b t u ((fat_entry b t)(unat ?l := c AND 0x0FFFFFFF)) (disk_of b t)"
      by (rule set_fat_entry_ok [OF G(1) rt])
    have "unat c < 0x0FFFFFF0" using assms(2) layout_bounds(1) [of s] B(1) by (simp add: free_clusters_def vol_ok_def)
    then have m: "c AND 0x0FFFFFFF = c" by (rule not_eoc(2))
    have "gives b s u (link F (ds @ [c])) (disk_of b s)"
      by (rule gives_cong [OF gives_trans [OF assms(3) u(2)]]) (use False G(3,4) e in \<open>auto simp: link_snoc [OF D] m\<close>)
    moreover have "?l \<noteq> 0" using r by (metis unsigned_0 not_numeral_le_zero)
    ultimately show thesis using False D u(1) by (intro that [of u]) (simp_all add: final_of_def)
  qed
qed


lemma cluster_image_props:
  assumes "unat copy \<le> unat cs"
  shows "length (cluster_image data written copy cs) = unat cs"
    "take (unat copy) (cluster_image data written copy cs) = map (char_at data) [unat written..<unat written + unat copy]"
proof -
  show "length (cluster_image data written copy cs) = unat cs" using assms by (simp add: cluster_image_def)
  show "take (unat copy) (cluster_image data written copy cs) = map (char_at data) [unat written..<unat written + unat copy]"
    by (auto simp: cluster_image_def intro!: nth_equalityI)
qed

lemma spares_trans:
  assumes "spares b s t C" and "spares b t u D" and "same_fs s t" and "C \<subseteq> E" "D \<subseteq> E"
  shows "spares b s u E"
  using assms cluster_data_same [OF assms(3)] same_fs_fields(5) [OF assms(3)] unfolding spares_def by (metis subsetD)

lemma spares_cluster:
  assumes "spares b s t C" and "2 \<le> c" and "c \<notin> C" and "\<forall>d \<in> C. 2 \<le> d"
  shows "cluster_data (disk_of b t) s c = cluster_data (disk_of b s) s c"
proof (rule cluster_data_cong)
  fix i assume i: "in_cluster s c i"
  then have "unat (data_start_lba s) \<le> i" by (simp add: in_cluster_def lba_of_def)
  moreover have "\<forall>d \<in> C. \<not> in_cluster s d i" using i assms(2,3,4) in_cluster_unique by metis
  ultimately show "disk_of b t i = disk_of b s i" using assms(1) by (simp add: spares_def)
qed

text \<open>One turn of the loop in which a cluster is found.\<close>

lemma write_turn:
  assumes "built b s F ds" and "unat c \<in> free_clusters (fat_entry b s) (clusters_end s)"
    and "gives b s t ((fat_entry b s)(unat c := 0x0FFFFFFF)) (disk_of b s)" and "length buf = cluster_bytes s"
  obtains u w where "(if final_of ds \<noteq> 0 then set_fat_entry (final_of ds) c t else Some (0, t)) = Some (0, u)" "same_fs s u"
    "fs_write (fs_drive u) (cluster_to_lba u c) (sectors_per_cluster u) buf u = Some (0, w)" "same_fs s w"
    "built b w F (ds @ [c])" "spares b s w {unat c}" "cluster_data (disk_of b w) s (unat c) = buf"
proof -
  obtain u where u: "(if final_of ds \<noteq> 0 then set_fat_entry (final_of ds) c t else Some (0, t)) = Some (0, u)"
    "gives b s u (link F (ds @ [c])) (disk_of b s)" "distinct (ds @ [c])" by (rule extend_ok [OF assms(1-3)])
  note G = gives_view [OF u(2)] and N = same_fs_nat [OF gives_view(2) [OF u(2)]] and S = same_fs_fields [OF gives_view(2) [OF u(2)]]
  have r: "2 \<le> unat c" "unat c < clusters_end u" using assms(2) N by (auto simp: free_clusters_def)
  let ?P = "put_sectors (lba_of s (unat c)) (unat (sectors_per_cluster s)) buf"
  obtain w where w: "fs_write (fs_drive u) (cluster_to_lba u c) (sectors_per_cluster u) buf u = Some (0, w)"
    "gives b u w (fat_entry b u) (?P (disk_of b u))"
    using write_cluster_ok [OF G(1) r, of buf] assms(4) unfolding N S by metis
  have g: "gives b s w (link F (ds @ [c])) (?P (disk_of b s))"
    by (rule gives_cong [OF gives_trans [OF u(2) w(2)]]) (simp_all add: G(3,4) put_sectors_def)
  note H = gives_view [OF g]
  have "\<forall>d \<in> set (ds @ [c]). unat d \<in> free_clusters F (clusters_end s)"
    using assms(1,2) built_chain(4) [OF assms(1)] by (auto simp: built_def)
  then have "built b w F (ds @ [c])" by (rule built_gives [OF assms(1) g u(3)])
  moreover have "spares b s w {unat c}" unfolding spares_def using H(4) by (auto simp: put_sectors_def in_cluster_def)
  moreover have "cluster_data (disk_of b w) s (unat c) = buf"
    using cluster_data_gives [OF g r(1)] cluster_data_put [of buf s] assms(4) by (simp add: cluster_bytes_def)
  ultimately show thesis using u(1) w(1) H(2) G(2) by (intro that [of u w])
qed

lemma write_clusters_full:
  assumes "built b s F ds" and "free_clusters (fat_entry b s) (clusters_end s) = {}" and "quiet b s t"
  obtains u where "(if first_of ds \<noteq> 0 then free_chain (first_of ds) t else Some t) = Some u" "built b u F []" "same_fs s u"
    "spares b s u {}" "card (free_clusters F (clusters_end s)) \<le> length ds"
proof -
  note B = built_chain [OF assms(1)] and Q = quiet_view [OF assms(3)] and N = same_fs_nat(1) [OF quiet_view(2) [OF assms(3)]]
  have "free_clusters F (clusters_end s) \<subseteq> unat ` set ds" using B(4) assms(2) by blast
  then have "card (free_clusters F (clusters_end s)) \<le> card (unat ` set ds)" by (intro card_mono) simp_all
  also have "\<dots> \<le> length ds" using card_image_le [of "set ds" unat] card_length [of ds] by simp
  finally have k: "card (free_clusters F (clusters_end s)) \<le> length ds" .
  have z: "chain (fat_entry b t) (clusters_end t) (first_of ds) ds" using B(2) unfolding Q(4) N .
  obtain u where u: "free_chain (first_of ds) t = Some u" "gives b t u (freed (fat_entry b t) ds) (disk_of b t)"
    by (rule free_chain_ok [OF Q(1) z])
  have g: "gives b s u (link F []) (disk_of b s)"
    by (rule gives_cong [OF gives_trans [OF quiet_gives [OF assms(3)] u(2)]]) (use B(3) in \<open>auto simp: Q(3,4) dest: leD\<close>)
  have "(if first_of ds \<noteq> 0 then free_chain (first_of ds) t else Some t) = Some u"
    using u(1) by (subst (asm) free_chain.simps) (auto simp: free_chain.simps)
  moreover have "built b u F []" by (rule built_gives [OF assms(1) g]) simp_all
  moreover have "spares b s u {}" using gives_view(4) [OF g] by (simp add: spares_def)
  ultimately show thesis using k gives_view(2) [OF g] by (intro that [of u])
qed


lemma free_range: "c \<in> free_clusters F n \<Longrightarrow> 2 \<le> c" by (simp add: free_clusters_def)

lemma write_clusters_turn:
  assumes "written < size'" and "alloc_cluster s = Some (c, t)" "c \<noteq> 0"
    and "(if prev \<noteq> 0 then set_fat_entry prev c t else Some (0, t)) = Some (0, u)"
    and "n = (if size' - written < ucast (sectors_per_cluster u) * 512 then size' - written else ucast (sectors_per_cluster u) * 512)"
    and "fs_write (fs_drive u) (cluster_to_lba u c) (sectors_per_cluster u)
      (cluster_image data written n (ucast (sectors_per_cluster u) * 512)) u = Some (0, w)"
  shows "write_clusters data size' first prev written s = write_clusters data size' (if first = 0 then c else first) c (written + n) w"
  using assms by (cases "size' - written < ucast (sectors_per_cluster u) * 512") (subst write_clusters.simps, simp add: Let_def)+

lemma write_clusters_ok:
  assumes "built b s F ds" and "written \<le> size'"
  shows "(\<exists>t es. write_clusters data size' (first_of ds) (final_of ds) written s = Some (Some (first_of (ds @ es)), t) \<and>
      built b t F (ds @ es) \<and> same_fs s t \<and> spares b s t (unat ` set es) \<and> length es = clusters_for s (unat size' - unat written) \<and>
      take (unat size' - unat written) (file_bytes (disk_of b t) s es) = map (char_at data) [unat written..<unat size']) \<or>
    (\<exists>t. write_clusters data size' (first_of ds) (final_of ds) written s = Some (None, t) \<and>
      built b t F [] \<and> same_fs s t \<and> spares b s t (free_clusters F (clusters_end s)) \<and>
      card (free_clusters F (clusters_end s)) < length ds + clusters_for s (unat size' - unat written))"
    (is "?ok ds written s \<or> ?full ds written s")
  using assms
proof (induction "unat size' - unat written" arbitrary: s ds written rule: less_induct)
  case less
  note B = built_chain [OF less.prems(1)] and C = cluster_bytes_pos [OF built_chain(1) [OF less.prems(1)]]
  let ?Z = "free_clusters F (clusters_end s)" and ?k = "unat size' - unat written"
  show ?case
  proof (cases "written < size'")
    case False
    then have "written = size'" using less.prems(2) by simp
    then have "?ok ds written s" using less.prems(1) C
      by (intro exI [of _ s] exI [of _ "[]"], subst write_clusters.simps) (simp add: clusters_for_def file_bytes_def spares_def)
    then show ?thesis by (rule disjI1)
  next
    case True
    then have k: "0 < ?k" by (simp add: word_less_nat_alt)
    note cf = clusters_for_step [OF k, of s]
    from alloc_cluster_ok [OF B(1)] show ?thesis
    proof (elim disjE exE conjE)
      fix t assume t: "alloc_cluster s = Some (0, t)" "quiet b s t" "free_clusters (fat_entry b s) (clusters_end s) = {}"
      obtain u where u: "(if first_of ds \<noteq> 0 then free_chain (first_of ds) t else Some t) = Some u" "built b u F []" "same_fs s u"
        "spares b s u {}" "card ?Z \<le> length ds" by (rule write_clusters_full [OF less.prems(1) t(3,2)])
      have "spares b s u ?Z" using u(4) by (simp add: spares_def)
      moreover have "write_clusters data size' (first_of ds) (final_of ds) written s = Some (None, u)"
        using True t(1) u(1) by (subst write_clusters.simps) simp
      ultimately show ?thesis using u cf(2) C by (intro disjI2 exI [of _ u]) simp
    next
      fix t c assume t: "alloc_cluster s = Some (c, t)" "c \<noteq> 0" "unat c \<in> free_clusters (fat_entry b s) (clusters_end s)"
        "gives b s t ((fat_entry b s)(unat c := 0x0FFFFFFF)) (disk_of b s)"
      let ?w = "ucast (sectors_per_cluster s) * 512 :: u32"
      define n where "n = (if size' - written < ?w then size' - written else ?w)"
      have sc: "unat (size' - written) = ?k" using less.prems(2) by (rule unat_minus32)
      have n: "unat n = min ?k (cluster_bytes s)" unfolding n_def by (auto simp: word_less_nat_alt sc cluster_size_word)
      let ?X = "cluster_image data written n ?w"
      have X: "length ?X = cluster_bytes s" "take (unat n) ?X = map (char_at data) [unat written..<unat written + unat n]"
        using cluster_image_props [of n ?w data written] n by (simp_all add: cluster_size_word)
      have le: "unat written + unat n \<le> unat size'" using n less.prems(2) by (simp add: word_le_nat_alt)
      then have wn: "unat (written + n) = unat written + unat n" by (intro unat_plus32 le_less_trans [OF _ unat_lt32 [of size']])
      obtain u w where u: "(if final_of ds \<noteq> 0 then set_fat_entry (final_of ds) c t else Some (0, t)) = Some (0, u)" "same_fs s u"
        "fs_write (fs_drive u) (cluster_to_lba u c) (sectors_per_cluster u) ?X u = Some (0, w)" "same_fs s w"
        "built b w F (ds @ [c])" "spares b s w {unat c}" "cluster_data (disk_of b w) s (unat c) = ?X"
        by (rule write_turn [OF less.prems(1) t(3,4) X(1)])
      note N = same_fs_nat(1) [OF u(4)] and M = cluster_data_same [OF u(4)]
      have f: "(if first_of ds = 0 then c else first_of ds) = first_of (ds @ [c])" "c = final_of (ds @ [c])"
        using B(2) by (cases ds; force simp: first_of_def final_of_def word_unat_eq_iff)+
      have run: "write_clusters data size' (first_of ds) (final_of ds) written s =
          write_clusters data size' (first_of (ds @ [c])) (final_of (ds @ [c])) (written + n) w"
        unfolding f(1) [symmetric] f(2) [symmetric]
        by (rule write_clusters_turn [OF True t(1,2) u(1)]) (use u(3) same_fs_fields(2) [OF u(2)] n_def in simp_all)
      have dec: "unat size' - unat (written + n) < ?k" "written + n \<le> size'"
        using wn n k C le by (auto simp: word_le_nat_alt min_def)
      have rest: "unat size' - unat (written + n) = ?k - unat n" using wn by simp
      have cz: "unat c \<in> ?Z" using t(3) B(4) by auto
      from less.hyps [OF dec(1) u(5) dec(2)] show ?thesis
      proof (elim disjE exE conjE)
        fix v es assume v: "write_clusters data size' (first_of (ds @ [c])) (final_of (ds @ [c])) (written + n) w = Some (Some (first_of ((ds @ [c]) @ es)), v)"
          "built b v F ((ds @ [c]) @ es)" "same_fs w v" "spares b w v (unat ` set es)" "length es = clusters_for w (unat size' - unat (written + n))"
          "take (unat size' - unat (written + n)) (file_bytes (disk_of b v) w es) = map (char_at data) [unat (written + n)..<unat size']"
        have es: "unat c \<notin> unat ` set es" "\<forall>d \<in> unat ` set es. 2 \<le> d"
          using v(2) by (auto simp: built_def free_clusters_def word_unat_eq_iff [symmetric])
        have "cluster_data (disk_of b v) s (unat c) = ?X"
          using spares_cluster [OF v(4) free_range [OF cz] es] u(7) M by simp
        then have fb: "file_bytes (disk_of b v) s (c # es) = ?X @ file_bytes (disk_of b v) w es" using M by (simp add: file_bytes_def)
        have "take ?k (?X @ file_bytes (disk_of b v) w es) = take (unat n) ?X @ take (?k - unat n) (file_bytes (disk_of b v) w es)"
          using X(1) n by (auto simp: min_def)
        also have "\<dots> = map (char_at data) [unat written..<unat size']"
          using X(2) v(6) le wn upt_add_eq_append [of "unat written" "unat written + unat n" "unat size' - (unat written + unat n)"] by (simp add: rest)
        finally have "take ?k (file_bytes (disk_of b v) s (c # es)) = map (char_at data) [unat written..<unat size']" unfolding fb .
        moreover have "spares b s v (unat ` set (c # es))" by (rule spares_trans [OF u(6) v(4) u(4)]) auto
        moreover have "length (c # es) = clusters_for s ?k" using v(5) cf(1) C n M unfolding rest by simp
        ultimately show ?thesis using v(1,2) run same_fs_trans [OF u(4) v(3)]
          by (intro disjI1 exI [of _ v] exI [of _ "c # es"]) simp
      next
        fix v assume v: "write_clusters data size' (first_of (ds @ [c])) (final_of (ds @ [c])) (written + n) w = Some (None, v)"
          "built b v F []" "same_fs w v" "spares b w v (free_clusters F (clusters_end w))"
          "card (free_clusters F (clusters_end w)) < length (ds @ [c]) + clusters_for w (unat size' - unat (written + n))"
        have "spares b s v ?Z" by (rule spares_trans [OF u(6) v(4) u(4)]) (use cz N in auto)
        moreover have "card ?Z < length ds + clusters_for s ?k" using v(5) cf(1) C n M N unfolding rest by simp
        ultimately show ?thesis using v(1,2) run same_fs_trans [OF u(4) v(3)] by (intro disjI2 exI [of _ v]) simp
      qed
    qed
  qed
qed

end
