(* ===== verification/Fat_Dir.thy ===== *)
theory Fat_Dir
  imports Fat_Alloc
begin

text \<open>
  Directories: the walk over the sectors of a directory as a search in the list of its entries, and writing
  one entry.
\<close>

unbundle bit_operations_syntax

section \<open>Definitions\<close>

text \<open>The sectors of a chain, the first of them for which a function has a value, and the entries.\<close>

definition sector_list :: "fat32 \<Rightarrow> u32 list \<Rightarrow> nat list" where
  "sector_list s ds = concat (map (\<lambda>d. [lba_of s (unat d)..<lba_of s (unat d) + unat (sectors_per_cluster s)]) ds)"

fun first_hit :: "(u32 \<Rightarrow> u8 list \<Rightarrow> 'r option) \<Rightarrow> (nat \<Rightarrow> u8 list) \<Rightarrow> nat list \<Rightarrow> 'r option" where
  "first_hit f D [] = None"
| "first_hit f D (i # is) = (case f (of_nat i) (D i) of Some x \<Rightarrow> Some x | None \<Rightarrow> first_hit f D is)"

type_synonym slot = "nat \<times> nat"

definition slots_of :: "nat list \<Rightarrow> slot list" where
  "slots_of lbas = concat (map (\<lambda>i. map (Pair i) [0..<16]) lbas)"

definition slots :: "fat32 \<Rightarrow> u32 list \<Rightarrow> slot list" where
  "slots s ds = slots_of (sector_list s ds)"

definition at_slot :: "(nat \<Rightarrow> u8 list) \<Rightarrow> slot \<Rightarrow> fat32_dirent" where
  "at_slot D p = dirent_at (D (fst p)) (snd p * 32)"

definition end_mark :: "fat32_dirent \<Rightarrow> bool" where "end_mark e \<longleftrightarrow> e_name e ! 0 = 0"

definition matches :: "u8 list \<Rightarrow> fat32_dirent \<Rightarrow> bool" where
  "matches target e \<longleftrightarrow> \<not> hidden e \<and> sname_eq (e_name e) target"

definition unused :: "fat32_dirent \<Rightarrow> bool" where "unused e \<longleftrightarrow> e_name e ! 0 = 0 \<or> e_name e ! 0 = 0xE5"

definition look_at :: "(nat \<Rightarrow> u8 list) \<Rightarrow> slot \<Rightarrow> dir_lookup" where
  "look_at D p = \<lparr>l_entry = at_slot D p, l_lba = of_nat (fst p), l_offset = of_nat (snd p * 32)\<rparr>"

text \<open>The first entry, up to the end mark, with the name; and the first entry that is not in use.\<close>

definition lookup :: "u8 list \<Rightarrow> (nat \<Rightarrow> u8 list) \<Rightarrow> slot list \<Rightarrow> slot option" where
  "lookup target D ps = find (matches target \<circ> at_slot D) (takeWhile (\<lambda>p. \<not> end_mark (at_slot D p)) ps)"

fun dir_walk :: "u8 list \<Rightarrow> (nat \<Rightarrow> u8 list) \<Rightarrow> slot list \<Rightarrow> slot option option" where
  "dir_walk target D [] = None"
| "dir_walk target D (p # ps) =
     (if end_mark (at_slot D p) then Some None else if matches target (at_slot D p) then Some (Some p) else dir_walk target D ps)"

definition free_slot :: "(nat \<Rightarrow> u8 list) \<Rightarrow> slot list \<Rightarrow> slot option" where
  "free_slot D ps = find (unused \<circ> at_slot D) ps"

definition entry_place :: "u8 list \<Rightarrow> (nat \<Rightarrow> u8 list) \<Rightarrow> slot list \<Rightarrow> slot option" where
  "entry_place target D ps = (case lookup target D ps of Some p \<Rightarrow> Some p | None \<Rightarrow> free_slot D ps)"

definition put_entry :: "(nat \<Rightarrow> u8 list) \<Rightarrow> slot \<Rightarrow> u8 list \<Rightarrow> nat \<Rightarrow> u8 list" where
  "put_entry D p new = D(fst p := overwrite (snd p * 32) new (D (fst p)))"

section \<open>Walking a directory\<close>

lemma first_hit_append: "first_hit f D (xs @ ys) = (case first_hit f D xs of Some x \<Rightarrow> Some x | None \<Rightarrow> first_hit f D ys)"
  by (induction xs) (auto split: option.splits)

lemma scan_sectors_ok:
  assumes "vol_ok b s" and "unat lba + k \<le> 0x10000000"
  shows "\<exists>t. scan_sectors f err k lba s = Some (first_hit f (disk_of b s) [unat lba..<unat lba + k], t) \<and> quiet b s t"
  using assms
proof (induction k arbitrary: lba s)
  case 0
  then show ?case by (auto intro: quiet_refl)
next
  case (Suc k)
  have lb: "lba < 0x10000000" using Suc.prems(2) by (simp add: word_less_nat_alt)
  obtain t where t: "fs_read (fs_drive s) lba 1 s = Some (0, disk_of b s (unat lba), t)" "quiet b s t"
    by (rule fs_read_sector [OF Suc.prems(1) lb])
  have l1: "unat (lba + 1) = unat lba + 1" using Suc.prems(2) by (subst unat_plus32) simp_all
  obtain u where u: "scan_sectors f err k (lba + 1) t = Some (first_hit f (disk_of b s) [Suc (unat lba)..<Suc (unat lba) + k], u)" "quiet b t u"
    using Suc.IH [OF quiet_view(1) [OF t(2)], of "lba + 1"] Suc.prems(2) unfolding l1 quiet_view(3) [OF t(2)] by auto
  have up: "[unat lba..<unat lba + Suc k] = unat lba # [Suc (unat lba)..<Suc (unat lba) + k]" by (simp add: upt_conv_Cons del: upt_Suc)
  show ?case using t(1,2) u(1) quiet_trans [OF t(2) u(2)] unfolding up by (simp del: upt_Suc split: option.split)
qed

lemma scan_dir_ok:
  assumes "vol_ok b s" and "chain (fat_entry b s) (clusters_end s) c ds"
  obtains t where "scan_dir f err none c s =
      Some (case first_hit f (disk_of b s) (sector_list s ds) of Some x \<Rightarrow> x | None \<Rightarrow> none, t)" "quiet b s t"
proof -
  have "\<exists>t. scan_dir f err none c s =
      Some (case first_hit f (disk_of b s) (sector_list s ds) of Some x \<Rightarrow> x | None \<Rightarrow> none, t) \<and> quiet b s t"
    using assms
  proof (induction ds arbitrary: c s)
    case Nil
    then show ?case by (subst scan_dir.simps) (auto simp: sector_list_def dest: leD intro: quiet_refl)
  next
    case (Cons d ds)
    have L: "layout_ok s" using Cons.prems(1) by (simp add: vol_ok_def)
    have c: "c = d" "\<not> is_eoc d" "2 \<le> unat d" "unat d < clusters_end s"
      "chain (fat_entry b s) (clusters_end s) (fat_entry b s (unat d)) ds" using Cons.prems(2) by auto
    let ?xs = "[lba_of s (unat d)..<lba_of s (unat d) + unat (sectors_per_cluster s)]"
    have lb: "unat (cluster_to_lba s d) + unat (sectors_per_cluster s) \<le> 0x10000000"
      using lba_of_bound(2) [OF L c(3,4)] by (simp add: cluster_to_lba_nat [OF L c(3,4)])
    obtain t where t: "scan_sectors f err (unat (sectors_per_cluster s)) (cluster_to_lba s d) s = Some (first_hit f (disk_of b s) ?xs, t)" "quiet b s t"
      using scan_sectors_ok [OF Cons.prems(1) lb, of f err] unfolding cluster_to_lba_nat [OF L c(3,4)] by (elim exE conjE)
    note Q = quiet_view [OF t(2)] and N = same_fs_nat [OF quiet_view(2) [OF t(2)]] same_fs_fields(2) [OF quiet_view(2) [OF t(2)]]
    have sl: "sector_list s (d # ds) = ?xs @ sector_list s ds" by (simp add: sector_list_def)
    show ?case
    proof (cases "first_hit f (disk_of b s) ?xs")
      case (Some x)
      then show ?thesis using t c by (subst scan_dir.simps) (simp add: sl first_hit_append word_le_nat_alt)
    next
      case None
      have ct: "unat d < clusters_end t" using c(4) N by simp
      obtain u where u: "next_cluster d t = Some (fat_entry b t (unat d), u)" "quiet b t u" by (rule next_cluster_ok [OF Q(1) ct])
      have q: "quiet b s u" by (rule quiet_trans [OF t(2) u(2)])
      note R = quiet_view [OF q] and M = same_fs_nat [OF quiet_view(2) [OF q]] same_fs_fields(2) [OF quiet_view(2) [OF q]]
      have ch: "chain (fat_entry b u) (clusters_end u) (fat_entry b s (unat d)) ds" using c(5) R(4) M(1) by simp
      have su: "sector_list u ds = sector_list s ds" using M by (simp add: sector_list_def)
      obtain w where w: "scan_dir f err none (fat_entry b s (unat d)) u =
          Some (case first_hit f (disk_of b s) (sector_list s ds) of Some x \<Rightarrow> x | None \<Rightarrow> none, w)" "quiet b u w"
        using Cons.IH [OF R(1) ch] unfolding su R(3) by (elim exE conjE)
      have "scan_dir f err none c s = scan_dir f err none (fat_entry b s (unat d)) u"
        using t(1) u(1) c None Q(4) by (subst scan_dir.simps) (simp add: word_le_nat_alt)
      then show ?thesis using w quiet_trans [OF q w(2)] None by (simp add: sl first_hit_append)
    qed
  qed
  then show thesis using that by blast
qed


section \<open>Searching\<close>

lemma walk_append: "dir_walk target D (xs @ ys) = (case dir_walk target D xs of None \<Rightarrow> dir_walk target D ys | Some r \<Rightarrow> Some r)"
  by (induction xs) auto

lemma lookup_walk: "lookup target D ps = (case dir_walk target D ps of None \<Rightarrow> None | Some r \<Rightarrow> r)"
  by (induction ps) (auto simp: lookup_def)

lemma search_entries_walk:
  "search_entries target k i (of_nat l) (D l) = map_option (map_option (look_at D)) (dir_walk target D (map (Pair l) [i..<i + k]))"
proof (induction k arbitrary: i)
  case (Suc k)
  have up: "[i..<i + Suc k] = i # [Suc i..<Suc i + k]" by (simp add: upt_conv_Cons del: upt_Suc)
  show ?case using Suc [of "i + 1"] unfolding up
    by (simp del: upt_Suc add: Let_def at_slot_def end_mark_def matches_def look_at_def)
qed simp

lemma first_hit_search:
  "first_hit (search_entries target 16 0) D lbas = map_option (map_option (look_at D)) (dir_walk target D (slots_of lbas))"
proof (induction lbas)
  case (Cons l lbas)
  have "slots_of (l # lbas) = map (Pair l) [0..<0 + 16] @ slots_of lbas" by (simp add: slots_of_def)
  then show ?case using Cons search_entries_walk [of target 16 0 l D] by (simp add: walk_append split: option.split)
qed (simp add: slots_of_def)

lemma search_dir_ok:
  assumes "vol_ok b s" and "chain (fat_entry b s) (clusters_end s) c ds"
  obtains t where "search_dir c target s = Some (map_option (look_at (disk_of b s)) (lookup target (disk_of b s) (slots s ds)), t)" "quiet b s t"
proof -
  obtain t where t: "scan_dir (search_entries target 16 0) None None c s =
      Some (case first_hit (search_entries target 16 0) (disk_of b s) (sector_list s ds) of Some x \<Rightarrow> x | None \<Rightarrow> None, t)" "quiet b s t"
    by (rule scan_dir_ok [OF assms])
  have "(case first_hit (search_entries target 16 0) (disk_of b s) (sector_list s ds) of Some x \<Rightarrow> x | None \<Rightarrow> None) =
      map_option (look_at (disk_of b s)) (lookup target (disk_of b s) (slots s ds))"
    by (simp add: first_hit_search lookup_walk slots_def split: option.split)
  then show thesis using t by (intro that [of t]) (simp_all add: search_dir_def)
qed

lemma free_entries_find:
  "free_entries k i (of_nat l) (D l) = map_option (\<lambda>p. Some (of_nat (fst p), of_nat (snd p * 32))) (free_slot D (map (Pair l) [i..<i + k]))"
proof (induction k arbitrary: i)
  case (Suc k)
  have up: "[i..<i + Suc k] = i # [Suc i..<Suc i + k]" by (simp add: upt_conv_Cons del: upt_Suc)
  have "unused (at_slot D (l, i)) \<longleftrightarrow> char_at (D l) (i * 32) = 0 \<or> char_at (D l) (i * 32) = 0xE5"
    by (simp add: unused_def at_slot_def dirent_at_def)
  then show ?case using Suc [of "i + 1"] unfolding up by (simp del: upt_Suc add: free_slot_def)
qed (simp add: free_slot_def)

lemma find_append: "find P (xs @ ys) = (case find P xs of None \<Rightarrow> find P ys | Some r \<Rightarrow> Some r)"
  by (induction xs) auto

lemma first_hit_free:
  "first_hit (free_entries 16 0) D lbas = map_option (\<lambda>p. Some (of_nat (fst p), of_nat (snd p * 32))) (free_slot D (slots_of lbas))"
proof (induction lbas)
  case (Cons l lbas)
  have "slots_of (l # lbas) = map (Pair l) [0..<0 + 16] @ slots_of lbas" by (simp add: slots_of_def)
  then show ?case using Cons free_entries_find [of 16 0 l D] unfolding free_slot_def by (simp add: find_append split: option.split)
qed (simp add: slots_of_def free_slot_def)

lemma find_free_ok:
  assumes "vol_ok b s" and "chain (fat_entry b s) (clusters_end s) c ds"
  obtains t where "find_free_dirent_in c s =
    Some (map_option (\<lambda>p. (of_nat (fst p), of_nat (snd p * 32))) (free_slot (disk_of b s) (slots s ds)), t)" "quiet b s t"
proof -
  obtain t where t: "scan_dir (free_entries 16 0) None None c s =
      Some (case first_hit (free_entries 16 0) (disk_of b s) (sector_list s ds) of Some x \<Rightarrow> x | None \<Rightarrow> None, t)" "quiet b s t"
    by (rule scan_dir_ok [OF assms])
  then show thesis by (intro that [of t]) (simp_all add: find_free_dirent_in_def first_hit_free slots_def split: option.split)
qed

section \<open>Entries\<close>

lemma get_new:
  assumes "i + length new \<le> length buf" and "k < length new"
  shows "char_at (overwrite i new buf) (i + k) = new ! k"
  using assms by (simp add: char_at_def overwrite_def nth_append)

lemma bytes16_get: "ucast (ucast v :: u8) OR push_bit 8 (ucast (ucast (drop_bit 8 v) :: u8)) = (v :: u16)"
  by (rule bit_word_eqI) (auto simp: bit_simps)

lemma dirent_bytes_length [simp]: "length (e_name e) = 11 \<Longrightarrow> length (dirent_bytes e) = 32"
  by (simp add: dirent_bytes_def bytes16_def bytes32_def)


lemma dirent_nth:
  assumes "length (e_name e) = 11"
  shows "k < 11 \<Longrightarrow> dirent_bytes e ! k = e_name e ! k"
    "dirent_bytes e ! (11 + k) = ([e_attr e, ntres e, crt_time_tenth e] @ bytes16 (crt_time e) @ bytes16 (crt_date e) @
     bytes16 (lst_acc_date e) @ bytes16 (cluster_hi e) @ bytes16 (wrt_time e) @ bytes16 (wrt_date e) @
     bytes16 (cluster_lo e) @ bytes32 (e_size e)) ! k"
  using assms nth_append [of "e_name e"] by (simp_all add: dirent_bytes_def)

lemma dirent_roundtrip:
  assumes "length (e_name e) = 11" and "o' + 32 \<le> length buf"
  shows "dirent_at (overwrite o' (dirent_bytes e) buf) o' = e"
proof -
  have g: "char_at (overwrite o' (dirent_bytes e) buf) (o' + k) = dirent_bytes e ! k" if "k < 32" for k
    using get_new [of o' "dirent_bytes e" buf k] assms that by simp
  have n: "map (\<lambda>i. char_at (overwrite o' (dirent_bytes e) buf) (o' + i)) [0..<11] = e_name e"
    using assms(1) by (intro nth_equalityI) (simp_all add: g dirent_nth(1))
  have h: "char_at (overwrite o' (dirent_bytes e) buf) (o' + (11 + k)) = ([e_attr e, ntres e, crt_time_tenth e] @ bytes16 (crt_time e) @
     bytes16 (crt_date e) @ bytes16 (lst_acc_date e) @ bytes16 (cluster_hi e) @ bytes16 (wrt_time e) @ bytes16 (wrt_date e) @
     bytes16 (cluster_lo e) @ bytes32 (e_size e)) ! k" if "k < 21" for k
    using g [of "11 + k"] that dirent_nth(2) [OF assms(1)] by simp
  note H = h [of 0] h [of 1] h [of 2] h [of 3] h [of 4] h [of 5] h [of 6] h [of 7] h [of 8] h [of 9] h [of 10] h [of 11]
    h [of 12] h [of 13] h [of 14] h [of 15] h [of 16] h [of 17] h [of 18] h [of 19] h [of 20]
  show ?thesis using H unfolding dirent_at_def n get16_def get32_def
    by (simp add: bytes16_def bytes32_def bytes16_get bytes_of_word add.commute [of o'])
qed

lemma dirent_at_cong:
  assumes "\<And>k. k < 32 \<Longrightarrow> char_at bs (i + k) = char_at cs (j + k)"
  shows "dirent_at bs i = dirent_at cs j"
proof -
  have h: "char_at bs (k + i) = char_at cs (k + j)" if "k < 32" for k using assms [OF that] by (simp only: add.commute)
  show ?thesis unfolding dirent_at_def get16_def get32_def by (simp add: assms h add.assoc)
qed

lemma dirent_other:
  assumes "j * 32 + 32 \<le> length buf" and "length new \<le> 32" and "i \<noteq> j"
  shows "dirent_at (overwrite (j * 32) new buf) (i * 32) = dirent_at buf (i * 32)"
proof (rule dirent_at_cong)
  fix k :: nat assume k: "k < 32"
  have "i * 32 + k < j * 32 \<or> j * 32 + 32 \<le> i * 32 + k" using k assms(3) by (cases "i < j") auto
  then show "char_at (overwrite (j * 32) new buf) (i * 32 + k) = char_at buf (i * 32 + k)"
    using assms(1,2) by (subst overwrite_char) force+
qed

section \<open>Writing an entry\<close>

lemma slots_range:
  assumes "chain F (clusters_end s) c ds" and "layout_ok s" and "p \<in> set (slots s ds)"
  obtains d where "d \<in> set ds" "in_cluster s (unat d) (fst p)" "snd p < 16" "unat (data_start_lba s) \<le> fst p" "fst p < 0x10000000"
proof -
  obtain d where d: "d \<in> set ds" "in_cluster s (unat d) (fst p)" "snd p < 16"
    using assms(3) by (auto simp: slots_def slots_of_def sector_list_def in_cluster_def)
  have "2 \<le> unat d" "unat d < clusters_end s" using chain_range [OF assms(1) d(1)] by auto
  from lba_of_bound [OF assms(2) this] show thesis using d by (intro that [of d]) (auto simp: in_cluster_def)
qed

lemma at_slot_put:
  assumes "length (D (fst p)) = 512" and "snd p < 16" and "length (e_name e) = 11"
  shows "at_slot (put_entry D p (dirent_bytes e)) q = (if q = p then e else at_slot D q)"
  using assms dirent_roundtrip [of e "snd p * 32" "D (fst p)"] dirent_other [of "snd p" "D (fst p)" "dirent_bytes e" "snd q"]
  by (cases p; cases q) (auto simp: at_slot_def put_entry_def)

lemma walk_split:
  assumes "dir_walk target D ps = Some (Some p)"
  obtains xs ys where "ps = xs @ p # ys" "\<forall>q \<in> set xs. \<not> end_mark (at_slot D q) \<and> \<not> matches target (at_slot D q)"
    "\<not> end_mark (at_slot D p)" "matches target (at_slot D p)"
proof -
  have "\<exists>xs ys. ps = xs @ p # ys \<and> (\<forall>q \<in> set xs. \<not> end_mark (at_slot D q) \<and> \<not> matches target (at_slot D q)) \<and>
    \<not> end_mark (at_slot D p) \<and> matches target (at_slot D p)"
    using assms
  proof (induction ps)
    case (Cons q ps)
    show ?case
    proof (cases "q = p \<and> matches target (at_slot D q)")
      case True
      then show ?thesis using Cons.prems by (intro exI [of _ "[]"] exI [of _ ps]) (auto split: if_splits)
    next
      case False
      then obtain xs ys where "ps = xs @ p # ys" "\<forall>q \<in> set xs. \<not> end_mark (at_slot D q) \<and> \<not> matches target (at_slot D q)"
        "\<not> end_mark (at_slot D p)" "matches target (at_slot D p)" using Cons by (auto split: if_splits)
      then show ?thesis using False Cons.prems by (intro exI [of _ "q # xs"] exI [of _ ys]) (auto split: if_splits)
    qed
  qed simp
  then show thesis using that by blast
qed

lemma walk_prefix:
  "\<forall>q \<in> set xs. \<not> end_mark (at_slot D q) \<and> \<not> matches target (at_slot D q) \<Longrightarrow> dir_walk target D (xs @ ys) = dir_walk target D ys"
  by (induction xs) auto

lemma walk_none: "dir_walk target D (xs @ ys) \<noteq> Some (Some r) \<Longrightarrow> \<forall>q \<in> set xs. \<not> end_mark (at_slot D q) \<Longrightarrow>
  \<exists>p. dir_walk target D (xs @ ys) = Some (Some p) \<or> (\<forall>q \<in> set xs. \<not> matches target (at_slot D q))"
  by (induction xs) auto

text \<open>The place that a file's entry is written to, and that the search finds it there afterwards.\<close>

lemma place_split:
  assumes "entry_place target D ps = Some p"
  obtains xs ys where "ps = xs @ p # ys" "p \<notin> set xs" "\<forall>q \<in> set xs. \<not> end_mark (at_slot D q) \<and> \<not> matches target (at_slot D q)"
proof (cases "lookup target D ps")
  case (Some q)
  then have "dir_walk target D ps = Some (Some p)" using assms by (auto simp: entry_place_def lookup_walk split: option.splits)
  from walk_split [OF this] show thesis using that by metis
next
  case None
  then have "find (unused \<circ> at_slot D) ps = Some p" using assms by (simp add: entry_place_def free_slot_def)
  then obtain xs ys where p: "ps = xs @ p # ys" "unused (at_slot D p)" "\<forall>q \<in> set xs. \<not> unused (at_slot D q)"
    by (auto simp: find_Some_iff2 find_Some_iff dest: that) (metis id_take_nth_drop in_set_conv_nth length_take min_less_iff_conj nth_take)
  have e: "\<forall>q \<in> set xs. \<not> end_mark (at_slot D q)" using p(3) by (simp add: unused_def end_mark_def)
  have "dir_walk target D ps \<noteq> Some (Some r)" for r using None by (simp add: lookup_walk split: option.splits)
  then have "\<forall>q \<in> set xs. \<not> matches target (at_slot D q)" using walk_none [of target D xs "p # ys"] e p(1) by metis
  then show thesis using p e by (intro that [of xs ys]) auto
qed

lemma lookup_put:
  assumes "entry_place target D ps = Some p" and "length (D (fst p)) = 512" "snd p < 16" and "length (e_name e) = 11"
    and "\<not> end_mark e" "matches target e"
  shows "lookup target (put_entry D p (dirent_bytes e)) ps = Some p"
proof -
  note A = at_slot_put [of D p e, OF assms(2-4)]
  obtain xs ys where x: "ps = xs @ p # ys" "p \<notin> set xs" "\<forall>q \<in> set xs. \<not> end_mark (at_slot D q) \<and> \<not> matches target (at_slot D q)"
    by (rule place_split [OF assms(1)])
  have "\<forall>q \<in> set xs. q \<noteq> p" using x(2) by auto
  then have "dir_walk target (put_entry D p (dirent_bytes e)) ps = Some (Some p)"
    using x assms(5,6) by (subst x(1), subst walk_prefix) (auto simp: A)
  then show ?thesis by (simp add: lookup_walk)
qed

end
