(* ===== verification/Fat_File.thy ===== *)
theory Fat_File
  imports Fat_Dir
begin

text \<open>
  Files: what \<open>fat32_write_file\<close> leaves on the volume, when there is room and when there is not.
\<close>

unbundle bit_operations_syntax

section \<open>Definitions\<close>

text \<open>The clusters of the working directory; a directory's clusters are in use.\<close>

definition dir_ok :: "ata_bus \<Rightarrow> fat32 \<Rightarrow> u32 list \<Rightarrow> bool" where
  "dir_ok b s ds \<longleftrightarrow> chain (fat_entry b s) (clusters_end s) (cwd_cluster s) ds \<and> (\<forall>d \<in> set ds. fat_entry b s (unat d) \<noteq> 0)"

text \<open>
  A name that can be written: \<open>p\<close> is the place of its entry and \<open>olds\<close> are the clusters of the file
  of that name.
\<close>

definition writable :: "ata_bus \<Rightarrow> fat32 \<Rightarrow> u32 list \<Rightarrow> u8 list \<Rightarrow> slot \<Rightarrow> u32 list \<Rightarrow> bool" where
  "writable b s dirs target p olds \<longleftrightarrow>
     entry_place target (disk_of b s) (slots s dirs) = Some p \<and>
     (if lookup target (disk_of b s) (slots s dirs) = None then olds = []
      else e_attr (at_slot (disk_of b s) p) AND FAT_ATTR_DIRECTORY = 0 \<and>
        chain (fat_entry b s) (clusters_end s) (start_cluster_of (at_slot (disk_of b s) p)) olds \<and> set olds \<inter> set dirs = {})"

definition good_name :: "u8 list \<Rightarrow> bool" where
  "good_name target \<longleftrightarrow> length target = 11 \<and> target ! 0 \<noteq> 0 \<and> target ! 0 \<noteq> 0xE5"

text \<open>The free clusters when the old contents have been given back.\<close>

definition room :: "ata_bus \<Rightarrow> fat32 \<Rightarrow> u32 list \<Rightarrow> nat" where
  "room b s olds = card (free_clusters (freed (fat_entry b s) olds) (clusters_end s))"

section \<open>Entries\<close>

lemma start_of_parts:
  "start_cluster_of (e\<lparr>cluster_lo := ucast (c AND 0xFFFF), cluster_hi := ucast (drop_bit 16 c AND 0xFFFF), e_size := k\<rparr>) = c"
proof -
  have m: "(0xFFFF :: u32) = mask 16" by (simp add: mask_eq_exp_minus_1)
  show ?thesis unfolding start_cluster_of_def m
    by (simp, rule bit_word_eqI) (auto simp: bit_simps)
qed

lemma edit_sector_ok:
  assumes "vol_ok b s" and "unat (data_start_lba s) \<le> i" "i < 0x10000000" and "j < 16" and "length new \<le> 32"
  obtains t u where "fs_read (fs_drive s) (of_nat i) 1 s = Some (0, disk_of b s i, t)"
    "fs_write (fs_drive t) (of_nat i) 1 (overwrite (unat (of_nat (j * 32) :: u16)) new (disk_of b s i)) t = Some (0, u)"
    "gives b s u (fat_entry b s) (put_entry (disk_of b s) (i, j) new)"
proof -
  have u: "unat (of_nat i :: u32) = i" using assms(3) by (intro unat_of_nat32) simp
  have lb: "(of_nat i :: u32) < 0x10000000" using assms(3) u by (simp add: word_less_nat_alt)
  have o': "unat (of_nat (j * 32) :: u16) = j * 32" using assms(4) unfolding unat_of_nat by simp
  obtain t where t: "fs_read (fs_drive s) (of_nat i) 1 s = Some (0, disk_of b s i, t)" "quiet b s t"
    using fs_read_sector [OF assms(1) lb] unfolding u by metis
  note Q = quiet_view [OF t(2)] and S = same_fs_fields [OF quiet_view(2) [OF t(2)]]
  let ?sec = "overwrite (j * 32) new (disk_of b s i)"
  have l: "length ?sec = 512 * unat (1 :: u8)" using disk_length [OF assms(1), of i] assms(4,5) by simp
  have d: "unat (data_start_lba t) \<le> unat (of_nat i :: u32)" using assms(2) u S by simp
  obtain w where w: "fs_write (fs_drive t) (of_nat i) 1 ?sec t = Some (0, w)"
    "gives b t w (fat_entry b t) (put_sectors i (unat (1 :: u8)) ?sec (disk_of b t))"
    using data_write_ok [OF Q(1) d lb _ l] unfolding u by (metis one_neq_zero)
  have "gives b s w (fat_entry b s) (put_entry (disk_of b s) (i, j) new)"
    using gives_trans [OF quiet_gives [OF t(2)] w(2)] l by (simp add: Q put_sectors_1 put_entry_def)
  then show thesis using t(1) w(1) by (intro that [of t w]) (simp_all only: o')
qed

lemma write_dirent_ok:
  assumes "vol_ok b s" and "unat (data_start_lba s) \<le> fst p" "fst p < 0x10000000" and "snd p < 16" and "length (e_name e) = 11"
  obtains t where "write_dirent (of_nat (fst p)) (of_nat (snd p * 32)) e s = Some (0, t)"
    "gives b s t (fat_entry b s) (put_entry (disk_of b s) p (dirent_bytes e))"
proof -
  have l: "length (dirent_bytes e) \<le> 32" using assms(5) by simp
  obtain t u where "fs_read (fs_drive s) (of_nat (fst p)) 1 s = Some (0, disk_of b s (fst p), t)"
    "fs_write (fs_drive t) (of_nat (fst p)) 1 (overwrite (unat (of_nat (snd p * 32) :: u16)) (dirent_bytes e) (disk_of b s (fst p))) t = Some (0, u)"
    "gives b s u (fat_entry b s) (put_entry (disk_of b s) (fst p, snd p) (dirent_bytes e))"
    by (rule edit_sector_ok [OF assms(1-4) l])
  then show thesis by (intro that [of u]) (simp_all add: write_dirent_def)
qed

lemma place_in: "entry_place target D ps = Some p \<Longrightarrow> p \<in> set ps"
  using place_split [of target D ps p] by (metis in_set_conv_decomp)

lemma place_lookup:
  assumes "entry_place target D ps = Some p"
  shows "lookup target D ps = Some p \<and> matches target (at_slot D p) \<or> lookup target D ps = None \<and> free_slot D ps = Some p"
proof (cases "lookup target D ps")
  case (Some q)
  then have "dir_walk target D ps = Some (Some p)" using assms by (auto simp: entry_place_def lookup_walk split: option.splits)
  from walk_split [OF this] show ?thesis using Some assms by (metis entry_place_def option.case(2))
qed (use assms in \<open>simp add: entry_place_def\<close>)

lemma same_slots: "same_fs s t \<Longrightarrow> slots t = slots s"
  using same_fs_nat [of s t] same_fs_fields [of s t] by (simp add: slots_def sector_list_def fun_eq_iff)

lemma at_slot_length [simp]: "length (e_name (at_slot D p)) = 11" by (simp add: at_slot_def dirent_at_def)

lemma visible_new: "good_name target \<Longrightarrow> matches target (zero_dirent\<lparr>e_name := target, e_attr := 0x20\<rparr>)"
  by (simp add: matches_def hidden_def good_name_def sname_eq_def FAT_ATTR_LFN_def FAT_ATTR_VOLUME_ID_def)

lemma matches_name: "matches target e \<Longrightarrow> good_name target \<Longrightarrow> length (e_name e) = 11 \<Longrightarrow> e_name e = target"
  by (simp add: matches_def sname_eq_def good_name_def)

lemma matches_parts:
  "matches target (e\<lparr>cluster_lo := x, cluster_hi := y, e_size := z\<rparr>) = matches target e"
  by (simp add: matches_def hidden_def)

section \<open>The first step of a write\<close>

lemma write_target_ok:
  assumes "vol_ok b s" and "dir_ok b s dirs" and "writable b s dirs target p olds" and "good_name target"
  obtains t e where "write_target target s = Some (Some \<lparr>l_entry = e, l_lba = of_nat (fst p), l_offset = of_nat (snd p * 32)\<rparr>, t)"
    "gives b s t (freed (fat_entry b s) olds) (disk_of b s)" "matches target e" "e_name e = target"
    "e_attr e AND FAT_ATTR_DIRECTORY = 0"
proof -
  let ?D = "disk_of b s" and ?ps = "slots s dirs"
  have C: "chain (fat_entry b s) (clusters_end s) (cwd_cluster s) dirs" using assms(2) by (simp add: dir_ok_def)
  obtain t where t: "search_dir (cwd_cluster s) target s = Some (map_option (look_at ?D) (lookup target ?D ?ps), t)" "quiet b s t"
    by (rule search_dir_ok [OF assms(1) C])
  note Q = quiet_view [OF t(2)] and N = same_fs_nat(1) [OF quiet_view(2) [OF t(2)]] same_fs_fields(9) [OF quiet_view(2) [OF t(2)]]
  have pl: "entry_place target ?D ?ps = Some p" using assms(3) by (simp add: writable_def)
  from place_lookup [OF pl] show thesis
  proof (elim disjE conjE)
    assume l: "lookup target ?D ?ps = Some p" and m: "matches target (at_slot ?D p)"
    then have w: "e_attr (at_slot ?D p) AND FAT_ATTR_DIRECTORY = 0"
      "chain (fat_entry b t) (clusters_end t) (start_cluster_of (at_slot ?D p)) olds"
      using assms(3) Q(4) N(1) by (simp_all add: writable_def)
    obtain u where u: "free_chain (start_cluster_of (at_slot ?D p)) t = Some u" "gives b t u (freed (fat_entry b t) olds) (disk_of b t)"
      by (rule free_chain_ok [OF Q(1) w(2)])
    have f: "(if start_cluster_of (at_slot ?D p) \<ge> 2 then free_chain (start_cluster_of (at_slot ?D p)) t else Some t) = Some u"
      using u(1) by (cases "2 \<le> start_cluster_of (at_slot ?D p)") (simp_all add: free_chain.simps)
    have g: "gives b s u (freed (fat_entry b s) olds) ?D" using gives_trans [OF quiet_gives [OF t(2)] u(2)] unfolding Q(3,4) .
    show thesis by (rule that [OF _ g, of "(at_slot ?D p)\<lparr>cluster_lo := 0, cluster_hi := 0, e_size := 0\<rparr>"])
      (use t(1) l w(1) f m matches_name [OF m assms(4)] in \<open>simp_all add: write_target_def look_at_def Let_def matches_parts\<close>)
  next
    assume l: "lookup target ?D ?ps = None" and fr: "free_slot ?D ?ps = Some p"
    then have o': "olds = []" using assms(3) by (simp add: writable_def)
    have C': "chain (fat_entry b t) (clusters_end t) (cwd_cluster t) dirs" using C Q(4) N by simp
    have ps: "slots t dirs = ?ps" using same_slots [OF Q(2)] by simp
    obtain u where u: "find_free_dirent_in (cwd_cluster t) t = Some (map_option (\<lambda>p. (of_nat (fst p), of_nat (snd p * 32))) (free_slot (disk_of b t) (slots t dirs)), u)" "quiet b t u"
      by (rule find_free_ok [OF Q(1) C'])
    have g: "gives b s u (freed (fat_entry b s) olds) ?D"
      using quiet_gives [OF quiet_trans [OF t(2) u(2)]] by (simp add: freed_def o')
    show thesis by (rule that [OF _ g, of "zero_dirent\<lparr>e_name := target, e_attr := 0x20\<rparr>"])
      (use t(1) u(1) [unfolded ps Q(3)] l fr visible_new [OF assms(4)] in \<open>simp_all add: write_target_def FAT_ATTR_DIRECTORY_def\<close>)
  qed
qed


section \<open>The directory during a write\<close>

lemma writable_apart: "writable b s dirs target p olds \<Longrightarrow> set olds \<inter> set dirs = {}"
  by (auto simp: writable_def split: if_splits)

lemma dirs_kept:
  assumes "dir_ok b s dirs" and "set olds \<inter> set dirs = {}" and "d \<in> set dirs"
  shows "freed (fat_entry b s) olds (unat d) = fat_entry b s (unat d)" "unat d \<notin> free_clusters (freed (fat_entry b s) olds) n"
    "2 \<le> unat d" "unat d < clusters_end s"
proof -
  have "unat d \<notin> unat ` set olds" using assms(2,3) by (auto simp: word_unat_eq_iff [symmetric])
  then show e: "freed (fat_entry b s) olds (unat d) = fat_entry b s (unat d)" by (simp add: freed_def)
  show "unat d \<notin> free_clusters (freed (fat_entry b s) olds) n" using assms(1,3) e by (simp add: dir_ok_def free_clusters_def)
  show "2 \<le> unat d" "unat d < clusters_end s" using assms(1,3) chain_range unfolding dir_ok_def by metis+
qed

lemma slots_spared:
  assumes "vol_ok b s" and "dir_ok b s dirs" and "spares b s t C" and "\<forall>c \<in> C. 2 \<le> c" and "\<forall>d \<in> set dirs. unat d \<notin> C" and "p \<in> set (slots s dirs)"
  shows "disk_of b t (fst p) = disk_of b s (fst p)"
proof -
  have L: "layout_ok s" using assms(1) by (simp add: vol_ok_def)
  have C: "chain (fat_entry b s) (clusters_end s) (cwd_cluster s) dirs" using assms(2) by (simp add: dir_ok_def)
  obtain d where d: "d \<in> set dirs" "in_cluster s (unat d) (fst p)" "unat (data_start_lba s) \<le> fst p"
    by (rule slots_range [OF C L assms(6)])
  have "\<not> in_cluster s c (fst p)" if "c \<in> C" for c
    using that d(1,2) assms(4,5) in_cluster_unique [of c "unat d" s "fst p"] chain_range [OF C d(1)] by metis
  then show ?thesis using assms(3) d(3) by (simp add: spares_def)
qed

lemma walk_cong: "\<forall>p \<in> set ps. at_slot D p = at_slot E p \<Longrightarrow> dir_walk target D ps = dir_walk target E ps"
  by (induction ps) auto

lemma place_cong:
  assumes "\<forall>p \<in> set ps. at_slot D p = at_slot E p"
  shows "entry_place target D ps = entry_place target E ps" "lookup target D ps = lookup target E ps"
proof -
  have "free_slot D ps = free_slot E ps" using assms unfolding free_slot_def by (intro find_cong) simp_all
  then show "entry_place target D ps = entry_place target E ps" "lookup target D ps = lookup target E ps"
    using walk_cong [OF assms, of target] by (simp_all add: entry_place_def lookup_walk split: option.split)
qed

lemma dir_ok_gives:
  assumes "dir_ok b s dirs" and "same_fs s t" and "\<forall>d \<in> set dirs. fat_entry b t (unat d) = fat_entry b s (unat d)"
  shows "dir_ok b t dirs"
  using assms chain_cong [of dirs "fat_entry b t" "fat_entry b s"] same_fs_nat(1) [OF assms(2)] same_fs_fields(9) [OF assms(2)]
  by (simp add: dir_ok_def)

lemma clusters_for_enough: "0 < cluster_bytes s \<Longrightarrow> k \<le> cluster_bytes s * clusters_for s k"
proof -
  assume "0 < cluster_bytes s"
  then have "k + cluster_bytes s - 1 < cluster_bytes s * Suc (clusters_for s k)"
    unfolding clusters_for_def using dividend_less_times_div [of "cluster_bytes s" "k + cluster_bytes s - 1"] by simp
  then show ?thesis by simp
qed

section \<open>Writing a file\<close>

text \<open>
  With room for the contents the file is written: its clusters \<open>es\<close> were free, they are chained, the
  entry at \<open>p\<close> names the first one, and the rest of the volume is as it was.
\<close>

lemma write_file_done:
  assumes "vol_ok b s" and "dir_ok b s dirs" and "writable b s dirs (to_short_name name) p olds" and "good_name (to_short_name name)"
    and "clusters_for s (unat size') \<le> room b s olds"
  obtains t u e es where "fat32_write_file name data size' s = Some (0, t)" "gives b s t (link (freed (fat_entry b s) olds) es) (put_entry (disk_of b u) p (dirent_bytes e))"
    "built b u (freed (fat_entry b s) olds) es" "same_fs s u" "spares b s u (unat ` set es)" "length es = clusters_for s (unat size')"
    "take (unat size') (file_bytes (disk_of b u) s es) = map (char_at data) [0..<unat size']"
    "start_cluster_of e = first_of es" "e_size e = size'" "matches (to_short_name name) e" "e_name e = to_short_name name"
    "e_attr e AND FAT_ATTR_DIRECTORY = 0"
proof -
  let ?n = "to_short_name name" and ?F = "freed (fat_entry b s) olds"
  obtain t e where t: "write_target ?n s = Some (Some \<lparr>l_entry = e, l_lba = of_nat (fst p), l_offset = of_nat (snd p * 32)\<rparr>, t)"
    "gives b s t ?F (disk_of b s)" "matches ?n e" "e_name e = ?n" "e_attr e AND FAT_ATTR_DIRECTORY = 0" by (rule write_target_ok [OF assms(1-4)])
  note G = gives_view [OF t(2)] and N = same_fs_nat [OF gives_view(2) [OF t(2)]] cluster_data_same [OF gives_view(2) [OF t(2)]]
  have B: "built b t ?F []" using G N by (simp add: built_def)
  have "0 \<le> size'" by simp
  from write_clusters_ok [OF B this, of data] obtain u es where
    u: "write_clusters data size' 0 0 0 t = Some (Some (first_of es), u)" "built b u ?F es" "same_fs t u" "spares b t u (unat ` set es)"
      "length es = clusters_for t (unat size')" "take (unat size') (file_bytes (disk_of b u) t es) = map (char_at data) [0..<unat size']"
    using assms(5) N by (auto simp: first_of_def final_of_def room_def)
  have su: "same_fs s u" by (rule same_fs_trans [OF G(2) u(3)])
  have sp: "spares b s u (unat ` set es)"
    using u(4) G(4) N same_fs_fields(5) [OF G(2)] by (simp add: spares_def)
  have L: "layout_ok s" using assms(1) by (simp add: vol_ok_def)
  have C: "chain (fat_entry b s) (clusters_end s) (cwd_cluster s) dirs" using assms(2) by (simp add: dir_ok_def)
  have pin: "p \<in> set (slots s dirs)" using assms(3) place_in unfolding writable_def by metis
  have r: "unat (data_start_lba u) \<le> fst p" "fst p < 0x10000000" "snd p < 16"
    using slots_range [OF C L pin] same_fs_fields(5) [OF su] by metis+
  let ?e = "e\<lparr>cluster_lo := ucast (first_of es AND 0xFFFF), cluster_hi := ucast (drop_bit 16 (first_of es) AND 0xFFFF), e_size := size'\<rparr>"
  have nl: "length (e_name ?e) = 11" using t(4) assms(4) by (simp add: good_name_def)
  obtain w where w: "write_dirent (of_nat (fst p)) (of_nat (snd p * 32)) ?e u = Some (0, w)"
    "gives b u w (fat_entry b u) (put_entry (disk_of b u) p (dirent_bytes ?e))"
    by (rule write_dirent_ok [OF built_chain(1) [OF u(2)] r nl])
  have "gives b s w (link ?F es) (put_entry (disk_of b u) p (dirent_bytes ?e))"
    using w(2) su same_fs_nat(1) [OF su] same_fs_fields(5) [OF su] u(2) by (auto simp: gives_def built_def intro: same_fs_trans)
  moreover have "fat32_write_file name data size' s = Some (0, w)"
    using t(1) u(1) w(1) L by (simp add: fat32_write_file_def layout_ok_def)
  ultimately show thesis using u su sp N t(3-5)
    by (intro that [of w es u ?e]) (simp_all add: start_of_parts matches_parts file_bytes_def)
qed

end
