(* ===== verification/Fat_Names.thy ===== *)
theory Fat_Names
  imports Fat32
begin

text \<open>
  File names: the 11-byte field of a directory entry and the name with a dot, in both directions.
\<close>

unbundle bit_operations_syntax

section \<open>Definitions\<close>

text \<open>A name of up to eight characters, and up to three more after a dot.\<close>

definition plain :: "u8 \<Rightarrow> bool" where "plain c \<longleftrightarrow> c \<noteq> 0 \<and> c \<noteq> 32 \<and> c \<noteq> 46"

definition name83 :: "cstring \<Rightarrow> bool" where
  "name83 n \<longleftrightarrow> (let base = takeWhile (\<lambda>c. c \<noteq> 46) n; rest = dropWhile (\<lambda>c. c \<noteq> 46) n in
     base \<noteq> [] \<and> length base \<le> 8 \<and> list_all plain base \<and> hd base \<noteq> 0xE5 \<and>
     (rest = [] \<or> tl rest \<noteq> [] \<and> length (tl rest) \<le> 3 \<and> list_all plain (tl rest)))"

text \<open>A name field that \<open>to_short_name\<close> would write, or one of the two dot entries.\<close>

definition canonical :: "u8 list \<Rightarrow> bool" where
  "canonical raw \<longleftrightarrow> to_short_name (format_short_name raw) = raw \<or> raw ! 0 = 46"

section \<open>Upper case\<close>

lemma word8_arith: "97 \<le> (c :: u8) \<Longrightarrow> c \<le> 122 \<Longrightarrow> 65 \<le> c - 97 + 65 \<and> c - 97 + 65 \<le> 90"
  by unat_arith

lemma to_upper_special [simp]:
  "to_upper c = 0 \<longleftrightarrow> c = 0" "to_upper c = 32 \<longleftrightarrow> c = 32" "to_upper c = 46 \<longleftrightarrow> c = 46" "to_upper c = 0xE5 \<longleftrightarrow> c = 0xE5"
  using word8_arith [of c] by (auto simp: to_upper_def)

lemma to_upper_idem [simp]: "to_upper (to_upper c) = to_upper c"
proof -
  have x: "\<not> x \<le> 90" if "97 \<le> x" for x :: u8 using order_trans [OF that, of 90] by auto
  have "\<not> 97 \<le> to_upper c \<or> \<not> to_upper c \<le> 122"
    using word8_arith [of c] by (cases "97 \<le> c \<and> c \<le> 122") (auto simp: to_upper_def dest: x)
  then show ?thesis by (subst to_upper_def) auto
qed

lemma upper_takeWhile: "takeWhile (\<lambda>c. c \<noteq> k) (map to_upper n) = map to_upper (takeWhile (\<lambda>c. c \<noteq> k) n)"
  "dropWhile (\<lambda>c. c \<noteq> k) (map to_upper n) = map to_upper (dropWhile (\<lambda>c. c \<noteq> k) n)" if "k = 0 \<or> k = 32 \<or> k = 46"
  using that by (induction n) auto

lemma pad_upper_map: "pad_upper k (map to_upper n) = pad_upper k n"
  by (simp add: pad_upper_def take_map)

lemma to_short_name_upper: "to_short_name (map to_upper n) = to_short_name n"
  unfolding to_short_name_def Let_def upper_takeWhile [of 0, simplified] upper_takeWhile [of 46, simplified] map_tl [symmetric] pad_upper_map ..

lemma str_eq_ci_upper: "0 \<notin> set a \<Longrightarrow> 0 \<notin> set c \<Longrightarrow> str_eq_ci a c \<longleftrightarrow> map to_upper a = map to_upper c"
  by (induction a c rule: list_induct2') (auto simp: char_at_def)

section \<open>Names\<close>

lemma short_name_length: "length (to_short_name n) = 11"
  by (simp add: to_short_name_def pad_upper_def Let_def)

lemma name83_parts:
  assumes "name83 n"
  obtains base ext where "n = base @ (if ext = [] then [] else 46 # ext)" "base \<noteq> []" "length base \<le> 8" "length ext \<le> 3"
    "\<forall>c \<in> set (base @ ext). plain c" "hd base \<noteq> 0xE5"
proof -
  define b where "b = takeWhile (\<lambda>c. c \<noteq> 46) n"
  define r where "r = dropWhile (\<lambda>c. c \<noteq> 46) n"
  have n: "n = b @ r" by (simp add: b_def r_def)
  have P: "b \<noteq> []" "length b \<le> 8" "list_all plain b" "hd b \<noteq> 0xE5" "r = [] \<or> tl r \<noteq> [] \<and> length (tl r) \<le> 3 \<and> list_all plain (tl r)"
    using assms by (simp_all add: name83_def Let_def b_def r_def)
  show thesis
  proof (cases r)
    case Nil
    then show thesis using n P by (intro that [of b "[]"]) (simp_all add: list_all_iff)
  next
    case (Cons c x)
    then have "c = 46" using hd_dropWhile [of "\<lambda>c. c \<noteq> 46" n] by (simp add: r_def)
    then show thesis using n P Cons by (intro that [of b x]) (auto simp: list_all_iff)
  qed
qed

lemma short_name_parts:
  assumes "\<forall>c \<in> set (base @ ext). plain c"
  shows "to_short_name (base @ (if ext = [] then [] else 46 # ext)) = pad_upper 8 base @ pad_upper 3 ext"
proof -
  let ?n = "base @ (if ext = [] then [] else 46 # ext)"
  have z: "takeWhile (\<lambda>c. c \<noteq> 0) ?n = ?n" using assms by (intro takeWhile_eq_all_conv [THEN iffD2]) (auto simp: plain_def)
  have b: "\<forall>c \<in> set base. c \<noteq> 46" using assms by (auto simp: plain_def)
  then have "takeWhile (\<lambda>c. c \<noteq> 46) ?n = base" "dropWhile (\<lambda>c. c \<noteq> 46) ?n = (if ext = [] then [] else 46 # ext)"
    by (simp_all add: takeWhile_append2 dropWhile_append2)
  then show ?thesis unfolding to_short_name_def z Let_def by simp
qed

lemma takeWhile_pad:
  assumes "\<forall>c \<in> set cs. plain c" and "length cs \<le> k"
  shows "takeWhile (\<lambda>c. c \<noteq> 32) (pad_upper k cs) = map to_upper cs"
proof -
  have "takeWhile (\<lambda>c. c \<noteq> 32) (map to_upper cs @ replicate m 32) = map to_upper cs" for m
    using assms(1) by (induction cs) (cases m, auto simp: plain_def)
  then show ?thesis using assms(2) by (simp add: pad_upper_def)
qed

lemma format_short_roundtrip:
  assumes "name83 n"
  shows "format_short_name (to_short_name n) = map to_upper n"
proof -
  obtain base ext where n: "n = base @ (if ext = [] then [] else 46 # ext)" "base \<noteq> []" "length base \<le> 8" "length ext \<le> 3"
    "\<forall>c \<in> set (base @ ext). plain c" by (rule name83_parts [OF assms])
  have t: "to_short_name n = pad_upper 8 base @ pad_upper 3 ext" unfolding n(1) by (rule short_name_parts [OF n(5)])
  have l: "length (pad_upper 8 base) = 8" "length (pad_upper 3 ext) = 3" using n(3,4) by (simp_all add: pad_upper_def)
  have f: "format_short_name (to_short_name n) = map to_upper base @ (if char_at (pad_upper 3 ext) 0 \<noteq> 32 then 46 # map to_upper ext else [])"
    using takeWhile_pad [of base 8] takeWhile_pad [of ext 3] n(3-5) l unfolding format_short_name_def t
    by (simp add: char_at_def nth_append)
  have "char_at (pad_upper 3 ext) 0 \<noteq> 32 \<longleftrightarrow> ext \<noteq> []"
    using n(5) by (cases ext) (auto simp: pad_upper_def char_at_def plain_def)
  then show ?thesis using f unfolding n(1) by (simp add: to_upper_def)
qed


lemma short_name_no_zero: "0 \<notin> set (to_short_name n)"
proof -
  have "0 \<notin> set (pad_upper k cs)" if "0 \<notin> set cs" for k cs
    using that in_set_takeD [of _ k cs] by (auto simp: pad_upper_def)
  moreover have z: "0 \<notin> set (takeWhile (\<lambda>c. c \<noteq> 0) n)" by (auto dest: set_takeWhileD)
  moreover have "0 \<notin> set (takeWhile (\<lambda>c. c \<noteq> 46) m)" "0 \<notin> set (tl (dropWhile (\<lambda>c. c \<noteq> 46) m))" if "0 \<notin> set m" for m :: cstring
    using that by (auto simp flip: drop_Suc [of 0, simplified] dest!: set_takeWhileD in_set_dropD set_dropWhileD)
  ultimately show ?thesis unfolding to_short_name_def Let_def by simp
qed

lemma format_no_zero: "0 \<notin> set raw \<Longrightarrow> 0 \<notin> set (format_short_name raw)"
  by (auto simp: format_short_name_def dest!: set_takeWhileD in_set_takeD in_set_dropD)

lemma name83_head:
  assumes "name83 n"
  shows "n \<noteq> []" "plain (hd n)" "hd n \<noteq> 0xE5" "0 \<notin> set n" "to_short_name n ! 0 = to_upper (hd n)"
proof -
  obtain base ext where n: "n = base @ (if ext = [] then [] else 46 # ext)" "base \<noteq> []" "length base \<le> 8" "length ext \<le> 3"
    "\<forall>c \<in> set (base @ ext). plain c" "hd base \<noteq> 0xE5" by (rule name83_parts [OF assms])
  show "n \<noteq> []" "hd n \<noteq> 0xE5" using n by auto
  show "plain (hd n)" using n by (cases base) auto
  show "0 \<notin> set n" using n(1,5) by (auto simp: plain_def)
  have "to_short_name n = pad_upper 8 base @ pad_upper 3 ext" unfolding n(1) by (rule short_name_parts [OF n(5)])
  then show "to_short_name n ! 0 = to_upper (hd n)" using n(1,2) by (cases base) (simp_all add: pad_upper_def)
qed

text \<open>In a directory of such names the two ways to compare agree.\<close>

lemma name_match:
  assumes "name83 n" and "canonical raw" and "length raw = 11"
  shows "str_eq_ci (format_short_name raw) n \<longleftrightarrow> raw = to_short_name n"
proof
  note H = name83_head [OF assms(1)]
  have "0 \<notin> set (map to_upper n)" using H(4) by (auto simp: eq_commute [of 0])
  then show "str_eq_ci (format_short_name raw) n" if "raw = to_short_name n"
    using that format_short_roundtrip [OF assms(1)] H(4) str_eq_ci_upper [of "map to_upper n" n] by (auto simp: comp_def)
  assume m: "str_eq_ci (format_short_name raw) n"
  show "raw = to_short_name n"
  proof (cases "raw ! 0 = 46")
    case True
    then obtain r where "raw = 46 # r" using assms(3) by (cases raw) auto
    then obtain f where "format_short_name raw = 46 # f" by (simp add: format_short_name_def)
    moreover have "to_upper 46 \<noteq> to_upper c" if "c \<noteq> 46" for c using that to_upper_special(3) by metis
    ultimately show ?thesis using m H(1,2) by (cases n) (auto simp: plain_def)
  next
    case False
    then have c: "to_short_name (format_short_name raw) = raw" using assms(2) by (simp add: canonical_def)
    then have "0 \<notin> set (format_short_name raw)" using short_name_no_zero format_no_zero by metis
    then have "map to_upper (format_short_name raw) = map to_upper n" using m H(4) str_eq_ci_upper by blast
    then show ?thesis using c to_short_name_upper by metis
  qed
qed

end
