(* ===== verification/Fat_Find.thy ===== *)
theory Fat_Find
  imports Fat_File Fat_Names
begin

text \<open>
  Finding a file by its name, reading it, and the properties of the file system: a file that is written
  is found and read back, and what a failed write leaves.
\<close>

unbundle bit_operations_syntax

section \<open>Definitions\<close>

text \<open>An entry that \<open>fat32_find\<close> takes for the name.\<close>

definition shown :: "cstring \<Rightarrow> fat32_dirent \<Rightarrow> bool" where
  "shown n e \<longleftrightarrow> \<not> hidden e \<and> str_eq_ci (format_short_name (e_name e)) n"

definition found :: "cstring \<Rightarrow> fat32_dirent list \<Rightarrow> fat32_dirent option" where
  "found n es = find (shown n) (takeWhile (\<lambda>e. \<not> end_mark e) es)"

text \<open>A directory whose visible entries have names that the file system writes.\<close>

definition tidy :: "ata_bus \<Rightarrow> fat32 \<Rightarrow> u32 list \<Rightarrow> bool" where
  "tidy b s dirs \<longleftrightarrow> (\<forall>p \<in> set (slots s dirs). end_mark (at_slot (disk_of b s) p) \<or>
     hidden (at_slot (disk_of b s) p) \<or> canonical (e_name (at_slot (disk_of b s) p)))"

text \<open>What a directory promises its clients: it holds a file of that name with these bytes.\<close>

definition holds_file :: "ata_bus \<Rightarrow> fat32 \<Rightarrow> u32 list \<Rightarrow> cstring \<Rightarrow> u8 list \<Rightarrow> bool" where
  "holds_file b s dirs name bs \<longleftrightarrow> (\<exists>e es. found name (map (at_slot (disk_of b s)) (slots s dirs)) = Some e \<and>
     e_attr e AND FAT_ATTR_DIRECTORY = 0 \<and> e_size e = of_nat (length bs) \<and> length bs < 4294967296 \<and>
     chain (fat_entry b s) (clusters_end s) (start_cluster_of e) es \<and> length bs \<le> cluster_bytes s * length es \<and>
     take (length bs) (file_bytes (disk_of b s) s es) = bs)"

section \<open>The entries of a cluster\<close>

lemma sectors_char:
  assumes "\<forall>i. length (D i) = 512" and "x < 512 * m"
  shows "char_at (sectors D a m) x = char_at (D (a + x div 512)) (x mod 512)"
  using assms(2)
proof (induction m)
  case (Suc m)
  have s: "sectors D a (Suc m) = sectors D a m @ D (a + m)" by (simp add: sectors_def)
  have l: "length (sectors D a m) = 512 * m" by (rule sectors_length [OF assms(1)])
  show ?case
  proof (cases "x < 512 * m")
    case True
    then show ?thesis using Suc.IH unfolding s by (simp add: char_at_def l nth_append)
  next
    case False
    then obtain r where "x = 512 * m + r" "r < 512" using Suc.prems by (metis add_diff_inverse_nat add_less_cancel_left mult_Suc_right add.commute)
    then show ?thesis unfolding s using assms(1) by (simp add: char_at_def l nth_append)
  qed
qed simp

lemma slots_upt: "slots_of [a..<a + m] = map (\<lambda>j. (a + j div 16, j mod 16)) [0..<16 * m]"
proof (induction m)
  case (Suc m)
  have "[0..<16 * Suc m] = [0..<16 * m] @ [16 * m..<16 * m + 16]" using upt_add_eq_append [of 0 "16 * m" 16] by (simp add: add.commute)
  moreover have "map (\<lambda>j. (a + j div 16, j mod 16)) [16 * m..<16 * m + 16] = map (Pair (a + m)) [0..<16]"
    by (intro nth_equalityI) (simp_all del: upt_Suc)
  moreover have "slots_of [a..<a + Suc m] = slots_of [a..<a + m] @ map (Pair (a + m)) [0..<16]" by (simp add: slots_of_def)
  ultimately show ?case using Suc by (simp only: map_append)
qed (simp add: slots_of_def)

lemma cluster_entries:
  assumes "vol_ok b s" and "\<forall>i < cluster_bytes s. char_at buf i = char_at (cluster_data (disk_of b s) s c) i"
  shows "map (\<lambda>j. dirent_at buf (32 * j)) [0..<cluster_bytes s div 32] =
    map (at_slot (disk_of b s)) (slots_of [lba_of s c..<lba_of s c + unat (sectors_per_cluster s)])"
proof -
  let ?D = "disk_of b s" and ?m = "unat (sectors_per_cluster s)"
  have n: "cluster_bytes s div 32 = 16 * ?m" by (simp add: cluster_bytes_def)
  have "dirent_at buf (32 * j) = at_slot ?D (lba_of s c + j div 16, j mod 16)" if j: "j < 16 * ?m" for j
    unfolding at_slot_def fst_conv snd_conv
  proof (rule dirent_at_cong)
    fix k :: nat assume k: "k < 32"
    have x: "32 * j + k < 512 * ?m" using j k by simp
    have "32 * j + k = 512 * (j div 16) + (j mod 16 * 32 + k)" using mult_div_mod_eq [of 16 j] by linarith
    moreover have "j mod 16 * 32 + k < 512" using k by simp
    ultimately have "(32 * j + k) div 512 = j div 16" "(32 * j + k) mod 512 = j mod 16 * 32 + k"
      by (simp, simp only: mod_mult_self4 mod_less)
    then show "char_at buf (32 * j + k) = char_at (?D (lba_of s c + j div 16)) (j mod 16 * 32 + k)"
      using assms(2) x sectors_char [of ?D "32 * j + k" ?m "lba_of s c"] disk_length [OF assms(1)]
      by (simp add: cluster_bytes_def cluster_data_def)
  qed
  then show ?thesis unfolding n slots_upt by simp
qed

section \<open>Finding\<close>

lemma found_Cons: "found n (e # es) = (if end_mark e then None else if shown n e then Some e else found n es)"
  by (simp add: found_def)

lemma found_append: "found n (xs @ ys) = (case found n xs of Some e \<Rightarrow> Some e | None \<Rightarrow> if \<exists>e \<in> set xs. end_mark e then None else found n ys)"
  by (induction xs) (auto simp: found_Cons found_def)

lemma find_visit: "find_visitor n e ctx p =
    Some (case ctx of Some x \<Rightarrow> Some x | None \<Rightarrow> if str_eq_ci (format_short_name (e_name e)) n then Some e else None, p)"
  by (cases ctx) (simp_all add: find_visitor_def)

lemma visit_step:
  "visit_entries visit (Suc k) i ctx s =
     (let e = dirent_at (cluster_buf s) (32 * i) in
      if end_mark e then Some (True, ctx, s)
      else if hidden e then visit_entries visit k (i + 1) ctx s
      else do { (ctx, p) \<leftarrow> visit e ctx (disk s); visit_entries visit k (i + 1) ctx (s\<lparr>disk := p\<rparr>) })"
  by (simp add: Let_def end_mark_def hidden_def)

lemma visit_find:
  "visit_entries (find_visitor n) k i ctx s =
     (let es = map (\<lambda>j. dirent_at (cluster_buf s) (32 * j)) [i..<i + k] in
      Some (\<exists>e \<in> set es. end_mark e, case ctx of Some e \<Rightarrow> Some e | None \<Rightarrow> found n es, s))"
proof (induction k arbitrary: i ctx)
  case (Suc k)
  define v where "v = find_visitor n"
  define e where "e = dirent_at (cluster_buf s) (32 * i)"
  define es where "es = map (\<lambda>j. dirent_at (cluster_buf s) (32 * j)) [Suc i..<Suc i + k]"
  have up: "map (\<lambda>j. dirent_at (cluster_buf s) (32 * j)) [i..<i + Suc k] = e # es"
    unfolding e_def es_def by (simp add: upt_conv_Cons del: upt_Suc)
  have IH: "visit_entries v k (Suc i) c s = Some (\<exists>e \<in> set es. end_mark e, case c of Some e \<Rightarrow> Some e | None \<Rightarrow> found n es, s)" for c
    using Suc.IH [of "Suc i" c] unfolding Let_def v_def es_def .
  have V: "v e c p = Some (case c of Some x \<Rightarrow> Some x | None \<Rightarrow> if str_eq_ci (format_short_name (e_name e)) n then Some e else None, p)" for e c p
    unfolding v_def by (rule find_visit)
  show ?case unfolding up Let_def visit_step v_def [symmetric] e_def [symmetric]
    by (cases "end_mark e"; cases "hidden e"; cases ctx) (simp_all add: V IH found_Cons shown_def)
qed (simp add: found_def split: option.split)


lemma slots_Cons: "slots s (d # ds) = slots_of [lba_of s (unat d)..<lba_of s (unat d) + unat (sectors_per_cluster s)] @ slots s ds"
  by (simp add: slots_def slots_of_def sector_list_def)

lemma list_find:
  assumes "vol_ok b s" and "chain (fat_entry b s) (clusters_end s) c ds"
  shows "\<exists>t. list_clusters (find_visitor n) c ctx s =
      Some (case ctx of Some e \<Rightarrow> Some e | None \<Rightarrow> found n (map (at_slot (disk_of b s)) (slots s ds)), t) \<and> quiet b s t"
  using assms
proof (induction ds arbitrary: c ctx s)
  case Nil
  then show ?case by (subst list_clusters.simps)
    (auto simp: slots_def slots_of_def sector_list_def found_def dest: leD intro: quiet_refl split: option.split)
next
  case (Cons d ds)
  have c: "c = d" "\<not> is_eoc d" "2 \<le> unat d" "unat d < clusters_end s"
    "chain (fat_entry b s) (clusters_end s) (fat_entry b s (unat d)) ds" using Cons.prems(2) by auto
  let ?xs = "map (at_slot (disk_of b s)) (slots_of [lba_of s (unat d)..<lba_of s (unat d) + unat (sectors_per_cluster s)])"
  let ?ys = "map (at_slot (disk_of b s)) (slots s ds)"
  obtain t where t: "read_cluster d s = Some (0, t)" "quiet b s t"
    "\<forall>i < cluster_bytes s. char_at (cluster_buf t) i = char_at (cluster_data (disk_of b s) s (unat d)) i"
    unfolding cluster_data_def by (rule read_cluster_ok [OF Cons.prems(1) c(3,4)])
  note Q = quiet_view [OF t(2)] and N = same_fs_nat [OF quiet_view(2) [OF t(2)]]
  have k: "unat (ucast (sectors_per_cluster t) * 512 div 32 :: u32) = cluster_bytes s div 32" by (simp add: unat_div cluster_size_word N)
  define r where "r = (case ctx of Some e \<Rightarrow> Some e | None \<Rightarrow> found n ?xs)"
  have v: "visit_entries (find_visitor n) (cluster_bytes s div 32) 0 ctx t = Some (\<exists>e \<in> set ?xs. end_mark e, r, t)"
    using visit_find [of n "cluster_bytes s div 32" 0 ctx t] cluster_entries [OF Cons.prems(1) t(3)] by (simp add: Let_def r_def)
  have ct: "unat d < clusters_end t" using c(4) N by simp
  obtain u where u: "next_cluster d t = Some (fat_entry b t (unat d), u)" "quiet b t u" by (rule next_cluster_ok [OF Q(1) ct])
  have q: "quiet b s u" by (rule quiet_trans [OF t(2) u(2)])
  note R = quiet_view [OF q]
  have ch: "chain (fat_entry b u) (clusters_end u) (fat_entry b s (unat d)) ds" using c(5) R(4) same_fs_nat(1) [OF R(2)] by simp
  obtain w where w: "list_clusters (find_visitor n) (fat_entry b s (unat d)) r u = Some (case r of Some e \<Rightarrow> Some e | None \<Rightarrow> found n ?ys, w)" "quiet b u w"
    using Cons.IH [OF R(1) ch] unfolding same_slots [OF R(2)] R(3) by blast
  have app: "map (at_slot (disk_of b s)) (slots s (d # ds)) = ?xs @ ?ys" by (simp add: slots_Cons)
  have run: "list_clusters (find_visitor n) c ctx s = (if \<exists>e \<in> set ?xs. end_mark e then Some (r, t) else list_clusters (find_visitor n) (fat_entry b s (unat d)) r u)"
    using c(1,2,3) t(1) v k u(1) Q(4) by (subst list_clusters.simps) (simp add: word_le_nat_alt)
  show ?case
  proof (cases "\<exists>e \<in> set ?xs. end_mark e")
    case True
    then have "r = (case ctx of Some e \<Rightarrow> Some e | None \<Rightarrow> found n (?xs @ ?ys))"
      unfolding r_def found_append by (auto split: option.split)
    then show ?thesis using True run t(2) unfolding app by auto
  next
    case False
    then have "(case r of Some e \<Rightarrow> Some e | None \<Rightarrow> found n ?ys) = (case ctx of Some e \<Rightarrow> Some e | None \<Rightarrow> found n (?xs @ ?ys))"
      unfolding r_def found_append by (auto split: option.split)
    then show ?thesis using False run w quiet_trans [OF q w(2)] unfolding app by auto
  qed
qed

lemma fat32_find_ok:
  assumes "vol_ok b s" and "dir_ok b s dirs"
  obtains t where "fat32_find n s = Some (found n (map (at_slot (disk_of b s)) (slots s dirs)), t)" "quiet b s t"
proof -
  have m: "mounted s" using assms(1) by (simp add: vol_ok_def layout_ok_def)
  have c: "chain (fat_entry b s) (clusters_end s) (cwd_cluster s) dirs" using assms(2) by (simp add: dir_ok_def)
  from list_find [OF assms(1) c, of n None] show thesis using m that by (auto simp: fat32_find_def fat32_listdir_def)
qed

text \<open>In a tidy directory \<open>fat32_find\<close> and \<open>search_dir\<close> find the same entry.\<close>

lemma shown_matches:
  assumes "name83 n" and "hidden e \<or> canonical (e_name e)" and "length (e_name e) = 11"
  shows "shown n e = matches (to_short_name n) e"
  using name_match [OF assms(1) _ assms(3)] assms(2,3) short_name_length [of n] by (auto simp: shown_def matches_def sname_eq_def)

lemma found_walk:
  assumes "\<forall>p \<in> set ps. end_mark (at_slot D p) \<or> shown n (at_slot D p) = matches target (at_slot D p)"
  shows "found n (map (at_slot D) ps) = map_option (at_slot D) (lookup target D ps)"
  using assms by (induction ps) (auto simp: found_def lookup_def)

lemma found_lookup:
  assumes "tidy b s dirs" and "name83 n"
  shows "found n (map (at_slot (disk_of b s)) (slots s dirs)) =
    map_option (at_slot (disk_of b s)) (lookup (to_short_name n) (disk_of b s) (slots s dirs))"
proof (rule found_walk, intro ballI)
  fix p assume "p \<in> set (slots s dirs)"
  then show "end_mark (at_slot (disk_of b s) p) \<or> shown n (at_slot (disk_of b s) p) = matches (to_short_name n) (at_slot (disk_of b s) p)"
    using assms(1) shown_matches [OF assms(2), of "at_slot (disk_of b s) p"] by (auto simp: tidy_def)
qed

lemma good_short: "name83 n \<Longrightarrow> good_name (to_short_name n)"
  using name83_head [of n] by (simp add: good_name_def short_name_length plain_def)

lemma canonical_short: "name83 n \<Longrightarrow> canonical (to_short_name n)"
  by (simp add: canonical_def format_short_roundtrip to_short_name_upper)


section \<open>The volume after a write\<close>

lemma put_entry_area:
  assumes "gives b s t F (put_entry (disk_of b u) p new)" and "unat (data_start_lba s) \<le> i"
  shows "disk_of b t i = (if i = fst p then overwrite (snd p * 32) new (disk_of b u i) else disk_of b u i)"
  using gives_view(4) [OF assms] by (auto simp: put_entry_def)

lemma at_slot_eq: "D (fst q) = E (fst q) \<Longrightarrow> at_slot D q = at_slot E q"
  by (simp add: at_slot_def)

lemma write_file_view:
  assumes "vol_ok b s" and "dir_ok b s dirs" and "writable b s dirs (to_short_name name) p olds" and "good_name (to_short_name name)"
    and "clusters_for s (unat size') \<le> room b s olds"
  obtains t e es where "fat32_write_file name data size' s = Some (0, t)" "vol_ok b t" "same_fs s t" "dir_ok b t dirs"
    "\<forall>q \<in> set (slots s dirs). at_slot (disk_of b t) q = (if q = p then e else at_slot (disk_of b s) q)"
    "lookup (to_short_name name) (disk_of b t) (slots s dirs) = Some p"
    "chain (fat_entry b t) (clusters_end s) (start_cluster_of e) es" "length es = clusters_for s (unat size')"
    "take (unat size') (file_bytes (disk_of b t) s es) = map (char_at data) [0..<unat size']"
    "e_size e = size'" "e_name e = to_short_name name"
    "unat ` set es \<subseteq> free_clusters (freed (fat_entry b s) olds) (clusters_end s)"
    "\<forall>c < clusters_end s. c \<notin> unat ` set olds \<union> unat ` set es \<longrightarrow> fat_entry b t c = fat_entry b s c"
    "\<forall>c \<ge> 2. c \<notin> unat ` set es \<union> unat ` set dirs \<longrightarrow> cluster_data (disk_of b t) s c = cluster_data (disk_of b s) s c"
    "e_attr e AND FAT_ATTR_DIRECTORY = 0"
proof -
  let ?F = "freed (fat_entry b s) olds" and ?ps = "slots s dirs" and ?n = "to_short_name name"
  obtain t u e es where w: "fat32_write_file name data size' s = Some (0, t)"
    "gives b s t (link ?F es) (put_entry (disk_of b u) p (dirent_bytes e))" "built b u ?F es" "same_fs s u" "spares b s u (unat ` set es)"
    "length es = clusters_for s (unat size')" "take (unat size') (file_bytes (disk_of b u) s es) = map (char_at data) [0..<unat size']"
    "start_cluster_of e = first_of es" "e_size e = size'" "matches ?n e" "e_name e = ?n" "e_attr e AND FAT_ATTR_DIRECTORY = 0"
    by (rule write_file_done [OF assms])
  note G = gives_view [OF w(2)] and A = put_entry_area [OF w(2)]
  have L: "layout_ok s" using assms(1) by (simp add: vol_ok_def)
  have C: "chain (fat_entry b s) (clusters_end s) (cwd_cluster s) dirs" using assms(2) by (simp add: dir_ok_def)
  have pl: "entry_place ?n (disk_of b s) ?ps = Some p" using assms(3) by (simp add: writable_def)
  note pin = place_in [OF pl]
  obtain d where d: "d \<in> set dirs" "in_cluster s (unat d) (fst p)" "snd p < 16" by (rule slots_range [OF C L pin])
  have N: "clusters_end u = clusters_end s" by (rule same_fs_nat(1) [OF w(4)])
  have es: "unat ` set es \<subseteq> free_clusters ?F (clusters_end s)" "\<forall>c \<in> unat ` set es. 2 \<le> c"
    using w(3) N by (auto simp: built_def free_clusters_def)
  have ap: "\<forall>d \<in> set dirs. unat d \<notin> unat ` set es"
    using dirs_kept(2) [OF assms(2) writable_apart [OF assms(3)]] es(1) by blast
  have old: "disk_of b u (fst q) = disk_of b s (fst q)" if "q \<in> set ?ps" for q
    by (rule slots_spared [OF assms(1,2) w(5) es(2) ap that])
  have pl': "entry_place ?n (disk_of b u) ?ps = Some p" using place_cong(1) [of ?ps "disk_of b u" "disk_of b s"] old pl by (simp add: at_slot_def)
  have l: "length (disk_of b u (fst p)) = 512" by (rule disk_length [OF built_chain(1) [OF w(3)]])
  have nl: "length (e_name e) = 11" "\<not> end_mark e" using w(11) assms(4) by (simp_all add: good_name_def end_mark_def)
  have st: "at_slot (disk_of b t) q = at_slot (put_entry (disk_of b u) p (dirent_bytes e)) q" if q: "q \<in> set ?ps" for q
  proof -
    have "unat (data_start_lba s) \<le> fst q" by (rule slots_range [OF C L q])
    from G(4) [OF this] show ?thesis by (rule at_slot_eq)
  qed
  have sl: "\<forall>q \<in> set ?ps. at_slot (disk_of b t) q = (if q = p then e else at_slot (disk_of b s) q)"
    using st at_slot_put [of "disk_of b u" p e, OF l d(3) nl(1)] old by (simp add: at_slot_def)
  have lk: "lookup ?n (disk_of b t) ?ps = Some p"
    using lookup_put [of _ _ _ p e, OF pl' l d(3) nl w(10)] place_cong(2) [of ?ps "disk_of b t" "put_entry (disk_of b u) p (dirent_bytes e)"] st by simp
  have fe: "fat_entry b t c = ?F c" if "c < clusters_end s" "c \<notin> unat ` set es" for c
    using G(3) [OF that(1)] link_other [OF that(2)] by simp
  have dk: "dir_ok b t dirs"
    by (rule dir_ok_gives [OF assms(2) G(2)]) (use fe dirs_kept [OF assms(2) writable_apart [OF assms(3)]] ap in simp)
  have cd: "cluster_data (disk_of b t) s c = cluster_data (disk_of b u) s c" if c: "2 \<le> c" "c \<notin> unat ` set dirs" for c
  proof (rule cluster_data_cong)
    fix i assume i: "in_cluster s c i"
    have "i \<noteq> fst p" using in_cluster_unique [OF c(1) dirs_kept(3) [OF assms(2) writable_apart [OF assms(3)] d(1)] i] d c(2) by auto
    then show "disk_of b t i = disk_of b u i" using A [of i] i by (simp add: in_cluster_def lba_of_def)
  qed
  have ap': "unat c \<notin> unat ` set dirs" if "c \<in> set es" for c using ap that by (force simp: image_iff)
  have fb: "file_bytes (disk_of b t) s es = file_bytes (disk_of b u) s es"
    unfolding file_bytes_def using es(2) ap' by (intro arg_cong [where f = concat] map_cong refl cd) simp_all
  have ch: "chain (fat_entry b t) (clusters_end s) (start_cluster_of e) es"
  proof -
    have "\<forall>c \<in> set es. fat_entry b t (unat c) = fat_entry b u (unat c)"
      using w(3) G(3) N es(1) by (auto simp: built_def free_clusters_def)
    then show ?thesis using built_chain(2) [OF w(3)] chain_cong [of es "fat_entry b t" "fat_entry b u"] unfolding w(8) N by simp
  qed
  show thesis
  proof (rule that [OF w(1) G(1,2) dk sl lk ch w(6) _ w(9,11) es(1) _ _ w(12)])
    show "take (unat size') (file_bytes (disk_of b t) s es) = map (char_at data) [0..<unat size']" using w(7) fb by simp
    show "\<forall>c < clusters_end s. c \<notin> unat ` set olds \<union> unat ` set es \<longrightarrow> fat_entry b t c = fat_entry b s c"
      using fe by (simp add: freed_def)
    show "\<forall>c \<ge> 2. c \<notin> unat ` set es \<union> unat ` set dirs \<longrightarrow> cluster_data (disk_of b t) s c = cluster_data (disk_of b s) s c"
      using cd spares_cluster [OF w(5) _ _ es(2)] by simp
  qed
qed


text \<open>Without room the loop gives every new cluster back, and the entry is not written.\<close>

lemma write_file_full:
  assumes "vol_ok b s" and "dir_ok b s dirs" and "writable b s dirs (to_short_name name) p olds" and "good_name (to_short_name name)"
    and "room b s olds < clusters_for s (unat size')"
  obtains t where "fat32_write_file name data size' s = Some (-1, t)" "vol_ok b t" "same_fs s t" "dir_ok b t dirs"
    "\<forall>c < clusters_end s. fat_entry b t c = freed (fat_entry b s) olds c"
    "\<forall>q \<in> set (slots s dirs). at_slot (disk_of b t) q = at_slot (disk_of b s) q"
proof -
  let ?n = "to_short_name name" and ?F = "freed (fat_entry b s) olds"
  note K = dirs_kept [OF assms(2) writable_apart [OF assms(3)]]
  obtain t e where t: "write_target ?n s = Some (Some \<lparr>l_entry = e, l_lba = of_nat (fst p), l_offset = of_nat (snd p * 32)\<rparr>, t)"
    "gives b s t ?F (disk_of b s)" by (rule write_target_ok [OF assms(1-4)])
  note G = gives_view [OF t(2)] and N = same_fs_nat(1) [OF gives_view(2) [OF t(2)]] cluster_data_same [OF gives_view(2) [OF t(2)]]
  have B: "built b t ?F []" using G N by (simp add: built_def)
  have "0 \<le> size'" by simp
  have few: "\<not> length es = clusters_for t (unat size')" if "built b u ?F es" "same_fs t u" for u es
  proof -
    have "unat ` set es \<subseteq> free_clusters ?F (clusters_end s)" "distinct es"
      using that(1) same_fs_nat(1) [OF that(2)] N(1) by (auto simp: built_def)
    moreover have "card (unat ` set es) = length es" if "distinct es"
      using card_image [of unat "set es"] distinct_card [OF that] by (simp add: inj_on_def word_unat_eq_iff [symmetric])
    moreover have "finite (free_clusters ?F (clusters_end s))" by (simp add: free_clusters_def)
    ultimately have "length es \<le> room b s olds" unfolding room_def by (metis card_mono)
    then show ?thesis using assms(5) N by simp
  qed
  from write_clusters_ok [OF B \<open>0 \<le> size'\<close>, of data] few obtain u where
    u: "write_clusters data size' 0 0 0 t = Some (None, u)" "built b u ?F []" "same_fs t u" "spares b t u (free_clusters ?F (clusters_end t))"
    by (auto simp: first_of_def final_of_def)
  have su: "same_fs s u" by (rule same_fs_trans [OF G(2) u(3)])
  have sp: "spares b s u (free_clusters ?F (clusters_end s))"
    using u(4) G(4) N same_fs_fields(5) [OF G(2)] by (simp add: spares_def)
  have fe: "\<forall>c < clusters_end s. fat_entry b u c = ?F c" using u(2) same_fs_nat(1) [OF su] by (simp add: built_def)
  have ap: "\<forall>d \<in> set dirs. unat d \<notin> free_clusters ?F (clusters_end s)" using K(2) by blast
  have "at_slot (disk_of b u) q = at_slot (disk_of b s) q" if "q \<in> set (slots s dirs)" for q
    by (rule at_slot_eq, rule slots_spared [OF assms(1,2) sp _ ap that]) (simp add: free_clusters_def)
  moreover have "dir_ok b u dirs" by (rule dir_ok_gives [OF assms(2) su]) (use fe K in simp)
  moreover have "fat32_write_file name data size' s = Some (-1, u)"
    using t(1) u(1) assms(1) by (simp add: fat32_write_file_def vol_ok_def layout_ok_def)
  ultimately show thesis using su fe built_chain(1) [OF u(2)] by (intro that [of u]) auto
qed

section \<open>Files that a directory holds\<close>

lemma write_holds:
  assumes "vol_ok b s" and "dir_ok b s dirs" and "tidy b s dirs" and "name83 name" and "writable b s dirs (to_short_name name) p olds"
    and "clusters_for s (unat size') \<le> room b s olds" and "length data = unat size'"
  obtains t where "fat32_write_file name data size' s = Some (0, t)" "vol_ok b t" "same_fs s t" "dir_ok b t dirs" "tidy b t dirs"
    "holds_file b t dirs name data"
proof -
  obtain t e es where t: "fat32_write_file name data size' s = Some (0, t)" "vol_ok b t" "same_fs s t" "dir_ok b t dirs"
    "\<forall>q \<in> set (slots s dirs). at_slot (disk_of b t) q = (if q = p then e else at_slot (disk_of b s) q)"
    "lookup (to_short_name name) (disk_of b t) (slots s dirs) = Some p"
    "chain (fat_entry b t) (clusters_end s) (start_cluster_of e) es" "length es = clusters_for s (unat size')"
    "take (unat size') (file_bytes (disk_of b t) s es) = map (char_at data) [0..<unat size']"
    "e_size e = size'" "e_name e = to_short_name name" "e_attr e AND FAT_ATTR_DIRECTORY = 0"
    by (rule write_file_view [OF assms(1,2,5) good_short [OF assms(4)] assms(6)]) (rule that)
  have pin: "p \<in> set (slots s dirs)" using assms(5) place_in unfolding writable_def by metis
  have td: "tidy b t dirs" using assms(3) t(5,11) canonical_short [OF assms(4)] unfolding tidy_def same_slots [OF t(3)] by simp
  have f: "found name (map (at_slot (disk_of b t)) (slots t dirs)) = Some e"
    using found_lookup [OF td assms(4)] t(5,6) pin unfolding same_slots [OF t(3)] by simp
  have k: "length data \<le> cluster_bytes s * length es"
    using t(8) clusters_for_enough [of s "unat size'"] cluster_bytes_pos [OF assms(1)] assms(7) by simp
  have d: "map (char_at data) [0..<unat size'] = data" using assms(7) by (intro nth_equalityI) (simp_all add: char_at_def)
  have "holds_file b t dirs name data" unfolding holds_file_def
    using f t(7,9,10,12) k d assms(7) same_fs_nat [OF t(3)] cluster_data_same [OF t(3)] unat_lt32 [of size']
    by (intro exI [of _ e] exI [of _ es]) (simp add: file_bytes_def)
  then show thesis by (rule that [OF t(1-4) td])
qed

lemma holds_read:
  assumes "vol_ok b s" and "dir_ok b s dirs" and "holds_file b s dirs name bs" and "length bs \<le> unat lim"
  obtains e u where "fat32_find name s = Some (Some e, u)" "quiet b s u" "e_attr e AND FAT_ATTR_DIRECTORY = 0"
    "\<And>q. quiet b s q \<Longrightarrow> \<exists>v. fat32_read_file e lim q = Some (sint (of_nat (length bs) :: u32), bs, v) \<and> quiet b q v"
proof -
  obtain e es where e: "found name (map (at_slot (disk_of b s)) (slots s dirs)) = Some e" "e_attr e AND FAT_ATTR_DIRECTORY = 0"
    "e_size e = of_nat (length bs)" "length bs < 4294967296" "chain (fat_entry b s) (clusters_end s) (start_cluster_of e) es"
    "length bs \<le> cluster_bytes s * length es" "take (length bs) (file_bytes (disk_of b s) s es) = bs"
    using assms(3) unfolding holds_file_def by blast
  obtain u where u: "fat32_find name s = Some (Some e, u)" "quiet b s u" using fat32_find_ok [OF assms(1,2), of name] e(1) by metis
  have z: "unat (e_size e) = length bs" unfolding e(3) using e(4) by (rule unat_of_nat32)
  have "\<exists>v. fat32_read_file e lim q = Some (sint (of_nat (length bs) :: u32), bs, v) \<and> quiet b q v" if q: "quiet b s q" for q
  proof -
    note Q = quiet_view [OF q] and N = same_fs_nat [OF quiet_view(2) [OF q]]
    have ch: "chain (fat_entry b q) (clusters_end q) (start_cluster_of e) es" using e(5) Q(4) N(1) by simp
    have fb: "file_bytes (disk_of b q) q es = file_bytes (disk_of b s) s es" using cluster_data_same [OF Q(2)] Q(3) by (simp add: file_bytes_def)
    have k: "unat (e_size e) - unat (0 :: u32) \<le> cluster_bytes q * length es" using e(6) z N(3) by simp
    obtain v where v: "read_loop (start_cluster_of e) (e_size e) 0 [] q = Some (sint (e_size e), bs, v)" "quiet b q v"
      using read_loop_ok [OF Q(1) ch _ k, of "[]"] unfolding fb using e(7) z by auto
    have "\<not> lim < e_size e" "mounted q" using assms(4) z Q(1) by (simp_all add: word_less_nat_alt vol_ok_def layout_ok_def)
    then show ?thesis using v e(3) by (auto simp: fat32_read_file_def)
  qed
  then show thesis by (rule that [OF u e(2)])
qed

end
