(* ===== verification/Fat_Claims.thy ===== *)
theory Fat_Claims
  imports Fat_Find
begin

text \<open>
  The properties of the file system, and a small volume on which they are applied: two copies of a
  one-sector table, 20 clusters of one sector, and in the root directory one file \<open>A\<close> of one cluster.
\<close>

unbundle bit_operations_syntax

section \<open>A volume\<close>

definition demo_table :: "u8 list" where
  "demo_table = overwrite 12 (bytes32 0x0FFFFFFF) (overwrite 8 (bytes32 0x0FFFFFFF) (replicate 512 0))"

definition demo_file :: fat32_dirent where
  "demo_file = zero_dirent\<lparr>e_name := to_short_name [65], e_attr := 0x20, cluster_lo := 3, e_size := 10\<rparr>"

definition demo_dir :: "u8 list" where
  "demo_dir = overwrite (0 * 32) (dirent_bytes demo_file) (replicate 512 0)"

definition demo_disks :: ata_bus where
  "demo_disks = \<lparr>regs = (\<lambda>_. 0), xfer = Idle,
     media = (\<lambda>d n. if n = 1 \<or> n = 2 then demo_table else if n = 3 then demo_dir else replicate 512 0)\<rparr>"

definition demo_fs :: fat32 where
  "demo_fs = \<lparr>fs_drive = 0, sectors_per_cluster = 1, num_fats = 2, bytes_per_sector = 512, fat_start_lba = 1, data_start_lba = 3,
     fat_size = 1, total_clusters = 20, root_cluster = 2, cwd_cluster = 2, alloc_hint = 2, mounted = True,
     cluster_buf = replicate 65536 0, fat_sector_buf = replicate 512 0, fat_sector_cached_lba = 0xFFFFFFFF,
     disk = \<lparr>io_log = [], io_in = drive_answers demo_disks\<rparr>\<rparr>"

section \<open>The volume is well-formed\<close>

lemma demo_lengths: "length demo_table = 512" "length demo_dir = 512" "length (e_name demo_file) = 11"
  by (simp_all add: demo_table_def demo_dir_def demo_file_def short_name_length)

lemma demo_disk: "disk_of demo_disks demo_fs i = (if i = 1 \<or> i = 2 then demo_table else if i = 3 then demo_dir else replicate 512 0)"
  by (simp add: disk_of_def demo_fs_def now_def demo_disks_def)

lemma demo_serves: "drive_serves demo_disks (disk demo_fs)"
  by (rule answers_serve) (simp_all add: demo_fs_def now_def demo_disks_def demo_lengths)

lemma demo_numbers: "clusters_end demo_fs = 22" "cluster_bytes demo_fs = 512"
  by (simp_all add: clusters_end_def cluster_bytes_def demo_fs_def)

lemma demo_fields: "sectors_per_cluster demo_fs = 1" "data_start_lba demo_fs = 3"
  by (simp_all add: demo_fs_def)

lemma demo_vol: "vol_ok demo_disks demo_fs"
proof -
  have "layout_ok demo_fs" unfolding layout_ok_def demo_numbers by (simp add: demo_fs_def)
  moreover have "cache_ok demo_disks demo_fs" by (simp add: cache_ok_def demo_fs_def)
  moreover have "copies_agree demo_disks demo_fs" unfolding copies_agree_def demo_disk by (simp add: demo_fs_def less_2_cases_iff)
  ultimately show ?thesis using demo_serves by (simp add: vol_ok_def)
qed

lemma demo_fat: "c < 22 \<Longrightarrow> fat_entry demo_disks demo_fs c = (if c = 2 \<or> c = 3 then 0x0FFFFFFF else 0)"
proof -
  assume c: "c < 22"
  have n: "c \<noteq> 2 \<longrightarrow> c \<le> Suc 0 \<or> 3 \<le> c" "c \<noteq> 3 \<longrightarrow> c \<le> 2 \<or> 4 \<le> c" by auto
  have z: "get32 (replicate 512 0) (4 * c) = 0" using c by (simp add: get32_def char_at_def)
  have o2: "get32 (overwrite 8 (bytes32 0x0FFFFFFF) (replicate 512 0)) (4 * c) = (if c = 2 then 0x0FFFFFFF else 0)"
    using c n z get32_new [of 8 "replicate 512 0" "0x0FFFFFFF"] get32_old [of 8 "bytes32 0x0FFFFFFF" "replicate 512 0" "4 * c"]
    by (cases "c = 2") auto
  have "get32 demo_table (4 * c) = (if c = 2 \<or> c = 3 then 0x0FFFFFFF else 0)"
    using c n o2 get32_new [of 12 "overwrite 8 (bytes32 0x0FFFFFFF) (replicate 512 0)" "0x0FFFFFFF"]
      get32_old [of 12 "bytes32 0x0FFFFFFF" "overwrite 8 (bytes32 0x0FFFFFFF) (replicate 512 0)" "4 * c"]
    unfolding demo_table_def by (cases "c = 3") auto
  moreover have "fat_entry demo_disks demo_fs c = get32 demo_table (4 * c) AND 0x0FFFFFFF"
    using c unfolding fat_entry_def demo_disk by (simp add: demo_fs_def)
  ultimately show ?thesis by simp
qed

lemma demo_dir_ok: "dir_ok demo_disks demo_fs [2]"
  unfolding dir_ok_def demo_numbers by (simp add: demo_fat is_eoc_def) (simp add: demo_fs_def)

lemma demo_slots: "slots demo_fs [2] = map (Pair 3) [0..<16]"
  by (simp add: slots_def slots_of_def sector_list_def lba_of_def demo_fs_def)

lemma demo_entries: "j < 16 \<Longrightarrow> at_slot (disk_of demo_disks demo_fs) (3, j) = (if j = 0 then demo_file else zero_dirent)"
proof -
  assume j: "j < 16"
  have "dirent_at (replicate 512 0) (j * 32) = zero_dirent" using j
    by (simp add: dirent_at_def zero_dirent_def get16_def get32_def char_at_def) (simp add: list_eq_iff_nth_eq)
  then show ?thesis using dirent_roundtrip [OF demo_lengths(3), of "0 * 32" "replicate 512 0"]
      dirent_other [of 0 "replicate 512 0" "dirent_bytes demo_file" j] demo_lengths(3)
    by (cases "j = 0") (auto simp: at_slot_def demo_disk demo_dir_def)
qed

lemma demo_name: "to_short_name [65] = 65 # replicate 10 32" "to_short_name [66] = 66 # replicate 10 32"
  by (simp_all add: to_short_name_def pad_upper_def to_upper_def flip: replicate_add)

lemma demo_marks: "end_mark zero_dirent" "\<not> end_mark demo_file" "\<not> hidden demo_file" "unused zero_dirent" "\<not> unused demo_file"
  by (simp_all add: end_mark_def hidden_def unused_def demo_file_def zero_dirent_def demo_name FAT_ATTR_LFN_def FAT_ATTR_VOLUME_ID_def)


lemma demo_names83: "name83 [65]" "name83 [66]" by (simp_all add: name83_def plain_def)

lemma demo_tidy: "tidy demo_disks demo_fs [2]"
proof -
  have "canonical (e_name demo_file)" using canonical_short [OF demo_names83(1)] by (simp add: demo_file_def)
  then show ?thesis unfolding tidy_def demo_slots by (auto simp: demo_entries demo_marks)
qed

lemma demo_upt: "[0..<16] = 0 # [1..<16 :: nat]" "[1..<16] = 1 # [2..<16 :: nat]"
  by (simp_all add: upt_conv_Cons)

lemma demo_lookup:
  "lookup (to_short_name [65]) (disk_of demo_disks demo_fs) (slots demo_fs [2]) = Some (3, 0)"
  "lookup (to_short_name [66]) (disk_of demo_disks demo_fs) (slots demo_fs [2]) = None"
  "free_slot (disk_of demo_disks demo_fs) (slots demo_fs [2]) = Some (3, 1)"
proof -
  have m: "matches (to_short_name [65]) demo_file" "\<not> matches (to_short_name [66]) demo_file"
    by (simp_all add: matches_def demo_marks sname_eq_def) (simp_all add: demo_file_def demo_name)
  show "lookup (to_short_name [65]) (disk_of demo_disks demo_fs) (slots demo_fs [2]) = Some (3, 0)"
    "lookup (to_short_name [66]) (disk_of demo_disks demo_fs) (slots demo_fs [2]) = None"
    "free_slot (disk_of demo_disks demo_fs) (slots demo_fs [2]) = Some (3, 1)"
    unfolding lookup_walk free_slot_def demo_slots demo_upt by (simp_all add: demo_entries demo_marks m)
qed

lemma demo_chain_A: "chain (fat_entry demo_disks demo_fs) 22 (start_cluster_of demo_file) [3]"
proof -
  have "start_cluster_of demo_file = 3" by (simp add: start_cluster_of_def demo_file_def zero_dirent_def)
  then show ?thesis by (simp add: demo_fat is_eoc_def)
qed

lemma demo_writable:
  "writable demo_disks demo_fs [2] (to_short_name [65]) (3, 0) [3]" "writable demo_disks demo_fs [2] (to_short_name [66]) (3, 1) []"
proof -
  have a: "e_attr demo_file AND FAT_ATTR_DIRECTORY = 0" by (simp add: demo_file_def FAT_ATTR_DIRECTORY_def)
  show "writable demo_disks demo_fs [2] (to_short_name [65]) (3, 0) [3]" "writable demo_disks demo_fs [2] (to_short_name [66]) (3, 1) []"
    using a demo_chain_A by (simp_all add: writable_def entry_place_def demo_lookup demo_entries demo_numbers)
qed

lemma demo_room: "room demo_disks demo_fs [] = 18" "room demo_disks demo_fs [3] = 19"
proof -
  have "free_clusters (freed (fat_entry demo_disks demo_fs) []) 22 = {4..<22}"
    by (auto simp: free_clusters_def freed_def demo_fat split: if_splits)
  moreover have "free_clusters (freed (fat_entry demo_disks demo_fs) [3]) 22 = {3..<22}"
    by (auto simp: free_clusters_def freed_def demo_fat split: if_splits)
  ultimately show "room demo_disks demo_fs [] = 18" "room demo_disks demo_fs [3] = 19" by (simp_all add: room_def demo_numbers)
qed


section \<open>Properties\<close>

text \<open>
  C7: A file that is written is found and read back.  On a well-formed volume, in a working directory that is a chain of
  clusters in use, with an 8.3 name that is new (and the directory has a free entry) or names a file,
  and with room for the contents, \<open>fat32_write_file\<close> returns 0; then \<open>fat32_find\<close> finds an
  entry for the name, and \<open>fat32_read_file\<close> on it stores exactly the bytes that were written and returns their number.
\<close>

theorem write_find_read:
  assumes "vol_ok b s" and "dir_ok b s dirs" and "tidy b s dirs" and "name83 name" and "writable b s dirs (to_short_name name) p olds"
    and "clusters_for s (unat size') \<le> room b s olds" and "length data = unat size'" and "size' \<le> lim"
  shows "\<exists>t e u v. fat32_write_file name data size' s = Some (0, t) \<and> fat32_find name t = Some (Some e, u) \<and>
    fat32_read_file e lim u = Some (sint size', data, v) \<and> vol_ok b v"
proof -
  obtain t where t: "fat32_write_file name data size' s = Some (0, t)" "vol_ok b t" "same_fs s t" "dir_ok b t dirs" "tidy b t dirs"
    "holds_file b t dirs name data" by (rule write_holds [OF assms(1-7)])
  have l: "length data \<le> unat lim" using assms(7,8) by (simp add: word_le_nat_alt)
  obtain e u where u: "fat32_find name t = Some (Some e, u)" "quiet b t u"
    "\<And>q. quiet b t q \<Longrightarrow> \<exists>v. fat32_read_file e lim q = Some (sint (of_nat (length data) :: u32), data, v) \<and> quiet b q v"
    by (rule holds_read [OF t(2,4,6) l]) (rule that)
  obtain v where "fat32_read_file e lim u = Some (sint size', data, v)" "quiet b u v" using u(3) [OF u(2)] assms(7) by auto
  then show ?thesis using t(1) u(1) quiet_view(1) by blast
qed

theorem write_find_read_witness:
  "\<exists>t e u v. fat32_write_file [66] (replicate 600 7) 600 demo_fs = Some (0, t) \<and> fat32_find [66] t = Some (Some e, u) \<and>
    fat32_read_file e 4096 u = Some (600, replicate 600 7, v)"
proof -
  have "clusters_for demo_fs (unat (600 :: u32)) \<le> room demo_disks demo_fs []" by (simp add: clusters_for_def demo_numbers demo_room)
  from write_find_read [OF demo_vol demo_dir_ok demo_tidy demo_names83(2) demo_writable(2) this, of "replicate 600 7" 4096]
  show ?thesis by auto
qed

text \<open>
  C16: Writing a file does not touch another one: a chain of clusters in use that meets neither the clusters of the
  file that is replaced nor those of the directory is afterwards the same chain with the same bytes, and every
  other entry of the directory is as it was.
\<close>

theorem write_keeps_files:
  assumes "vol_ok b s" and "dir_ok b s dirs" and "name83 name" and "writable b s dirs (to_short_name name) p olds"
    and "clusters_for s (unat size') \<le> room b s olds"
    and "chain (fat_entry b s) (clusters_end s) c fs" and "\<forall>d \<in> set fs. fat_entry b s (unat d) \<noteq> 0" and "set fs \<inter> (set olds \<union> set dirs) = {}"
  shows "\<exists>t. fat32_write_file name data size' s = Some (0, t) \<and> chain (fat_entry b t) (clusters_end t) c fs \<and>
    file_bytes (disk_of b t) t fs = file_bytes (disk_of b s) s fs \<and>
    (\<forall>q \<in> set (slots s dirs). q \<noteq> p \<longrightarrow> at_slot (disk_of b t) q = at_slot (disk_of b s) q)"
proof -
  obtain t e es where t: "fat32_write_file name data size' s = Some (0, t)" "vol_ok b t" "same_fs s t" "dir_ok b t dirs"
    "\<forall>q \<in> set (slots s dirs). at_slot (disk_of b t) q = (if q = p then e else at_slot (disk_of b s) q)"
    "lookup (to_short_name name) (disk_of b t) (slots s dirs) = Some p"
    "chain (fat_entry b t) (clusters_end s) (start_cluster_of e) es" "length es = clusters_for s (unat size')"
    "take (unat size') (file_bytes (disk_of b t) s es) = map (char_at data) [0..<unat size']"
    "e_size e = size'" "e_name e = to_short_name name"
    "unat ` set es \<subseteq> free_clusters (freed (fat_entry b s) olds) (clusters_end s)"
    "\<forall>c < clusters_end s. c \<notin> unat ` set olds \<union> unat ` set es \<longrightarrow> fat_entry b t c = fat_entry b s c"
    "\<forall>c \<ge> 2. c \<notin> unat ` set es \<union> unat ` set dirs \<longrightarrow> cluster_data (disk_of b t) s c = cluster_data (disk_of b s) s c"
    by (rule write_file_view [OF assms(1,2,4) good_short [OF assms(3)] assms(5)])
  have f: "unat d \<notin> unat ` set olds" "unat d \<notin> unat ` set dirs" "unat d \<notin> unat ` set es" "2 \<le> unat d" "unat d < clusters_end s" if "d \<in> set fs" for d
  proof -
    show o': "unat d \<notin> unat ` set olds" and "unat d \<notin> unat ` set dirs"
      using that assms(8) by (auto simp: word_unat_eq_iff [symmetric])
    show "2 \<le> unat d" "unat d < clusters_end s" using chain_range [OF assms(6) that] by auto
    have "freed (fat_entry b s) olds (unat d) \<noteq> 0" using o' assms(7) that by (simp add: freed_def)
    then show "unat d \<notin> unat ` set es" using t(12) by (auto simp: free_clusters_def)
  qed
  have "chain (fat_entry b t) (clusters_end s) c fs"
    using assms(6) t(13) f chain_cong [of fs "fat_entry b t" "fat_entry b s"] by simp
  moreover have "file_bytes (disk_of b t) t fs = file_bytes (disk_of b s) s fs"
    unfolding file_bytes_def using t(14) f cluster_data_same [OF t(3)] by (intro arg_cong [where f = concat] map_cong refl) simp
  ultimately show ?thesis using t(1,5) same_fs_nat(1) [OF t(3)] by (intro exI [of _ t]) simp
qed

theorem write_keeps_files_witness:
  "\<exists>t. fat32_write_file [66] (replicate 600 7) 600 demo_fs = Some (0, t) \<and> chain (fat_entry demo_disks t) (clusters_end t) 3 [3] \<and>
    file_bytes (disk_of demo_disks t) t [3] = replicate 512 0"
proof -
  have r: "clusters_for demo_fs (unat (600 :: u32)) \<le> room demo_disks demo_fs []" by (simp add: clusters_for_def demo_numbers demo_room)
  have c: "chain (fat_entry demo_disks demo_fs) (clusters_end demo_fs) 3 [3]" by (simp add: demo_numbers demo_fat is_eoc_def)
  have "file_bytes (disk_of demo_disks demo_fs) demo_fs [3] = replicate 512 0"
    by (simp add: file_bytes_def cluster_data_def lba_of_def sectors_def demo_fields demo_disk)
  then show ?thesis using write_keeps_files [OF demo_vol demo_dir_ok demo_names83(2) demo_writable(2) r c, of "replicate 600 7"]
    by (auto simp: demo_fat)
qed


text \<open>
  C37: A write that fails for lack of room loses the file it was to replace.  When the new contents of an existing file need
  more clusters than are free together with its own, \<open>fat32_write_file\<close> returns -1, every new cluster has
  been given back, but the clusters of the old contents are free as well while \<open>fat32_find\<close> still finds
  the old entry, which names them.
\<close>

theorem failed_write_dangles:
  assumes "vol_ok b s" and "dir_ok b s dirs" and "tidy b s dirs" and "name83 name" and "writable b s dirs (to_short_name name) p olds"
    and "lookup (to_short_name name) (disk_of b s) (slots s dirs) = Some p" and "room b s olds < clusters_for s (unat size')"
  shows "\<exists>t u. fat32_write_file name data size' s = Some (-1, t) \<and>
    (\<forall>c < clusters_end s. fat_entry b t c = (if c \<in> unat ` set olds then 0 else fat_entry b s c)) \<and>
    fat32_find name t = Some (Some (at_slot (disk_of b s) p), u)"
proof -
  obtain t where t: "fat32_write_file name data size' s = Some (-1, t)" "vol_ok b t" "same_fs s t" "dir_ok b t dirs"
    "\<forall>c < clusters_end s. fat_entry b t c = freed (fat_entry b s) olds c"
    "\<forall>q \<in> set (slots s dirs). at_slot (disk_of b t) q = at_slot (disk_of b s) q"
    by (rule write_file_full [OF assms(1,2,5) good_short [OF assms(4)] assms(7), of data])
  have "map (at_slot (disk_of b t)) (slots t dirs) = map (at_slot (disk_of b s)) (slots s dirs)"
    using t(6) same_slots [OF t(3)] by simp
  then have "found name (map (at_slot (disk_of b t)) (slots t dirs)) = Some (at_slot (disk_of b s) p)"
    using found_lookup [OF assms(3,4)] assms(6) by simp
  then obtain u where "fat32_find name t = Some (Some (at_slot (disk_of b s) p), u)" using fat32_find_ok [OF t(2,4), of name] by metis
  then show ?thesis using t(1,5) by (auto simp: freed_def)
qed

theorem failed_write_dangles_witness:
  "\<exists>t u. fat32_write_file [65] [] 10240 demo_fs = Some (-1, t) \<and> fat_entry demo_disks demo_fs 3 = 0x0FFFFFFF \<and>
    fat_entry demo_disks t 3 = 0 \<and> fat32_find [65] t = Some (Some demo_file, u) \<and> start_cluster_of demo_file = 3"
proof -
  have "room demo_disks demo_fs [3] < clusters_for demo_fs (unat (10240 :: u32))" by (simp add: clusters_for_def demo_numbers demo_room)
  moreover have "start_cluster_of demo_file = 3" using demo_chain_A by simp
  ultimately show ?thesis
    using failed_write_dangles [OF demo_vol demo_dir_ok demo_tidy demo_names83(1) demo_writable(1) demo_lookup(1), of "10240" "[]"]
    by (auto simp: demo_entries demo_fat demo_numbers)
qed

text \<open>
  C20: \<open>free_chain\<close> returns on every cluster chain that ends, and then exactly the clusters of the chain are
  free: every other entry of the table and every sector of the data area is unchanged, in all copies of the table.
\<close>

theorem free_chain_terminates:
  assumes "vol_ok b s" and "chain (fat_entry b s) (clusters_end s) c ds"
  shows "\<exists>t. free_chain c s = Some t \<and> vol_ok b t \<and>
    (\<forall>d < clusters_end s. fat_entry b t d = (if d \<in> unat ` set ds then 0 else fat_entry b s d)) \<and>
    (\<forall>i \<ge> unat (data_start_lba s). disk_of b t i = disk_of b s i)"
proof -
  obtain t where "free_chain c s = Some t" "gives b s t (freed (fat_entry b s) ds) (disk_of b s)" by (rule free_chain_ok [OF assms])
  then show ?thesis by (auto simp: gives_def freed_def)
qed

theorem free_chain_terminates_witness:
  "\<exists>t. free_chain 3 demo_fs = Some t \<and> fat_entry demo_disks t 2 = 0x0FFFFFFF \<and> fat_entry demo_disks t 3 = 0"
proof -
  have c: "chain (fat_entry demo_disks demo_fs) (clusters_end demo_fs) 3 [3]" by (simp add: demo_numbers demo_fat is_eoc_def)
  show ?thesis using free_chain_terminates [OF demo_vol c] by (auto simp: demo_numbers demo_fat)
qed

text \<open>
  C29: \<open>alloc_cluster\<close> returns 0 exactly when no cluster is free; otherwise it returns the first free cluster in the cyclic
  order that starts at the hint.  The cluster is within the volume, it is marked as the end of a chain, no other
  entry changes, and the hint is the cluster after it.
\<close>

theorem alloc_cluster_first_free:
  assumes "vol_ok b s"
  shows "\<exists>t c. alloc_cluster s = Some (c, t) \<and> vol_ok b t \<and> (c = 0 \<longleftrightarrow> (\<forall>d. 2 \<le> d \<and> d < clusters_end s \<longrightarrow> fat_entry b s d \<noteq> 0)) \<and>
    (c \<noteq> 0 \<longrightarrow> 2 \<le> unat c \<and> unat c < clusters_end s \<and> fat_entry b s (unat c) = 0 \<and>
      (\<forall>d. 2 \<le> d \<and> d < clusters_end s \<and> fat_entry b s d = 0 \<longrightarrow> turn_of s (unat c) \<le> turn_of s d) \<and>
      (\<forall>d < clusters_end s. fat_entry b t d = (if d = unat c then 0x0FFFFFFF else fat_entry b s d)) \<and> unat (alloc_hint t) = unat c + 1)"
  using alloc_cluster_ok [OF assms]
proof (elim disjE exE conjE)
  fix t assume "alloc_cluster s = Some (0, t)" "quiet b s t" "free_clusters (fat_entry b s) (clusters_end s) = {}"
  then show ?thesis by (intro exI [of _ t] exI [of _ 0]) (auto simp: quiet_def free_clusters_def)
next
  fix t c assume t: "alloc_cluster s = Some (c, t)" "c \<noteq> 0" "unat c \<in> free_clusters (fat_entry b s) (clusters_end s)"
    "\<forall>d \<in> free_clusters (fat_entry b s) (clusters_end s). turn_of s (unat c) \<le> turn_of s d"
    "gives b s t ((fat_entry b s)(unat c := 0x0FFFFFFF)) (disk_of b s)" "unat (alloc_hint t) = unat c + 1"
  have "\<forall>d < clusters_end s. fat_entry b t d = (if d = unat c then 0x0FFFFFFF else fat_entry b s d)"
    using gives_view(3) [OF t(5)] by simp
  then show ?thesis using t gives_view(1) [OF t(5)]
    by (intro exI [of _ t] exI [of _ c]) (simp add: free_clusters_def, metis)
qed

theorem alloc_cluster_first_free_witness:
  "\<exists>t c. alloc_cluster demo_fs = Some (c, t) \<and> c \<noteq> 0 \<and> vol_ok demo_disks t"
  using alloc_cluster_first_free [OF demo_vol] demo_fat [of 4] by (auto simp: demo_numbers)

text \<open>
  C40: The two directions of file names agree: an 8.3 name that \<open>to_short_name\<close> puts into the 11 bytes of an entry is
  shown by \<open>format_short_name\<close> as the same name in upper case, with its dot, and compares equal to it
  in \<open>fat32_find\<close>.
\<close>

theorem short_name_shown:
  assumes "name83 n"
  shows "format_short_name (to_short_name n) = map to_upper n \<and> str_eq_ci (format_short_name (to_short_name n)) n"
  using format_short_roundtrip [OF assms] name_match [OF assms canonical_short [OF assms] short_name_length] by simp

theorem short_name_shown_witness:
  "format_short_name (to_short_name [110, 111, 116, 101, 46, 116, 120, 116]) = [78, 79, 84, 69, 46, 84, 88, 84]"
proof -
  have "name83 [110, 111, 116, 101, 46, 116, 120, 116]" by (simp add: name83_def plain_def)
  from short_name_shown [OF this] show ?thesis by (simp add: to_upper_def)
qed

end
