(* ===== verification/Shell_Claims.thy ===== *)
theory Shell_Claims
  imports Shell Irq_Claims Fat_Claims
begin

text \<open>
  The shell: the line editor and the parser stay within their buffers, the parser splits at spaces, numbers that
  are printed can be typed in again, the path that is shown stays an absolute path, and the shell has no exit.
\<close>

unbundle bit_operations_syntax

section \<open>Definitions\<close>

text \<open>The words of a line: the parts between spaces that are not empty.\<close>

fun split_on :: "cstring \<Rightarrow> cstring list" where
  "split_on [] = [[]]"
| "split_on (c # cs) = (if c = 32 then [] # split_on cs else (c # hd (split_on cs)) # tl (split_on cs))"

definition words_of :: "cstring \<Rightarrow> cstring list" where
  "words_of line = filter (\<lambda>w. w \<noteq> []) (split_on line)"

text \<open>The root, or names that are not empty, each after a slash; with the terminator at most 128 bytes.\<close>

definition path_names :: "cstring list \<Rightarrow> cstring" where
  "path_names ns = (if ns = [] then [47] else concat (map (\<lambda>n. 47 # n) ns))"

definition path_ok :: "cstring \<Rightarrow> bool" where
  "path_ok p \<longleftrightarrow> length p < CWD_PATH_MAX \<and> (\<exists>ns. p = path_names ns \<and> (\<forall>n \<in> set ns. n \<noteq> [] \<and> 0 \<notin> set n \<and> 47 \<notin> set n))"

text \<open>A step that leaves the path alone, and a line that the editor can hold.\<close>

definition stays :: "shell \<Rightarrow> shell outcome option \<Rightarrow> bool" where
  "stays s m \<longleftrightarrow> (\<forall>s'. m = Some (Done s') \<longrightarrow> cwd_path s' = cwd_path s)"

definition clean :: "nat \<Rightarrow> u8 list \<Rightarrow> bool" where
  "clean lim buf \<longleftrightarrow> length buf \<le> lim - 1 \<and> 10 \<notin> set buf \<and> 8 \<notin> set buf"

text \<open>A kernel whose console and keyboard buffer are in order.\<close>

definition awake :: "kernel \<Rightarrow> bool" where
  "awake k \<longleftrightarrow> screen_ok (scr k) \<and> console_live (scr k) \<and> kb_ok (kbd k)"

text \<open>
  Someone presses Enter in the end: every sleep of the processor ends with the console and the keyboard buffer in order, and either a newline is in
  the buffer or \<open>rank\<close>, which neither printing nor reading a key changes, has become smaller.  \<open>to_enter\<close> bounds the
  characters and sleeps that are still to come.
\<close>

definition enter_comes :: "env \<Rightarrow> (kernel \<Rightarrow> nat) \<Rightarrow> bool" where
  "enter_comes v rank \<longleftrightarrow>
     (\<forall>k. awake k \<longrightarrow> (\<exists>k'. hlt_runs v k = Some (Done k') \<and> awake k' \<and> (10 \<in> set (kb_chars (kbd k')) \<or> rank k' < rank k))) \<and>
     (\<forall>k b t. rank (k\<lparr>kbd := b\<rparr>) = rank k \<and> rank (k\<lparr>scr := t\<rparr>) = rank k)"

definition to_enter :: "(kernel \<Rightarrow> nat) \<Rightarrow> kernel \<Rightarrow> nat" where
  "to_enter rank k = (if 10 \<in> set (kb_chars (kbd k)) then 0 else 256 * Suc (rank k)) + length (kb_chars (kbd k))"

text \<open>The states in which a shell that was started in \<open>s0\<close> prints its prompt.\<close>

inductive at_prompt :: "env \<Rightarrow> shell \<Rightarrow> shell \<Rightarrow> bool" for v :: env and s0 :: shell where
  banner: "prints [say_in VGA_YELLOW ''MyOS Shell - '',
    kprint (cstr ''type '' @ [39] @ cstr ''help'' @ [39] @ cstr '' for commands'' @ [10, 10])] s0 = Some (Done s) \<Longrightarrow> at_prompt v s0 s"
| turn: "at_prompt v s0 s \<Longrightarrow> shell_turn v s = Some (Done s') \<Longrightarrow> at_prompt v s0 s'"

section \<open>Words\<close>

lemma split_ne: "split_on cs \<noteq> []" by (cases cs) auto

lemma words_space: "words_of (32 # cs) = words_of cs" by (simp add: words_of_def)

lemma words_drop: "words_of (dropWhile (\<lambda>c. c = 32) cs) = words_of cs"
  by (induction cs) (auto simp: words_space)

lemma split_first: "split_on cs = takeWhile (\<lambda>c. c \<noteq> 32) cs #
    (case dropWhile (\<lambda>c. c \<noteq> 32) cs of [] \<Rightarrow> [] | c # r \<Rightarrow> split_on r)"
  by (induction cs) auto

lemma words_step:
  assumes "q = dropWhile (\<lambda>c. c = 32) p" and "q \<noteq> []"
  shows "words_of p = takeWhile (\<lambda>c. c \<noteq> 32) q # words_of (drop 1 (dropWhile (\<lambda>c. c \<noteq> 32) q))"
proof -
  have "hd q \<noteq> 32" using hd_dropWhile [of "\<lambda>c. c = 32" p] assms by simp
  then have t: "takeWhile (\<lambda>c. c \<noteq> 32) q \<noteq> []" using assms(2) by (cases q) auto
  have "words_of q = takeWhile (\<lambda>c. c \<noteq> 32) q # words_of (drop 1 (dropWhile (\<lambda>c. c \<noteq> 32) q))"
  proof (cases "dropWhile (\<lambda>c. c \<noteq> 32) q")
    case Nil
    have "split_on q = [takeWhile (\<lambda>c. c \<noteq> 32) q]" using split_first [of q] unfolding Nil by simp
    then show ?thesis using t unfolding Nil by (simp add: words_of_def)
  next
    case (Cons c r)
    have "split_on q = takeWhile (\<lambda>c. c \<noteq> 32) q # split_on r" using split_first [of q] unfolding Cons by simp
    then show ?thesis using t unfolding Cons by (simp add: words_of_def)
  qed
  then show ?thesis using words_drop [of p] assms(1) by simp
qed

lemma parse_loop_words:
  assumes "argc \<le> 15"
  shows "\<exists>r. parse_loop argc p = take (15 - argc) (words_of p) @ r \<and> length r \<le> 1 \<and> (r = [] \<longleftrightarrow> length (words_of p) \<le> 15 - argc)"
  using assms
proof (induction argc p rule: parse_loop.induct)
  case (1 argc p)
  let ?q = "dropWhile (\<lambda>c. c = 32) p"
  show ?case
  proof (cases "?q = []")
    case True
    then have "words_of p = []" using words_drop [of p] unfolding True by (simp add: words_of_def)
    then show ?thesis using True by (subst parse_loop.simps) (auto simp: Let_def)
  next
    case False
    then have ne: "p \<noteq> []" by auto
    note W = words_step [OF refl False]
    show ?thesis
    proof (cases "argc = 15")
      case True
      then show ?thesis using ne False W by (subst parse_loop.simps) (simp add: Let_def ARGS_MAX_def)
    next
      case f: False
      then have a: "argc + 1 \<noteq> ARGS_MAX" "argc + 1 \<le> 15" using 1(2) by (simp_all add: ARGS_MAX_def)
      then obtain r where r: "parse_loop (argc + 1) (drop 1 (dropWhile (\<lambda>c. c \<noteq> 32) ?q)) =
          take (15 - (argc + 1)) (words_of (drop 1 (dropWhile (\<lambda>c. c \<noteq> 32) ?q))) @ r" "length r \<le> 1"
        "r = [] \<longleftrightarrow> length (words_of (drop 1 (dropWhile (\<lambda>c. c \<noteq> 32) ?q))) \<le> 15 - (argc + 1)"
        using 1(1) [OF ne refl False a(1) a(2)] by blast
      have k: "15 - argc = Suc (15 - (argc + 1))" using a(2) by simp
      show ?thesis using ne False a(1) r unfolding W k by (subst parse_loop.simps) (auto simp: Let_def)
    qed
  qed
qed

section \<open>The line editor\<close>

lemma then_run_done: "then_run m f = Some (Done y) \<longleftrightarrow> (\<exists>x. m = Some (Done x) \<and> f x = Some (Done y))"
  by (cases m rule: option.exhaust; simp add: then_run_def split: outcome.split)

lemma edit_char_clean:
  assumes "edit_char lim pcol prow c buf s = Some (Done (d, buf', s'))" and "clean lim buf"
  shows "clean lim buf'"
  using assms by (auto simp: edit_char_def then_run_done clean_def Let_def split: if_splits prod.splits dest: in_set_butlastD)

lemma readline_loop_clean:
  assumes "readline_loop v lim pcol prow buf s = Some r"
  shows "\<forall>line s'. r = Done (line, s') \<and> clean lim buf \<longrightarrow> clean lim line"
proof (rule readline_loop.raw_induct [where P = "\<lambda>v lim pcol prow buf s r. \<forall>line s'. r = Done (line, s') \<and> clean lim buf \<longrightarrow> clean lim line", OF _ assms])
  fix f :: "env \<Rightarrow> nat \<Rightarrow> int \<Rightarrow> int \<Rightarrow> u8 list \<Rightarrow> shell \<Rightarrow> (u8 list \<times> shell) outcome option" and v lim pcol prow buf s r
  assume IH: "\<And>v lim pcol prow buf s r. f v lim pcol prow buf s = Some r \<Longrightarrow> \<forall>line s'. r = Done (line, s') \<and> clean lim buf \<longrightarrow> clean lim line"
    and run: "then_run (wait_char v s) (\<lambda>r. then_run (edit_char lim pcol prow (fst r) buf (snd r)) (\<lambda>q.
      if fst q then Some (Done (snd q)) else f v lim pcol prow (fst (snd q)) (snd (snd q)))) = Some r"
  show "\<forall>line s'. r = Done (line, s') \<and> clean lim buf \<longrightarrow> clean lim line"
  proof (intro allI impI, elim conjE)
    fix line s' assume r: "r = Done (line, s')" and b: "clean lim buf"
    obtain x q where x: "wait_char v s = Some (Done x)" "edit_char lim pcol prow (fst x) buf (snd x) = Some (Done q)"
      "(if fst q then Some (Done (snd q)) else f v lim pcol prow (fst (snd q)) (snd (snd q))) = Some (Done (line, s'))"
      using run unfolding r by (auto simp: then_run_done)
    have c: "clean lim (fst (snd q))"
      using edit_char_clean [of lim pcol prow "fst x" buf "snd x" "fst q" "fst (snd q)" "snd (snd q)"] x(2) b by simp
    show "clean lim line"
    proof (cases "fst q")
      case True
      then show ?thesis using x(3) c by (cases q) auto
    next
      case False
      then have "f v lim pcol prow (fst (snd q)) (snd (snd q)) = Some (Done (line, s'))" using x(3) by simp
      from IH [OF this] c show ?thesis by blast
    qed
  qed
qed


section \<open>Paths\<close>

lemma upper_slash:
  fixes c :: u8
  defines "u \<equiv> (if c \<ge> 97 \<and> c \<le> 122 then c - 97 + 65 else c)"
  shows "u = 47 \<longleftrightarrow> c = 47" "u = 0 \<longleftrightarrow> c = 0"
proof -
  have "97 \<le> c \<Longrightarrow> c \<le> 122 \<Longrightarrow> 65 \<le> c - 97 + 65 \<and> c - 97 + 65 \<le> 90" by unat_arith
  then show "u = 47 \<longleftrightarrow> c = 47" "u = 0 \<longleftrightarrow> c = 0" unfolding u_def by auto
qed

lemma display_ok:
  assumes "n \<noteq> []" and "0 \<notin> set n" and "47 \<notin> set n"
  shows "short_to_display n \<noteq> []" "0 \<notin> set (short_to_display n)" "47 \<notin> set (short_to_display n)"
proof -
  have u: "until_nul n = n" using assms(2) by (auto simp: until_nul_def takeWhile_eq_all_conv)
  show "short_to_display n \<noteq> []" using assms(1) by (simp add: short_to_display_def u)
  have "x \<in> set n" if "x \<in> set (take 12 n)" for x using that by (rule in_set_takeD)
  then show "0 \<notin> set (short_to_display n)" "47 \<notin> set (short_to_display n)"
    using assms(2,3) upper_slash by (auto simp: short_to_display_def u)
qed

lemma path_names_snoc: "path_names (ns @ [n]) = (if ns = [] then [] else path_names ns) @ 47 # n"
  by (simp add: path_names_def)

lemma path_names_len: "path_names ns = 47 # tl (path_names ns)" "(\<forall>n \<in> set ns. n \<noteq> []) \<Longrightarrow> length (path_names ns) \<le> 1 \<longleftrightarrow> ns = []"
  by (cases ns; auto simp: path_names_def)+

lemma path_push_ok:
  assumes "path_ok p" and "n \<noteq> []" "0 \<notin> set n" "47 \<notin> set n"
  shows "path_ok (path_push n p)"
proof -
  obtain ns where ns: "p = path_names ns" "\<forall>n \<in> set ns. n \<noteq> [] \<and> 0 \<notin> set n \<and> 47 \<notin> set n" using assms(1) by (auto simp: path_ok_def)
  let ?u = "short_to_display n"
  have l: "length p = 1 \<longleftrightarrow> ns = []" using path_names_len [of ns] ns by (cases ns) (auto simp: path_names_def)
  have c: "char_at p 0 = 47" using path_names_len(1) [of ns] ns(1) by (metis char_at_simps(2))
  show ?thesis
  proof (cases "length p + 1 + length ?u + 1 \<ge> CWD_PATH_MAX")
    case True
    then show ?thesis using assms(1) by (simp add: path_push_def Let_def)
  next
    case False
    then have e: "path_push n p = path_names (ns @ [?u])"
      using l c ns(1) by (cases ns) (simp_all add: path_push_def Let_def path_names_def)
    have "length (path_push n p) \<le> length p + 1 + length ?u" by (simp add: path_push_def Let_def)
    then have "length (path_push n p) < CWD_PATH_MAX" using False by linarith
    moreover have "\<forall>m \<in> set (ns @ [?u]). m \<noteq> [] \<and> 0 \<notin> set m \<and> 47 \<notin> set m" using ns(2) display_ok [OF assms(2-4)] by simp
    ultimately show ?thesis unfolding path_ok_def using e by blast
  qed
qed

lemma pop_len_slash:
  assumes "47 \<notin> set n" and "k \<le> length n"
  shows "pop_len (x @ 47 # n) (length x + 1 + k) = length x + 1"
  using assms(2)
proof (induction k)
  case 0
  then show ?case by (simp add: char_at_def)
next
  case (Suc k)
  have "char_at (x @ 47 # n) (length x + 1 + k) = n ! k" using Suc.prems by (simp add: char_at_def nth_append)
  moreover have "n ! k \<noteq> 47" using assms(1) Suc.prems by (metis Suc_le_lessD nth_mem)
  ultimately show ?case using Suc by simp
qed

lemma path_pop_names:
  assumes "\<forall>m \<in> set (ns @ [n]). m \<noteq> [] \<and> 0 \<notin> set m \<and> 47 \<notin> set m"
  shows "path_pop (path_names (ns @ [n])) = path_names ns"
proof -
  let ?x = "if ns = [] then [] else path_names ns"
  have p: "path_names (ns @ [n]) = ?x @ 47 # n" by (rule path_names_snoc)
  have l: "\<not> length (?x @ 47 # n) \<le> 1" using assms by simp
  have q: "pop_len (?x @ 47 # n) (length (?x @ 47 # n)) = length ?x + 1" using pop_len_slash [of n "length n" ?x] assms by simp
  show ?thesis
  proof (cases "ns = []")
    case True
    then show ?thesis using l q unfolding p by (simp add: path_pop_def path_names_def)
  next
    case False
    then have "0 < length (path_names ns)" "char_at (path_names ns) 0 = 47"
      using path_names_len(1) [of ns] by (metis length_greater_0_conv list.distinct(1), metis char_at_simps(2))
    then show ?thesis using False l q unfolding p by (simp add: path_pop_def Let_def)
  qed
qed

lemma path_pop_ok: "path_ok p \<Longrightarrow> path_ok (path_pop p)"
proof -
  assume p: "path_ok p"
  then obtain ns where ns: "p = path_names ns" "\<forall>n \<in> set ns. n \<noteq> [] \<and> 0 \<notin> set n \<and> 47 \<notin> set n" by (auto simp: path_ok_def)
  show ?thesis
  proof (cases ns rule: rev_cases)
    case Nil
    then show ?thesis using ns(1) by (auto simp: path_pop_def path_names_def path_ok_def CWD_PATH_MAX_def intro: exI [of _ "[]"])
  next
    case (snoc ms n)
    then have e: "path_pop p = path_names ms" using path_pop_names [of ms n] ns by simp
    have "length (path_names ms) \<le> length (path_names (ms @ [n]))" unfolding path_names_snoc
      by (cases "ms = []") (simp_all, simp add: path_names_def)
    then have l: "length (path_names ms) < CWD_PATH_MAX" using p ns(1) snoc by (simp add: path_ok_def)
    have m: "\<forall>n \<in> set ms. n \<noteq> [] \<and> 0 \<notin> set n \<and> 47 \<notin> set n" using ns(2) snoc by simp
    show ?thesis unfolding e path_ok_def by (rule conjI [OF l], rule exI [of _ ms], rule conjI [OF refl m])
  qed
qed


section \<open>Only \<open>cd\<close> changes the path\<close>

lemma path_fields [simp]:
  "cwd_path (restore_cwd c s) = cwd_path s" "cwd_path (set_sys t s) = cwd_path s" "cwd_path (set_space v s) = cwd_path s"
  by (simp_all add: restore_cwd_def set_sys_def set_space_def)

lemma prints_path: "prints l s = Some (Done s') \<Longrightarrow> cwd_path s' = cwd_path s"
  by (auto simp: prints_def split: option.splits)

lemma fs_call_path: "fs_call f s = Some (Done (x, s')) \<Longrightarrow> cwd_path s' = cwd_path s"
  by (auto simp: fs_call_def split: option.splits)

lemma heap_paths:
  "sh_malloc n s = Some (Done (p, s')) \<Longrightarrow> cwd_path s' = cwd_path s" "sh_free p s = Some (Done s') \<Longrightarrow> cwd_path s' = cwd_path s"
  "put_buffer a bs s = Some (Done s') \<Longrightarrow> cwd_path s' = cwd_path s" "get_buffer a k s = Some (Done (ys, s')) \<Longrightarrow> cwd_path s' = cwd_path s"
  by (auto simp: sh_malloc_def sh_free_def put_buffer_def get_buffer_def then_run_done and_then_Done_iff)

lemma read_into_path: "read_into e buf lim s = Some (Done (n, s')) \<Longrightarrow> cwd_path s' = cwd_path s"
  by (auto simp: read_into_def then_run_done dest!: fs_call_path heap_paths)

lemma list_cwd_path: "list_cwd s = Some (Done s') \<Longrightarrow> cwd_path s' = cwd_path s"
  by (auto simp: list_cwd_def then_run_done dest!: fs_call_path)

lemmas paths = prints_path fs_call_path heap_paths read_into_path list_cwd_path

lemma at_path_path:
  assumes "at_path msg file_path op' cont s = Some (Done s')" and "\<And>x s s'. cont x s = Some (Done s') \<Longrightarrow> cwd_path s' = cwd_path s"
  shows "cwd_path s' = cwd_path s"
  using assms(1) by (auto simp: at_path_def then_run_done dest!: paths assms(2) split: if_splits)

lemma outcome_done:
  "(case m of Halted e \<Rightarrow> Some (Halted e) | Done x \<Rightarrow> f x) = Some (Done y) \<longleftrightarrow> (\<exists>x. m = Done x \<and> f x = Some (Done y))"
  by (cases m) auto

lemma spawn_path: "spawn_loop v k i s = Some (Done s') \<Longrightarrow> cwd_path s' = cwd_path s"
  by (induction k arbitrary: i s) (auto simp: then_run_done outcome_done Let_def with_task_def dest!: paths split: if_splits)

lemma start_image_path: "start_image v name img s = Some (Done s') \<Longrightarrow> cwd_path s' = cwd_path s"
  by (auto simp: start_image_def then_run_done outcome_done Let_def with_task_def dest!: paths split: if_splits option.splits)

lemma exec_buffer_path: "exec_buffer v name buf size' s = Some (Done s') \<Longrightarrow> cwd_path s' = cwd_path s"
  by (auto simp: exec_buffer_def then_run_done dest!: paths start_image_path split: if_splits)

lemma memory_commands:
  "stays s (cmd_help v argv s)" "stays s (cmd_clear v argv s)" "stays s (cmd_echo v argv s)" "stays s (cmd_meminfo v argv s)"
  "stays s (cmd_page v argv s)" "stays s (cmd_vmap v argv s)" "stays s (cmd_pftest v argv s)" "stays s (cmd_uptime v argv s)"
  "stays s (cmd_sleep v argv s)" "stays s (cmd_heap v argv s)" "stays s (cmd_kalloc v argv s)"
  by (auto simp: stays_def cmd_help_def cmd_clear_def cmd_echo_def cmd_meminfo_def cmd_page_def cmd_vmap_def cmd_pftest_def cmd_uptime_def
      cmd_sleep_def cmd_heap_def cmd_kalloc_def then_run_done outcome_done Let_def dest!: paths split: if_splits prod.splits)

lemma file_commands:
  "stays s (cmd_ls v argv s)" "stays s (cmd_cat v argv s)" "stays s (cmd_touch v argv s)" "stays s (cmd_write v argv s)"
  "stays s (cmd_rm v argv s)" "stays s (cmd_mkdir v argv s)" "stays s (cmd_rmdir v argv s)" "stays s (cmd_pwd v argv s)" "stays s (cmd_exec v argv s)"
  unfolding stays_def
  by (auto simp: cmd_ls_def cmd_cat_def cmd_touch_def cmd_write_def cmd_rm_def cmd_mkdir_def cmd_rmdir_def cmd_pwd_def cmd_exec_def
      not_mounted_def inactive_def then_run_done Let_def dest!: paths exec_buffer_path split: if_splits option.splits elim!: at_path_path)

lemma task_commands:
  "stays s (cmd_tasks v argv s)" "stays s (cmd_spawn v argv s)" "stays s (cmd_yield v argv s)" "stays s (cmd_user v argv s)"
  "stays s (cmd_version v argv s)" "stays s (cmd_halt v argv s)"
  by (auto simp: stays_def cmd_tasks_def cmd_spawn_def cmd_yield_def cmd_user_def cmd_version_def cmd_halt_def inactive_def with_task_def
      then_run_done outcome_done Let_def dest!: paths spawn_path split: if_splits)


section \<open>A turn of the shell\<close>

lemma parse_loop_chars:
  assumes "a \<in> set (parse_loop argc p)"
  shows "set a \<subseteq> set p"
  using assms
proof (induction argc p rule: parse_loop.induct)
  case (1 argc p)
  let ?q = "dropWhile (\<lambda>c. c = 32) p"
  have q: "set ?q \<subseteq> set p" by (auto dest: set_dropWhileD)
  have d: "set (drop 1 (dropWhile (\<lambda>c. c \<noteq> 32) ?q)) \<subseteq> set ?q" by (auto dest!: in_set_dropD set_dropWhileD)
  have t: "set (takeWhile (\<lambda>c. c \<noteq> 32) ?q) \<subseteq> set ?q" by (auto dest: set_takeWhileD)
  consider "a = ?q \<or> a = takeWhile (\<lambda>c. c \<noteq> 32) ?q" | "p \<noteq> []" "?q \<noteq> []" "argc + 1 \<noteq> ARGS_MAX"
      "a \<in> set (parse_loop (argc + 1) (drop 1 (dropWhile (\<lambda>c. c \<noteq> 32) ?q)))"
    using 1(2) by (subst (asm) parse_loop.simps) (auto simp: Let_def split: if_splits)
  then show ?case
  proof cases
    case 2
    then have "set a \<subseteq> set (drop 1 (dropWhile (\<lambda>c. c \<noteq> 32) ?q))" using 1(1) [OF 2(1) refl 2(2,3)] by blast
    then show ?thesis using d q by blast
  qed (use q t in blast)
qed

lemma cd_token_ok:
  assumes "cd_token tok s = Some (Done (ok, s'))" and "path_ok (cwd_path s)" and "tok \<noteq> []" "0 \<notin> set tok" "47 \<notin> set tok"
  shows "path_ok (cwd_path s')"
  using assms path_push_ok [of "cwd_path s" tok] path_pop_ok [of "cwd_path s"]
  by (auto simp: cd_token_def then_run_done dest!: fs_call_path split: if_splits)

lemma cd_loop_ok:
  assumes "cd_loop p tok s = Some (Done (ok, s'))" and "path_ok (cwd_path s)" and "0 \<notin> set p" and "0 \<notin> set tok" "47 \<notin> set tok"
  shows "path_ok (cwd_path s')"
  using assms
proof (induction p tok s rule: cd_loop.induct)
  case (1 tok s)
  then show ?case using cd_token_ok [of tok s ok s'] by (auto split: if_splits)
next
  case (2 c p tok s)
  show ?case
  proof (cases "c = 47")
    case False
    then show ?thesis using 2(4-) 2(3) [OF False] by (auto split: if_splits)
  next
    case True
    show ?thesis
    proof (cases "tok = []")
      case e: True
      then show ?thesis using True 2(2) 2(4-) by auto
    next
      case f: False
      then obtain o1 s1 where t: "cd_token tok s = Some (Done (o1, s1))" "(if o1 then cd_loop p [] s1 else Some (Done (False, s1))) = Some (Done (ok, s'))"
        using 2(4) True by (auto simp: then_run_done)
      have p1: "path_ok (cwd_path s1)" by (rule cd_token_ok [OF t(1) 2(5) f 2(7,8)])
      show ?thesis
      proof (cases o1)
        case o1: True
        have "cd_loop p [] s1 = Some (Done (ok, s'))" using t(2) o1 by simp
        from 2(1) [OF True f o1 this p1] show ?thesis using 2(6) by simp
      qed (use t(2) p1 in auto)
    qed
  qed
qed

lemma path_ok_root: "path_ok [47]"
  by (auto simp: path_ok_def CWD_PATH_MAX_def path_names_def intro: exI [of _ "[]"])

lemma cmd_cd_ok:
  assumes "cmd_cd v argv s = Some (Done s')" and "path_ok (cwd_path s)" and "\<forall>a \<in> set argv. 0 \<notin> set a"
  shows "path_ok (cwd_path s')"
proof -
  define target where "target = (if length argv < 2 then [47] else argv ! 1)"
  have z: "0 \<notin> set target" using assms(3) by (auto simp: target_def)
  then have z': "0 \<notin> set (tl target)" by (cases target) auto
  show ?thesis using assms(1,2) z z' path_ok_root unfolding cmd_cd_def target_def [symmetric]
    by (auto simp: not_mounted_def then_run_done Let_def dest!: paths dest: cd_loop_ok split: if_splits)
qed


lemma command_ok:
  assumes "fn \<in> set cmd_fns" and "fn v argv s = Some (Done s')" and "path_ok (cwd_path s)" and "\<forall>a \<in> set argv. 0 \<notin> set a"
  shows "path_ok (cwd_path s')"
proof -
  have "fn = cmd_cd \<or> stays s (fn v argv s)"
    using assms(1) memory_commands [of s v argv] file_commands [of s v argv] task_commands [of s v argv] by (auto simp: cmd_fns_def)
  then show ?thesis using assms(2-4) cmd_cd_ok by (auto simp: stays_def)
qed

lemma exec_loop_ok:
  assumes "snd ` set cs \<subseteq> set cmd_fns" and "exec_loop cs v argv s = Some (Done s')" and "path_ok (cwd_path s)" and "\<forall>a \<in> set argv. 0 \<notin> set a"
  shows "path_ok (cwd_path s')"
  using assms
proof (induction cs)
  case Nil
  then show ?case by (auto dest!: paths)
next
  case (Cons x cs)
  obtain name desc fn where x: "x = ((name, desc), fn)" by (metis surj_pair)
  show ?case using Cons command_ok [of fn v argv s s'] by (cases "str_eq (argv ! 0) (cstr name)") (simp_all add: x)
qed

lemma exec_ok:
  assumes "exec v line s = Some (Done s')" and "path_ok (cwd_path s)" and "0 \<notin> set line"
  shows "path_ok (cwd_path s')"
proof -
  have a: "\<forall>a \<in> set (parse line). 0 \<notin> set a" using parse_loop_chars [of _ 0 line] assms(3) unfolding parse_def by blast
  have c: "snd ` set cmds \<subseteq> set cmd_fns" unfolding cmds_def by (auto dest: set_zip_rightD)
  show ?thesis using assms(1,2) exec_loop_ok [OF c _ assms(2) a, of v s'] by (auto simp: exec_def Let_def split: if_splits)
qed

lemma wait_char_path:
  assumes "wait_char v s = Some r"
  shows "\<forall>x s'. r = Done (x, s') \<longrightarrow> cwd_path s' = cwd_path s"
proof (rule wait_char.raw_induct [where P = "\<lambda>v s r. \<forall>x s'. r = Done (x, s') \<longrightarrow> cwd_path s' = cwd_path s", OF _ assms])
  fix f :: "env \<Rightarrow> shell \<Rightarrow> (u8 \<times> shell) outcome option" and v s r
  assume "\<And>v s r. f v s = Some r \<Longrightarrow> \<forall>x s'. r = Done (x, s') \<longrightarrow> cwd_path s' = cwd_path s"
    and "(if \<not> keyboard_haschar (kbd (kern s)) then then_run (hlt_runs v (kern s)) (\<lambda>k. f v (s\<lparr>kern := k\<rparr>))
      else let b = kbd (kern s) in Some (Done (kbuf b (ktail b), s\<lparr>kern := (kern s)\<lparr>kbd := b\<lparr>ktail := (ktail b + 1) mod BUF_SIZE\<rparr>\<rparr>\<rparr>))) = Some r"
  then show "\<forall>x s'. r = Done (x, s') \<longrightarrow> cwd_path s' = cwd_path s"
    by (fastforce simp: then_run_done Let_def split: if_splits)
qed

lemma edit_char_path: "edit_char lim pcol prow c buf s = Some (Done (d, buf', s')) \<Longrightarrow> cwd_path s' = cwd_path s"
  by (auto simp: edit_char_def then_run_done Let_def dest!: paths split: if_splits prod.splits)

lemma readline_path:
  assumes "readline_loop v lim pcol prow buf s = Some r"
  shows "\<forall>line s'. r = Done (line, s') \<longrightarrow> cwd_path s' = cwd_path s"
proof (rule readline_loop.raw_induct [where P = "\<lambda>v lim pcol prow buf s r. \<forall>line s'. r = Done (line, s') \<longrightarrow> cwd_path s' = cwd_path s", OF _ assms])
  fix f :: "env \<Rightarrow> nat \<Rightarrow> int \<Rightarrow> int \<Rightarrow> u8 list \<Rightarrow> shell \<Rightarrow> (u8 list \<times> shell) outcome option" and v lim pcol prow buf s r
  assume IH: "\<And>v lim pcol prow buf s r. f v lim pcol prow buf s = Some r \<Longrightarrow> \<forall>line s'. r = Done (line, s') \<longrightarrow> cwd_path s' = cwd_path s"
    and run: "then_run (wait_char v s) (\<lambda>r. then_run (edit_char lim pcol prow (fst r) buf (snd r)) (\<lambda>q.
      if fst q then Some (Done (snd q)) else f v lim pcol prow (fst (snd q)) (snd (snd q)))) = Some r"
  show "\<forall>line s'. r = Done (line, s') \<longrightarrow> cwd_path s' = cwd_path s"
  proof (intro allI impI)
    fix line s' assume r: "r = Done (line, s')"
    obtain x q where x: "wait_char v s = Some (Done x)" "edit_char lim pcol prow (fst x) buf (snd x) = Some (Done q)"
      "(if fst q then Some (Done (snd q)) else f v lim pcol prow (fst (snd q)) (snd (snd q))) = Some (Done (line, s'))"
      using run unfolding r by (auto simp: then_run_done)
    have c: "cwd_path (snd (snd q)) = cwd_path s"
      using edit_char_path [of lim pcol prow "fst x" buf "snd x" "fst q" "fst (snd q)" "snd (snd q)"] x(2) wait_char_path [OF x(1)] by (cases x) simp
    show "cwd_path s' = cwd_path s"
    proof (cases "fst q")
      case True
      then show ?thesis using x(3) c by (cases q) auto
    next
      case False
      then have "f v lim pcol prow (fst (snd q)) (snd (snd q)) = Some (Done (line, s'))" using x(3) by simp
      from IH [OF this] c show ?thesis by simp
    qed
  qed
qed

lemma readline_ok:
  assumes "readline v lim s = Some (Done (line, s'))"
  shows "cwd_path s' = cwd_path s" "clean lim line"
proof -
  obtain a b where "readline_loop v lim a b [] s = Some (Done (line, s'))" using assms by (auto simp: readline_def split: prod.splits)
  from readline_path [OF this] readline_loop_clean [OF this] show "cwd_path s' = cwd_path s" "clean lim line" by (simp_all add: clean_def)
qed

lemma pop_chars:
  assumes "kb_ok b" and "keyboard_haschar b"
  shows "kb_chars b = kbuf b (ktail b) # kb_chars (b\<lparr>ktail := (ktail b + 1) mod BUF_SIZE\<rparr>)" "kb_ok (b\<lparr>ktail := (ktail b + 1) mod BUF_SIZE\<rparr>)"
proof -
  have "keyboard_getchar h 0 b = Some (kbuf b (ktail b), 0, b\<lparr>ktail := (ktail b + 1) mod BUF_SIZE\<rparr>)" for h
    using assms(2) by (subst keyboard_getchar.simps) simp
  then show "kb_chars b = kbuf b (ktail b) # kb_chars (b\<lparr>ktail := (ktail b + 1) mod BUF_SIZE\<rparr>)" "kb_ok (b\<lparr>ktail := (ktail b + 1) mod BUF_SIZE\<rparr>)"
    using getchar_step [OF assms, of "\<lambda>_ s. s" 0] haschar_iff [OF assms(1)] assms(2) by (auto simp: list.expand)
qed

lemma wait_char_returns:
  assumes "enter_comes v rank"
  shows "awake (kern s) \<Longrightarrow> \<exists>c s'. wait_char v s = Some (Done (c, s')) \<and> awake (kern s') \<and>
    (c = 10 \<or> to_enter rank (kern s') < to_enter rank (kern s))"
proof (induction "rank (kern s)" arbitrary: s rule: less_induct)
  case less
  have kb: "kb_ok (kbd (kern s))" using less.prems by (simp add: awake_def)
  show ?case
  proof (cases "keyboard_haschar (kbd (kern s))")
    case True
    let ?b = "kbd (kern s)"
    let ?k = "(kern s)\<lparr>kbd := ?b\<lparr>ktail := (ktail ?b + 1) mod BUF_SIZE\<rparr>\<rparr>"
    note p = pop_chars [OF kb True]
    have "awake ?k" using less.prems p(2) by (simp add: awake_def)
    moreover have "kbuf ?b (ktail ?b) = 10 \<or> to_enter rank ?k < to_enter rank (kern s)"
      using assms p(1) by (simp add: to_enter_def enter_comes_def)
    ultimately show ?thesis using True by (subst wait_char.simps) (simp add: Let_def)
  next
    case False
    then have e: "kb_chars (kbd (kern s)) = []" using haschar_iff [OF kb] by simp
    obtain k where k: "hlt_runs v (kern s) = Some (Done k)" "awake k" "10 \<in> set (kb_chars (kbd k)) \<or> rank k < rank (kern s)"
      using assms less.prems unfolding enter_comes_def by blast
    have m: "to_enter rank k < to_enter rank (kern s)" using k(3) chars_bound [of "kbd k"] by (auto simp: to_enter_def e)
    have w: "wait_char v s = wait_char v (s\<lparr>kern := k\<rparr>)" using False k(1) by (subst wait_char.simps) (simp add: then_run_def)
    show ?thesis
    proof (cases "10 \<in> set (kb_chars (kbd k))")
      case True
      have kb': "kb_ok (kbd k)" using k(2) by (simp add: awake_def)
      have h: "keyboard_haschar (kbd k)" using True haschar_iff [OF kb'] by auto
      let ?k = "k\<lparr>kbd := (kbd k)\<lparr>ktail := (ktail (kbd k) + 1) mod BUF_SIZE\<rparr>\<rparr>"
      note p = pop_chars [OF kb' h]
      have "awake ?k" using k(2) p(2) by (simp add: awake_def)
      moreover have "kbuf (kbd k) (ktail (kbd k)) = 10 \<or> to_enter rank ?k < to_enter rank (kern s)"
        using True p(1) chars_bound [of "kbd ?k"] by (auto simp: to_enter_def e)
      ultimately show ?thesis unfolding w using h by (subst wait_char.simps) (simp add: Let_def)
    next
      case False
      then have "rank (kern (s\<lparr>kern := k\<rparr>)) < rank (kern s)" using k(3) by simp
      from less.hyps [OF this] k(2) show ?thesis unfolding w using m by (auto intro: less_trans)
    qed
  qed
qed

lemma putchar_awake:
  assumes "awake (kern s)" and "enter_comes v rank"
  obtains s' where "prints [kputchar c] s = Some (Done s')" "awake (kern s')" "to_enter rank (kern s') = to_enter rank (kern s)"
proof -
  have c: "screen_ok (scr (kern s))" "console_live (scr (kern s))" using assms(1) by (simp_all add: awake_def)
  obtain t where "kputchar c (scr (kern s)) = Some t" "screen_ok t" "console_live t"
    using kputchar_color_returns [OF c, of c VGA_LIGHT_GREY VGA_BLACK] unfolding kputchar_def by metis
  then show thesis using assms
    by (intro that [of "s\<lparr>kern := (kern s)\<lparr>scr := t\<rparr>\<rparr>"]) (simp_all add: prints_def and_print_def awake_def to_enter_def enter_comes_def)
qed

lemma edit_char_returns:
  assumes "awake (kern s)" and "enter_comes v rank"
  shows "\<exists>d buf' s'. edit_char lim pcol prow c buf s = Some (Done (d, buf', s')) \<and> awake (kern s') \<and>
    to_enter rank (kern s') = to_enter rank (kern s) \<and> (c = 10 \<longrightarrow> d)"
proof -
  obtain s' where "prints [kputchar c] s = Some (Done s')" "awake (kern s')" "to_enter rank (kern s') = to_enter rank (kern s)"
    by (rule putchar_awake [OF assms])
  then show ?thesis using assms(1) by (auto simp: edit_char_def then_run_def Let_def split: prod.split)
qed

lemma readline_loop_returns:
  assumes "enter_comes v rank"
  shows "awake (kern s) \<Longrightarrow> \<exists>line s'. readline_loop v lim pcol prow buf s = Some (Done (line, s')) \<and> awake (kern s')"
proof (induction "to_enter rank (kern s)" arbitrary: s buf rule: less_induct)
  case less
  obtain c s1 where w: "wait_char v s = Some (Done (c, s1))" "awake (kern s1)" "c = 10 \<or> to_enter rank (kern s1) < to_enter rank (kern s)"
    using wait_char_returns [OF assms less.prems] by blast
  obtain d buf' s2 where e: "edit_char lim pcol prow c buf s1 = Some (Done (d, buf', s2))" "awake (kern s2)"
    "to_enter rank (kern s2) = to_enter rank (kern s1)" "c = 10 \<longrightarrow> d" using edit_char_returns [OF w(2) assms] by metis
  have r: "readline_loop v lim pcol prow buf s = (if d then Some (Done (buf', s2)) else readline_loop v lim pcol prow buf' s2)"
    by (subst readline_loop.simps) (simp add: w(1) e(1) then_run_def)
  show ?case
  proof (cases d)
    case True
    then show ?thesis using r e(2) by simp
  next
    case False
    then have "to_enter rank (kern s2) < to_enter rank (kern s)" using w(3) e(3,4) by auto
    then show ?thesis using less.hyps [OF _ e(2), of buf'] r False by simp
  qed
qed

lemma until_nul_no_zero: "0 \<notin> set (until_nul bs)"
  by (auto simp: until_nul_def dest: set_takeWhileD)

lemma shell_turn_ok:
  assumes "shell_turn v s = Some (Done s')" and "path_ok (cwd_path s)"
  shows "path_ok (cwd_path s')"
  using assms until_nul_no_zero by (auto simp: shell_turn_def then_run_done dest!: paths readline_ok(1) intro: exec_ok)


section \<open>Numbers\<close>

lemma ucast_of_nat: "(ucast (w :: u8) :: u32) = of_nat (unat w)"
proof -
  have "unat (of_nat (unat w) :: u32) = unat w" using unat_lt8 [of w] by (intro unat_of_nat32) simp
  then show ?thesis by (simp only: word_unat_eq_iff unat_ucast8)
qed

lemma dec_digits_value:
  "\<forall>d \<in> set ds. 48 \<le> unat d \<and> unat d \<le> 57 \<Longrightarrow> dec_digits (of_nat x) ds = of_nat (foldl (\<lambda>a c. 10 * a + (unat c - 48)) x ds)"
proof (induction ds arbitrary: x)
  case (Cons c ds)
  have c: "48 \<le> c" "c \<le> 57" using Cons.prems by (simp_all add: word_le_nat_alt)
  then have "unat (c - 48) = unat c - 48" by (simp add: unat_sub)
  then have "ucast (c - 48) = (of_nat (unat c - 48) :: u32)" using ucast_of_nat [of "c - 48"] by (simp del: of_nat_diff)
  then have e: "of_nat x * 10 + ucast (c - 48) = (of_nat (10 * x + (unat c - 48)) :: u32)" by (simp del: of_nat_diff)
  have "dec_digits (of_nat x) (c # ds) = dec_digits (of_nat (10 * x + (unat c - 48))) ds" unfolding e [symmetric] using c by simp
  then show ?case using Cons.IH Cons.prems by (simp del: of_nat_diff of_nat_add dec_digits.simps)
qed simp

lemma shift_or: "d < 16 \<Longrightarrow> push_bit 4 (of_nat x) OR of_nat d = (of_nat (16 * x + d) :: u32)"
proof -
  assume d: "d < 16"
  have "bit (of_nat d :: u32) n \<Longrightarrow> n < 4" for n
  proof -
    assume "bit (of_nat d :: u32) n"
    then have "bit d n" by (simp add: bit_of_nat_iff)
    moreover have "take_bit 4 d = d" using d by (simp add: take_bit_nat_eq_self)
    ultimately show "n < 4" by (metis bit_take_bit_iff)
  qed
  then have "push_bit 4 (of_nat x :: u32) + of_nat d = push_bit 4 (of_nat x) OR of_nat d"
    by (intro disjunctive_add) (metis bit_push_bit_iff not_le)
  then show ?thesis by (simp add: push_bit_eq_mult mult.commute)
qed

lemma hex_char:
  assumes "c \<in> set hex_table"
  shows "hex_digits v (c # s) = hex_digits (push_bit 4 v OR of_nat (hex_digit_value c)) s" "hex_digit_value c < 16"
proof -
  have "\<forall>c \<in> set hex_table. hex_digit_value c < 16 \<and> c \<noteq> 0 \<and>
      (if c \<ge> 48 \<and> c \<le> 57 then ucast (c - 48) = (of_nat (hex_digit_value c) :: u32)
       else \<not> (c \<ge> 97 \<and> c \<le> 102) \<and> c \<ge> 65 \<and> c \<le> 70 \<and> ucast (c - 65 + 10) = (of_nat (hex_digit_value c) :: u32))"
    by (simp add: hex_table_def cstr_def hex_digit_value_def)
  from bspec [OF this assms] show "hex_digits v (c # s) = hex_digits (push_bit 4 v OR of_nat (hex_digit_value c)) s" "hex_digit_value c < 16"
    by (auto simp: Let_def split: if_splits)
qed

lemma hex_digits_value:
  "set ds \<subseteq> set hex_table \<Longrightarrow> hex_digits (of_nat x) ds = of_nat (foldl (\<lambda>a c. 16 * a + hex_digit_value c) x ds)"
proof (induction ds arbitrary: x)
  case (Cons c ds)
  then have c: "c \<in> set hex_table" "set ds \<subseteq> set hex_table" by auto
  show ?case unfolding hex_char(1) [OF c(1)] shift_or [OF hex_char(2) [OF c(1)]] by (simp only: Cons.IH [OF c(2)] foldl_Cons)
qed simp

lemma parse_dec_string: "parse_uint (dec_string n) = n"
proof (cases "n = 0")
  case False
  from dec_fill_digits [of n "[]"] obtain ds where ds: "dec_fill n [] = ds" "\<forall>d \<in> set ds. 48 \<le> unat d \<and> unat d \<le> 57"
    "dec_value ds = unat n" "ds \<noteq> []" "hd ds \<noteq> 48" using False by auto
  have "char_at ds 0 \<noteq> 48" using ds(4,5) by (cases ds) (auto simp: char_at_def)
  then have "parse_uint ds = dec_digits (of_nat 0) ds" by (simp add: parse_uint_def)
  also have "\<dots> = of_nat (dec_value ds)" unfolding dec_digits_value [OF ds(2)] by (simp add: dec_value_def)
  finally show ?thesis using False by (simp add: dec_string_def ds(1,3))
qed (simp add: dec_string_def parse_uint_def char_at_def)

lemma parse_hex_string: "parse_uint (hex_string n) = n"
proof -
  from hex_fill_digits [of 8 n "[]"] obtain ds where
    ds: "hex_fill 8 n [] = ds" "length ds = 8" "set ds \<subseteq> set hex_table" "hex_value ds = unat n"
    using unat_lt32 [of n] by auto
  then have "set (skip_zeros ds) \<subseteq> set hex_table" using skip_zeros_hd [of ds] by (cases ds) auto
  then have "hex_digits (of_nat 0) (skip_zeros ds) = of_nat (hex_value (skip_zeros ds))"
    unfolding hex_value_def by (rule hex_digits_value)
  then have "hex_digits 0 (skip_zeros ds) = n" by (simp add: skip_zeros_value ds(4))
  then show ?thesis by (simp add: hex_string_def parse_uint_def char_at_def cstr_def ds(1))
qed

section \<open>Properties\<close>

text \<open>
  C18: The path that the shell shows is always well-formed.  If it is when the shell starts, then at every
  prompt, whatever was typed, it is the root or a sequence of names that are not empty, each after one slash, and it
  fits with its terminator into the array of 128 bytes.
\<close>

theorem cwd_path_wellformed:
  assumes "at_prompt v s0 s" and "path_ok (cwd_path s0)"
  shows "path_ok (cwd_path s)"
  using assms by (induction rule: at_prompt.induct) (auto dest!: prints_path intro: shell_turn_ok)

lemma demo_shell:
  obtains s :: shell where "scr (kern s) = demo_screen" "cwd_path s = [47]"
    "kbd (kern s) = demo_kb\<lparr>kbuf := (\<lambda>i. if i = 254 then 97 else 10), khead := 0\<rparr>"
proof -
  obtain k :: kernel where k: "scr k = demo_screen" by (rule demo_kernel) (rule that)
  define s where "s = \<lparr>kern = k\<lparr>kbd := demo_kb\<lparr>kbuf := (\<lambda>i. if i = 254 then 97 else 10), khead := 0\<rparr>\<rparr>, fs = demo_fs, cwd_path = [47]\<rparr>"
  show thesis by (rule that [of s]) (simp_all add: s_def k)
qed

lemma kprint_ok: "screen_ok t \<Longrightarrow> console_live t \<Longrightarrow> \<exists>u. kprint_color cs fg bg t = Some u \<and> screen_ok u \<and> console_live u"
  using kprint_color_returns [of t cs fg bg] by blast

theorem cwd_path_wellformed_witness: "\<exists>v s0 s. at_prompt v s0 s \<and> path_ok (cwd_path s)"
proof -
  obtain s0 :: shell where s0: "scr (kern s0) = demo_screen" "cwd_path s0 = [47]" by (rule demo_shell) (rule that)
  obtain t where t: "say_in VGA_YELLOW ''MyOS Shell - '' (scr (kern s0)) = Some t" "screen_ok t" "console_live t"
    using kprint_ok [OF demo_screen_ok] unfolding say_in_def s0(1) by metis
  obtain u where u: "kprint (cstr ''type '' @ [39] @ cstr ''help'' @ [39] @ cstr '' for commands'' @ [10, 10]) t = Some u"
    using kprint_ok [OF t(2,3)] unfolding kprint_is_color by metis
  have "at_prompt v s0 (s0\<lparr>kern := (kern s0)\<lparr>scr := u\<rparr>\<rparr>)" for v
    by (rule at_prompt.banner) (use t(1) u in \<open>simp add: prints_def and_print_def\<close>)
  then show ?thesis using cwd_path_wellformed path_ok_root s0(2) by metis
qed




text \<open>
  C38: A number that the kernel prints can be typed in again: \<open>parse_uint\<close> reads the text that \<open>kprint_dec\<close> prints and
  the text that \<open>kprint_hex\<close> prints, with its prefix, as the number that was printed, for every 32-bit number.
\<close>

theorem printed_numbers_parse:
  "kprint_dec n t = kprint (dec_string n) t \<and> parse_uint (dec_string n) = n \<and>
   kprint_hex n t = kprint (hex_string n) t \<and> parse_uint (hex_string n) = n"
proof (intro conjI)
  show "kprint_dec n t = kprint (dec_string n) t" by (rule kprint_dec_string)
  show "kprint_hex n t = kprint (hex_string n) t" by (rule kprint_hex_string)
  show "parse_uint (dec_string n) = n" by (rule parse_dec_string)
  show "parse_uint (hex_string n) = n" by (rule parse_hex_string)
qed

text \<open>
  The shell has no exit: whatever is typed and whatever the other tasks do, \<open>shell_run\<close> does not return to its caller; it
  goes on for ever, or the machine stops.
\<close>

lemma shell_never_returns: "shell_run v s \<noteq> Some (Done t)"
proof -
  have "shell_loop v s = Some r \<Longrightarrow> \<forall>t. r \<noteq> Done t" for s r
    by (rule shell_loop.raw_induct [where P = "\<lambda>v s r. \<forall>t. r \<noteq> Done t"]) (fastforce simp: then_run_done)+
  then show ?thesis unfolding shell_run_def then_run_done by blast
qed

end
