(* ===== verification/Shell_Files.thy ===== *)
theory Shell_Files
  imports Shell_Claims
begin

text \<open>
  The commands \<open>write\<close> and \<open>cat\<close> of \<^verbatim>\<open>src/shell/shell.c\<close> on the whole system: the shell, the file system on the disk
  driver, buffers of the kernel heap behind the page tables, and the console on the same bus as the disk.
\<close>

section \<open>Definitions\<close>

text \<open>The volume that the shell's file system sees, on the bus of the kernel, and the machine that the tasks share.\<close>

definition volume :: "shell \<Rightarrow> fat32" where
  "volume s = (fs s)\<lparr>disk := the_bus s\<rparr>"

definition the_mach :: "shell \<Rightarrow> loader" where
  "the_mach s = mach (sys (kern s))"

definition set_mach :: "loader \<Rightarrow> shell \<Rightarrow> shell" where
  "set_mach m s = set_sys ((sys (kern s))\<lparr>mach := m\<rparr>) s"

definition heap_at :: "nat \<Rightarrow> nat \<Rightarrow> nat \<Rightarrow> ablock list \<Rightarrow> loader \<Rightarrow> bool" where
  "heap_at hs pd fpt bs m \<longleftrightarrow> heap_rel hs (heap_view m) bs \<and> space_ok hs pd fpt m"

definition console_ok :: "shell \<Rightarrow> bool" where
  "console_ok s \<longleftrightarrow> screen_ok (scr (kern s)) \<and> console_live (scr (kern s))"

text \<open>A printing step: the cells change and the line carries more, and the disks are what they were.\<close>

definition shown_by :: "(screen \<Rightarrow> screen option) \<Rightarrow> bool" where
  "shown_by f \<longleftrightarrow> (\<exists>cs fg bg. f = kprint_color cs fg bg)"

definition off_disk :: "ports \<Rightarrow> ports \<Rightarrow> bool" where
  "off_disk p q \<longleftrightarrow> io_in q = io_in p \<and> (\<forall>b. media (now b q) = media (now b p))"

text \<open>Two states of the file system that a client cannot tell apart.\<close>

definition alike :: "ata_bus \<Rightarrow> fat32 \<Rightarrow> fat32 \<Rightarrow> bool" where
  "alike b s t \<longleftrightarrow> vol_ok b t \<and> disk_of b t = disk_of b s \<and> sectors_per_cluster t = sectors_per_cluster s \<and>
     fat_start_lba t = fat_start_lba s \<and> data_start_lba t = data_start_lba s \<and> total_clusters t = total_clusters s \<and> cwd_cluster t = cwd_cluster s"

text \<open>The state in which a call into the file system leaves the shell.\<close>

definition onfs :: "fat32 \<Rightarrow> shell \<Rightarrow> shell" where
  "onfs f s = s\<lparr>fs := f, kern := on_bus (\<lambda>_. disk f) (kern s)\<rparr>"

text \<open>The shell with a heap of blocks \<open>bs\<close>, a live console, a sound volume and a working directory of the clusters \<open>dirs\<close>.\<close>

definition shell_ready :: "nat \<Rightarrow> nat \<Rightarrow> nat \<Rightarrow> ablock list \<Rightarrow> ata_bus \<Rightarrow> u32 list \<Rightarrow> shell \<Rightarrow> bool" where
  "shell_ready hs pd fpt bs b dirs s \<longleftrightarrow> heap_at hs pd fpt bs (the_mach s) \<and> console_ok s \<and>
     vol_ok b (volume s) \<and> dir_ok b (volume s) dirs \<and> tidy b (volume s) dirs"

text \<open>What \<open>cat\<close> types for the bytes of a file: no carriage returns, and a newline at the end.\<close>

definition cat_text :: "u8 list \<Rightarrow> cstring" where
  "cat_text xs = filter (\<lambda>c. c \<noteq> 13) xs @ (if xs \<noteq> [] \<and> last xs \<noteq> 10 then [10] else [])"

text \<open>A bus with drives and with a serial port that is always ready.\<close>

definition bus_with :: "ata_bus \<Rightarrow> ports" where
  "bus_with b = \<lparr>io_log = [], io_in = (\<lambda>l p. if p = COM1_LSR then 0x20 else drive_answers b l p)\<rparr>"

section \<open>Buffers\<close>

lemma ff_alloc_bound: "ff_alloc n a bs = Some (q, bs') \<Longrightarrow> a + 20 \<le> q"
  by (induction n a bs arbitrary: q bs' rule: ff_alloc.induct) (fastforce split: if_splits)+

lemma heap_free_alloc:
  "ff_alloc n a bs = Some (q, bs') \<Longrightarrow> coalesced bs \<Longrightarrow> heap_free q a bs' = bs"
proof (induction bs arbitrary: a q bs')
  case (Cons b bs)
  obtain z u where b: "b = (z, u)" by (cases b)
  show ?case
  proof (cases "\<not> u \<and> n \<le> z")
    case True
    then have q: "q = a + 20" "bs' = carve n z @ bs" using Cons.prems(1) b by auto
    have m: "mark_free (a + 20) (a + 20 + y) zs = zs" for y zs by (rule mark_free_outside) simp
    have "heap_free q a bs' = join ((z, False) # bs)"
    proof (cases "z - n \<ge> 28")
      case True
      then show ?thesis using m [of n "(z - n - 20, False) # bs"] by (simp add: q heap_free_def carve_def)
    qed (simp add: q heap_free_def carve_def m)
    then show ?thesis using True b q Cons.prems(2) by (simp add: join_id)
  next
    case False
    then obtain r where r: "ff_alloc n (a + 20 + z) bs = Some (q, r)" "bs' = (z, u) # r" using Cons.prems(1) b by auto
    have c: "coalesced bs" using Cons.prems(2) by (auto simp: coalesced_def successively_Cons)
    note IH = Cons.IH [OF r(1) c]
    have h: "heap_free q a bs' = join ((z, u) # mark_free q (a + 20 + z) r)" using ff_alloc_bound [OF r(1)] by (simp add: r(2) heap_free_def)
    show ?thesis
    proof (cases u)
      case True
      then show ?thesis using IH h b by (simp add: join_Cons_used heap_free_def)
    next
      case False
      obtain y xs where bs: "bs = (y, True) # xs" using False Cons.prems(2) r(1) b
        by (cases bs) (auto simp: coalesced_def successively_Cons)
      then obtain r' where r': "r = (y, True) # r'" "ff_alloc n (a + 20 + z + 20 + y) xs = Some (q, r')" using r(1) by auto
      then show ?thesis using IH h b ff_alloc_bound [OF r'(2)] by (simp add: heap_free_def)
    qed
  qed
qed simp

lemma ff_alloc_some: "(z, False) \<in> set bs \<Longrightarrow> n \<le> z \<Longrightarrow> \<exists>r. ff_alloc n a bs = Some r"
  by (induction n a bs rule: ff_alloc.induct) auto

lemma ff_alloc_live: "ff_alloc n a bs = Some (q, bs') \<Longrightarrow> \<exists>z. (q, z) \<in> live_blocks a bs' \<and> n \<le> z"
proof (induction n a bs arbitrary: q bs' rule: ff_alloc.induct)
  case (2 n a z u bs)
  then show ?case by (fastforce simp: live_blocks_carve split: if_splits)
qed simp

lemma set_mach_simps [simp]:
  "the_mach (set_mach m s) = m" "set_mach m' (set_mach m s) = set_mach m' s" "set_mach (the_mach s) s = s" "volume (set_mach m s) = volume s"
  "console_ok (set_mach m s) = console_ok s" "scr (kern (set_mach m s)) = scr (kern s)" "cwd_path (set_mach m s) = cwd_path s" "fs (set_mach m s) = fs s"
  by (simp_all add: the_mach_def set_mach_def set_sys_def volume_def the_bus_def console_ok_def)

lemma sh_malloc_ok:
  assumes "heap_at hs pd fpt bs (the_mach s)" and "(z, False) \<in> set bs" and "round8 (unat n) \<le> z" and "n \<noteq> 0" "unat n \<le> 4294967288"
  obtains p k bs' m where "sh_malloc n s = Some (Done (p, set_mach m s))" "p \<noteq> 0" "heap_at hs pd fpt bs' m" "(unat p, k) \<in> live_blocks hs bs'"
    "unat n \<le> k" "heap_free (unat p) hs bs' = bs"
proof -
  let ?m = "the_mach s"
  have R: "heap_rel hs (heap_view ?m) bs" and S: "space_ok hs pd fpt ?m" using assms(1) by (simp_all add: heap_at_def)
  have c: "coalesced bs" "0 < hs" "hs + 262144 < 4294967296" using R by (auto simp: heap_rel_def)
  obtain q bs' where f: "ff_alloc (round8 (unat n)) hs bs = Some (q, bs')" using ff_alloc_some [OF assms(2,3), of hs] by auto
  have n0: "unat n \<noteq> 0" using assms(4) by (simp add: unat_eq_0)
  have a: "heap_alloc (unat n) hs bs = (q, bs')" using f n0 by (simp add: heap_alloc_def)
  obtain h where h: "kmalloc n (heap_view ?m) = Some (Done (of_nat q, h))" "heap_rel hs h bs'"
    "\<forall>y. untouched hs bs y \<longrightarrow> mem h (of_nat y) = mem (heap_view ?m) (of_nat y)"
    using kmalloc_rel(1) [OF R unat_lt32 assms(5) a] by auto
  obtain k where k: "(q, k) \<in> live_blocks hs bs'" "round8 (unat n) \<le> k" using ff_alloc_live [OF f] by blast
  have "q + k \<le> hs + 262144" using live_blocks_bounds [OF k(1)] h(2) by (simp add: heap_rel_def)
  then have q: "unat (of_nat q :: u32) = q" using c(3) by (intro unat_of_nat32) simp
  have "heap_step hs ?m (heap_back ?m h)" using h(3) by (intro heap_back_step [of hs bs]) simp
  note sp = space_step_keeps [OF S this]
  have "heap_at hs pd fpt bs' (heap_back ?m h)" using h(2) S sp by (simp add: heap_at_def space_ok_def)
  moreover have "sh_malloc n s = Some (Done (of_nat q, set_mach (heap_back ?m h) s))"
    using h(1) by (simp add: sh_malloc_def tk_malloc_def ld_malloc_def the_mach_def set_mach_def)
  moreover have "(of_nat q :: u32) \<noteq> 0" using q ff_alloc_bound [OF f] by (metis add_is_0 le_zero_eq unat_0 zero_neq_numeral)
  moreover have "unat n \<le> k" using k(2) by (simp add: round8_def)
  ultimately show thesis using k(1) heap_free_alloc [OF f c(1)] by (intro that [of "of_nat q" "heap_back ?m h" bs' k]) (simp_all add: q)
qed

lemma sh_free_ok:
  assumes "heap_at hs pd fpt bs (the_mach s)" and "(unat p, k) \<in> live_blocks hs bs"
  obtains m where "sh_free p s = Some (Done (set_mach m s))" "heap_at hs pd fpt (heap_free (unat p) hs bs) m"
proof -
  let ?m = "the_mach s"
  have R: "heap_rel hs (heap_view ?m) bs" and S: "space_ok hs pd fpt ?m" using assms(1) by (simp_all add: heap_at_def)
  obtain h where h: "kfree (of_nat (unat p)) (heap_view ?m) = Done h" "heap_rel hs h (heap_free (unat p) hs bs)"
    "live_blocks hs (heap_free (unat p) hs bs) = live_blocks hs bs - {(unat p, k)}"
    "\<And>y. untouched hs bs y \<Longrightarrow> mem h (of_nat y) = mem (heap_view ?m) (of_nat y)"
    by (rule kfree_rel [OF R assms(2)]) (rule that)
  have "heap_step hs ?m (heap_back ?m h)" using h(4) by (intro heap_back_step [of hs bs]) simp
  note sp = space_step_keeps [OF S this]
  show thesis by (rule that [of "heap_back ?m h"])
    (use h(1,2) S sp in \<open>simp_all add: heap_at_def space_ok_def sh_free_def tk_free_def ld_free_def the_mach_def set_mach_def\<close>)
qed

text \<open>A live block lies in the kernel's window, so that the addresses of its bytes are physical ones.\<close>

lemma block_access:
  assumes "heap_at hs pd fpt bs m" and "(p, k) \<in> live_blocks hs bs" and "i < k"
  shows "read8 (of_nat (p + i)) (space m) = Done (phys (space m) (of_nat (p + i)))"
    "write8 (of_nat (p + i)) x (space m) = Done (space (mpoke (p + i) x m))" "p + i < 4294967296"
proof -
  have R: "heap_rel hs (heap_view m) bs" and W: "id_window pd fpt (space m)" "hs + 262144 \<le> 0x100000"
    using assms(1) by (simp_all add: heap_at_def space_ok_def vm_ok_def)
  have b: "p + k \<le> hs + 262144" using live_blocks_bounds [OF assms(2)] R by (simp add: heap_rel_def)
  then have a: "p + i < 0x400000" using W(2) assms(3) by simp
  show "read8 (of_nat (p + i)) (space m) = Done (phys (space m) (of_nat (p + i)))"
    "write8 (of_nat (p + i)) x (space m) = Done (space (mpoke (p + i) x m))" "p + i < 4294967296"
    using byte_access [OF W(1) a] a by (simp_all add: mpoke_def del: of_nat_add)
qed

lemma block_poke:
  assumes "heap_at hs pd fpt bs m" and "(p, k) \<in> live_blocks hs bs" and "i < k"
  shows "heap_at hs pd fpt bs (mpoke (p + i) x m)"
proof -
  have R: "heap_rel hs (heap_view m) bs" and S: "space_ok hs pd fpt m" using assms(1) by (simp_all add: heap_at_def)
  have v: "heap_view (mpoke (p + i) x m) = poke (p + i) x (heap_view m)" by (simp add: heap_view_def mpoke_def poke_def)
  have u: "hs \<le> p + i" "p + i < hs + 262144" "hs + 262144 < 4294967296"
    using live_blocks_bounds [OF assms(2)] R assms(3) by (simp_all add: heap_rel_def)
  have "heap_step hs m (mpoke (p + i) x m)" unfolding heap_step_def mpoke_def
    by (intro exI [of _ "(phys (space m))(of_nat (p + i) := x)"] exI [of _ "heap_head m"])
      (use u in \<open>auto simp: slab_def of_nat_eq_iff32 simp del: of_nat_add\<close>)
  note sp = space_step_keeps [OF S this]
  show ?thesis using poke_rel [OF R assms(2,3)] S sp v by (simp add: heap_at_def space_ok_def)
qed

lemma store_block:
  assumes "heap_at hs pd fpt bs m" and "(p, k) \<in> live_blocks hs bs" and "j + length xs \<le> k"
  shows "\<exists>m'. store_bytes (of_nat (p + j)) xs (space m) = Done (space m') \<and> m' = m\<lparr>space := space m'\<rparr> \<and> heap_at hs pd fpt bs m' \<and>
    (\<forall>i < k. phys (space m') (of_nat (p + i)) = (if j \<le> i \<and> i < j + length xs then xs ! (i - j) else phys (space m) (of_nat (p + i))))"
  using assms(1,3)
proof (induction xs arbitrary: j m)
  case Nil
  then show ?case by (intro exI [of _ m]) auto
next
  case (Cons x xs)
  let ?m = "mpoke (p + j) x m"
  have j: "j < k" "Suc j + length xs \<le> k" using Cons.prems(2) by simp_all
  note A = block_access [OF Cons.prems(1) assms(2) j(1)] and P = block_poke [OF Cons.prems(1) assms(2) j(1), of x]
  from Cons.IH [OF P j(2)] obtain m' where m': "store_bytes (of_nat (p + Suc j)) xs (space ?m) = Done (space m')" "m' = ?m\<lparr>space := space m'\<rparr>"
    "heap_at hs pd fpt bs m'" "\<forall>i < k. phys (space m') (of_nat (p + i)) =
      (if Suc j \<le> i \<and> i < Suc j + length xs then xs ! (i - Suc j) else phys (space ?m) (of_nat (p + i)))" by blast
  have one: "(of_nat (p + j) :: u32) + 1 = of_nat (p + Suc j)" by simp
  have "store_bytes (of_nat (p + j)) (x # xs) (space m) = Done (space m')"
    unfolding store_bytes.simps A(2) one using m'(1) by simp
  moreover have "m' = m\<lparr>space := space m'\<rparr>" by (subst m'(2)) (simp add: mpoke_def)
  moreover have "phys (space ?m) (of_nat (p + i)) = (if i = j then x else phys (space m) (of_nat (p + i)))" if "i < k" for i
    using A(3) block_access(3) [OF Cons.prems(1) assms(2) that] by (simp add: mpoke_def of_nat_eq_iff32 del: of_nat_add)
  ultimately show ?case using m'(3,4)
    by (intro exI [of _ m'] conjI allI impI) (auto simp: nth_Cons' Suc_le_eq)
qed

lemma load_block:
  assumes "heap_at hs pd fpt bs m" and "(p, k) \<in> live_blocks hs bs" and "j + n \<le> k"
  shows "load_bytes (of_nat (p + j)) n (space m) = Done (map (\<lambda>i. phys (space m) (of_nat (p + i))) [j..<j + n])"
  using assms(3)
proof (induction n arbitrary: j)
  case (Suc n)
  have one: "(of_nat (p + j) :: u32) + 1 = of_nat (p + Suc j)" by simp
  have u: "[j..<j + Suc n] = j # [Suc j..<Suc j + n]" by (simp add: upt_conv_Cons)
  have r: "read8 (of_nat (p + j)) (space m) = Done (phys (space m) (of_nat (p + j)))" using block_access(1) [OF assms(1,2)] Suc.prems by simp
  have "load_bytes (of_nat (p + Suc j)) n (space m) = Done (map (\<lambda>i. phys (space m) (of_nat (p + i))) [Suc j..<Suc j + n])"
    using Suc.prems by (intro Suc.IH) simp
  then show ?case unfolding load_bytes.simps one r u by simp
qed simp

lemma put_buffer_ok:
  assumes "heap_at hs pd fpt bs (the_mach s)" and "(unat p, k) \<in> live_blocks hs bs" and "length xs \<le> k"
  obtains m where "put_buffer p xs s = Some (Done (set_mach m s))" "heap_at hs pd fpt bs m"
    "\<And>t n. the_mach t = m \<Longrightarrow> n \<le> length xs \<Longrightarrow> get_buffer p n t = Some (Done (take n xs, t))"
proof -
  from store_block [OF assms(1,2), of 0 xs] assms(3) obtain m where m: "store_bytes p xs (space (the_mach s)) = Done (space m)"
    "m = (the_mach s)\<lparr>space := space m\<rparr>" "heap_at hs pd fpt bs m" "\<forall>i < k. phys (space m) (of_nat (unat p + i)) =
      (if i < length xs then xs ! i else phys (space (the_mach s)) (of_nat (unat p + i)))" by auto
  have e: "set_space (space m) s = set_mach m s" by (subst (2) m(2)) (simp add: set_space_def set_mach_def the_mach_def)
  have "get_buffer p n t = Some (Done (take n xs, t))" if t: "the_mach t = m" "n \<le> length xs" for t n
  proof -
    have "map (\<lambda>i. phys (space m) (of_nat (unat p + i))) [0..<n] = take n xs"
      using m(4) t(2) assms(3) by (intro nth_equalityI) (simp_all del: of_nat_add)
    then have "load_bytes p n (space m) = Done (take n xs)" using load_block [OF m(3) assms(2), of 0 n] t(2) assms(3) by (simp del: of_nat_add)
    then show ?thesis using t(1) by (simp add: get_buffer_def the_space_def the_mach_def)
  qed
  then show thesis using m(1,3) e by (intro that [of m]) (simp_all add: put_buffer_def the_space_def the_mach_def)
qed

section \<open>Printing\<close>

lemma off_disk_refl [simp]: "off_disk p p" by (simp add: off_disk_def)

lemma off_disk_trans [trans]: "off_disk p q \<Longrightarrow> off_disk q r \<Longrightarrow> off_disk p r" by (simp add: off_disk_def)

lemma off_disk_data [simp]: "off_disk p (outb COM1_DATA x q) = off_disk p q"
  by (simp add: off_disk_def outb_def now_def bus_step_def Let_def COM1_DATA_def COM1_BASE_def ATA_REG_COMMAND_def ATA_IO_BASE_def)

lemma off_disk_inb [simp]: "off_disk p (snd (inb port q)) = off_disk p q"
  by (simp add: off_disk_def inb_def now_def bus_step_def Let_def)

lemma off_disk_wait: "wait_tx_empty p = Some q \<Longrightarrow> off_disk p q"
proof (erule wait_tx_empty.raw_induct [where P = off_disk, rotated])
  fix f :: "ports \<Rightarrow> ports option" and p q
  assume IH: "\<And>p q. f p = Some q \<Longrightarrow> off_disk p q"
    and run: "(case inb COM1_LSR p of (st, s) \<Rightarrow> if st AND LSR_THR_EMPTY = 0 then f s else Some s) = Some q"
  have "off_disk p (snd (inb COM1_LSR p))" by (simp only: off_disk_inb off_disk_refl)
  from off_disk_trans [OF this, of q] show "off_disk p q" using run IH by (auto simp: case_prod_beta split: if_splits)
qed

lemma off_disk_putc: "serial_putc c u = Some v \<Longrightarrow> off_disk (bus u) (bus v)"
  by (auto simp: serial_putc_def split: if_splits option.splits dest!: off_disk_wait) (metis off_disk_data off_disk_trans)

lemma off_disk_print: "kprint_color cs fg bg s = Some t \<Longrightarrow> off_disk (bus (com s)) (bus (com t))"
proof (induction cs arbitrary: s)
  case (Cons c cs)
  then obtain u where u: "serial_putc c (com s) = Some u" "kprint_color cs fg bg (draw_char c (vga_color fg bg) (s\<lparr>com := u\<rparr>)) = Some t"
    by (auto simp: kputchar_color_def split: option.splits)
  then show ?case using off_disk_trans [OF off_disk_putc [OF u(1)]] Cons.IH [OF u(2)] by simp
qed simp

lemma shown_by_intros [simp]:
  "shown_by (kprint cs)" "shown_by (say text)" "shown_by (sayln text)" "shown_by (say_in c text)" "shown_by (sayln_in c text)"
  "shown_by (kputchar x)" "shown_by (kprint_dec n)"
proof -
  have k: "kprint = (\<lambda>cs. kprint_color cs VGA_LIGHT_GREY VGA_BLACK)" by (simp add: fun_eq_iff kprint_is_color)
  have p: "kputchar x = kprint [x]" by (simp add: fun_eq_iff split: option.split)
  have d: "kprint_dec n = kprint (dec_string n)" by (simp add: fun_eq_iff kprint_dec_string)
  show "shown_by (kprint cs)" "shown_by (say text)" "shown_by (sayln text)" "shown_by (say_in c text)" "shown_by (sayln_in c text)"
    "shown_by (kputchar x)" "shown_by (kprint_dec n)"
    unfolding p d unfolding shown_by_def k say_def sayln_def say_in_def sayln_in_def by blast+
qed

lemma prints_scr:
  assumes "screen_ok t" and "console_live t" and "\<forall>f \<in> set fs'. shown_by f"
  shows "\<exists>u. fold (\<lambda>f m. and_print m f) fs' (Some t) = Some u \<and> screen_ok u \<and> console_live u \<and> off_disk (bus (com t)) (bus (com u))"
  using assms
proof (induction fs' arbitrary: t)
  case (Cons f fs')
  obtain cs fg bg where f: "f = kprint_color cs fg bg" using Cons.prems(3) by (auto simp: shown_by_def)
  obtain u where u: "kprint_color cs fg bg t = Some u" "screen_ok u" "console_live u" using kprint_ok [OF Cons.prems(1,2)] by blast
  then show ?case using Cons.IH [OF u(2,3)] Cons.prems(3) off_disk_trans [OF off_disk_print [OF u(1)]] f by (auto simp: and_print_def)
qed simp

lemma alike_move:
  assumes "vol_ok b f" and "drive_serves b p" and "media (now b p) = media (now b (disk f))"
  shows "alike b f (f\<lparr>disk := p\<rparr>)"
proof -
  have "disk_of b (f\<lparr>disk := p\<rparr>) = disk_of b f" using assms(3) by (simp add: disk_of_def)
  then show ?thesis using assms(1,2)
    by (auto simp: alike_def vol_ok_def layout_ok_def cache_ok_def copies_agree_def clusters_end_def cluster_bytes_def)
qed

lemma alike_bus:
  assumes "vol_ok b f" and "off_disk (disk f) p"
  shows "alike b f (f\<lparr>disk := p\<rparr>)"
proof (rule alike_move [OF assms(1)])
  show m: "media (now b p) = media (now b (disk f))" using assms(2) by (simp add: off_disk_def)
  show "drive_serves b p" using assms m by (intro serves_cong [of p "disk f"]) (auto simp: vol_ok_def drive_serves_def off_disk_def)
qed

lemma quiet_alike: "quiet b s t \<Longrightarrow> alike b s t"
  using quiet_view [of b s t] same_fs_fields [of s t] by (simp add: alike_def)

lemma alike_keeps:
  assumes "alike b s t"
  shows "vol_ok b t" "dir_ok b t dirs = dir_ok b s dirs" "tidy b t dirs = tidy b s dirs" "holds_file b t dirs n bs = holds_file b s dirs n bs"
    "cwd_cluster t = cwd_cluster s" "writable b t dirs n p olds = writable b s dirs n p olds" "room b t olds = room b s olds"
    "clusters_for t k = clusters_for s k"
proof -
  have "fat_entry b t c = fat_entry b s c" for c using assms by (simp add: alike_def fat_entry_def)
  then have f: "fat_entry b t = fat_entry b s" "clusters_end t = clusters_end s" "cluster_bytes t = cluster_bytes s" "slots t dirs = slots s dirs"
    "file_bytes D t es = file_bytes D s es" for D es
    using assms by (simp_all add: alike_def ext clusters_end_def cluster_bytes_def slots_def slots_of_def sector_list_def lba_of_def
        file_bytes_def cluster_data_def)
  show "vol_ok b t" "dir_ok b t dirs = dir_ok b s dirs" "tidy b t dirs = tidy b s dirs" "holds_file b t dirs n bs = holds_file b s dirs n bs"
    "cwd_cluster t = cwd_cluster s" "writable b t dirs n p olds = writable b s dirs n p olds" "room b t olds = room b s olds"
    "clusters_for t k = clusters_for s k"
    using assms by (simp_all add: alike_def dir_ok_def tidy_def holds_file_def writable_def room_def clusters_for_def f)
qed

lemma prints_ok:
  assumes "console_ok s" and "vol_ok b (volume s)" and "\<forall>f \<in> set fs'. shown_by f"
  obtains t where "prints fs' s = Some (Done t)" "console_ok t" "alike b (volume s) (volume t)" "the_mach t = the_mach s" "cwd_path t = cwd_path s"
proof -
  obtain u where u: "fold (\<lambda>f m. and_print m f) fs' (Some (scr (kern s))) = Some u" "screen_ok u" "console_live u" "off_disk (the_bus s) (bus (com u))"
    using prints_scr assms(1,3) unfolding console_ok_def the_bus_def by blast
  let ?t = "s\<lparr>kern := (kern s)\<lparr>scr := u\<rparr>\<rparr>"
  have "alike b (volume s) (volume ?t)" using alike_bus [OF assms(2), of "bus (com u)"] u(4) by (simp add: volume_def the_bus_def)
  then show thesis using u by (intro that [of ?t]) (simp_all add: prints_def console_ok_def the_mach_def)
qed

section \<open>Calls into the file system\<close>

lemma onfs_simps [simp]:
  "volume (onfs f s) = f" "the_mach (onfs f s) = the_mach s" "onfs g (onfs f s) = onfs g s" "cwd_path (onfs f s) = cwd_path s" "fs (onfs f s) = f"
  "screen_abs (scr (kern (onfs f s))) = screen_abs (scr (kern s))"
  by (simp_all add: onfs_def volume_def the_bus_def the_mach_def on_bus_def screen_abs_def cells_def)

lemma onfs_set_mach: "onfs f (set_mach m s) = set_mach m (onfs f s)"
  by (simp add: onfs_def set_mach_def set_sys_def on_bus_def)

lemma disk_volume [simp]: "disk (volume s) = the_bus s" "mounted (volume s) = mounted (fs s)" "cwd_cluster (volume s) = cwd_cluster (fs s)"
  by (simp_all add: volume_def)

lemma fs_call_eq: "fs_call f s = (case f (volume s) of None \<Rightarrow> None | Some (r, t) \<Rightarrow> Some (Done (r, onfs t s)))"
  by (simp add: fs_call_def volume_def onfs_def split: option.split)

lemma onfs_console:
  assumes "console_ok s" and "undisturbed (the_bus s) (disk f)"
  shows "console_ok (onfs f s)" "sent (the_bus (onfs f s)) = sent (the_bus s)" "g_initialized (com (scr (kern (onfs f s)))) = g_initialized (com (scr (kern s)))"
  using assms by (auto simp: console_ok_def onfs_def on_bus_def the_bus_def undisturbed_def screen_ok_def console_live_def uart_recovers_def)

lemma plain_path:
  assumes "47 \<notin> set name" and "name \<noteq> []" and "0 \<notin> set name" and "length name \<le> 15"
  shows "path_to_parent_and_base name f = Some ((0, cwd_cluster f, name), f)"
proof -
  have d: "descend_loop cs None cur f = Some ((0, cur @ cs), f)" if "47 \<notin> set cs" "length (cur @ cs) \<le> 15" "cur @ cs \<noteq> []" for cs cur
    using that by (induction cs arbitrary: cur) auto
  have "char_at name 0 \<in> set name" using assms(2) by (cases name) (simp_all add: char_at_def)
  then have "char_at name 0 \<noteq> 47" "char_at name 0 \<noteq> 0" using assms(1,3) by metis+
  then show ?thesis using d [of name "[]"] assms by (simp add: path_to_parent_and_base_def path_descend_def fat32_cwd_cluster_def)
qed

lemma name83_chars:
  assumes "name83 n"
  shows "n \<noteq> []" "0 \<notin> set n" "32 \<notin> set n" "length n \<le> 12"
proof -
  let ?b = "takeWhile (\<lambda>c. c \<noteq> 46) n" and ?r = "dropWhile (\<lambda>c. c \<noteq> 46) n"
  have n: "n = ?b @ ?r" by simp
  have b: "?b \<noteq> []" "length ?b \<le> 8" "list_all plain ?b" "?r = [] \<or> tl ?r \<noteq> [] \<and> length (tl ?r) \<le> 3 \<and> list_all plain (tl ?r)"
    using assms unfolding name83_def Let_def by - (elim conjE, assumption)+
  have r: "?r = [] \<or> (\<exists>e. ?r = 46 # e \<and> length e \<le> 3 \<and> list_all plain e)" 
  proof (cases ?r)
    case (Cons c e)
    then have "c = 46" using hd_dropWhile [of "\<lambda>c. c \<noteq> 46" n] by auto
    then show ?thesis using b(4) unfolding Cons by simp
  qed simp
  obtain x y where x: "n = x @ y" "x \<noteq> []" "length x \<le> 8" "list_all plain x" "y = [] \<or> (\<exists>e. y = 46 # e \<and> length e \<le> 3 \<and> list_all plain e)"
    by (rule that [OF n b(1-3) r])
  have c: "plain c \<or> c = 46" if "c \<in> set n" for c using that x(1,4,5) by (auto simp: list_all_iff)
  show "n \<noteq> []" using x(1,2) by simp
  show "0 \<notin> set n" using c [of 0] by (auto simp: plain_def)
  show "32 \<notin> set n" using c [of 32] by (auto simp: plain_def)
  show "length n \<le> 12" using x(1,3,5) by auto
qed

lemma restore_same:
  assumes "2 \<le> unat (cwd_cluster (fs s))"
  shows "restore_cwd (cwd_cluster (fs s)) s = s"
  using assms by (simp add: restore_cwd_def fat32_set_cwd_cluster_def word_less_nat_alt)

lemma dir_cwd: "dir_ok b f dirs \<Longrightarrow> dirs \<noteq> [] \<Longrightarrow> 2 \<le> unat (cwd_cluster f)"
  by (cases dirs) (auto simp: dir_ok_def)

section \<open>The command \<open>write\<close>\<close>

lemma join_args_length: "length acc \<le> lim \<Longrightarrow> length (join_args lim first as acc) \<le> lim"
  by (induction lim first as acc rule: join_args.induct) (auto simp: Let_def)

lemma cmd_write_ok:
  assumes "shell_ready hs pd fpt bs b dirs s" and "(z, False) \<in> set bs" and "8192 \<le> z"
    and "name83 name" and "47 \<notin> set name" and "writable b (volume s) dirs (to_short_name name) p olds" and "args \<noteq> []"
    and "clusters_for (volume s) (length (join_args 8192 True args [])) \<le> room b (volume s) olds"
  obtains t where "cmd_write v (w # name # args) s = Some (Done t)" "shell_ready hs pd fpt bs b dirs t"
    "holds_file b (volume t) dirs name (join_args 8192 True args [])" "cwd_path t = cwd_path s"
proof -
  let ?x = "join_args 8192 True args []"
  note R = assms(1) [unfolded shell_ready_def] and N = name83_chars [OF assms(4)]
  have W: "unat WRITE_BUF_SIZE = 8192" "round8 (unat WRITE_BUF_SIZE) \<le> z" "WRITE_BUF_SIZE \<noteq> 0" "unat WRITE_BUF_SIZE \<le> 4294967288"
    using assms(3) by (simp_all add: WRITE_BUF_SIZE_def round8_def)
  have xl: "length ?x \<le> 8192" by (rule join_args_length) simp
  have len: "unat (of_nat (length ?x) :: u32) = length ?x" using xl by (intro unat_of_nat32) simp
  obtain q k cs m1 where m1: "sh_malloc WRITE_BUF_SIZE s = Some (Done (q, set_mach m1 s))" "q \<noteq> 0" "heap_at hs pd fpt cs m1"
    "(unat q, k) \<in> live_blocks hs cs" "unat WRITE_BUF_SIZE \<le> k" "heap_free (unat q) hs cs = bs"
    by (rule sh_malloc_ok [OF _ assms(2) W(2-4), of hs pd fpt s]) (use R in blast)+
  obtain m2 where m2: "put_buffer q ?x (set_mach m1 s) = Some (Done (set_mach m2 s))" "heap_at hs pd fpt cs m2"
    "\<And>t n. the_mach t = m2 \<Longrightarrow> n \<le> length ?x \<Longrightarrow> get_buffer q n t = Some (Done (take n ?x, t))"
    by (rule put_buffer_ok [of hs pd fpt cs "set_mach m1 s" q k ?x]) (use m1 W(1) xl in auto)
  have pa: "path_to_parent_and_base name (volume s) = Some ((0, cwd_cluster (fs s), name), volume s)"
    using plain_path [OF assms(5) N(1,2), of "volume s"] N(4) by simp
  let ?s3 = "onfs (volume s) (set_mach m2 s)"
  have rm: "clusters_for (volume s) (unat (of_nat (length ?x) :: u32)) \<le> room b (volume s) olds" using assms(8) len by simp
  obtain f where f: "fat32_write_file name ?x (of_nat (length ?x)) (volume s) = Some (0, f)" "vol_ok b f" "same_fs (volume s) f" "dir_ok b f dirs"
    "tidy b f dirs" "holds_file b f dirs name ?x"
    by (rule write_holds [OF _ _ _ assms(4,6) rm len [symmetric]]) (use R in blast)+
  let ?s4 = "onfs f (set_mach m2 s)"
  have dn: "dirs \<noteq> []" using assms(6) place_in by (fastforce simp: writable_def slots_def slots_of_def sector_list_def)
  have cw: "cwd_cluster f = cwd_cluster (fs s)" "2 \<le> unat (cwd_cluster f)" using same_fs_fields(9) [OF f(3)] dir_cwd [OF f(4) dn] by simp_all
  have re: "restore_cwd (cwd_cluster (fs s)) ?s4 = ?s4" using restore_same [of ?s4] cw by simp
  obtain m5 where m5: "sh_free q ?s4 = Some (Done (set_mach m5 ?s4))" "heap_at hs pd fpt bs m5"
    by (rule sh_free_ok [of hs pd fpt cs ?s4 q k]) (use m1(4,6) m2(2) in auto)
  have c4: "console_ok (set_mach m5 ?s4)" "vol_ok b (volume (set_mach m5 ?s4))"
    using onfs_console(1) [of "set_mach m2 s" f] R same_fs_bus [OF f(3)] f(2) by (simp_all add: the_bus_def)
  have sh: "\<forall>f \<in> set [say ''wrote '', kprint_dec (of_nat (length ?x)), say '' bytes to '', kprint name, kprint [10]]. shown_by f" by simp
  obtain t where t: "prints [say ''wrote '', kprint_dec (of_nat (length ?x)), say '' bytes to '', kprint name, kprint [10]] (set_mach m5 ?s4) = Some (Done t)"
    "console_ok t" "alike b (volume (set_mach m5 ?s4)) (volume t)" "the_mach t = the_mach (set_mach m5 ?s4)" "cwd_path t = cwd_path (set_mach m5 ?s4)"
    by (rule prints_ok [OF c4 sh])
  have mt: "fat32_is_mounted (fs s)" using R by (simp add: vol_ok_def layout_ok_def fat32_is_mounted_def)
  have g: "get_buffer q (unat (of_nat (length ?x) :: u32)) ?s3 = Some (Done (?x, ?s3))" using m2(3) [of ?s3 "length ?x"] len by simp
  have "cmd_write v (w # name # args) s = Some (Done t)"
    using assms(7) mt m1(1,2) m2(1) g m5(1) t(1) re by (simp add: cmd_write_def W(1) fs_call_eq pa f(1))
  moreover have "shell_ready hs pd fpt bs b dirs t"
    using t(2,4) m5(2) alike_keeps(1-3) [OF t(3)] f(4,5) by (simp add: shell_ready_def)
  moreover have "holds_file b (volume t) dirs name ?x" using alike_keeps(4) [OF t(3)] f(6) by simp
  ultimately show thesis using t(5) by (intro that [of t]) simp_all
qed

section \<open>The command \<open>cat\<close>\<close>

lemma fold_chars: "fold (\<lambda>f m. and_print m f) (map kputchar cs) (Some t) = kprint cs t"
proof (induction cs arbitrary: t)
  case (Cons c cs)
  have "fold (\<lambda>f m. and_print m f) fs None = None" for fs by (induction fs) (simp_all add: and_print_def)
  then show ?case using Cons by (simp add: and_print_def split: option.split)
qed simp

lemma prints_text:
  assumes "console_ok s" and "vol_ok b (volume s)"
  obtains t where "prints (map kputchar cs) s = Some (Done t)" "console_ok t" "alike b (volume s) (volume t)" "the_mach t = the_mach s"
    "cwd_path t = cwd_path s" "screen_abs (scr (kern t)) = fold (\<lambda>c. type_char c (vga_color VGA_LIGHT_GREY VGA_BLACK)) cs (screen_abs (scr (kern s)))"
    "sent (the_bus t) = sent (the_bus s) @ mirrored (scr (kern s)) cs"
proof -
  have c: "screen_ok (scr (kern s))" "console_live (scr (kern s))" using assms(1) by (simp_all add: console_ok_def)
  obtain u where u: "kprint cs (scr (kern s)) = Some u" "screen_ok u" "console_live u"
    "screen_abs u = fold (\<lambda>c. type_char c (vga_color VGA_LIGHT_GREY VGA_BLACK)) cs (screen_abs (scr (kern s)))"
    "sent (bus (com u)) = sent (bus (com (scr (kern s)))) @ mirrored (scr (kern s)) cs"
    using kprint_color_returns [OF c, of cs VGA_LIGHT_GREY VGA_BLACK] unfolding kprint_is_color by blast
  obtain t where t: "prints (map kputchar cs) s = Some (Done t)" "console_ok t" "alike b (volume s) (volume t)" "the_mach t = the_mach s" "cwd_path t = cwd_path s"
    by (rule prints_ok [OF assms, of "map kputchar cs"]) auto
  have "scr (kern t) = u" using t(1) u(1) by (auto simp: prints_def fold_chars)
  then show thesis using t u by (intro that [of t]) (simp_all add: the_bus_def)
qed

lemma cat_chars_text: "cat_chars xs @ (if 0 < int (length xs) \<and> last xs \<noteq> 10 then [kputchar 10] else []) = map kputchar (cat_text xs)"
  by (simp add: cat_chars_def cat_text_def)

lemma cmd_cat_ok:
  assumes "shell_ready hs pd fpt bs b dirs s" and "(z, False) \<in> set bs" and "16384 \<le> z"
    and "name83 name" and "47 \<notin> set name" and "holds_file b (volume s) dirs name xs" and "length xs \<le> 16384"
  obtains t where "cmd_cat v [w, name] s = Some (Done t)" "shell_ready hs pd fpt bs b dirs t" "holds_file b (volume t) dirs name xs"
    "cwd_path t = cwd_path s"
    "screen_abs (scr (kern t)) = fold (\<lambda>c. type_char c (vga_color VGA_LIGHT_GREY VGA_BLACK)) (cat_text xs) (screen_abs (scr (kern s)))"
    "sent (the_bus t) = sent (the_bus s) @ mirrored (scr (kern s)) (cat_text xs)"
proof -
  note R = assms(1) [unfolded shell_ready_def] and N = name83_chars [OF assms(4)]
  have C: "unat CAT_BUF_SIZE = 16384" "round8 (unat CAT_BUF_SIZE) \<le> z" "CAT_BUF_SIZE \<noteq> 0" "unat CAT_BUF_SIZE \<le> 4294967288"
    using assms(3) by (simp_all add: CAT_BUF_SIZE_def round8_def)
  have pa: "path_to_parent_and_base name (volume s) = Some ((0, cwd_cluster (fs s), name), volume s)"
    using plain_path [OF assms(5) N(1,2), of "volume s"] N(4) by simp
  have lim: "length xs \<le> unat CAT_BUF_SIZE" using assms(7) C(1) by simp
  obtain e u where u: "fat32_find name (volume s) = Some (Some e, u)" "quiet b (volume s) u" "e_attr e AND FAT_ATTR_DIRECTORY = 0"
    "\<And>q. quiet b (volume s) q \<Longrightarrow> \<exists>v. fat32_read_file e CAT_BUF_SIZE q = Some (sint (of_nat (length xs) :: u32), xs, v) \<and> quiet b q v"
    by (rule holds_read [OF _ _ assms(6) lim]) (use R in blast)+
  obtain y where y: "fat32_read_file e CAT_BUF_SIZE u = Some (sint (of_nat (length xs) :: u32), xs, y)" "quiet b u y" using u(4) [OF u(2)] by blast
  note qy = quiet_trans [OF u(2) y(2)] note Ay = alike_keeps [OF quiet_alike [OF qy]]
  have si: "sint (of_nat (length xs) :: u32) = int (length xs)"
    using assms(7) by (simp add: signed_of_nat signed_take_bit_int_eq_self)
  have dn: "dirs \<noteq> []" using assms(6) by (auto simp: holds_file_def slots_def slots_of_def sector_list_def found_def)
  have cw: "cwd_cluster u = cwd_cluster (fs s)" "2 \<le> unat (cwd_cluster u)"
    using alike_keeps(5) [OF quiet_alike [OF u(2)]] dir_cwd [OF _ dn, of b "volume s"] R by simp_all
  have re: "restore_cwd (cwd_cluster (fs s)) (onfs u s) = onfs u s" using restore_same [of "onfs u s"] cw by simp
  obtain q k cs m1 where m1: "sh_malloc CAT_BUF_SIZE (onfs u s) = Some (Done (q, set_mach m1 (onfs u s)))" "q \<noteq> 0" "heap_at hs pd fpt cs m1"
    "(unat q, k) \<in> live_blocks hs cs" "unat CAT_BUF_SIZE \<le> k" "heap_free (unat q) hs cs = bs"
    by (rule sh_malloc_ok [OF _ assms(2) C(2-4), of hs pd fpt "onfs u s"]) (use R in simp_all)
  let ?s3 = "onfs y (set_mach m1 (onfs u s))"
  obtain m2 where m2: "put_buffer q xs ?s3 = Some (Done (set_mach m2 ?s3))" "heap_at hs pd fpt cs m2"
    "\<And>t n. the_mach t = m2 \<Longrightarrow> n \<le> length xs \<Longrightarrow> get_buffer q n t = Some (Done (take n xs, t))"
    by (rule put_buffer_ok [of hs pd fpt cs ?s3 q k xs]) (use m1 lim in auto)
  let ?s4 = "set_mach m2 ?s3"
  have g: "get_buffer q (length xs) ?s4 = Some (Done (xs, ?s4))" using m2(3) [of ?s4 "length xs"] by simp
  have U: "undisturbed (the_bus s) (disk y)" using same_fs_bus [OF quiet_view(2) [OF qy]] by simp
  have s4: "?s4 = set_mach m2 (onfs y s)" by (simp add: onfs_set_mach)
  note O = onfs_console [OF conjunct1 [OF conjunct2 [OF R]] U]
  have c4: "console_ok ?s4" "vol_ok b (volume ?s4)" unfolding s4 using O Ay(1) by simp_all
  obtain t where t: "prints (map kputchar (cat_text xs)) ?s4 = Some (Done t)" "console_ok t" "alike b (volume ?s4) (volume t)" "the_mach t = the_mach ?s4"
    "cwd_path t = cwd_path ?s4" "screen_abs (scr (kern t)) = fold (\<lambda>c. type_char c (vga_color VGA_LIGHT_GREY VGA_BLACK)) (cat_text xs) (screen_abs (scr (kern ?s4)))"
    "sent (the_bus t) = sent (the_bus ?s4) @ mirrored (scr (kern ?s4)) (cat_text xs)" by (rule prints_text [OF c4])
  obtain m5 where m5: "sh_free q t = Some (Done (set_mach m5 t))" "heap_at hs pd fpt bs m5"
    by (rule sh_free_ok [of hs pd fpt cs t q k]) (use m1(4,6) m2(2) t(4) in auto)
  have mt: "fat32_is_mounted (fs s)" using R by (simp add: vol_ok_def layout_ok_def fat32_is_mounted_def)
  have p: "prints (cat_chars xs @ (if 0 < int (length xs) \<and> last xs \<noteq> 10 then [kputchar 10] else [])) ?s4 = Some (Done t)"
    unfolding cat_chars_text by (rule t(1))
  have "read_into e q CAT_BUF_SIZE (set_mach m1 (onfs u s)) = Some (Done (int (length xs), ?s4))"
    using y(1) m2(1) by (simp add: read_into_def fs_call_eq si)
  then have "cmd_cat v [w, name] s = Some (Done (set_mach m5 t))"
    using mt m1(1,2) g m5(1) p u(3) re by (simp add: cmd_cat_def at_path_def fs_call_eq pa u(1) del: of_nat_0_less_iff)
  moreover have "shell_ready hs pd fpt bs b dirs (set_mach m5 t)"
    using t(2) m5(2) alike_keeps(1-3) [OF t(3)] Ay(2,3) R by (simp add: shell_ready_def)
  moreover have "holds_file b (volume (set_mach m5 t)) dirs name xs" using alike_keeps(4) [OF t(3)] Ay(4) assms(6) by simp
  moreover have "sent (the_bus t) = sent (the_bus s) @ mirrored (scr (kern s)) (cat_text xs)"
    using t(7) O unfolding s4 by (simp add: mirrored_def the_bus_def)
  ultimately show thesis using t(5,6) unfolding s4 by (intro that [of "set_mach m5 t"]) (simp_all add: the_bus_def)
qed

section \<open>Properties\<close>

lemma exec_write: "exec_loop cmds v (cstr ''write'' # argv) s = cmd_write v (cstr ''write'' # argv) s"
  by (simp add: cmds_def cmd_texts_def cmd_fns_def cstr_def char_at_def)

lemma exec_cat: "exec_loop cmds v (cstr ''cat'' # argv) s = cmd_cat v (cstr ''cat'' # argv) s"
  by (simp add: cmds_def cmd_texts_def cmd_fns_def cstr_def char_at_def)

text \<open>
  C4: A text that is written to a file from the shell is shown again by \<open>cat\<close>.  The shell is at its prompt with a heap in which a
  block of 16 KiB is free, a live console and a sound volume with enough free clusters.  Then the line
  \<open>write <name> <text>\<close> and after it the line \<open>cat <name>\<close> both return to the prompt; \<open>cat\<close> types exactly the words of the first line, separated
  by spaces, and a newline, and sends them on the serial line; the heap has the same blocks as before the two lines, so no
  buffer is lost, and the volume, the working directory and the path are as a next command expects them.
\<close>

theorem write_then_cat:
  assumes "shell_ready hs pd fpt bs b dirs s" and "(z, False) \<in> set bs" and "16384 \<le> z"
    and "name83 name" and "47 \<notin> set name" and "writable b (volume s) dirs (to_short_name name) p olds"
    and "parse line = cstr ''write'' # name # args" and "args \<noteq> []" and "parse line' = [cstr ''cat'', name]"
    and "clusters_for (volume s) (length (join_args 8192 True args [])) \<le> room b (volume s) olds"
  shows "\<exists>t u. exec v line s = Some (Done t) \<and> exec v line' t = Some (Done u) \<and>
    screen_abs (scr (kern u)) =
      fold (\<lambda>c. type_char c (vga_color VGA_LIGHT_GREY VGA_BLACK)) (cat_text (join_args 8192 True args [])) (screen_abs (scr (kern t))) \<and>
    sent (the_bus u) = sent (the_bus t) @ mirrored (scr (kern t)) (cat_text (join_args 8192 True args [])) \<and>
    shell_ready hs pd fpt bs b dirs u \<and> holds_file b (volume u) dirs name (join_args 8192 True args []) \<and> cwd_path u = cwd_path s"
proof -
  let ?x = "join_args 8192 True args []"
  have z: "8192 \<le> z" using assms(3) by simp
  have l: "length ?x \<le> 16384" using join_args_length [of "[]" 8192 True args] by simp
  obtain t where t: "cmd_write v (cstr ''write'' # name # args) s = Some (Done t)" "shell_ready hs pd fpt bs b dirs t"
    "holds_file b (volume t) dirs name ?x" "cwd_path t = cwd_path s"
    by (rule cmd_write_ok [OF assms(1,2) z assms(4-6,8,10)])
  obtain u where u: "cmd_cat v [cstr ''cat'', name] t = Some (Done u)" "shell_ready hs pd fpt bs b dirs u" "holds_file b (volume u) dirs name ?x"
    "cwd_path u = cwd_path t"
    "screen_abs (scr (kern u)) = fold (\<lambda>c. type_char c (vga_color VGA_LIGHT_GREY VGA_BLACK)) (cat_text ?x) (screen_abs (scr (kern t)))"
    "sent (the_bus u) = sent (the_bus t) @ mirrored (scr (kern t)) (cat_text ?x)"
    by (rule cmd_cat_ok [OF t(2) assms(2-5) t(3) l])
  have "exec v line s = Some (Done t)" "exec v line' t = Some (Done u)" using t(1) u(1) assms(7,9) by (simp_all add: exec_def exec_write exec_cat)
  then show ?thesis using t(4) u(2-6) by auto
qed

lemma read_log_cong: "\<forall>l. f l p = g l p \<Longrightarrow> read_log f p n l = read_log g p n l"
  by (induction n arbitrary: l) simp_all

lemma bus_with_serves:
  assumes "\<forall>d n. length (media b d n) = 512"
  shows "drive_serves b (bus_with b)"
proof -
  let ?s = "\<lparr>io_log = [], io_in = drive_answers b\<rparr>"
  have a: "io_in (bus_with b) l q = drive_answers b l q" if "q = ATA_REG_STATUS \<or> q = ATA_REG_DATA" for l q
    using that by (auto simp: bus_with_def COM1_LSR_def COM1_BASE_def ATA_REG_STATUS_def ATA_REG_DATA_def ATA_IO_BASE_def)
  have "polls_to (io_in (bus_with b)) ATA_REG_STATUS good l = polls_to (drive_answers b) ATA_REG_STATUS good l" for good l
    using read_log_cong [of "io_in (bus_with b)" ATA_REG_STATUS "drive_answers b"] a by (simp add: polls_to_def)
  moreover have "now b (bus_with b) = now b ?s" by (simp add: now_def bus_with_def)
  moreover have "drive_serves b ?s" by (rule answers_serve) (use assms in \<open>simp_all add: now_def\<close>)
  ultimately show ?thesis using a by (simp add: drive_serves_def)
qed

lemma bus_with_uart: "uart_recovers (bus_with b)"
  by (auto simp: uart_recovers_def polls_to_def bus_with_def LSR_THR_EMPTY_def)

lemma demo_session:
  obtains s :: shell where "shell_ready 0x10000 0x50000 0x51000 [(262124, False)] demo_disks [2] s" "alike demo_disks demo_fs (volume s)"
proof -
  obtain m where m: "mach_ok 0x10000 0x50000 0x51000 m" "heap_rel 0x10000 (heap_view m) [(262124, False)]" by (rule demo_machine)
  obtain s0 :: shell where s0: "scr (kern s0) = demo_screen" by (rule demo_shell) (rule that)
  let ?k = "(kern s0)\<lparr>scr := demo_screen\<lparr>com := \<lparr>bus = bus_with demo_disks, g_initialized = 1\<rparr>\<rparr>\<rparr>"
  let ?s = "set_mach m (s0\<lparr>fs := demo_fs, kern := ?k\<rparr>)"
  have h: "heap_at 0x10000 0x50000 0x51000 [(262124, False)] m" using m by (simp add: heap_at_def mach_ok_def)
  have c: "console_ok ?s" using demo_screen_ok(1) bus_with_uart by (simp add: console_ok_def screen_ok_def console_live_def)
  have v: "volume ?s = demo_fs\<lparr>disk := bus_with demo_disks\<rparr>" by (simp add: volume_def the_bus_def)
  have a: "alike demo_disks demo_fs (volume ?s)" unfolding v
    by (rule alike_move [OF demo_vol bus_with_serves]) (simp_all add: now_def bus_with_def demo_fs_def demo_disks_def demo_lengths)
  show thesis by (rule that [of ?s]) (use h c a alike_keeps(1-3) [OF a] demo_dir_ok demo_tidy in \<open>simp_all add: shell_ready_def\<close>)
qed

theorem write_then_cat_witness:
  "\<exists>v s t u. exec v (cstr ''write B hi'') s = Some (Done t) \<and> exec v (cstr ''cat B'') t = Some (Done u) \<and>
     holds_file demo_disks (volume u) [2] [66] [104, 105, 10]"
proof -
  obtain s :: shell where s: "shell_ready 0x10000 0x50000 0x51000 [(262124, False)] demo_disks [2] s" "alike demo_disks demo_fs (volume s)"
    by (rule demo_session)
  note A = alike_keeps [OF s(2)]
  have p: "parse (cstr ''write B hi'') = cstr ''write'' # [66] # [[104, 105]]" "parse (cstr ''cat B'') = [cstr ''cat'', [66]]" by code_simp+
  have x: "join_args 8192 True [[104, 105]] [] = [104, 105, 10]" by (simp add: until_nul_def)
  have w: "writable demo_disks (volume s) [2] (to_short_name [66]) (3, 1) []" using A(6) demo_writable(2) by simp
  have r: "clusters_for (volume s) (length (join_args 8192 True [[104, 105]] [])) \<le> room demo_disks (volume s) []"
    unfolding x A(7,8) demo_room(1) by (simp add: clusters_for_def demo_numbers)
  have q: "(262124, False) \<in> set [(262124, False)]" "(16384 :: nat) \<le> 262124" "47 \<notin> set [66 :: u8]" "[[104, 105 :: u8]] \<noteq> []" by simp_all
  from write_then_cat [OF s(1) q(1,2) demo_names83(2) q(3) w p(1) q(4) p(2) r] show ?thesis unfolding x by blast
qed

end
