(* ===== verification/Boot.thy ===== *)
theory Boot
  imports Kernel Shell_Files
begin

text \<open>
  Mounting a volume (\<open>fat32_mount\<close> of \<^verbatim>\<open>src/fs/fat32.c\<close>) and the boot sequence of \<open>kmain\<close>
  (\<^verbatim>\<open>src/kernel/kernel.c\<close>): the order in which the components are started establishes what the shell relies on.
\<close>

unbundle bit_operations_syntax

section \<open>Definitions\<close>

text \<open>A boot sector whose numbers fit the disk, and a disk whose copies of the table agree.\<close>

definition bpb_total :: "bpb32 \<Rightarrow> nat" where
  "bpb_total p = (if bpb_total_sectors_32 p \<noteq> 0 then unat (bpb_total_sectors_32 p) else unat (bpb_total_sectors_16 p))"

definition bpb_data :: "bpb32 \<Rightarrow> nat" where
  "bpb_data p = unat (bpb_reserved_sectors p) + unat (bpb_num_fats p) * unat (bpb_fat_size_32 p)"

definition bpb_ok :: "bpb32 \<Rightarrow> bool" where
  "bpb_ok p \<longleftrightarrow> bpb_bytes_per_sector p = 512 \<and> 0 < unat (bpb_sectors_per_cluster p) \<and> unat (bpb_sectors_per_cluster p) \<le> 128 \<and>
     0 < unat (bpb_num_fats p) \<and> 0 < unat (bpb_fat_size_32 p) \<and> bpb_data p \<le> bpb_total p \<and> bpb_total p \<le> 0x10000000 \<and>
     (bpb_total p - bpb_data p) div unat (bpb_sectors_per_cluster p) + 2 \<le> 128 * unat (bpb_fat_size_32 p)"

definition formatted :: "(nat \<Rightarrow> u8 list) \<Rightarrow> bool" where
  "formatted D \<longleftrightarrow> (let p = bpb_of (D 0) in bpb_ok p \<and>
     (\<forall>f < unat (bpb_num_fats p). \<forall>i < unat (bpb_fat_size_32 p).
        D (unat (bpb_reserved_sectors p) + f * unat (bpb_fat_size_32 p) + i) = D (unat (bpb_reserved_sectors p) + i)))"

text \<open>A machine during the boot: the console works, and the drives serve and have the contents \<open>D\<close>.\<close>

definition devices_ok :: "ata_bus \<Rightarrow> (bool \<Rightarrow> nat \<Rightarrow> u8 list) \<Rightarrow> machine \<Rightarrow> bool" where
  "devices_ok b D m \<longleftrightarrow> console_ok (shl m) \<and>
     drive_serves b (the_bus (shl m)) \<and> media (now b (the_bus (shl m))) = D"

abbreviation sys_of :: "machine \<Rightarrow> sched" where
  "sys_of m \<equiv> sys (kern (shl m))"

text \<open>A message was printed: nothing but the console has changed.\<close>

definition printed :: "ata_bus \<Rightarrow> (bool \<Rightarrow> nat \<Rightarrow> u8 list) \<Rightarrow> machine \<Rightarrow> machine \<Rightarrow> bool" where
  "printed b D m n \<longleftrightarrow> devices_ok b D n \<and> sys_of n = sys_of m \<and> fs (shl n) = fs (shl m) \<and> gates n = gates m \<and> cwd_path (shl n) = cwd_path (shl m)"

text \<open>A boot sector of a volume with two copies of a one-sector table and 20 clusters of one sector, in front of the example volume.\<close>

definition demo_boot_sector :: "u8 list" where
  "demo_boot_sector = replicate 11 0 @ [0, 2, 1, 1, 0, 2, 0, 0, 23, 0] @ replicate 15 0 @ [1, 0, 0, 0] @ replicate 4 0 @ [2, 0, 0, 0] @ replicate 464 0"

definition boot_disks :: ata_bus where
  "boot_disks = demo_disks\<lparr>media := (\<lambda>d n. if n = 0 then demo_boot_sector else media demo_disks d n)\<rparr>"

definition demo_placement :: placement where
  "demo_placement = \<lparr>gdt_addr = 0x60000, tss_addr = 0x60100, idt_addr = 0x61000, stub_table = (\<lambda>i. of_nat (0x70000 + 16 * i)), stub_128 = 0x71000,
     page_directory_addr = 0x50000, first_table_addr = 0x51000, heap_addr = 0x10000, firmware_map = sample_map\<rparr>"

section \<open>Mounting\<close>

lemma unat_ucast16: "unat (ucast (x :: u16) :: u32) = unat x"
  by (simp add: unsigned_ucast_eq unsigned_take_bit_eq take_bit_nat_eq_self_iff order_less_trans [OF unsigned_less])

lemma mount_ok:
  assumes "drive_serves b (disk s)" and "formatted (media (now b (disk s)) (bit drive 0))"
    and "length (fat_sector_buf s) = 512" and "length (cluster_buf s) = 65536"
  obtains t where "fat32_mount drive s = Some (0, t)" "vol_ok b t" "disk_of b t = media (now b (disk s)) (bit drive 0)" "undisturbed (disk s) (disk t)"
    "media (now b (disk t)) = media (now b (disk s))"
    "cwd_cluster t = bpb_root_cluster (bpb_of (media (now b (disk s)) (bit drive 0) 0))" "root_cluster t = cwd_cluster t"
    "unat (fat_start_lba t) = unat (bpb_reserved_sectors (bpb_of (media (now b (disk s)) (bit drive 0) 0)))"
    "unat (data_start_lba t) = bpb_data (bpb_of (media (now b (disk s)) (bit drive 0) 0))"
proof -
  let ?D = "media (now b (disk s)) (bit drive 0)"
  define p where "p = bpb_of (?D 0)"
  have B: "bpb_ok p" and C: "\<forall>f < unat (bpb_num_fats p). \<forall>i < unat (bpb_fat_size_32 p).
        ?D (unat (bpb_reserved_sectors p) + f * unat (bpb_fat_size_32 p) + i) = ?D (unat (bpb_reserved_sectors p) + i)"
    using assms(2) by (auto simp: formatted_def p_def Let_def)
  obtain q where q: "ata_read drive 0 1 (disk s) = Some (0, ?D 0, q)" "drive_serves b q" "media (now b q) = media (now b (disk s))"
    by (rule ata_read_ok [of 1 0 b "disk s" drive]) (use assms(1) in \<open>simp_all add: sectors_1\<close>)
  let ?ds = "ucast (bpb_reserved_sectors p) + ucast (bpb_num_fats p) * bpb_fat_size_32 p :: u32"
  let ?tot = "if bpb_total_sectors_32 p \<noteq> 0 then bpb_total_sectors_32 p else ucast (bpb_total_sectors_16 p) :: u32"
  let ?tc = "(?tot - ?ds) div ucast (bpb_sectors_per_cluster p)"
  let ?t = "s\<lparr>disk := q, fs_drive := drive, bytes_per_sector := bpb_bytes_per_sector p,
     sectors_per_cluster := bpb_sectors_per_cluster p, num_fats := bpb_num_fats p,
     fat_start_lba := ucast (bpb_reserved_sectors p), fat_size := bpb_fat_size_32 p, data_start_lba := ?ds, root_cluster := bpb_root_cluster p,
     cwd_cluster := bpb_root_cluster p, mounted := True, alloc_hint := 2, fat_sector_cached_lba := 0xFFFFFFFF, total_clusters := ?tc\<rparr>"
  have N: "bpb_bytes_per_sector p = 512" "bpb_sectors_per_cluster p \<noteq> 0" "bpb_fat_size_32 p \<noteq> 0"
    "\<not> FAT32_CLUSTER_BUF_MAX < ucast (bpb_sectors_per_cluster p) * 512"
    using B by (auto simp: bpb_ok_def FAT32_CLUSTER_BUF_MAX_def word_less_nat_alt unat_word_ariths)
  have run: "fat32_mount drive s = Some (0, ?t)"
    using q(1) N by (simp add: fat32_mount_def fs_read_def p_def [symmetric] Let_def)
  have m: "unat (ucast (bpb_num_fats p) * bpb_fat_size_32 p :: u32) = unat (bpb_num_fats p) * unat (bpb_fat_size_32 p)"
    using B by (simp add: bpb_ok_def bpb_data_def unat_word_ariths)
  have ds: "unat ?ds = bpb_data p" using B m by (subst unat_plus32) (simp_all add: bpb_ok_def bpb_data_def unat_ucast16)
  have tot: "unat ?tot = bpb_total p" by (simp add: bpb_total_def unat_ucast16)
  have "unat (?tot - ?ds) = bpb_total p - bpb_data p"
    using B ds tot by (subst unat_minus32) (simp_all add: word_le_nat_alt bpb_ok_def)
  then have tc: "unat ?tc = (bpb_total p - bpb_data p) div unat (bpb_sectors_per_cluster p)" by (simp add: unat_div)
  have D: "disk_of b ?t = ?D" using q(3) by (simp add: disk_of_def)
  have bd: "bpb_data p + (bpb_total p - bpb_data p) div unat (bpb_sectors_per_cluster p) * unat (bpb_sectors_per_cluster p) \<le> 0x10000000"
    using div_times_less_eq_dividend [of "bpb_total p - bpb_data p" "unat (bpb_sectors_per_cluster p)"] B unfolding bpb_ok_def by linarith
  have "layout_ok ?t" unfolding layout_ok_def clusters_end_def cluster_bytes_def
    using B assms(3,4) bd by (simp add: ds tc unat_ucast16 bpb_ok_def) (simp add: bpb_data_def)
  moreover have "copies_agree b ?t" unfolding copies_agree_def D using C by (simp add: unat_ucast16)
  moreover have "cache_ok b ?t" by (simp add: cache_ok_def)
  ultimately have "vol_ok b ?t" using q(2) by (simp add: vol_ok_def)
  then show thesis using run D undisturbed_read [OF q(1)] q(3) ds by (intro that [of ?t]) (simp_all add: p_def [symmetric] unat_ucast16)
qed

section \<open>Steps of the boot\<close>

lemma off_disk_outb: "p \<noteq> ATA_REG_COMMAND \<Longrightarrow> off_disk q (outb p x r) = off_disk q r"
  by (simp add: off_disk_def outb_def now_def bus_step_def)

lemma boot_ports [simp]:
  "PIC1_CMD \<noteq> ATA_REG_COMMAND" "PIC2_CMD \<noteq> ATA_REG_COMMAND" "PIC1_DATA \<noteq> ATA_REG_COMMAND" "PIC2_DATA \<noteq> ATA_REG_COMMAND"
  "PIT_COMMAND \<noteq> ATA_REG_COMMAND" "PIT_CH0_DATA \<noteq> ATA_REG_COMMAND" "ATA_CTRL_BASE \<noteq> ATA_REG_COMMAND" "0x80 \<noteq> ATA_REG_COMMAND"
  "COM1_IER \<noteq> ATA_REG_COMMAND" "COM1_DLL \<noteq> ATA_REG_COMMAND" "COM1_DLM \<noteq> ATA_REG_COMMAND" "COM1_FCR \<noteq> ATA_REG_COMMAND"
  "COM1_LCR \<noteq> ATA_REG_COMMAND" "COM1_MCR \<noteq> ATA_REG_COMMAND"
  by (simp_all add: PIC1_CMD_def PIC2_CMD_def PIC1_DATA_def PIC2_DATA_def PIT_COMMAND_def PIT_CH0_DATA_def ATA_CTRL_BASE_def
      COM1_IER_def COM1_DLL_def COM1_DLM_def COM1_FCR_def COM1_LCR_def COM1_MCR_def COM1_BASE_def ATA_REG_COMMAND_def ATA_IO_BASE_def)

lemma off_disk_inits:
  "off_disk p (pic_init p)" "off_disk p (ata_init p)" "off_disk (bus c) (bus (serial_init c))"
  by (simp_all add: pic_init_def ata_init_def serial_init_def io_wait_def off_disk_outb)

lemma devices_scr:
  assumes "devices_ok b D m" and "screen_ok u" "console_live u" and "off_disk (the_bus (shl m)) (bus (com u))"
  shows "devices_ok b D (on_kernel (\<lambda>k. k\<lparr>scr := u\<rparr>) m)"
proof -
  let ?p = "bus (com u)"
  have p: "io_in ?p = io_in (the_bus (shl m))" "media (now b ?p) = media (now b (the_bus (shl m)))" using assms(4) by (simp_all add: off_disk_def)
  have d: "drive_serves b ?p" using assms(1) p by (intro serves_cong [OF p(1)]) (auto simp: devices_ok_def drive_serves_def)
  then show ?thesis using assms(1-3) p(2) by (simp add: devices_ok_def on_kernel_def the_bus_def console_ok_def)
qed

lemma devices_bus:
  assumes "devices_ok b D m" and "off_disk (the_bus (shl m)) p"
  shows "devices_ok b D (on_kernel (on_bus (\<lambda>_. p)) m)"
proof -
  let ?u = "(scr (kern (shl m)))\<lparr>com := (com (scr (kern (shl m))))\<lparr>bus := p\<rparr>\<rparr>"
  have "screen_ok ?u" "console_live ?u" using assms
    by (simp_all add: devices_ok_def console_ok_def screen_ok_def console_live_def uart_recovers_def off_disk_def the_bus_def)
  then have "devices_ok b D (on_kernel (\<lambda>k. k\<lparr>scr := ?u\<rparr>) m)" using assms by (intro devices_scr) simp_all
  then show ?thesis by (simp add: on_kernel_def on_bus_def)
qed

lemma devices_sys:
  assumes "scr (kern (shl n)) = scr (kern (shl m))"
  shows "devices_ok b D n = devices_ok b D m"
  using assms by (simp add: devices_ok_def the_bus_def console_ok_def)

lemma boot_prints:
  assumes "devices_ok b D m" and "\<forall>f \<in> set fs'. shown_by f"
  shows "\<exists>n. on_shell (prints fs') m = Some (Done n) \<and> printed b D m n"
proof -
  have c: "screen_ok (scr (kern (shl m)))" "console_live (scr (kern (shl m)))" using assms(1) by (simp_all add: devices_ok_def console_ok_def)
  obtain u where u: "fold (\<lambda>f m. and_print m f) fs' (Some (scr (kern (shl m)))) = Some u" "screen_ok u" "console_live u"
    "off_disk (bus (com (scr (kern (shl m))))) (bus (com u))" using prints_scr [OF c assms(2)] by blast
  then have "devices_ok b D (on_kernel (\<lambda>k. k\<lparr>scr := u\<rparr>) m)" using assms(1) by (intro devices_scr) (simp_all add: the_bus_def)
  then show ?thesis using u(1)
    by (intro exI [of _ "on_kernel (\<lambda>k. k\<lparr>scr := u\<rparr>) m"]) (simp add: on_shell_def prints_def on_kernel_def printed_def)
qed

lemma boot_ok: "devices_ok b D m \<Longrightarrow> \<exists>n. ok msg m = Some (Done n) \<and> printed b D m n"
  using boot_prints [of b D m "[say_in VGA_LIGHT_GREEN ''[ OK ] '', say msg, kprint [10]]"] by (simp add: ok_def)

lemma printed_dev: "printed b D m n \<Longrightarrow> devices_ok b D n"
  by (simp add: printed_def)

lemma on_kernel_bus: "on_kernel (on_bus f) m = on_kernel (on_bus (\<lambda>_. f (the_bus (shl m)))) m"
  by (simp add: on_kernel_def on_bus_def the_bus_def)

lemma on_kernel_fields [simp]:
  "sys_of (on_kernel (on_bus f) m) = sys_of m" "fs (shl (on_kernel g m)) = fs (shl m)" "gates (on_kernel g m) = gates m" "cwd_path (shl (on_kernel g m)) = cwd_path (shl m)"
  "sys_of (on_segments h m) = (sys_of m)\<lparr>segtab := h (segtab (sys_of m))\<rparr>" "devices_ok b D (on_segments h m) = devices_ok b D m"
  "fs (shl (on_segments h m)) = fs (shl m)" "gates (on_segments h m) = gates m" "cwd_path (shl (on_segments h m)) = cwd_path (shl m)"
  "sys_of (on_mach l m) = (sys_of m)\<lparr>mach := l (mach (sys_of m))\<rparr>" "devices_ok b D (on_mach l m) = devices_ok b D m"
  "fs (shl (on_mach l m)) = fs (shl m)" "gates (on_mach l m) = gates m" "cwd_path (shl (on_mach l m)) = cwd_path (shl m)"
  "devices_ok b D (m\<lparr>gates := g'\<rparr>) = devices_ok b D m"
  by (simp_all add: on_kernel_def on_bus_def on_segments_def on_mach_def devices_ok_def the_bus_def console_ok_def)

lemma boot_console_ok:
  assumes "uart_recovers (the_bus (shl m))" and "drive_serves b (the_bus (shl m))"
  obtains n where "boot_console a m = Some (Done n)" "devices_ok b (media (now b (the_bus (shl m)))) n" "fs (shl n) = fs (shl m)" "cwd_path (shl n) = cwd_path (shl m)"
    "gates n = idt_init (idt_addr a) (stub_table a) (stub_128 a) (gates m)"
    "sys_of n = (sys_of m)\<lparr>segtab := tss_init (tss_addr a) (gdt_init (gdt_addr a) (segtab (sys_of m))),
       mach := (mach (sys_of m))\<lparr>space := (space (mach (sys_of m)))\<lparr>handlers := keyboard_init (handlers (space (mach (sys_of m))))\<rparr>\<rparr>\<rparr>"
proof -
  let ?D = "media (now b (the_bus (shl m)))"
  define m1 where "m1 = on_kernel (\<lambda>k. k\<lparr>scr := (scr k)\<lparr>com := serial_init (com (scr k))\<rparr>\<rparr>) (on_kernel (\<lambda>k. k\<lparr>scr := clear_screen (scr k)\<rparr>) m)"
  let ?c = "serial_init (com (scr (kern (shl m))))"
  have o: "off_disk (the_bus (shl m)) (bus ?c)" using off_disk_inits(3) by (simp add: the_bus_def)
  have d: "drive_serves b (bus ?c)" "media (now b (bus ?c)) = ?D" using assms(2) o
    by (auto simp: off_disk_def drive_serves_def intro!: serves_cong [of "bus ?c" "the_bus (shl m)"])
  have cs: "com (clear_screen x) = com x" "screen_ok ((clear_screen x)\<lparr>com := y\<rparr>)" for x y by (simp_all add: clear_screen_def screen_ok_def Let_def)
  have "uart_recovers (bus ?c)" using assms(1) o by (simp add: uart_recovers_def off_disk_def)
  then have m1: "devices_ok b ?D m1" using d cs by (simp add: m1_def devices_ok_def on_kernel_def console_ok_def console_live_def the_bus_def)
  have "\<forall>f \<in> set (map (\<lambda>l. kprint_color (l @ [10]) VGA_LIGHT_CYAN VGA_BLACK) banner @ [kprint [10]]). shown_by f"
    by (auto simp: shown_by_def) (metis kprint_is_color ext)
  from boot_prints [OF m1 this] obtain m2 where m2: "on_shell print_banner m1 = Some (Done m2)" "printed b ?D m1 m2"
    unfolding print_banner_def [abs_def] by blast
  obtain m3 where m3: "ok ''Serial COM1 ready (115200 8N1)'' m2 = Some (Done m3)" "printed b ?D m2 m3"
    using boot_ok [OF printed_dev [OF m2(2)]] by blast
  obtain m4 where m4: "ok ''GDT loaded (kernel + user segments + TSS slot)'' (on_segments (gdt_init (gdt_addr a)) m3) = Some (Done m4)"
    "printed b ?D (on_segments (gdt_init (gdt_addr a)) m3) m4"
    using boot_ok [of b ?D "on_segments (gdt_init (gdt_addr a)) m3"] printed_dev [OF m3(2)] unfolding on_kernel_fields(6) by blast
  obtain m5 where m5: "ok ''TSS loaded (LTR done)'' (on_segments (tss_init (tss_addr a)) m4) = Some (Done m5)"
    "printed b ?D (on_segments (tss_init (tss_addr a)) m4) m5"
    using boot_ok [of b ?D "on_segments (tss_init (tss_addr a)) m4"] printed_dev [OF m4(2)] unfolding on_kernel_fields(6) by blast
  have "devices_ok b ?D (on_kernel (on_bus pic_init) m5)"
    unfolding on_kernel_bus [of pic_init] by (rule devices_bus [OF printed_dev [OF m5(2)] off_disk_inits(1)])
  then obtain m6 where m6: "ok ''PIC remapped'' (on_kernel (on_bus pic_init) m5) = Some (Done m6)" "printed b ?D (on_kernel (on_bus pic_init) m5) m6"
    using boot_ok by blast
  let ?i = "m6\<lparr>gates := idt_init (idt_addr a) (stub_table a) (stub_128 a) (gates m6)\<rparr>"
  obtain m7 where m7: "ok ''IDT loaded (incl. INT 0x80 syscall, DPL=3)'' ?i = Some (Done m7)" "printed b ?D ?i m7"
    using boot_ok [of b ?D ?i] printed_dev [OF m6(2)] unfolding on_kernel_fields(15) by blast
  let ?k = "on_kernel (\<lambda>k. set_handlers (keyboard_init (handlers_of k)) k) m7"
  have "devices_ok b ?D ?k" using printed_dev [OF m7(2)] devices_sys [of ?k m7] by (simp add: on_kernel_def set_handlers_def)
  then obtain n where n: "ok ''Keyboard driver ready'' ?k = Some (Done n)" "printed b ?D ?k n" using boot_ok by blast
  have run: "boot_console a m = Some (Done n)"
    unfolding boot_console_def Let_def m1_def [symmetric] by (simp add: m2(1) m3(1) m4(1) m5(1) m6(1) m7(1) n(1))
  have f1: "sys_of m1 = sys_of m" "fs (shl m1) = fs (shl m)" "gates m1 = gates m" "cwd_path (shl m1) = cwd_path (shl m)"
    by (simp_all add: m1_def on_kernel_def)
  have fk: "sys_of ?k = (sys_of m7)\<lparr>mach := (mach (sys_of m7))\<lparr>space := (space (mach (sys_of m7)))\<lparr>handlers := keyboard_init (handlers (space (mach (sys_of m7))))\<rparr>\<rparr>\<rparr>"
    by (simp add: on_kernel_def set_handlers_def handlers_of_def)
  note F = m2(2) m3(2) m4(2) m5(2) m6(2) m7(2) n(2)
  show thesis by (rule that [OF run printed_dev [OF n(2)]]) (use F f1 fk in \<open>simp_all add: printed_def\<close>)
qed

lemma boot_memory_ok:
  assumes "devices_ok b D m" and "cr0 (space (mach (sys_of m))) AND 0x80000000 = 0" and "boot_layout pd fpt" and "0 < hs" and "hs + 262144 \<le> 0x100000"
    and "hs + 262144 \<le> pd \<or> pd + 4096 \<le> hs" and "hs + 262144 \<le> fpt \<or> fpt + 4096 \<le> hs"
    and "page_directory_addr a = of_nat pd" and "first_table_addr a = of_nat fpt" and "heap_addr a = of_nat hs"
  obtains n M where "boot_memory a m = Some (Done n)" "devices_ok b D n" "fs (shl n) = fs (shl m)" "cwd_path (shl n) = cwd_path (shl m)" "gates n = gates m"
    "sys_of n = (sys_of m)\<lparr>mach := M\<rparr>" "heap_at hs pd fpt [(262124, False)] M" "handlers (space M) = (handlers (space (mach (sys_of m))))(14 := Page_fault_handler)"
proof -
  let ?f = "\<lambda>l. l\<lparr>space := (space l)\<lparr>frames := pmm_init (firmware_map a) (frames (space l))\<rparr>\<rparr>"
  define m1 where "m1 = on_mach ?f m"
  have "\<exists>n. pmm_report m1 = Some (Done n) \<and> printed b D m1 n"
    unfolding pmm_report_def Let_def by (rule boot_prints) (use assms(1) in \<open>simp_all add: m1_def\<close>)
  then obtain m2 where m2: "pmm_report m1 = Some (Done m2)" "printed b D m1 m2" by blast
  let ?l = "?f (mach (sys_of m))"
  have s2: "mach (sys_of m2) = ?l" using m2(2) by (simp add: printed_def m1_def)
  have r: "pmm_ready (frames (space ?l))" by (simp add: pmm_init_ready)
  have off: "cr0 (space ?l) AND 0x80000000 = 0" using assms(2) by simp
  obtain v where v: "paging_init (of_nat pd) (of_nat fpt) (space ?l) = Done v" "space_ok hs pd fpt (?l\<lparr>space := v\<rparr>)"
    by (rule boot_space [OF off assms(3) r assms(5-7)]) (rule that)
  have h: "handlers v = (handlers (space (mach (sys_of m))))(14 := Page_fault_handler)"
    by (rule paging_init_done [OF off assms(3) r]) (use v(1) in simp)
  let ?m3 = "on_mach (\<lambda>l. l\<lparr>space := v\<rparr>) m2"
  have "devices_ok b D ?m3" using printed_dev [OF m2(2)] by simp
  then obtain m4 where m4: "ok ''Paging enabled - first 4 MB identity-mapped'' ?m3 = Some (Done m4)" "printed b D ?m3 m4" using boot_ok by blast
  let ?k = "\<lambda>l. heap_back l (kheap_init (heap_addr a) (heap_view l))"
  have "devices_ok b D (on_mach ?k m4)" using printed_dev [OF m4(2)] by simp
  then obtain n where n: "ok ''Kernel heap ready (256 KB freelist, 8B align)'' (on_mach ?k m4) = Some (Done n)" "printed b D (on_mach ?k m4) n"
    using boot_ok by blast
  have "boot_memory a m = Some (Done n)" unfolding boot_memory_def Let_def m1_def [symmetric]
    using v(1) s2 by (simp add: m2(1) m4(1) n(1) assms(8,9) the_space_def)
  moreover let ?M = "?k (?l\<lparr>space := v\<rparr>)"
  have "mach (sys_of m4) = ?l\<lparr>space := v\<rparr>" using m4(2) s2 by (simp add: printed_def)
  then have "sys_of n = (sys_of m)\<lparr>mach := ?M\<rparr>" using m2(2) m4(2) n(2) by (simp add: printed_def m1_def)
  moreover have "heap_at hs pd fpt [(262124, False)] ?M"
    using boot_heap(1,2) [OF v(2) assms(4)] assms(10) by (simp add: heap_at_def mach_ok_def)
  moreover have "handlers (space ?M) = (handlers (space (mach (sys_of m))))(14 := Page_fault_handler)" using h by (simp add: heap_back_def)
  ultimately show thesis using m2(2) m4(2) n(2) by (intro that [of n ?M]) (simp_all add: printed_def m1_def)
qed

lemma timer_init_parts:
  "\<exists>g. (\<forall>p. off_disk p (g p)) \<and> timer_init k = set_handlers (isr_register IRQ0_VECTOR Timer_irq (handlers_of k)) (on_bus g k)"
proof -
  let ?d = "PIT_BASE_HZ div TIMER_HZ" let ?d = "if ?d = 0 then 1 else ?d" let ?d = "if ?d > 0xFFFF then 0xFFFF else ?d"
  let ?g = "\<lambda>p. outb PIT_CH0_DATA (ucast (drop_bit 8 ?d AND 0xFF)) (outb PIT_CH0_DATA (ucast (?d AND 0xFF)) (outb PIT_COMMAND 0x36 p))"
  have "timer_init k = set_handlers (isr_register IRQ0_VECTOR Timer_irq (handlers_of k)) (on_bus ?g k)"
    by (simp add: timer_init_def Let_def on_bus_def handlers_of_def)
  moreover have "\<forall>p. off_disk p (?g p)" by (simp add: off_disk_outb)
  ultimately show ?thesis by (intro exI [of _ ?g] conjI)
qed

lemma boot_mount:
  assumes "devices_ok b D m" and "formatted (D True)" and "length (fat_sector_buf (fs (shl m))) = 512" and "length (cluster_buf (fs (shl m))) = 65536"
  obtains n t where "mount_disk m = Some (Done n)" "printed b D (m\<lparr>shl := onfs t (shl m)\<rparr>) n" "vol_ok b t" "disk_of b t = D True" "media (now b (disk t)) = D"
    "cwd_cluster t = bpb_root_cluster (bpb_of (D True 0))"
proof -
  let ?v = "volume (shl m)"
  have d: "drive_serves b (disk ?v)" "media (now b (disk ?v)) = D" "bit ATA_DRIVE_SLAVE 0" using assms(1) by (simp_all add: devices_ok_def ATA_DRIVE_SLAVE_def)
  obtain t where t: "fat32_mount ATA_DRIVE_SLAVE ?v = Some (0, t)" "vol_ok b t" "disk_of b t = D True" "undisturbed (disk ?v) (disk t)"
    "media (now b (disk t)) = D" "cwd_cluster t = bpb_root_cluster (bpb_of (D True 0))"
    by (rule mount_ok [of b ?v ATA_DRIVE_SLAVE]) (use d assms(2-4) in \<open>simp_all add: volume_def\<close>)
  let ?m = "m\<lparr>shl := onfs t (shl m)\<rparr>"
  have "devices_ok b D ?m" using assms(1) t(2,4,5) onfs_console(1) [of "shl m" t]
    by (simp add: devices_ok_def vol_ok_def) (simp add: the_bus_def onfs_def on_bus_def)
  then obtain n where n: "ok ''FAT32 mounted on primary slave'' ?m = Some (Done n)" "printed b D ?m n" using boot_ok by blast
  have "mount_disk m = Some (Done n)" using n(1) t(1) by (simp add: mount_disk_def fs_call_eq)
  then show thesis using n(2) t(2,3,5,6) by (rule that)
qed

lemma tk_malloc_keeps:
  "tk_malloc n s = Some (Done (p, s')) \<Longrightarrow> handlers (space (mach s')) = handlers (space (mach s)) \<and> segtab s' = segtab s"
  by (auto simp: tk_malloc_def ld_malloc_def heap_back_def then_run_def split: option.splits outcome.splits bind_splits)

lemma heap_at_handlers: "heap_at hs pd fpt bs (m\<lparr>space := (space m)\<lparr>handlers := h\<rparr>\<rparr>) = heap_at hs pd fpt bs m"
  by (simp add: heap_at_def space_ok_def handlers_space heap_view_def)

lemma boot_tasks_ok:
  assumes "devices_ok b D m" and "heap_at hs pd fpt [(262124, False)] (mach (sys_of m))" and "tasks (sys_of m) = Map.empty"
    and "\<forall>y. lo \<le> y \<and> y < hi \<longrightarrow> low_data hs pd fpt y" and "distinct [a_resume lab, a_start lab, a_user lab]"
    and "formatted (D True)" and "length (fat_sector_buf (fs (shl m))) = 512" and "length (cluster_buf (fs (shl m))) = 65536"
  obtains n where "boot_tasks m = Some (Done n)" "console_ok (shl n)" "vol_ok b (volume (shl n))" "disk_of b (volume (shl n)) = D True"
    "cwd_cluster (volume (shl n)) = bpb_root_cluster (bpb_of (D True 0))" "heap_at hs pd fpt [(64, True), (262040, False)] (mach (sys_of n))"
    "sched_ok hs pd fpt lo hi lab (sys_of n) [of_nat (hs + 20)]" "c_if (core (sys_of n))" "segtab (sys_of n) = segtab (sys_of m)" "gates n = gates m"
    "handlers_of (kern (shl n)) = (handlers_of (kern (shl m)))(32 := Timer_irq)" "cwd_path (shl n) = cwd_path (shl m)"
proof -
  have "devices_ok b D (on_kernel (on_bus ata_init) m)"
    unfolding on_kernel_bus [of ata_init] by (rule devices_bus [OF assms(1) off_disk_inits(2)])
  then obtain m1 where m1: "ok ''ATA driver ready (primary bus, polling PIO)'' (on_kernel (on_bus ata_init) m) = Some (Done m1)"
    "printed b D (on_kernel (on_bus ata_init) m) m1" using boot_ok by blast
  have f1: "fs (shl m1) = fs (shl m)" "sys_of m1 = sys_of m" "gates m1 = gates m" "cwd_path (shl m1) = cwd_path (shl m)" using m1(2) by (simp_all add: printed_def)
  obtain m2 t where m2: "mount_disk m1 = Some (Done m2)" "printed b D (m1\<lparr>shl := onfs t (shl m1)\<rparr>) m2" "vol_ok b t" "disk_of b t = D True" "media (now b (disk t)) = D"
    "cwd_cluster t = bpb_root_cluster (bpb_of (D True 0))"
    by (rule boot_mount [OF printed_dev [OF m1(2)] assms(6)]) (use f1 assms(7,8) in \<open>simp_all add: that\<close>)
  have f2: "fs (shl m2) = t" "sys_of m2 = sys_of m" "gates m2 = gates m" "cwd_path (shl m2) = cwd_path (shl m)"
    using m2(2) f1 by (simp_all add: printed_def) (simp add: onfs_def on_bus_def)
  obtain g where g: "\<forall>p. off_disk p (g p)" "timer_init (kern (shl m2)) = set_handlers (isr_register IRQ0_VECTOR Timer_irq (handlers_of (kern (shl m2)))) (on_bus g (kern (shl m2)))"
    using timer_init_parts by blast
  let ?m3 = "on_kernel timer_init m2"
  have "devices_ok b D (on_kernel (on_bus (\<lambda>_. g (the_bus (shl m2)))) m2)" by (rule devices_bus [OF printed_dev [OF m2(2)]]) (simp add: g(1))
  then have "devices_ok b D ?m3" using g(2) devices_sys [of ?m3 "on_kernel (on_bus (\<lambda>_. g (the_bus (shl m2)))) m2"]
    by (simp add: on_kernel_def set_handlers_def on_bus_def the_bus_def)
  then obtain m4 where m4: "ok ''PIT 100 Hz timer running (IRQ 0)'' ?m3 = Some (Done m4)" "printed b D ?m3 m4" using boot_ok by blast
  let ?M = "(mach (sys_of m))\<lparr>space := (space (mach (sys_of m)))\<lparr>handlers := (handlers_of (kern (shl m)))(32 := Timer_irq)\<rparr>\<rparr>"
  have f4: "fs (shl m4) = t" "sys_of m4 = (sys_of m)\<lparr>mach := ?M\<rparr>" "gates m4 = gates m" "cwd_path (shl m4) = cwd_path (shl m)"
    using m4(2) g(2) f2 by (simp_all add: printed_def) (simp add: on_kernel_def set_handlers_def on_bus_def isr_register_def IRQ0_VECTOR_def handlers_of_def)
  have H: "heap_at hs pd fpt [(262124, False)] (mach (sys_of m4))" using assms(2) f4(2) heap_at_handlers by simp
  then have R: "heap_rel hs (heap_view (mach (sys_of m4))) [(262124, False)]" and MO: "mach_ok hs pd fpt (mach (sys_of m4))" by (auto simp: heap_at_def mach_ok_def)
  obtain s1 where s1: "tk_malloc (of_nat 64) (sys_of m4) = Some (Done (of_nat (hs + 20), s1))" "heap_rel hs (heap_view (mach s1)) [(64, True), (262040, False)]"
    by (rule tk_alloc [OF R, of 64 "hs + 20" "[(64, True), (262040, False)]"]) (simp_all add: heap_alloc_def round8_def carve_def that)
  have sz: "SIZEOF_TASK = of_nat 64" by (simp add: SIZEOF_TASK_def)
  have hb: "hs + 20 < 4294967296" using R by (simp add: heap_rel_def)
  then have nz: "(of_nat (hs + 20) :: u32) \<noteq> 0" using of_nat_nonzero [of "hs + 20"] by (simp del: of_nat_add)
  have ts: "tasks (sys_of m4) = Map.empty" using f4(2) assms(3) by simp
  obtain s2 where s2: "tasking_init (sys_of m4) = Some (Done s2)" "sched_ok hs pd fpt lo hi lab s2 [of_nat (hs + 20)]" "mach s2 = mach s1"
    by (rule tasking_init_ok [OF MO ts assms(4,5) s1(1) [folded sz] nz]) (rule that)
  have k2: "handlers (space (mach s2)) = (handlers_of (kern (shl m)))(32 := Timer_irq)" "segtab s2 = segtab (sys_of m)"
    using tk_malloc_keeps [OF s1(1)] s2(1,3) f4(2) s1(1) nz by (auto simp: tasking_init_def sz simp del: of_nat_add)
  let ?m5 = "m4\<lparr>shl := set_sys s2 (shl m4)\<rparr>"
  have "devices_ok b D ?m5" using printed_dev [OF m4(2)] devices_sys [of ?m5 m4] by (simp add: set_sys_def)
  then obtain m6 where m6: "ok ''Multitasking active (round-robin, 50ms slice)'' ?m5 = Some (Done m6)" "printed b D ?m5 m6" using boot_ok by blast
  let ?m7 = "on_kernel (\<lambda>k. k\<lparr>sys := sti (sys k)\<rparr>) m6"
  have "devices_ok b D ?m7" using printed_dev [OF m6(2)] devices_sys [of ?m7 m6] by (simp add: on_kernel_def)
  then obtain m8 where m8: "ok ''Interrupts enabled'' ?m7 = Some (Done m8)" "printed b D ?m7 m8" using boot_ok by blast
  have "\<exists>n. on_shell (prints [kprint [10]]) m8 = Some (Done n) \<and> printed b D m8 n" by (rule boot_prints [OF printed_dev [OF m8(2)]]) simp
  then obtain n where n: "on_shell (prints [kprint [10]]) m8 = Some (Done n)" "printed b D m8 n" by blast
  have run: "boot_tasks m = Some (Done n)" unfolding boot_tasks_def by (simp add: m1(1) m2(1) m4(1) s2(1) m6(1) m8(1) n(1))
  have fn: "fs (shl n) = t" "sys_of n = sti s2" "gates n = gates m" "cwd_path (shl n) = cwd_path (shl m)"
    using m6(2) m8(2) n(2) f4 by (simp_all add: printed_def set_sys_def on_kernel_def)
  have dn: "devices_ok b D n" by (rule printed_dev [OF n(2)])
  have A: "alike b t (volume (shl n))" unfolding volume_def fn(1)
    by (rule alike_move [OF m2(3)]) (use dn m2(5) in \<open>simp_all add: devices_ok_def\<close>)
  have S: "sched_ok hs pd fpt lo hi lab (sti s2) [of_nat (hs + 20)]" using s2(2) by (simp add: sched_ok_def tasks_ok_def sti_def)
  have HA: "heap_at hs pd fpt [(64, True), (262040, False)] (mach (sti s2))"
    using S s1(2) s2(3) by (auto simp: heap_at_def sched_ok_def tasks_ok_def mach_ok_def sti_def)
  show thesis
    by (rule that [OF run]) (use dn A m2(4,6) HA S fn k2 in \<open>simp_all add: devices_ok_def alike_def sti_def handlers_of_def\<close>)
qed

section \<open>Properties\<close>

text \<open>
  C17: Mounting a formatted volume gives a sound file system.  When the drive serves and its boot sector has numbers that fit
  the disk, with copies of the allocation table that agree, \<open>fat32_mount\<close> returns 0 and the volume is well-formed: the areas lie one
  after the other within the addressable sectors, every cluster has a table entry and the table cache is valid.  The working directory is the
  root directory, no sector of the drive has changed, and nothing was sent on the serial line.
\<close>

theorem mount_gives_volume:
  assumes "drive_serves b (disk s)" and "formatted (media (now b (disk s)) (bit drive 0))"
    and "length (fat_sector_buf s) = 512" and "length (cluster_buf s) = 65536"
  shows "\<exists>t. fat32_mount drive s = Some (0, t) \<and> vol_ok b t \<and> disk_of b t = media (now b (disk s)) (bit drive 0) \<and>
    cwd_cluster t = bpb_root_cluster (bpb_of (media (now b (disk s)) (bit drive 0) 0)) \<and> root_cluster t = cwd_cluster t \<and>
    unat (data_start_lba t) = bpb_data (bpb_of (media (now b (disk s)) (bit drive 0) 0)) \<and> sent (disk t) = sent (disk s)"
  by (rule mount_ok [OF assms]) (auto simp: undisturbed_def)

lemma boot_sector: "length demo_boot_sector = 512" "bpb_of demo_boot_sector = \<lparr>bpb_bytes_per_sector = 512, bpb_sectors_per_cluster = 1,
    bpb_reserved_sectors = 1, bpb_num_fats = 2, bpb_total_sectors_16 = 23, bpb_total_sectors_32 = 0, bpb_fat_size_32 = 1, bpb_root_cluster = 2\<rparr>"
  by (simp add: demo_boot_sector_def) code_simp

lemma boot_disks_formatted: "formatted (media boot_disks d)" "\<forall>d n. length (media boot_disks d n) = 512"
proof -
  show "\<forall>d n. length (media boot_disks d n) = 512" by (simp add: boot_disks_def demo_disks_def boot_sector(1) demo_lengths)
  have "media boot_disks d 0 = demo_boot_sector" by (simp add: boot_disks_def)
  then show "formatted (media boot_disks d)" unfolding formatted_def Let_def
    by (simp add: boot_sector(2) bpb_ok_def bpb_data_def bpb_total_def) (simp add: boot_disks_def demo_disks_def less_2_cases_iff)
qed

theorem mount_gives_volume_witness:
  "\<exists>s t. fat32_mount 1 s = Some (0, t) \<and> vol_ok boot_disks t \<and> cwd_cluster t = 2 \<and> unat (data_start_lba t) = 3"
proof -
  let ?s = "demo_fs\<lparr>disk := bus_with boot_disks, mounted := False\<rparr>"
  have n: "now boot_disks (bus_with boot_disks) = boot_disks" by (simp add: now_def bus_with_def)
  have p: "bpb_of (media boot_disks True 0) = bpb_of demo_boot_sector" by (simp add: boot_disks_def)
  have "\<exists>t. fat32_mount 1 ?s = Some (0, t) \<and> vol_ok boot_disks t \<and> cwd_cluster t = 2 \<and> unat (data_start_lba t) = 3"
    using mount_gives_volume [of boot_disks ?s 1] bus_with_serves [OF boot_disks_formatted(2)] boot_disks_formatted(1) [of True]
    by (auto simp: n p boot_sector(2) bpb_data_def demo_fs_def)
  then show ?thesis by blast
qed

text \<open>
  C5: The kernel boots.  With paging off, no task yet, the page directory, the first page table, the heap and the boot stack at separate
  places below 1 MiB, any memory map of the firmware, a serial port that keeps becoming ready and a formatted disk, the
  statements of \<open>kmain\<close> before the shell all return, and \<open>kmain\<close> goes on as the shell.  At that point the console is live, the volume on
  the second drive is well-formed with the root as working directory, the heap has the one block of the boot task, which is the only
  task in the ring and runs, the descriptor tables are loaded, the keyboard, timer and page-fault handlers are
  registered, and interrupts are enabled.
\<close>

theorem kmain_reaches_shell:
  assumes "uart_recovers (the_bus (shl m))" and "drive_serves b (the_bus (shl m))" and "formatted (media (now b (the_bus (shl m))) True)"
    and "length (fat_sector_buf (fs (shl m))) = 512" and "length (cluster_buf (fs (shl m))) = 65536"
    and "cr0 (space (mach (sys_of m))) AND 0x80000000 = 0" and "tasks (sys_of m) = Map.empty"
    and "boot_layout pd fpt" and "0 < hs" and "hs + 262144 \<le> 0x100000"
    and "hs + 262144 \<le> pd \<or> pd + 4096 \<le> hs" and "hs + 262144 \<le> fpt \<or> fpt + 4096 \<le> hs"
    and "page_directory_addr a = of_nat pd" and "first_table_addr a = of_nat fpt" and "heap_addr a = of_nat hs"
    and "\<forall>y. lo \<le> y \<and> y < hi \<longrightarrow> low_data hs pd fpt y" and "distinct [a_resume lab, a_start lab, a_user lab]"
  shows "\<exists>n. boot a m = Some (Done n) \<and> kmain a v m = on_shell (shell_run v) n \<and> console_ok (shl n) \<and>
    vol_ok b (volume (shl n)) \<and> disk_of b (volume (shl n)) = media (now b (the_bus (shl m))) True \<and>
    cwd_cluster (volume (shl n)) = bpb_root_cluster (bpb_of (media (now b (the_bus (shl m))) True 0)) \<and> cwd_path (shl n) = cwd_path (shl m) \<and>
    heap_at hs pd fpt [(64, True), (262040, False)] (mach (sys_of n)) \<and> sched_ok hs pd fpt lo hi lab (sys_of n) [of_nat (hs + 20)] \<and>
    c_if (core (sys_of n)) \<and> segtab (sys_of n) = tss_init (tss_addr a) (gdt_init (gdt_addr a) (segtab (sys_of m))) \<and>
    gates n = idt_init (idt_addr a) (stub_table a) (stub_128 a) (gates m) \<and>
    handlers_of (kern (shl n)) = (handlers_of (kern (shl m)))(33 := Kb_irq_handler, 14 := Page_fault_handler, 32 := Timer_irq)"
proof -
  let ?D = "media (now b (the_bus (shl m)))"
  obtain n1 where n1: "boot_console a m = Some (Done n1)" "devices_ok b ?D n1" "fs (shl n1) = fs (shl m)" "cwd_path (shl n1) = cwd_path (shl m)"
    "gates n1 = idt_init (idt_addr a) (stub_table a) (stub_128 a) (gates m)"
    "sys_of n1 = (sys_of m)\<lparr>segtab := tss_init (tss_addr a) (gdt_init (gdt_addr a) (segtab (sys_of m))),
       mach := (mach (sys_of m))\<lparr>space := (space (mach (sys_of m)))\<lparr>handlers := keyboard_init (handlers (space (mach (sys_of m))))\<rparr>\<rparr>\<rparr>"
    by (rule boot_console_ok [OF assms(1,2)])
  have off: "cr0 (space (mach (sys_of n1))) AND 0x80000000 = 0" using assms(6) n1(6) by simp
  obtain n2 M where n2: "boot_memory a n1 = Some (Done n2)" "devices_ok b ?D n2" "fs (shl n2) = fs (shl n1)" "cwd_path (shl n2) = cwd_path (shl n1)"
    "gates n2 = gates n1" "sys_of n2 = (sys_of n1)\<lparr>mach := M\<rparr>" "heap_at hs pd fpt [(262124, False)] M"
    "handlers (space M) = (handlers (space (mach (sys_of n1))))(14 := Page_fault_handler)"
    by (rule boot_memory_ok [OF n1(2) off assms(8-15)])
  have h2: "heap_at hs pd fpt [(262124, False)] (mach (sys_of n2))" "tasks (sys_of n2) = Map.empty"
    "length (fat_sector_buf (fs (shl n2))) = 512" "length (cluster_buf (fs (shl n2))) = 65536"
    using n2(3,6,7) n1(3,6) assms(4,5,7) by simp_all
  obtain n where n: "boot_tasks n2 = Some (Done n)" "console_ok (shl n)" "vol_ok b (volume (shl n))" "disk_of b (volume (shl n)) = ?D True"
    "cwd_cluster (volume (shl n)) = bpb_root_cluster (bpb_of (?D True 0))" "heap_at hs pd fpt [(64, True), (262040, False)] (mach (sys_of n))"
    "sched_ok hs pd fpt lo hi lab (sys_of n) [of_nat (hs + 20)]" "c_if (core (sys_of n))" "segtab (sys_of n) = segtab (sys_of n2)" "gates n = gates n2"
    "handlers_of (kern (shl n)) = (handlers_of (kern (shl n2)))(32 := Timer_irq)" "cwd_path (shl n) = cwd_path (shl n2)"
    by (rule boot_tasks_ok [OF n2(2) h2(1,2) assms(16,17,3) h2(3,4)])
  have run: "boot a m = Some (Done n)" using n1(1) n2(1) n(1) by (simp add: boot_def)
  moreover have "kmain a v m = on_shell (shell_run v) n" using run by (simp add: kmain_def)
  moreover have "handlers_of (kern (shl n)) = (handlers_of (kern (shl m)))(33 := Kb_irq_handler, 14 := Page_fault_handler, 32 := Timer_irq)"
    using n(11) n2(6,8) n1(6) by (simp add: handlers_of_def keyboard_init_def isr_register_def)
  ultimately show ?thesis using n n2(4-6) n1(4-6) by (intro exI [of _ n]) simp
qed

theorem kmain_reaches_shell_witness:
  "\<exists>m n. boot demo_placement m = Some (Done n) \<and> vol_ok boot_disks (volume (shl n)) \<and> cwd_cluster (volume (shl n)) = 2 \<and>
     g_current (sys_of n) = 65556 \<and> c_if (core (sys_of n))"
proof -
  obtain s0 :: shell where "scr (kern s0) = demo_screen" by (rule demo_shell) (rule that)
  obtain g :: interrupts where True by blast
  define m where "m = \<lparr>shl = s0\<lparr>fs := demo_fs, kern := (kern s0)\<lparr>scr := demo_screen\<lparr>com := \<lparr>bus = bus_with boot_disks, g_initialized = 0\<rparr>\<rparr>,
    sys := (sys (kern s0))\<lparr>tasks := Map.empty, mach := \<lparr>space = demo_vm, heap_head = 0, images = Map.empty\<rparr>\<rparr>\<rparr>\<rparr>, gates = g\<rparr>"
  have b: "the_bus (shl m) = bus_with boot_disks" by (simp add: m_def the_bus_def)
  have n: "now boot_disks (bus_with boot_disks) = boot_disks" by (simp add: now_def bus_with_def)
  have p: "bpb_of (media boot_disks True 0) = bpb_of demo_boot_sector" by (simp add: boot_disks_def)
  have d: "uart_recovers (the_bus (shl m))" "drive_serves boot_disks (the_bus (shl m))" "formatted (media (now boot_disks (the_bus (shl m))) True)"
    unfolding b n by (rule bus_with_uart bus_with_serves [OF boot_disks_formatted(2)] boot_disks_formatted(1))+
  have f: "length (fat_sector_buf (fs (shl m))) = 512" "length (cluster_buf (fs (shl m))) = 65536" "cr0 (space (mach (sys_of m))) AND 0x80000000 = 0"
    "tasks (sys_of m) = Map.empty" using demo_vm_ready(1) by (simp_all add: m_def demo_fs_def)
  have l: "0 < (0x10000 :: nat)" "(0x10000 :: nat) + 262144 \<le> 0x100000" "(0x10000 :: nat) + 262144 \<le> 0x50000 \<or> (0x50000 :: nat) + 4096 \<le> 0x10000"
    "(0x10000 :: nat) + 262144 \<le> 0x51000 \<or> (0x51000 :: nat) + 4096 \<le> 0x10000" by simp_all
  have a: "page_directory_addr demo_placement = of_nat 0x50000" "first_table_addr demo_placement = of_nat 0x51000" "heap_addr demo_placement = of_nat 0x10000"
    by (simp_all add: demo_placement_def)
  have k: "\<forall>y. 0x8F000 \<le> y \<and> y < 0x90000 \<longrightarrow> low_data 0x10000 0x50000 0x51000 y" "distinct [a_resume demo_labels, a_start demo_labels, a_user demo_labels]"
    by (simp_all add: low_data_def slab_def demo_labels_def)
  obtain n where n: "boot demo_placement m = Some (Done n)" "vol_ok boot_disks (volume (shl n))"
    "cwd_cluster (volume (shl n)) = bpb_root_cluster (bpb_of (media (now boot_disks (the_bus (shl m))) True 0))"
    "sched_ok 0x10000 0x50000 0x51000 0x8F000 0x90000 demo_labels (sys_of n) [of_nat (0x10000 + 20)]" "c_if (core (sys_of n))"
    using kmain_reaches_shell [OF d f demo_vm_ready(2) l a k] by blast
  have "cwd_cluster (volume (shl n)) = 2" using n(3) unfolding b \<open>now boot_disks (bus_with boot_disks) = boot_disks\<close> p boot_sector(2) by simp
  moreover have "g_current (sys_of n) = 65556" using n(4) by (simp add: sched_ok_def)
  ultimately show ?thesis using n(1,2,5) by blast
qed

end
