(* ===== verification/Spec2Isabelle.thy ===== *)
theory Spec2Isabelle
  imports Pmm Kheap_Spec Paging Screen Cpu_Tables Exec_Spec Keyboard Ata User Boot
begin

text \<open>
  A verification library for MyOS, a small 32-bit x86 kernel written in C.  Paths below are those of the
  repository.

  \<^bold>\<open>The program.\<close>  The boot sector loads the kernel and leaves a memory map; \<open>kmain\<close> (\<^verbatim>\<open>src/kernel/kernel.c\<close>) then starts the
  components in a fixed order: console and serial line, descriptor tables and interrupt controller, keyboard, the frame
  allocator, paging, the heap, the disk and its FAT32 volume, the timer, the scheduler; and runs the shell.  The shell calls the file
  system, the heap, the paging routines, the scheduler and the ELF loader.  The heap and the page tables lie in the same physical
  memory; the file system and the console share the port bus; interrupts run handlers that use the scheduler and the
  keyboard buffer.

  \<^bold>\<open>The model.\<close>  Machine integers are words of their width, so that arithmetic wraps as in C.  Memory is a function from 32-bit addresses
  to bytes, and once paging is on every access goes through the two-level translation of the processor.  A call that may stop the
  machine (a panic, a fault) returns an \<open>outcome\<close>: \<open>Done\<close> with the result, or \<open>Halted\<close> with the message.  A loop that the hardware or a damaged
  structure may keep running is a partial function into the option type, in which \<open>None\<close> is "does not return".  There is no fuel in the model: the properties about these loops prove
  that they return, from what is assumed of the hardware and of the structure that is walked.  The shell's main loop never returns; its property is an invariant of
  the prompts that it reaches.  Addresses that the linker chooses, the firmware's memory map, the answers of the devices
  (a function of the port and of everything that has happened on the bus), and what other code does while the processor is in \<^verbatim>\<open>hlt\<close> are
  arguments.

  \<^item> \<open>OS_Prelude\<close>: word types, outcomes, counted loops (\<open>for_range\<close>), C strings and the shared facts.  \<open>Memory\<close>: little-endian
    words in memory.  \<open>Ports\<close>: \<^verbatim>\<open>src/include/io.h\<close> and \<^verbatim>\<open>src/drivers/serial.c\<close>.
  \<^item> \<open>Pmm\<close>: \<^verbatim>\<open>src/mem/pmm.c\<close>.  The bitmap is a record with its words and counters.  Of a memory map whose entries fit, exactly the usable pages above 1 MiB are free after
    \<open>pmm_init\<close>; \<open>pmm_alloc\<close> returns the lowest free page; the counter equals the number of free pages after any calls.  The locale
    \<open>frame_allocator\<close> is the contract that paging uses.
  \<^item> \<open>Kheap\<close>, \<open>Kheap_Layout\<close>, \<open>Kheap_Spec\<close>: \<^verbatim>\<open>src/mem/kheap.c\<close>.  Block headers are words in memory; an abstract heap is a list of sizes
    and flags, and \<open>kmalloc\<close> and \<open>kfree\<close> refine first fit and coalescing on it.  The locale \<open>heap_service\<close> is the contract of the
    heap's clients, interpreted on the heap and on the loader's machine.
  \<^item> \<open>Paging\<close>: \<^verbatim>\<open>src/mem/paging.c\<close>.  \<open>mmu\<close> is the processor's walk; mapping an aligned page above the window changes exactly the translation of that page.  The locale
    \<open>page_mapper\<close> is interpreted on it.
  \<^item> \<open>Screen\<close>: \<^verbatim>\<open>src/drivers/screen.c\<close>; printing refines typing on a grid of 80 by 25 cells.  \<open>Cpu_Tables\<close>: \<^verbatim>\<open>gdt.c\<close>, \<^verbatim>\<open>tss.c\<close>, \<^verbatim>\<open>idt.c\<close>,
    \<^verbatim>\<open>pic.c\<close> and \<^verbatim>\<open>isr.h\<close> of \<^verbatim>\<open>src/cpu\<close>; descriptors decode to what the processor must see.  \<open>Keyboard\<close>: \<^verbatim>\<open>src/drivers/keyboard.c\<close>, a
    queue of at most 255 characters.
  \<^item> \<open>Elf\<close>, \<open>Elf_Spec\<close>, \<open>Loader_Spec\<close>, \<open>Exec_Spec\<close>: \<^verbatim>\<open>src/proc/elf.c\<close> on heap, frames and page tables together.  A loaded program is mapped
    with the bytes of its file, and unloading gives back what loading took.
  \<^item> \<open>Task\<close>, \<open>Task_Mem\<close>, \<open>Task_Spec\<close>, \<open>Sched_Spec\<close>, \<open>Sched_Create\<close>, \<open>Sched_Claims\<close>: \<^verbatim>\<open>src/proc/task.c\<close> and \<^verbatim>\<open>switch.asm\<close>.  The control blocks are a store
    indexed by address; the ready list is a ring; a switch pushes and pops real stack words.  The properties are about
    the order of tasks, the frames on their stacks, bounded waiting, creation and exit.
  \<^item> \<open>Interrupts\<close>, \<open>Irq_Claims\<close>: \<^verbatim>\<open>src/cpu/isr.c\<close>, \<^verbatim>\<open>src/drivers/timer.c\<close>, \<^verbatim>\<open>src/proc/syscall.c\<close>; preemption, the write call, sleeping.
    \<open>User\<close>: \<^verbatim>\<open>src/proc/user_demo.c\<close> and \<^verbatim>\<open>src/userland\<close>, each call through the dispatcher (definitions only).
  \<^item> \<open>Ata\<close>: \<^verbatim>\<open>src/drivers/ata.c\<close> and, as the hypothesis about the hardware, the drives behind the ports: a drive \<^emph>\<open>serves\<close> when it becomes ready again
    and again, reports no error and delivers the words of the addressed sectors.
  \<^item> \<open>Fat32\<close> is \<^verbatim>\<open>src/fs/fat32.c\<close>.  \<open>Fat_Spec\<close> (well-formed volumes, the table and its cache), \<open>Fat_Alloc\<close> (allocation, freeing, building and
    reading chains), \<open>Fat_Dir\<close> (directories as lists of entries), \<open>Fat_File\<close> and \<open>Fat_Find\<close> (writing, finding, reading), \<open>Fat_Names\<close> (8.3 names)
    and \<open>Fat_Claims\<close> show what a client may rely on: a file that was written is found and read back, other files are untouched.
  \<^item> \<open>Shell\<close>: \<^verbatim>\<open>src/shell/shell.c\<close>, the line editor, the parser, paths and all commands on the state of the whole kernel.  \<open>Shell_Claims\<close>: bounds of
    the buffers, the path as an invariant of every prompt, the parser, numbers.  \<open>Shell_Files\<close>: \<open>write\<close> and \<open>cat\<close> across shell, heap, page tables, file
    system, disk and console.
  \<^item> \<open>Kernel\<close>: \<open>kmain\<close>, statement by statement.  \<open>Boot\<close>: mounting a formatted volume, and the boot sequence establishing the
    invariants on which the properties above rest.

  \<^bold>\<open>Bounds.\<close>  The sizes are those of the source: a heap of 256 KiB, a bitmap of 1048576 pages (4 GiB), an identity-mapped window of 4 MiB, 256 bytes of keyboard ring, lines of 256
  characters, 16 arguments, paths of 128 bytes, buffers of 8 and 16 KiB in \<open>write\<close> and \<open>cat\<close>.  Volumes are bounded by the 28-bit sector
  addresses of the driver.  The boot property assumes that the linker puts the heap, the page directory and the first table below 1 MiB without overlap.

  \<^bold>\<open>Not modelled.\<close>  \<^verbatim>\<open>src/boot/boot.asm\<close> runs in 16-bit real mode on firmware calls; what it leaves is an argument.
  \<^verbatim>\<open>kernel_entry.asm\<close> clears the static data and calls \<open>kmain\<close>; the boot property
  assumes what it needs of the first state (paging off, no task yet, buffers of their declared sizes).  The
  stubs of \<^verbatim>\<open>isr_stubs.asm\<close>, \<^verbatim>\<open>gdt_flush.asm\<close> and \<^verbatim>\<open>idt_flush.asm\<close> save registers and load descriptor registers; the dispatcher is modelled on
  the frame they build.  The depth of C stacks is not modelled: \<open>fat32_write_file\<close> and \<open>fat32_mkdir\<close> keep a buffer of 64 KiB on the stack of their
  caller, which is the boot stack as long as only the shell calls them.  Interrupts are taken at \<^verbatim>\<open>hlt\<close> and at the explicit switches; an
  interrupt in the middle of a C function is covered only by the properties of the handlers themselves.  Header declarations, the build files and
  the linker scripts have no behaviour of their own.
\<close>

end
